(* ===== verification/Prelude.thy ===== *)
theory Prelude
  imports Main "HOL-Library.Sublist" "HOL-Library.Char_ord" "HOL-Library.List_Lexorder"
begin

text \<open>
  What the components share.

  Go strings are byte strings: a \<^typ>\<open>string\<close> (a list of 8-bit characters), compared
  byte by byte, which is the order the hub pins its text columns to.

  A Go \<open>time.Time\<close> is modelled by its distance from the Unix epoch in nanoseconds (\<open>time\<close>);
  what the database stores is the fixed-width text of \<open>formatTime\<close> (hub/store/servers.go),
  whose byte order is the order of its milliseconds, so a stored timestamp is its number of
  milliseconds (\<open>stamp\<close>).

  A database table is the list of its rows in insertion order.  An SQL statement is one of
  the combinators below: a predicate selects, \<open>update_where\<close> and \<open>delete_where\<close> write, and
  the number of affected rows is \<open>affected\<close>.  A transaction that ends in an error is rolled
  back, so an operation is a function from the tables to an error or to a result with the new
  tables.
\<close>

named_theorems table_simps \<open>rewriting selections, updates and deletions on tables\<close>
named_theorems op_defs \<open>definitions a proof about one operation unfolds\<close>

type_synonym time = int
type_synonym stamp = int

text \<open>\<open>formatTime\<close> keeps the millisecond and drops what is below it; \<open>parseTime\<close> reads it back.\<close>

definition nanos_per_milli :: int where
  "nanos_per_milli = 1000000"

definition format_time :: "time \<Rightarrow> stamp" where
  "format_time t = t div nanos_per_milli"

definition parse_time :: "stamp \<Rightarrow> time" where
  "parse_time s = s * nanos_per_milli"

lemma format_parse [simp]: "format_time (parse_time s) = s"
  by (simp add: format_time_def parse_time_def nanos_per_milli_def)

lemma format_time_mono: "t \<le> u \<Longrightarrow> format_time t \<le> format_time u"
  by (simp add: format_time_def nanos_per_milli_def zdiv_mono1)

lemma parse_format_le: "parse_time (format_time t) \<le> t"
  by (simp add: format_time_def parse_time_def nanos_per_milli_def)

lemma less_parse_iff: "t < parse_time s \<longleftrightarrow> format_time t < s"
  unfolding format_time_def parse_time_def nanos_per_milli_def by linarith

text \<open>Go's int64 arithmetic wraps around.\<close>

definition wrap64 :: "int \<Rightarrow> int" where
  "wrap64 x = (x + 2 ^ 63) mod 2 ^ 64 - 2 ^ 63"

lemma wrap64_id: "- (2 ^ 63) \<le> x \<Longrightarrow> x < 2 ^ 63 \<Longrightarrow> wrap64 x = x"
  by (simp add: wrap64_def)

definition fits64 :: "int \<Rightarrow> bool" where
  "fits64 x \<longleftrightarrow> - (2 ^ 63) \<le> x \<and> x < 2 ^ 63"

subsection \<open>Tables\<close>

definition update_where :: "('r \<Rightarrow> bool) \<Rightarrow> ('r \<Rightarrow> 'r) \<Rightarrow> 'r list \<Rightarrow> 'r list" where
  "update_where p f t = map (\<lambda>r. if p r then f r else r) t"

definition delete_where :: "('r \<Rightarrow> bool) \<Rightarrow> 'r list \<Rightarrow> 'r list" where
  "delete_where p t = filter (\<lambda>r. \<not> p r) t"

definition affected :: "('r \<Rightarrow> bool) \<Rightarrow> 'r list \<Rightarrow> int" where
  "affected p t = int (length (filter p t))"

definition exists_row :: "('r \<Rightarrow> bool) \<Rightarrow> 'r list \<Rightarrow> bool" where
  "exists_row p t \<longleftrightarrow> (\<exists>r \<in> set t. p r)"

lemma update_where_Nil [table_simps, simp]: "update_where p f [] = []"
  by (simp add: update_where_def)

lemma update_where_Cons [table_simps, simp]:
  "update_where p f (r # t) = (if p r then f r else r) # update_where p f t"
  by (simp add: update_where_def)

lemma length_update_where [table_simps, simp]: "length (update_where p f t) = length t"
  by (simp add: update_where_def)

lemma set_update_where [table_simps]:
  "set (update_where p f t) = (\<lambda>r. if p r then f r else r) ` set t"
  by (simp add: update_where_def)

lemma update_whereE:
  assumes "r \<in> set (update_where p f t)"
  obtains "r \<in> set t" and "\<not> p r" | s where "s \<in> set t" and "p s" and "r = f s"
  using assms by (auto simp: set_update_where)

lemma map_update_where [table_simps]:
  "(\<And>r. k (f r) = k r) \<Longrightarrow> map k (update_where p f t) = map k t"
  by (simp add: update_where_def)

lemma update_where_none [table_simps]: "\<forall>r \<in> set t. \<not> p r \<Longrightarrow> update_where p f t = t"
  by (induction t) auto

lemma set_delete_where [table_simps, simp]: "set (delete_where p t) = {r \<in> set t. \<not> p r}"
  by (auto simp: delete_where_def)

lemma delete_where_Nil [simp]: "delete_where p [] = []"
  by (simp add: delete_where_def)

lemma delete_where_Cons [simp]:
  "delete_where p (r # t) = (if p r then delete_where p t else r # delete_where p t)"
  by (simp add: delete_where_def)

lemma affected_pos_iff [table_simps]: "0 < affected p t \<longleftrightarrow> (\<exists>r \<in> set t. p r)"
  by (auto simp: affected_def filter_empty_conv)

lemma affected_zero_iff [table_simps]: "affected p t = 0 \<longleftrightarrow> (\<forall>r \<in> set t. \<not> p r)"
  by (auto simp: affected_def filter_empty_conv)

lemma affected_nonneg [simp]: "0 \<le> affected p t"
  by (simp add: affected_def)

lemma affected_key:
  assumes "distinct (map k t)" and "r \<in> set t"
  shows "affected (\<lambda>x. k x = k r) t = 1"
  using assms
proof (induction t)
  case (Cons x t)
  then show ?case
    by (cases "k x = k r") (auto simp: affected_def filter_empty_conv rev_image_eqI)
qed simp

lemma affected_cong: "(\<And>x. x \<in> set t \<Longrightarrow> p x = q x) \<Longrightarrow> affected p t = affected q t"
  unfolding affected_def by (metis (mono_tags, lifting) filter_cong)

lemma key_unique:
  "distinct (map k t) \<Longrightarrow> x \<in> set t \<Longrightarrow> y \<in> set t \<Longrightarrow> k x = k y \<Longrightarrow> x = y"
  by (meson distinct_map inj_onD)

lemma distinct_map_delete_where [intro]:
  "distinct (map k t) \<Longrightarrow> distinct (map k (delete_where p t))"
  by (induction t) auto

lemma find_Some_in: "find p t = Some r \<Longrightarrow> r \<in> set t \<and> p r"
  by (auto simp: find_Some_iff)

lemma find_None_iff': "find p t = None \<longleftrightarrow> (\<forall>r \<in> set t. \<not> p r)"
  by (auto simp: find_None_iff)

lemma find_unique:
  "distinct (map k t) \<Longrightarrow> r \<in> set t \<Longrightarrow> find (\<lambda>x. k x = k r) t = Some r"
  by (induction t) auto

lemma find_update_where:
  "(\<And>r. q (f r) = q r) \<Longrightarrow>
   find q (update_where p f t) = map_option (\<lambda>r. if p r then f r else r) (find q t)"
  by (induction t) auto

lemma filter_update_where_other [table_simps]:
  "(\<And>r. p r \<Longrightarrow> \<not> q r \<and> \<not> q (f r)) \<Longrightarrow> filter q (update_where p f t) = filter q t"
  by (induction t) auto

lemma filter_update_where_same:
  "(\<And>r. p r \<longleftrightarrow> q r) \<Longrightarrow> (\<And>r. q (f r) = q r) \<Longrightarrow> filter q (update_where p f t) = map f (filter q t)"
  by (induction t) auto

text \<open>
  A LIMIT clause.  SQLite reads a negative bound as no bound at all.
\<close>

definition sql_limit :: "int \<Rightarrow> 'r list \<Rightarrow> 'r list" where
  "sql_limit n t = (if n < 0 then t else take (nat n) t)"

lemma set_sql_limit: "set (sql_limit n t) \<subseteq> set t"
  by (auto simp: sql_limit_def dest: in_set_takeD)

lemma length_sql_limit: "0 \<le> n \<Longrightarrow> int (length (sql_limit n t)) \<le> n"
  by (auto simp: sql_limit_def)

lemma distinct_map_sql_limit [intro]:
  "distinct (map k t) \<Longrightarrow> distinct (map k (sql_limit n t))"
  by (simp add: sql_limit_def take_map [symmetric])

text \<open>The bound of a retention pass whose caller gave no usable one (hub/store/events.go).\<close>

definition default_prune_batch :: int where
  "default_prune_batch = 1000"

text \<open>
  A row a LIMIT picks without an ORDER BY is the engine's choice.  The contract of such a
  choice: at most \<open>n\<close> of the candidates, and all of them when they are not more than \<open>n\<close>.
\<close>

locale row_picker =
  fixes pick :: "int \<Rightarrow> 'r list \<Rightarrow> 'r list"
  assumes pick_subset: "set (pick n t) \<subseteq> set t"
    and pick_bound: "0 \<le> n \<Longrightarrow> int (length (pick n t)) \<le> n"
    and pick_all: "int (length t) \<le> n \<Longrightarrow> pick n t = t"
    and pick_some: "0 < n \<Longrightarrow> t \<noteq> [] \<Longrightarrow> pick n t \<noteq> []"
begin

text \<open>A sweep deletes the rows a picker chose among the candidates of a table.\<close>

lemma sweep_keeps:
  assumes "r \<in> set t" and "\<not> c r"
  shows "r \<in> set (filter (\<lambda>x. x \<notin> set (pick n (filter c t))) t)"
  using assms pick_subset [of n "filter c t"] by auto

lemma sweep_complete:
  assumes "int (length (filter c t)) \<le> n"
  shows "filter (\<lambda>x. x \<notin> set (pick n (filter c t))) t = filter (\<lambda>x. \<not> c x) t"
  using pick_all [OF assms] by (auto intro: filter_cong)

lemma sweep_progress:
  assumes "0 < n" and "\<exists>r \<in> set t. c r"
  shows "length (filter (\<lambda>x. x \<notin> set (pick n (filter c t))) t) < length t"
proof -
  from assms have "pick n (filter c t) \<noteq> []"
    by (intro pick_some) (auto simp: filter_empty_conv)
  then obtain r where "r \<in> set (pick n (filter c t))" by (meson last_in_set)
  moreover from this have "r \<in> set t" using pick_subset [of n "filter c t"] by auto
  ultimately show ?thesis by (metis (mono_tags, lifting) length_filter_less)
qed

end

interpretation limit_picker: row_picker sql_limit
  by unfold_locales (auto simp: sql_limit_def dest: in_set_takeD)

subsection \<open>Runs of a state machine\<close>

text \<open>
  Every stateful component is a transition function; the same induction lifts a step's
  invariant to a run of steps.
\<close>

fun run_steps :: "('s \<Rightarrow> 'e \<Rightarrow> 's) \<Rightarrow> 's \<Rightarrow> 'e list \<Rightarrow> 's" where
  "run_steps f s [] = s"
| "run_steps f s (e # es) = run_steps f (f s e) es"

locale invariant_machine =
  fixes step :: "'s \<Rightarrow> 'e \<Rightarrow> 's"
    and inv :: "'s \<Rightarrow> bool"
  assumes step_inv: "inv s \<Longrightarrow> inv (step s e)"
begin

lemma run_inv: "inv s \<Longrightarrow> inv (run_steps step s es)"
  by (induction es arbitrary: s) (auto intro: step_inv)

end

locale monotone_machine = invariant_machine +
  fixes rel :: "'a \<Rightarrow> 'a \<Rightarrow> bool"
  assumes rel_refl: "inv s \<Longrightarrow> rel s s"
    and rel_trans: "rel s t \<Longrightarrow> rel t u \<Longrightarrow> rel s u"
    and step_rel: "inv s \<Longrightarrow> rel s (step s e)"
begin

lemma run_rel: "inv s \<Longrightarrow> rel s (run_steps step s es)"
proof (induction es arbitrary: s)
  case Nil
  then show ?case by (simp add: rel_refl)
next
  case (Cons e es)
  then have "rel (step s e) (run_steps step (step s e) es)" by (simp add: step_inv)
  with Cons.prems show ?case by (auto intro: rel_trans step_rel)
qed

end

subsection \<open>UTF-8\<close>

text \<open>A rune start is any byte that is no UTF-8 continuation byte.\<close>

definition rune_start :: "char \<Rightarrow> bool" where
  "rune_start c = ((of_char c :: nat) < 0x80 \<or> 0xC0 \<le> (of_char c :: nat))"

text \<open>\<open>utf8.RuneCountInString\<close> of valid UTF-8, which every decoded JSON string is.\<close>

definition rune_count :: "string \<Rightarrow> nat" where
  "rune_count s = length (filter rune_start s)"

lemma rune_count_le: "rune_count s \<le> length s"
  by (simp add: rune_count_def)

end
