(* ===== verification/Db.thy ===== *)
theory Db
  imports Prelude "HOL-Library.Product_Lexorder"
begin

text \<open>
  The hub's tables (hub/store/migrations), the errors the store answers with, and the one
  database record every store operation reads and writes.  A nullable column is an option.
  A JSON column is its text, except the capability list of a manifest, which the store only
  ever writes and reads whole.
\<close>

subsection \<open>Errors\<close>

datatype store_error =
    ErrNotFound
  | ErrEnrollmentTokenInvalid
  | ErrEnrollmentTokenUsed
  | ErrGameMismatch
  | ErrCredentialsInvalid
  | ErrCredentialsRevoked
  | ErrOutboundQueueFull
  | ErrAckOutOfRange
  | ErrManifestChanged
  | ErrKVRevisionMismatch int
  | ErrKVNotInteger
  | ErrKVRangeExceeded
  | ErrKVRevisionExhausted
  | ErrBanRevisionGone
  | ErrBanActive string
  | ErrNoRows string
  | ErrNoteLimit
  | ErrTokenRevoked
  | ErrStaleAttempt
  | ErrWebhookPaused
  | ErrRefused string
  | ErrEnvelopeVanished string
  | ErrConstraint string

subsection \<open>Rows\<close>

text \<open>The link state a server row starts with.\<close>

definition link_unknown :: string where
  "link_unknown = ''unknown''"

record server_row =
  sv_id :: string
  sv_name :: string
  sv_game :: string
  sv_created :: stamp
  sv_secret :: string
  sv_enrolled :: "stamp option"
  sv_revoked :: "stamp option"
  sv_plugin_name :: string
  sv_plugin_version :: string
  sv_transports :: string
  sv_last_seen :: "stamp option"
  sv_link_state :: string
  sv_bans_revision :: "int option"
  sv_bans_at :: "stamp option"

record enrollment_row =
  et_hash :: string
  et_server :: string
  et_created :: stamp
  et_expires :: stamp
  et_used :: "stamp option"

record session_row =
  ss_id :: string
  ss_token :: string
  ss_server :: string
  ss_created :: stamp
  ss_expires :: stamp
  ss_ended :: "stamp option"
  ss_end_reason :: string
  ss_protocol :: int
  ss_poll_timeout :: int
  ss_outbound_seq :: int
  ss_outbound_ack :: int
  ss_inbound_ack :: int
  ss_inbound_count :: int

record envelope_row =
  en_id :: string
  en_server :: string
  en_type :: string
  en_body :: string
  en_created :: stamp
  en_session :: "string option"
  en_seq :: "int option"
  en_sent :: "stamp option"
  en_acked :: "stamp option"

record manifest_row =
  mf_server :: string
  mf_revision :: int
  mf_body :: string
  mf_published :: stamp
  mf_capabilities :: "string list option"

text \<open>The action states, in the order the lifecycle moves through them.\<close>

datatype action_state = Queued | Delivered | Running | Completed | Failed | Expired

fun state_rank :: "action_state \<Rightarrow> nat" where
  "state_rank Queued = 0"
| "state_rank Delivered = 1"
| "state_rank Running = 2"
| "state_rank Completed = 3"
| "state_rank Failed = 4"
| "state_rank Expired = 5"

instantiation action_state :: linorder
begin

definition less_eq_action_state :: "action_state \<Rightarrow> action_state \<Rightarrow> bool" where
  "less_eq_action_state a b \<longleftrightarrow> state_rank a \<le> state_rank b"

definition less_action_state :: "action_state \<Rightarrow> action_state \<Rightarrow> bool" where
  "less_action_state a b \<longleftrightarrow> state_rank a < state_rank b"

instance
proof
  fix a b c :: action_state
  show "a < b \<longleftrightarrow> a \<le> b \<and> \<not> b \<le> a"
    by (auto simp: less_eq_action_state_def less_action_state_def)
  show "a \<le> a" by (simp add: less_eq_action_state_def)
  show "a \<le> b \<Longrightarrow> b \<le> c \<Longrightarrow> a \<le> c" by (simp add: less_eq_action_state_def)
  show "a \<le> b \<Longrightarrow> b \<le> a \<Longrightarrow> a = b"
    by (cases a; cases b) (auto simp: less_eq_action_state_def)
  show "a \<le> b \<or> b \<le> a" by (auto simp: less_eq_action_state_def)
qed

end

record action_row =
  ac_id :: string
  ac_server :: string
  ac_code :: string
  ac_context :: string
  ac_reference :: string
  ac_params :: string
  ac_idem :: "string option"
  ac_envelope :: string
  ac_state :: action_state
  ac_created :: stamp
  ac_expires :: stamp
  ac_delivered :: "stamp option"
  ac_running :: "stamp option"
  ac_finished :: "stamp option"
  ac_ok :: "bool option"
  ac_result :: "string option"
  ac_error :: "string option"
  ac_duration :: "int option"
  ac_notified :: bool

record identity =
  idn_platform :: string
  idn_player :: string
  idn_roles :: "string list"

record event_row =
  ev_id :: string
  ev_server :: string
  ev_type :: string
  ev_occurred :: stamp
  ev_received :: stamp
  ev_expires :: stamp
  ev_data :: string
  ev_notified :: bool

record batch_row =
  eb_server :: string
  eb_envelope :: string
  eb_expires :: stamp

record event_identity_row =
  ei_event :: string
  ei_identity :: identity
  ei_server :: string
  ei_type :: string
  ei_occurred :: stamp

record note_row =
  nt_id :: string
  nt_platform :: string
  nt_player :: string
  nt_text :: string
  nt_created :: stamp
  nt_token_id :: string
  nt_token_name :: string

record snapshot_row =
  sn_seq :: int
  sn_server :: string
  sn_envelope :: string
  sn_type :: string
  sn_captured :: stamp
  sn_received :: stamp
  sn_expires :: stamp
  sn_body :: string

record dedup_row =
  dd_server :: string
  dd_envelope :: string
  dd_expires :: stamp

record kv_row =
  kv_namespace :: string
  kv_key :: string
  kv_value :: string
  kv_revision :: int
  kv_created :: stamp
  kv_updated :: stamp
  kv_expires :: "stamp option"

record ban_row =
  bn_id :: string
  bn_platform :: string
  bn_player :: string
  bn_reason :: string
  bn_name :: string
  bn_server :: string
  bn_created :: stamp
  bn_token_id :: string
  bn_token_name :: string
  bn_expires :: "stamp option"
  bn_lifted :: "stamp option"
  bn_lifted_token_id :: string
  bn_lifted_token_name :: string
  bn_listed :: int
  bn_delisted :: "int option"

text \<open>
  A webhook's filters are JSON arrays the store writes and reads whole, and so are the scopes and the
  server binding of an Admin API token.
\<close>

record webhook_row =
  wh_id :: string
  wh_url :: string
  wh_secret :: string
  wh_template :: string
  wh_events :: "string list"
  wh_servers :: "string list"
  wh_redact :: "string list"
  wh_audit :: bool
  wh_created :: stamp
  wh_paused :: "stamp option"

datatype delivery_state = DeliveryPending | DeliveryDelivered | DeliveryDead

record delivery_row =
  dl_id :: string
  dl_webhook :: string
  dl_type :: string
  dl_server :: string
  dl_body :: string
  dl_state :: delivery_state
  dl_attempts :: int
  dl_next :: stamp
  dl_status :: "int option"
  dl_error :: "string option"
  dl_created :: stamp
  dl_finished :: "stamp option"
  dl_delivered :: "stamp option"
  dl_generation :: int

record token_row =
  tk_id :: string
  tk_hash :: string
  tk_name :: string
  tk_scopes :: "string list"
  tk_servers :: "string list"
  tk_created :: stamp
  tk_created_by :: string
  tk_expires :: "stamp option"
  tk_revoked :: "stamp option"

record audit_row =
  au_id :: string
  au_at :: stamp
  au_token_id :: string
  au_token_name :: string
  au_method :: string
  au_path :: string
  au_status :: int
  au_source :: string
  au_digest :: string
  au_server :: string
  au_detail :: string
  au_expires :: stamp

subsection \<open>The database\<close>

text \<open>
  \<open>snapshot_counter\<close> is the highest sequence number the snapshot table has handed out
  (AUTOINCREMENT never reuses one), \<open>audit_notifications\<close> the queued audit record ids, \<open>identity_backfill\<close> the one row of the identity
  backfill while it is under way, \<open>ban_revision\<close> the one row of \<open>ban_list\<close> and
  \<open>ban_revisions\<close> the register of minted revisions.
\<close>

record db =
  servers :: "server_row list"
  enrollment_tokens :: "enrollment_row list"
  sessions :: "session_row list"
  outbound :: "envelope_row list"
  manifests :: "manifest_row list"
  actions :: "action_row list"
  events :: "event_row list"
  event_batches :: "batch_row list"
  event_identities :: "event_identity_row list"
  identity_backfill :: "(string \<times> string) option"
  player_notes :: "note_row list"
  snapshots :: "snapshot_row list"
  snapshot_counter :: int
  snapshot_dedup :: "dedup_row list"
  kv_table :: "kv_row list"
  bans :: "ban_row list"
  ban_revision :: int
  ban_revisions :: "(int \<times> stamp) list"
  webhooks :: "webhook_row list"
  deliveries :: "delivery_row list"
  admin_tokens :: "token_row list"
  audit_records :: "audit_row list"
  audit_notifications :: "string list"

definition empty_db :: db where
  "empty_db = \<lparr>servers = [], enrollment_tokens = [], sessions = [], outbound = [],
     manifests = [], actions = [], events = [], event_batches = [], event_identities = [],
     identity_backfill = None, player_notes = [],
     snapshots = [], snapshot_counter = 0, snapshot_dedup = [], kv_table = [], bans = [],
     ban_revision = 0, ban_revisions = [], webhooks = [], deliveries = [], admin_tokens = [],
     audit_records = [], audit_notifications = []\<rparr>"

lemma empty_db_simps [simp]:
  "servers empty_db = []" "enrollment_tokens empty_db = []" "sessions empty_db = []"
  "outbound empty_db = []" "manifests empty_db = []" "actions empty_db = []"
  "events empty_db = []" "event_batches empty_db = []" "event_identities empty_db = []"
  "identity_backfill empty_db = None" "player_notes empty_db = []"
  "snapshots empty_db = []" "snapshot_counter empty_db = 0" "snapshot_dedup empty_db = []"
  "kv_table empty_db = []" "bans empty_db = []" "ban_revision empty_db = 0"
  "ban_revisions empty_db = []" "webhooks empty_db = []" "deliveries empty_db = []"
  "admin_tokens empty_db = []" "audit_records empty_db = []" "audit_notifications empty_db = []"
  by (simp_all add: empty_db_def)

subsection \<open>Locks that are existence checks\<close>

text \<open>
  \<open>lockServer\<close> (hub/store/dialect.go) takes the server's row and answers \<open>ErrNotFound\<close>
  when there is none; the transaction that holds it is one atomic step of the model.
\<close>

definition lock_server :: "db \<Rightarrow> string \<Rightarrow> bool" where
  "lock_server d sid = exists_row (\<lambda>s. sv_id s = sid) (servers d)"

text \<open>A session is live while it has not ended and its expiry is in the future.\<close>

definition live_session_row :: "db \<Rightarrow> string \<Rightarrow> time \<Rightarrow> session_row option" where
  "live_session_row d sid now =
     find (\<lambda>s. ss_id s = sid \<and> ss_ended s = None \<and> ss_expires s > format_time now) (sessions d)"

lemma live_session_rowD:
  "live_session_row d sid now = Some s \<Longrightarrow>
   s \<in> set (sessions d) \<and> ss_id s = sid \<and> ss_ended s = None \<and> format_time now < ss_expires s"
  unfolding live_session_row_def by (auto dest: find_Some_in)

lemma live_session_row_None:
  "live_session_row d sid now = None \<longleftrightarrow>
   (\<forall>s \<in> set (sessions d). ss_id s = sid \<longrightarrow> ss_ended s \<noteq> None \<or> ss_expires s \<le> format_time now)"
  by (auto simp: live_session_row_def find_None_iff)

text \<open>Decimal rendering of an int64, as \<open>strconv.FormatInt\<close> and \<open>encoding/json\<close> write it.\<close>

fun digits_rev :: "nat \<Rightarrow> string" where
  "digits_rev n =
     (if n < 10 then [char_of (48 + n)] else char_of (48 + n mod 10) # digits_rev (n div 10))"

declare digits_rev.simps [simp del]

definition show_int :: "int \<Rightarrow> string" where
  "show_int i = (if i < 0 then ''-'' @ rev (digits_rev (nat (- i))) else rev (digits_rev (nat i)))"

end
