(* ===== verification/Lifecycle.thy ===== *)
theory Lifecycle
  imports Db
begin

text \<open>
  The transitions of one tracked action (hub/store/actions.go): the delivery receipt that an
  ack of its dispatch envelope is, the plugin's ack and result, and expiry, by the sweeper and
  on a read.  Dispatching is in theory \<open>Dispatch\<close>, which needs the outbound queue.
\<close>

subsection \<open>The operations\<close>

definition action_open :: "action_state \<Rightarrow> bool" where
  "action_open s = (s = Queued \<or> s = Delivered \<or> s = Running)"

definition with_actions :: "(action_row list \<Rightarrow> action_row list) \<Rightarrow> db \<Rightarrow> db" where
  "with_actions f d = d\<lparr>actions := f (actions d)\<rparr>"

text \<open>\<open>COALESCE(column, now)\<close>: an earlier value stands.\<close>

definition coalesce :: "'a option \<Rightarrow> 'a \<Rightarrow> 'a option" where
  "coalesce c v = (case c of None \<Rightarrow> Some v | Some w \<Rightarrow> Some w)"

text \<open>The subselect of \<open>markDelivered\<close>: the envelopes of a session up to an acked seq.\<close>

definition acked_envelope_ids :: "db \<Rightarrow> string \<Rightarrow> int \<Rightarrow> string set" where
  "acked_envelope_ids d sid ack =
     en_id ` {e \<in> set (outbound d). en_session e = Some sid \<and> (case en_seq e of None \<Rightarrow> False | Some n \<Rightarrow> n \<le> ack)}"

definition mark_delivered_row :: "time \<Rightarrow> action_row \<Rightarrow> action_row" where
  "mark_delivered_row now a = a\<lparr>ac_state := Delivered, ac_delivered := Some (format_time now)\<rparr>"

definition mark_delivered :: "db \<Rightarrow> string \<Rightarrow> int \<Rightarrow> time \<Rightarrow> db" where
  "mark_delivered d sid ack now =
     with_actions
       (update_where (\<lambda>a. ac_state a = Queued \<and> ac_envelope a \<in> acked_envelope_ids d sid ack)
          (mark_delivered_row now)) d"

definition ack_applies :: "string \<Rightarrow> string \<Rightarrow> time \<Rightarrow> action_row \<Rightarrow> bool" where
  "ack_applies server aid now a =
     (ac_id a = aid \<and> ac_server a = server \<and> (ac_state a = Queued \<or> ac_state a = Delivered)
      \<and> ac_expires a > format_time now)"

definition ack_row :: "time \<Rightarrow> action_row \<Rightarrow> action_row" where
  "ack_row now a = a\<lparr>ac_state := Running, ac_running := Some (format_time now),
     ac_delivered := coalesce (ac_delivered a) (format_time now)\<rparr>"

definition apply_action_ack :: "db \<Rightarrow> string \<Rightarrow> string \<Rightarrow> time \<Rightarrow> bool \<times> db" where
  "apply_action_ack d server aid now =
     (affected (ack_applies server aid now) (actions d) > 0,
      with_actions (update_where (ack_applies server aid now) (ack_row now)) d)"

text \<open>\<open>ActionResult\<close>; an empty \<open>Result\<close> or \<open>Error\<close> is stored as NULL.\<close>

record action_result =
  ar_action :: string
  ar_ok :: bool
  ar_result :: string
  ar_error :: string
  ar_duration :: "int option"

definition nonempty :: "string \<Rightarrow> string option" where
  "nonempty s = (if s = '''' then None else Some s)"

definition result_applies :: "string \<Rightarrow> string \<Rightarrow> time \<Rightarrow> action_row \<Rightarrow> bool" where
  "result_applies server aid now a =
     (ac_id a = aid \<and> ac_server a = server \<and> action_open (ac_state a)
      \<and> ac_expires a > format_time now)"

definition result_row :: "action_result \<Rightarrow> time \<Rightarrow> action_row \<Rightarrow> action_row" where
  "result_row r now a =
     a\<lparr>ac_state := (if ar_ok r then Completed else Failed),
       ac_finished := Some (format_time now),
       ac_running := coalesce (ac_running a) (format_time now),
       ac_delivered := coalesce (ac_delivered a) (format_time now),
       ac_ok := Some (ar_ok r),
       ac_result := nonempty (ar_result r),
       ac_error := nonempty (ar_error r),
       ac_duration := ar_duration r\<rparr>"

definition apply_action_result :: "db \<Rightarrow> string \<Rightarrow> action_result \<Rightarrow> time \<Rightarrow> bool \<times> db" where
  "apply_action_result d server r now =
     (affected (result_applies server (ar_action r) now) (actions d) > 0,
      with_actions (update_where (result_applies server (ar_action r) now) (result_row r now)) d)"

definition expire_due :: "time \<Rightarrow> action_row \<Rightarrow> bool" where
  "expire_due now a = (action_open (ac_state a) \<and> ac_expires a \<le> format_time now)"

definition expire_row :: "time \<Rightarrow> action_row \<Rightarrow> action_row" where
  "expire_row now a = a\<lparr>ac_state := Expired, ac_finished := Some (format_time now)\<rparr>"

text \<open>
  \<open>ActionByID\<close>: lazy expiry of that one row, with the two clock reads of the statement's
  arguments, then the read.
\<close>

definition action_by_id :: "db \<Rightarrow> string \<Rightarrow> time \<Rightarrow> time \<Rightarrow> (store_error + action_row) \<times> db" where
  "action_by_id d aid stamp_now now =
     (let d' = with_actions (update_where (\<lambda>a. ac_id a = aid \<and> expire_due now a) (expire_row stamp_now)) d
      in (case find (\<lambda>a. ac_id a = aid) (actions d') of
            None \<Rightarrow> Inl ErrNotFound
          | Some a \<Rightarrow> Inr a, d'))"

definition action_owner :: "db \<Rightarrow> string \<Rightarrow> store_error + (string \<times> string)" where
  "action_owner d aid =
     (case find (\<lambda>a. ac_id a = aid) (actions d) of
        None \<Rightarrow> Inl ErrNotFound
      | Some a \<Rightarrow> Inr (ac_code a, ac_server a))"

definition action_by_idempotency_key :: "db \<Rightarrow> string \<Rightarrow> string \<Rightarrow> store_error + action_row" where
  "action_by_idempotency_key d server key =
     (case find (\<lambda>a. ac_server a = server \<and> ac_idem a = Some key) (actions d) of
        None \<Rightarrow> Inl ErrNotFound
      | Some a \<Rightarrow> Inr a)"

text \<open>
  \<open>ExpireActions\<close>: the dispatch envelopes of expiring actions that were never numbered into a
  session go first, then every open action past its deadline expires.
\<close>

definition retire_envelope :: "db \<Rightarrow> time \<Rightarrow> envelope_row \<Rightarrow> bool" where
  "retire_envelope d now e =
     (en_acked e = None \<and> en_session e = None \<and>
      (\<exists>a \<in> set (actions d). (ac_state a = Queued \<or> ac_state a = Expired)
          \<and> ac_expires a \<le> format_time now \<and> ac_envelope a = en_id e))"

definition expire_actions :: "db \<Rightarrow> time \<Rightarrow> int \<times> db" where
  "expire_actions d now =
     (affected (expire_due now) (actions d),
      with_actions (update_where (expire_due now) (expire_row now))
        (d\<lparr>outbound := delete_where (retire_envelope d now) (outbound d)\<rparr>))"

lemmas lifecycle_defs [op_defs] =
  with_actions_def mark_delivered_def mark_delivered_row_def apply_action_ack_def ack_applies_def
  ack_row_def apply_action_result_def result_applies_def result_row_def action_by_id_def
  expire_actions_def expire_due_def expire_row_def

subsection \<open>Rows the lifecycle can produce\<close>

definition action_wf :: "action_row \<Rightarrow> bool" where
  "action_wf a =
     (case ac_state a of
        Queued \<Rightarrow> ac_delivered a = None \<and> ac_running a = None \<and> ac_finished a = None \<and> ac_ok a = None
      | Delivered \<Rightarrow> ac_delivered a \<noteq> None \<and> ac_running a = None \<and> ac_finished a = None \<and> ac_ok a = None
      | Running \<Rightarrow> ac_delivered a \<noteq> None \<and> ac_running a \<noteq> None \<and> ac_finished a = None \<and> ac_ok a = None
      | Completed \<Rightarrow> ac_delivered a \<noteq> None \<and> ac_running a \<noteq> None \<and> ac_finished a \<noteq> None \<and> ac_ok a = Some True
      | Failed \<Rightarrow> ac_delivered a \<noteq> None \<and> ac_running a \<noteq> None \<and> ac_finished a \<noteq> None \<and> ac_ok a = Some False
      | Expired \<Rightarrow> ac_finished a \<noteq> None \<and> ac_ok a = None)"

text \<open>What no transition may change, and what each may only add.\<close>

definition keeps_some :: "'a option \<Rightarrow> 'a option \<Rightarrow> bool" where
  "keeps_some x y = (x \<noteq> None \<longrightarrow> y = x)"

definition action_le :: "action_row \<Rightarrow> action_row \<Rightarrow> bool" where
  "action_le a b =
     (ac_id b = ac_id a \<and> ac_server b = ac_server a \<and> ac_code b = ac_code a
      \<and> ac_params b = ac_params a \<and> ac_idem b = ac_idem a \<and> ac_envelope b = ac_envelope a
      \<and> ac_created b = ac_created a \<and> ac_expires b = ac_expires a
      \<and> ac_state a \<le> ac_state b
      \<and> (\<not> action_open (ac_state a) \<longrightarrow> b = a)
      \<and> keeps_some (ac_delivered a) (ac_delivered b)
      \<and> keeps_some (ac_running a) (ac_running b)
      \<and> keeps_some (ac_finished a) (ac_finished b))"

definition actions_le :: "db \<Rightarrow> db \<Rightarrow> bool" where
  "actions_le d e = (\<forall>a \<in> set (actions d). \<exists>b \<in> set (actions e). action_le a b)"

definition actions_wf :: "db \<Rightarrow> bool" where
  "actions_wf d = (\<forall>a \<in> set (actions d). action_wf a)"

lemma action_le_refl [simp]: "action_le a a"
  by (simp add: action_le_def keeps_some_def)

lemma keeps_some_simps [simp]: "keeps_some None y" "keeps_some x x"
  by (simp_all add: keeps_some_def)

lemma keeps_some_trans: "keeps_some x y \<Longrightarrow> keeps_some y z \<Longrightarrow> keeps_some x z"
  by (auto simp: keeps_some_def)

lemma action_le_trans: "action_le a b \<Longrightarrow> action_le b c \<Longrightarrow> action_le a c"
  unfolding action_le_def by (auto intro: keeps_some_trans order.trans)

lemma actions_le_refl [simp]: "actions_le d d"
  unfolding actions_le_def by (meson action_le_refl)

lemma actions_le_trans: "actions_le d e \<Longrightarrow> actions_le e f \<Longrightarrow> actions_le d f"
  unfolding actions_le_def by (meson action_le_trans)

lemma coalesce_not_None [simp]: "coalesce c v \<noteq> None"
  by (simp add: coalesce_def split: option.split)

lemma keeps_some_coalesce [simp]: "keeps_some c (coalesce c v)"
  by (auto simp: keeps_some_def coalesce_def)

text \<open>One row transition keeps a row well formed and only moves it forward.\<close>

definition good_step :: "(action_row \<Rightarrow> bool) \<Rightarrow> (action_row \<Rightarrow> action_row) \<Rightarrow> bool" where
  "good_step p f = (\<forall>a. action_wf a \<and> p a \<longrightarrow> action_wf (f a) \<and> action_le a (f a))"

lemma rank_le_simps [simp]:
  "Queued \<le> s" "Delivered \<le> Running" "Delivered \<le> Completed" "Delivered \<le> Failed"
  "Delivered \<le> Expired" "Running \<le> Completed" "Running \<le> Failed" "Running \<le> Expired"
  by (cases s) (auto simp: less_eq_action_state_def)

lemma good_mark_delivered:
  "good_step (\<lambda>a. ac_state a = Queued \<and> q a) (mark_delivered_row now)"
  by (auto simp: good_step_def mark_delivered_row_def action_wf_def action_le_def action_open_def
      keeps_some_def)

lemma good_ack: "good_step (ack_applies server aid now) (ack_row now)"
  by (auto simp: good_step_def ack_applies_def ack_row_def action_wf_def action_le_def
      action_open_def)

lemma good_result: "good_step (result_applies server aid now) (result_row r now)"
proof -
  have "action_wf (result_row r now a) \<and> action_le a (result_row r now a)"
    if "action_wf a" and op: "action_open (ac_state a)" for a
  proof
    show "action_wf (result_row r now a)" by (simp add: result_row_def action_wf_def)
    have "ac_state a \<le> ac_state (result_row r now a)"
      using op by (cases "ac_state a") (simp_all add: action_open_def result_row_def)
    moreover have "ac_finished a = None"
      using that by (cases "ac_state a") (simp_all add: action_wf_def action_open_def)
    ultimately show "action_le a (result_row r now a)"
      using op by (simp add: action_le_def result_row_def)
  qed
  then show ?thesis by (simp add: good_step_def result_applies_def)
qed

lemma good_expire: "good_step (\<lambda>a. q a \<and> expire_due now a) (expire_row t)"
  by (auto simp: good_step_def expire_due_def expire_row_def action_wf_def action_le_def
      action_open_def keeps_some_def)

lemma good_expire_all: "good_step (expire_due now) (expire_row t)"
  using good_expire [of "\<lambda>_. True"] by simp

lemma update_good:
  assumes "good_step p f" and "actions_wf d" and "actions e = update_where p f (actions d)"
  shows "actions_wf e \<and> actions_le d e"
proof -
  have "action_wf (if p a then f a else a) \<and> action_le a (if p a then f a else a)"
    if "a \<in> set (actions d)" for a
    using assms(1,2) that by (auto simp: good_step_def actions_wf_def)
  then show ?thesis
    unfolding actions_wf_def actions_le_def assms(3) set_update_where by blast
qed

lemma mark_delivered_good:
  "actions_wf d \<Longrightarrow> actions_wf (mark_delivered d sid ack now) \<and> actions_le d (mark_delivered d sid ack now)"
  by (rule update_good [OF good_mark_delivered]) (auto simp: mark_delivered_def with_actions_def)

lemma apply_action_ack_good:
  "actions_wf d \<Longrightarrow>
   actions_wf (snd (apply_action_ack d s aid now)) \<and> actions_le d (snd (apply_action_ack d s aid now))"
  by (rule update_good [OF good_ack]) (auto simp: apply_action_ack_def with_actions_def)

lemma apply_action_result_good:
  "actions_wf d \<Longrightarrow>
   actions_wf (snd (apply_action_result d s r now)) \<and> actions_le d (snd (apply_action_result d s r now))"
  by (rule update_good [OF good_result]) (auto simp: apply_action_result_def with_actions_def)

lemma action_by_id_good:
  "actions_wf d \<Longrightarrow>
   actions_wf (snd (action_by_id d aid t now)) \<and> actions_le d (snd (action_by_id d aid t now))"
  by (rule update_good [OF good_expire]) (auto simp: action_by_id_def with_actions_def Let_def)

lemma expire_actions_good:
  "actions_wf d \<Longrightarrow>
   actions_wf (snd (expire_actions d now)) \<and> actions_le d (snd (expire_actions d now))"
  by (rule update_good [OF good_expire_all]) (auto simp: expire_actions_def with_actions_def)

lemmas lifecycle_good = mark_delivered_good apply_action_ack_good apply_action_result_good
  action_by_id_good expire_actions_good

text \<open>The plugin, the sweeper and the readers as one machine over the database.\<close>

datatype lifecycle_event =
    Receipt string int time
  | PluginAck string string time
  | PluginResult string action_result time
  | ReadAction string time time
  | Sweep time

fun lifecycle_step :: "db \<Rightarrow> lifecycle_event \<Rightarrow> db" where
  "lifecycle_step d (Receipt sid ack now) = mark_delivered d sid ack now"
| "lifecycle_step d (PluginAck server aid now) = snd (apply_action_ack d server aid now)"
| "lifecycle_step d (PluginResult server r now) = snd (apply_action_result d server r now)"
| "lifecycle_step d (ReadAction aid t now) = snd (action_by_id d aid t now)"
| "lifecycle_step d (Sweep now) = snd (expire_actions d now)"

interpretation lifecycle: monotone_machine lifecycle_step actions_wf actions_le
proof
  fix d e f :: db and x :: lifecycle_event
  show "actions_wf (lifecycle_step d x)" if "actions_wf d"
    using that lifecycle_good by (cases x) auto
  show "actions_le d (lifecycle_step d x)" if "actions_wf d"
    using that lifecycle_good by (cases x) auto
  show "actions_le d d" by simp
  show "actions_le d e \<Longrightarrow> actions_le e f \<Longrightarrow> actions_le d f" by (rule actions_le_trans)
qed

text \<open>
  C7. Whatever order receipts, acks, results, reads and sweeps arrive in, every action stays
  well formed (each state carries exactly the timestamps and outcome that belong to it), only
  ever moves forward through queued, delivered, running and the terminal states, keeps its
  identity and deadline, and never changes again once it is completed, failed or expired.
\<close>

theorem lifecycle_forward:
  assumes "actions_wf d"
  shows "actions_wf (run_steps lifecycle_step d es) \<and> actions_le d (run_steps lifecycle_step d es)"
  using assms lifecycle.run_inv lifecycle.run_rel by blast

definition sample_action :: action_row where
  "sample_action = \<lparr>ac_id = ''a1'', ac_server = ''s1'', ac_code = ''core.heal'', ac_context = '''',
     ac_reference = '''', ac_params = ''{}'', ac_idem = Some ''k1'', ac_envelope = ''e1'',
     ac_state = Queued, ac_created = 0, ac_expires = 60000, ac_delivered = None,
     ac_running = None, ac_finished = None, ac_ok = None, ac_result = None, ac_error = None,
     ac_duration = None, ac_notified = False\<rparr>"

theorem lifecycle_forward_witness:
  "let d = empty_db\<lparr>actions := [sample_action]\<rparr>;
       d' = run_steps lifecycle_step d
              [PluginAck ''s1'' ''a1'' 1000000, Sweep 60000000000,
               PluginResult ''s1'' \<lparr>ar_action = ''a1'', ar_ok = True, ar_result = ''1'', ar_error = '''',
                                    ar_duration = None\<rparr> 2000000]
   in actions_wf d' \<and> actions_le d d' \<and> map ac_state (actions d') = [Expired]"
proof -
  have wf: "actions_wf (empty_db\<lparr>actions := [sample_action]\<rparr>)"
    by (simp add: actions_wf_def action_wf_def sample_action_def)
  let ?es = "[PluginAck ''s1'' ''a1'' 1000000, Sweep 60000000000,
               PluginResult ''s1'' \<lparr>ar_action = ''a1'', ar_ok = True, ar_result = ''1'', ar_error = '''',
                                    ar_duration = None\<rparr> 2000000]"
  have "map ac_state (actions (run_steps lifecycle_step (empty_db\<lparr>actions := [sample_action]\<rparr>) ?es))
      = [Expired]"
    by (simp add: lifecycle_defs sample_action_def format_time_def nanos_per_milli_def action_open_def)
  with lifecycle_forward [OF wf, of ?es] show ?thesis by (simp only: Let_def simp_thms)
qed

text \<open>
  A read never reports an action as still open once its deadline has passed, however long
  ago the sweeper last ran.
\<close>

lemma read_never_stale:
  assumes "action_by_id d aid stamp_now now = (Inr a, d')"
  shows "action_open (ac_state a) \<longrightarrow> format_time now < ac_expires a"
proof -
  from assms have d': "actions d' =
      update_where (\<lambda>a. ac_id a = aid \<and> expire_due now a) (expire_row stamp_now) (actions d)"
    and "find (\<lambda>a. ac_id a = aid) (actions d') = Some a"
    by (auto simp: action_by_id_def with_actions_def Let_def split: option.splits)
  then have "a \<in> set (actions d')" and aid: "ac_id a = aid" by (auto dest: find_Some_in)
  then show ?thesis
    unfolding d'
  proof (elim update_whereE)
    assume "\<not> (ac_id a = aid \<and> expire_due now a)"
    with aid show ?thesis by (simp add: expire_due_def not_le)
  next
    fix s
    assume "a = expire_row stamp_now s"
    then have "ac_state a = Expired" by (simp add: expire_row_def)
    then show ?thesis by (simp add: action_open_def)
  qed
qed

lemma read_never_stale_witness:
  "action_by_id (empty_db\<lparr>actions := [sample_action]\<rparr>) ''a1'' 59999000000 59999000000 =
     (Inr sample_action, empty_db\<lparr>actions := [sample_action]\<rparr>)
   \<and> action_open (ac_state sample_action) \<and> format_time 59999000000 < ac_expires sample_action"
proof -
  have read: "action_by_id (empty_db\<lparr>actions := [sample_action]\<rparr>) ''a1'' 59999000000 59999000000 =
    (Inr sample_action, empty_db\<lparr>actions := [sample_action]\<rparr>)"
    by (simp add: lifecycle_defs sample_action_def format_time_def nanos_per_milli_def action_open_def)
  have "action_open (ac_state sample_action)" by (simp add: action_open_def sample_action_def)
  with read read_never_stale [OF read] show ?thesis by simp
qed

text \<open>
  At most one outcome: once a result for an action has been taken (or refused) at some
  moment, every later ack and result from that server for the same action is a no-op that
  reports nothing applied, so at-least-once delivery of results never flips an outcome.
\<close>

lemma result_taken_once:
  assumes "apply_action_result d server r now = (b, d1)" and "now \<le> later"
    and "ar_action r' = ar_action r"
  shows "apply_action_result d1 server r' later = (False, d1)
       \<and> apply_action_ack d1 server (ar_action r) later = (False, d1)"
proof -
  from assms(1) have d1: "d1 = d\<lparr>actions := update_where (result_applies server (ar_action r) now)
      (result_row r now) (actions d)\<rparr>"
    by (auto simp: apply_action_result_def with_actions_def)
  from assms(2) have le: "format_time now \<le> format_time later" by (rule format_time_mono)
  have none: "\<not> result_applies server (ar_action r) later a" if "a \<in> set (actions d1)" for a
  proof -
    from that have "a \<in> set (update_where (result_applies server (ar_action r) now)
        (result_row r now) (actions d))"
      by (simp add: d1)
    then show ?thesis
    proof (elim update_whereE)
      assume "\<not> result_applies server (ar_action r) now a"
      with le show ?thesis by (auto simp: result_applies_def)
    next
      fix s
      assume "a = result_row r now s"
      then have "\<not> action_open (ac_state a)" by (simp add: result_row_def action_open_def)
      then show ?thesis by (simp add: result_applies_def)
    qed
  qed
  then have "\<not> ack_applies server (ar_action r) later a" if "a \<in> set (actions d1)" for a
    using that by (auto simp: ack_applies_def result_applies_def action_open_def)
  with none assms(3) show ?thesis
    by (auto simp: apply_action_result_def apply_action_ack_def with_actions_def affected_pos_iff
        update_where_none)
qed

lemma result_taken_once_witness:
  "let d = empty_db\<lparr>actions := [sample_action]\<rparr>;
       ok = \<lparr>ar_action = ''a1'', ar_ok = True, ar_result = ''1'', ar_error = '''', ar_duration = None\<rparr>;
       bad = \<lparr>ar_action = ''a1'', ar_ok = False, ar_result = '''', ar_error = ''late'', ar_duration = None\<rparr>;
       d1 = snd (apply_action_result d ''s1'' ok 1000000)
   in fst (apply_action_result d ''s1'' ok 1000000)
      \<and> apply_action_result d1 ''s1'' bad 2000000 = (False, d1)"
proof -
  let ?d = "empty_db\<lparr>actions := [sample_action]\<rparr>"
  let ?ok = "\<lparr>ar_action = ''a1'', ar_ok = True, ar_result = ''1'', ar_error = '''', ar_duration = None\<rparr>"
  let ?bad = "\<lparr>ar_action = ''a1'', ar_ok = False, ar_result = '''', ar_error = ''late'', ar_duration = None\<rparr>"
  have "fst (apply_action_result ?d ''s1'' ?ok 1000000)"
    by (simp add: lifecycle_defs sample_action_def format_time_def nanos_per_milli_def action_open_def
        affected_def)
  moreover obtain b d1 where s: "apply_action_result ?d ''s1'' ?ok 1000000 = (b, d1)" by fastforce
  moreover from s have "apply_action_result d1 ''s1'' ?bad 2000000 = (False, d1)"
    using result_taken_once [OF s, of 2000000 ?bad] by simp
  ultimately show ?thesis by (simp add: Let_def)
qed

definition out_of_reach :: "string \<Rightarrow> time \<Rightarrow> action_row \<Rightarrow> bool" where
  "out_of_reach server now a = (ac_server a \<noteq> server \<or> ac_expires a \<le> format_time now)"

text \<open>
  An action id is not a credential: acks and results from one server leave every action of
  every other server exactly as it was, and so does anything that arrives after the deadline.
\<close>

lemma only_own_open_actions:
  "filter (out_of_reach server now) (actions (snd (apply_action_result d server r now)))
     = filter (out_of_reach server now) (actions d)
   \<and> filter (out_of_reach server now) (actions (snd (apply_action_ack d server aid now)))
     = filter (out_of_reach server now) (actions d)"
  by (auto simp: apply_action_result_def apply_action_ack_def with_actions_def
      result_applies_def ack_applies_def result_row_def ack_row_def
      out_of_reach_def intro!: filter_update_where_other)

end
