(* ===== verification/Outbound.thy ===== *)
theory Outbound
  imports Lifecycle
begin

text \<open>
  The hub-to-plugin half of hub/store/envelopes.go: the per-server queue, the numbering of
  queued envelopes into a session's sequence space, retransmission, and the plugin's
  cumulative ack.

  The invariant \<open>chan_inv\<close> ties the queue to the sessions: sequence numbers are unique in a
  session, a live session's numbers have no gaps, and an envelope is acked exactly when its
  number is at or below its session's ack.
\<close>

subsection \<open>The queue\<close>

definition new_outbound :: "string \<Rightarrow> string \<Rightarrow> string \<Rightarrow> string \<Rightarrow> time \<Rightarrow> envelope_row" where
  "new_outbound eid server ty body now =
     \<lparr>en_id = eid, en_server = server, en_type = ty, en_body = body,
      en_created = format_time now, en_session = None, en_seq = None, en_sent = None,
      en_acked = None\<rparr>"

definition pending :: "string \<Rightarrow> envelope_row \<Rightarrow> bool" where
  "pending server e = (en_server e = server \<and> en_acked e = None)"

definition insert_outbound :: "db \<Rightarrow> string \<Rightarrow> envelope_row \<Rightarrow> int \<Rightarrow> store_error + db" where
  "insert_outbound d server e limit =
     (if limit > 0 \<and> affected (pending server) (outbound d) \<ge> limit then Inl ErrOutboundQueueFull
      else if exists_row (\<lambda>x. en_id x = en_id e) (outbound d) then Inl (ErrConstraint ''outbound_envelopes'')
      else Inr (d\<lparr>outbound := outbound d @ [e]\<rparr>))"

definition queue_outbound ::
  "db \<Rightarrow> string \<Rightarrow> string \<Rightarrow> string \<Rightarrow> int \<Rightarrow> string \<Rightarrow> time \<Rightarrow> store_error + (envelope_row \<times> db)" where
  "queue_outbound d server ty body limit eid now =
     (let e = new_outbound eid server ty body now in
      case insert_outbound d server e limit of Inl err \<Rightarrow> Inl err | Inr d' \<Rightarrow> Inr (e, d'))"

definition queue_envelope ::
  "db \<Rightarrow> string \<Rightarrow> string \<Rightarrow> string \<Rightarrow> int \<Rightarrow> string \<Rightarrow> time \<Rightarrow> store_error + (envelope_row \<times> db)" where
  "queue_envelope d server ty body limit eid now =
     (if \<not> lock_server d server then Inl ErrNotFound
      else queue_outbound d server ty body limit eid now)"

definition pending_envelope_count :: "db \<Rightarrow> string \<Rightarrow> int" where
  "pending_envelope_count d server = affected (pending server) (outbound d)"

subsection \<open>Numbering and sending\<close>

text \<open>\<open>OutboundEnvelope\<close>, what a poll response carries.\<close>

record outbound_envelope =
  oe_id :: string
  oe_type :: string
  oe_body :: string
  oe_created :: time
  oe_seq :: int

definition to_outbound :: "envelope_row \<Rightarrow> int \<Rightarrow> outbound_envelope" where
  "to_outbound e n = \<lparr>oe_id = en_id e, oe_type = en_type e, oe_body = en_body e,
     oe_created = parse_time (en_created e), oe_seq = n\<rparr>"

text \<open>A number from an earlier session means nothing in this one.\<close>

definition numbered_in :: "string \<Rightarrow> envelope_row \<Rightarrow> bool" where
  "numbered_in sid e = (en_session e = Some sid \<and> en_seq e \<noteq> None)"

definition set_number :: "string \<Rightarrow> stamp \<Rightarrow> int \<Rightarrow> envelope_row \<Rightarrow> envelope_row" where
  "set_number sid sent n e = e\<lparr>en_session := Some sid, en_seq := Some n, en_sent := Some sent\<rparr>"

fun number_batch ::
  "string \<Rightarrow> stamp \<Rightarrow> envelope_row list \<Rightarrow> int \<Rightarrow> envelope_row list
    \<Rightarrow> store_error + (outbound_envelope list \<times> int \<times> envelope_row list)" where
  "number_batch sid sent [] seq t = Inr ([], seq, t)"
| "number_batch sid sent (r # rs) seq t =
     (let seq' = (if numbered_in sid r then seq else seq + 1);
          n = (if numbered_in sid r then the (en_seq r) else seq')
      in if affected (\<lambda>e. en_id e = en_id r) t \<noteq> 1 then Inl (ErrEnvelopeVanished (en_id r))
         else case number_batch sid sent rs seq'
                (update_where (\<lambda>e. en_id e = en_id r) (set_number sid sent n) t) of
                Inl err \<Rightarrow> Inl err
              | Inr (out, seq'', t') \<Rightarrow> Inr (to_outbound r n # out, seq'', t'))"

definition outbound_batch :: "db \<Rightarrow> string \<Rightarrow> int \<Rightarrow> envelope_row list" where
  "outbound_batch d server limit =
     sql_limit limit (sort_key (\<lambda>e. (en_created e, en_id e)) (filter (pending server) (outbound d)))"

definition next_outbound ::
  "db \<Rightarrow> string \<Rightarrow> string \<Rightarrow> int \<Rightarrow> time \<Rightarrow> time
    \<Rightarrow> store_error + (outbound_envelope list \<times> int \<times> int \<times> db)" where
  "next_outbound d sid server limit live_now now =
     (case live_session_row d sid live_now of
        None \<Rightarrow> Inl ErrNotFound
      | Some s \<Rightarrow>
          let batch = outbound_batch d server limit in
          if batch = [] then Inr ([], ss_outbound_seq s, ss_inbound_ack s, d)
          else case number_batch sid (format_time now) batch (ss_outbound_seq s) (outbound d) of
                 Inl err \<Rightarrow> Inl err
               | Inr (out, seq, t) \<Rightarrow>
                   Inr (out, seq, ss_inbound_ack s,
                        d\<lparr>outbound := t,
                          sessions := update_where (\<lambda>x. ss_id x = sid)
                                        (\<lambda>x. x\<lparr>ss_outbound_seq := seq\<rparr>) (sessions d)\<rparr>))"

subsection \<open>The plugin's ack\<close>

definition ack_covers :: "string \<Rightarrow> int \<Rightarrow> envelope_row \<Rightarrow> bool" where
  "ack_covers sid ack e =
     (en_session e = Some sid \<and> (case en_seq e of None \<Rightarrow> False | Some n \<Rightarrow> n \<le> ack) \<and> en_acked e = None)"

definition ack_outbound :: "db \<Rightarrow> string \<Rightarrow> int \<Rightarrow> time \<Rightarrow> time \<Rightarrow> store_error + db" where
  "ack_outbound d sid ack live_now now =
     (if ack \<le> 0 then Inr d
      else case live_session_row d sid live_now of
        None \<Rightarrow> Inl ErrNotFound
      | Some s \<Rightarrow>
          if ack > ss_outbound_seq s then Inl ErrAckOutOfRange
          else if ack \<le> ss_outbound_ack s then Inr d
          else Inr (mark_delivered
                 (d\<lparr>outbound := update_where (ack_covers sid ack)
                                   (\<lambda>e. e\<lparr>en_acked := Some (format_time now)\<rparr>) (outbound d),
                    sessions := update_where (\<lambda>x. ss_id x = sid)
                                   (\<lambda>x. x\<lparr>ss_outbound_ack := ack\<rparr>) (sessions d)\<rparr>)
                 sid ack now))"

subsection \<open>The numbering, as an assignment of numbers to ids\<close>

fun assign :: "string \<Rightarrow> envelope_row list \<Rightarrow> int \<Rightarrow> (string \<times> int) list" where
  "assign sid [] seq = []"
| "assign sid (r # rs) seq =
     (if numbered_in sid r then (en_id r, the (en_seq r)) # assign sid rs seq
      else (en_id r, seq + 1) # assign sid rs (seq + 1))"

definition fresh_count :: "string \<Rightarrow> envelope_row list \<Rightarrow> int" where
  "fresh_count sid rs = int (length (filter (\<lambda>r. \<not> numbered_in sid r) rs))"

lemma fresh_count_simps [simp]:
  "fresh_count sid [] = 0"
  "fresh_count sid (r # rs) = (if numbered_in sid r then 0 else 1) + fresh_count sid rs"
  by (simp_all add: fresh_count_def)

lemma fresh_count_nonneg [simp]: "0 \<le> fresh_count sid rs"
  by (simp add: fresh_count_def)

definition renumber :: "string \<Rightarrow> stamp \<Rightarrow> (string \<times> int) list \<Rightarrow> envelope_row \<Rightarrow> envelope_row" where
  "renumber sid sent as e =
     (case map_of as (en_id e) of None \<Rightarrow> e | Some n \<Rightarrow> set_number sid sent n e)"

lemma set_number_simps [simp]:
  "en_id (set_number sid sent n e) = en_id e"
  "en_server (set_number sid sent n e) = en_server e"
  "en_type (set_number sid sent n e) = en_type e"
  "en_body (set_number sid sent n e) = en_body e"
  "en_created (set_number sid sent n e) = en_created e"
  "en_session (set_number sid sent n e) = Some sid"
  "en_seq (set_number sid sent n e) = Some n"
  "en_acked (set_number sid sent n e) = en_acked e"
  by (simp_all add: set_number_def)

lemma map_fst_assign [simp]: "map fst (assign sid rs seq) = map en_id rs"
  by (induction rs arbitrary: seq) auto

lemma dom_assign: "fst ` set (assign sid rs seq) = en_id ` set rs"
  by (metis list.set_map map_fst_assign)

lemma affected_id:
  "distinct (map en_id t) \<Longrightarrow> en_id r \<in> en_id ` set t \<Longrightarrow> affected (\<lambda>e. en_id e = en_id r) t = 1"
proof (induction t)
  case (Cons x t)
  then show ?case
    by (cases "en_id x = en_id r")
      (auto simp: affected_def filter_empty_conv rev_image_eqI)
qed simp

lemma number_batch_assign:
  assumes "distinct (map en_id t)" and "distinct (map en_id rs)" and "en_id ` set rs \<subseteq> en_id ` set t"
  shows "number_batch sid sent rs seq t =
     Inr (map2 to_outbound rs (map snd (assign sid rs seq)), seq + fresh_count sid rs,
          map (renumber sid sent (assign sid rs seq)) t)"
  using assms
proof (induction rs arbitrary: seq t)
  case Nil
  then show ?case by (simp add: renumber_def)
next
  case (Cons r rs)
  let ?n = "if numbered_in sid r then the (en_seq r) else seq + 1"
  let ?seq = "if numbered_in sid r then seq else seq + 1"
  let ?t = "update_where (\<lambda>e. en_id e = en_id r) (set_number sid sent ?n) t"
  have ids: "map en_id ?t = map en_id t" by (simp add: map_update_where)
  then have set_ids: "en_id ` set ?t = en_id ` set t" by (metis list.set_map)
  have one: "affected (\<lambda>e. en_id e = en_id r) t = 1"
    using Cons.prems by (intro affected_id) auto
  have notin: "en_id r \<notin> en_id ` set rs" using Cons.prems(2) by auto
  have "renumber sid sent (assign sid rs ?seq) (if en_id e = en_id r then set_number sid sent ?n e else e)
      = renumber sid sent (assign sid (r # rs) seq) e" for e
  proof (cases "en_id e = en_id r")
    case True
    with notin have "map_of (assign sid rs ?seq) (en_id e) = None"
      by (simp add: map_of_eq_None_iff dom_assign)
    with True show ?thesis by (simp add: renumber_def)
  next
    case False
    then show ?thesis by (simp add: renumber_def)
  qed
  then have tab: "map (renumber sid sent (assign sid rs ?seq)) ?t
      = map (renumber sid sent (assign sid (r # rs) seq)) t"
    by (simp add: update_where_def o_def)
  have "number_batch sid sent rs ?seq ?t =
     Inr (map2 to_outbound rs (map snd (assign sid rs ?seq)), ?seq + fresh_count sid rs,
          map (renumber sid sent (assign sid rs ?seq)) ?t)"
    using Cons.prems ids set_ids by (intro Cons.IH) auto
  with one tab show ?case by (auto simp: Let_def)
qed

text \<open>What the assignment gives: numbered rows keep their number, the others get the next ones.\<close>

lemma assign_numbered:
  "r \<in> set rs \<Longrightarrow> numbered_in sid r \<Longrightarrow> (en_id r, the (en_seq r)) \<in> set (assign sid rs seq)"
  by (induction rs arbitrary: seq) auto

lemma assign_cases:
  "(i, n) \<in> set (assign sid rs seq) \<Longrightarrow>
   (\<exists>r \<in> set rs. en_id r = i \<and> numbered_in sid r \<and> n = the (en_seq r))
   \<or> (\<exists>r \<in> set rs. en_id r = i \<and> \<not> numbered_in sid r \<and> seq < n \<and> n \<le> seq + fresh_count sid rs)"
  by (induction rs arbitrary: seq) (force split: if_splits)+

lemma assign_reaches:
  "seq < n \<Longrightarrow> n \<le> seq + fresh_count sid rs \<Longrightarrow>
   \<exists>r \<in> set rs. \<not> numbered_in sid r \<and> (en_id r, n) \<in> set (assign sid rs seq)"
proof (induction rs arbitrary: seq)
  case (Cons r rs)
  show ?case
  proof (cases "numbered_in sid r")
    case True
    with Cons show ?thesis by auto
  next
    case False
    show ?thesis
    proof (cases "n = seq + 1")
      case True
      with False show ?thesis by auto
    next
      case n: False
      with Cons.prems False have "seq + 1 < n" "n \<le> (seq + 1) + fresh_count sid rs" by auto
      from Cons.IH [OF this] False show ?thesis by auto
    qed
  qed
qed simp

lemma assign_fresh_inj:
  assumes "distinct (map en_id rs)"
    and "(i, n) \<in> set (assign sid rs seq)" and "(j, n) \<in> set (assign sid rs seq)" and "seq < n"
    and "\<forall>r \<in> set rs. numbered_in sid r \<longrightarrow> the (en_seq r) \<le> seq"
  shows "i = j"
  using assms
proof (induction rs arbitrary: seq)
  case (Cons r rs)
  show ?case
  proof (cases "numbered_in sid r")
    case True
    with Cons.prems show ?thesis by (intro Cons.IH [of seq]) auto
  next
    case False
    have above: "\<And>k m. (k, m) \<in> set (assign sid rs (seq + 1)) \<Longrightarrow> m \<noteq> seq + 1"
    proof
      fix k m
      assume "(k, m) \<in> set (assign sid rs (seq + 1))" and "m = seq + 1"
      from assign_cases [OF this(1)] this(2) Cons.prems(5) show False by fastforce
    qed
    show ?thesis
    proof (cases "n = seq + 1")
      case True
      with False Cons.prems(2,3) above show ?thesis by auto
    next
      case n: False
      with False Cons.prems show ?thesis by (intro Cons.IH [of "seq + 1"]) force+
    qed
  qed
qed simp

lemma assign_in_rows:
  assumes "distinct (map en_id es)" and "set rs \<subseteq> set es" and "e \<in> set es"
    and "(en_id e, n) \<in> set (assign sid rs seq)"
  shows "e \<in> set rs \<and>
    (if numbered_in sid e then en_seq e = Some n else seq < n \<and> n \<le> seq + fresh_count sid rs)"
proof -
  have same: "r = e" if "r \<in> set rs" "en_id r = en_id e" for r
    using that assms(1-3) by (meson eq_key_imp_eq_value distinct_map inj_onD subsetD)
  from assign_cases [OF assms(4)] obtain r where r: "r \<in> set rs" "en_id r = en_id e"
    and c: "numbered_in sid r \<and> n = the (en_seq r)
      \<or> \<not> numbered_in sid r \<and> seq < n \<and> n \<le> seq + fresh_count sid rs"
    by blast
  from same [OF r] r(1) c show ?thesis by (auto simp: numbered_in_def)
qed

lemma renumber_elim:
  assumes "distinct (map en_id es)" and "set rs \<subseteq> set es" and "distinct (map en_id rs)"
    and "e' \<in> set (map (renumber sid sent (assign sid rs seq)) es)"
  obtains (same) "e' \<in> set es" "e' \<notin> set rs"
    | (old) e n where "e \<in> set rs" "e' = set_number sid sent n e" "numbered_in sid e" "en_seq e = Some n"
    | (new) e n where "e \<in> set rs" "e' = set_number sid sent n e" "\<not> numbered_in sid e"
        "seq < n" "n \<le> seq + fresh_count sid rs" "(en_id e, n) \<in> set (assign sid rs seq)"
proof -
  from assms(4) obtain e where e: "e \<in> set es" "e' = renumber sid sent (assign sid rs seq) e" by auto
  show thesis
  proof (cases "map_of (assign sid rs seq) (en_id e)")
    case None
    then have "en_id e \<notin> en_id ` set rs" by (simp add: map_of_eq_None_iff dom_assign)
    then have "e \<notin> set rs" by blast
    with None e show thesis by (intro same) (auto simp: renumber_def)
  next
    case (Some n)
    then have mem: "(en_id e, n) \<in> set (assign sid rs seq)" by (rule map_of_SomeD)
    from assign_in_rows [OF assms(1,2) e(1) mem] Some e mem show thesis
      by (cases "numbered_in sid e") (auto simp: renumber_def intro: old new)
  qed
qed

subsection \<open>The invariant of the queue and its sessions\<close>

definition ids_distinct :: "session_row list \<Rightarrow> envelope_row list \<Rightarrow> bool" where
  "ids_distinct ss es = (distinct (map ss_id ss) \<and> distinct (map en_id es))"

definition acks_bounded :: "session_row list \<Rightarrow> bool" where
  "acks_bounded ss = (\<forall>s \<in> set ss. 0 \<le> ss_outbound_ack s \<and> ss_outbound_ack s \<le> ss_outbound_seq s)"

definition row_ok :: "session_row list \<Rightarrow> envelope_row \<Rightarrow> bool" where
  "row_ok ss e =
     (case en_session e of
        None \<Rightarrow> en_seq e = None \<and> en_acked e = None
      | Some sid \<Rightarrow> \<exists>s \<in> set ss. \<exists>n. ss_id s = sid \<and> en_seq e = Some n \<and> en_server e = ss_server s
          \<and> 1 \<le> n \<and> n \<le> ss_outbound_seq s \<and> (en_acked e \<noteq> None \<longleftrightarrow> n \<le> ss_outbound_ack s))"

definition seqs_unique :: "envelope_row list \<Rightarrow> bool" where
  "seqs_unique es = (\<forall>e \<in> set es. \<forall>f \<in> set es. en_session e \<noteq> None \<longrightarrow>
     en_session e = en_session f \<longrightarrow> en_seq e = en_seq f \<longrightarrow> en_id e = en_id f)"

definition no_gaps :: "session_row list \<Rightarrow> envelope_row list \<Rightarrow> bool" where
  "no_gaps ss es = (\<forall>s \<in> set ss. ss_ended s = None \<longrightarrow>
     (\<forall>n. 1 \<le> n \<longrightarrow> n \<le> ss_outbound_seq s \<longrightarrow>
        (\<exists>e \<in> set es. en_session e = Some (ss_id s) \<and> en_seq e = Some n)))"

definition one_live :: "session_row list \<Rightarrow> bool" where
  "one_live ss = (\<forall>s \<in> set ss. \<forall>t \<in> set ss. ss_ended s = None \<longrightarrow> ss_ended t = None \<longrightarrow>
     ss_server s = ss_server t \<longrightarrow> ss_id s = ss_id t)"

definition chan_inv :: "session_row list \<Rightarrow> envelope_row list \<Rightarrow> bool" where
  "chan_inv ss es = (ids_distinct ss es \<and> acks_bounded ss \<and> (\<forall>e \<in> set es. row_ok ss e)
     \<and> seqs_unique es \<and> no_gaps ss es \<and> one_live ss)"

definition outbound_inv :: "db \<Rightarrow> bool" where
  "outbound_inv d = chan_inv (sessions d) (outbound d)"

lemmas chan_defs = ids_distinct_def acks_bounded_def seqs_unique_def no_gaps_def one_live_def

lemma chan_invD:
  assumes "chan_inv ss es"
  shows "distinct (map ss_id ss)" "distinct (map en_id es)" "acks_bounded ss" "seqs_unique es"
    "no_gaps ss es" "one_live ss" "\<And>e. e \<in> set es \<Longrightarrow> row_ok ss e"
  using assms by (auto simp: chan_inv_def ids_distinct_def)

lemma same_session:
  "distinct (map ss_id ss) \<Longrightarrow> s \<in> set ss \<Longrightarrow> t \<in> set ss \<Longrightarrow> ss_id s = ss_id t \<Longrightarrow> s = t"
  by (meson distinct_map inj_onD)

lemma same_envelope:
  "distinct (map en_id es) \<Longrightarrow> e \<in> set es \<Longrightarrow> f \<in> set es \<Longrightarrow> en_id e = en_id f \<Longrightarrow> e = f"
  by (meson distinct_map inj_onD)

lemma row_ok_numbered:
  assumes "distinct (map ss_id ss)" and "s \<in> set ss" and "row_ok ss e" and "numbered_in (ss_id s) e"
  shows "\<exists>n. en_seq e = Some n \<and> en_server e = ss_server s \<and> 1 \<le> n \<and> n \<le> ss_outbound_seq s
      \<and> (en_acked e \<noteq> None \<longleftrightarrow> n \<le> ss_outbound_ack s)"
  using assms same_session [OF assms(1,2)]
  by (fastforce simp: row_ok_def numbered_in_def)

text \<open>Rewriting one session's row, with the other columns kept.\<close>

lemma ids_update_session [simp]:
  "(\<And>x. ss_id (f x) = ss_id x) \<Longrightarrow> map ss_id (update_where p f ss) = map ss_id ss"
  by (simp add: map_update_where)

subsection \<open>Each operation keeps the invariant\<close>

lemma chan_inv_snoc:
  assumes inv: "chan_inv ss es" and new: "en_id e \<notin> en_id ` set es"
    and none: "en_session e = None" "en_seq e = None" "en_acked e = None"
  shows "chan_inv ss (es @ [e])"
  unfolding chan_inv_def
proof (intro conjI)
  show "ids_distinct ss (es @ [e])" using inv new by (simp add: chan_inv_def ids_distinct_def)
  show "acks_bounded ss" "one_live ss" using inv by (simp_all add: chan_inv_def)
  show "\<forall>x \<in> set (es @ [e]). row_ok ss x"
    using inv none by (simp add: chan_inv_def row_ok_def)
  show "seqs_unique (es @ [e])"
    unfolding seqs_unique_def
  proof (intro ballI impI)
    fix x y
    assume x: "x \<in> set (es @ [e])" and y: "y \<in> set (es @ [e])" and some: "en_session x \<noteq> None"
      and eq: "en_session x = en_session y" "en_seq x = en_seq y"
    from some eq(1) none(1) have "x \<noteq> e" "y \<noteq> e" by metis+
    with x y have "x \<in> set es" "y \<in> set es" by simp_all
    with chan_invD(4) [OF inv] some eq show "en_id x = en_id y"
      unfolding seqs_unique_def by blast
  qed
  show "no_gaps ss (es @ [e])"
    using chan_invD(5) [OF inv] unfolding no_gaps_def set_append by blast
qed

lemma insert_outbound_chan:
  assumes "insert_outbound d server (new_outbound eid server ty body now) limit = Inr d'"
    and "outbound_inv d"
  shows "outbound_inv d'"
proof -
  let ?e = "new_outbound eid server ty body now"
  from assms(1) have d': "outbound d' = outbound d @ [?e]" "sessions d' = sessions d"
    and new: "en_id ?e \<notin> en_id ` set (outbound d)"
    by (auto simp: insert_outbound_def exists_row_def split: if_splits)
  show ?thesis
    unfolding outbound_inv_def d'
    by (rule chan_inv_snoc [OF assms(2) [unfolded outbound_inv_def] new])
      (simp_all add: new_outbound_def)
qed

lemma outbound_batch_props:
  assumes "distinct (map en_id (outbound d))"
  shows "set (outbound_batch d server limit) \<subseteq> {e \<in> set (outbound d). pending server e}"
    and "distinct (map en_id (outbound_batch d server limit))"
proof -
  show "set (outbound_batch d server limit) \<subseteq> {e \<in> set (outbound d). pending server e}"
    unfolding outbound_batch_def using set_sql_limit by fastforce
  have "distinct (map en_id (sort_key k xs)) = distinct (map en_id xs)"
    for k :: "envelope_row \<Rightarrow> stamp \<times> string" and xs
    by (simp add: distinct_map)
  then show "distinct (map en_id (outbound_batch d server limit))"
    unfolding outbound_batch_def
    using assms by (intro distinct_map_sql_limit) (simp add: distinct_map_filter)
qed

lemma next_outbound_eq:
  assumes "outbound_inv d" and "live_session_row d sid live_now = Some s"
    and rs: "rs = outbound_batch d server limit"
  shows "next_outbound d sid server limit live_now now =
    Inr (map2 to_outbound rs (map snd (assign sid rs (ss_outbound_seq s))),
         ss_outbound_seq s + fresh_count sid rs, ss_inbound_ack s,
         (if rs = [] then d else
         d\<lparr>outbound := map (renumber sid (format_time now) (assign sid rs (ss_outbound_seq s))) (outbound d),
           sessions := update_where (\<lambda>x. ss_id x = sid)
             (\<lambda>x. x\<lparr>ss_outbound_seq := ss_outbound_seq s + fresh_count sid rs\<rparr>) (sessions d)\<rparr>))"
proof -
  from assms(1) have dist: "distinct (map en_id (outbound d))"
    by (auto simp: outbound_inv_def dest: chan_invD)
  note b = outbound_batch_props [OF dist, of server limit, folded rs]
  have "number_batch sid (format_time now) rs (ss_outbound_seq s) (outbound d) =
     Inr (map2 to_outbound rs (map snd (assign sid rs (ss_outbound_seq s))),
          ss_outbound_seq s + fresh_count sid rs,
          map (renumber sid (format_time now) (assign sid rs (ss_outbound_seq s))) (outbound d))"
    using dist b by (intro number_batch_assign) auto
  then show ?thesis
    unfolding next_outbound_def assms(2) rs [symmetric] by (simp add: Let_def)
qed

text \<open>Numbering a batch of pending envelopes of the session's own server.\<close>

lemma in_update_session:
  assumes "distinct (map ss_id ss)" and "s \<in> set ss" and "\<And>x. ss_id (f x) = ss_id x"
  shows "x \<in> set (update_where (\<lambda>x. ss_id x = ss_id s) f ss) \<longleftrightarrow>
    x = f s \<or> (x \<in> set ss \<and> ss_id x \<noteq> ss_id s)"
proof -
  have "y = s" if "y \<in> set ss" "ss_id y = ss_id s" for y
    using same_session [OF assms(1) that(1) assms(2) that(2)] .
  then show ?thesis using assms(2,3) by (force simp: set_update_where)
qed

lemma renumber_id [simp]: "en_id (renumber sid sent as e) = en_id e"
  by (simp add: renumber_def split: option.split)

lemma renumber_other:
  assumes "distinct (map en_id es)" and "set rs \<subseteq> set es" and "e \<in> set es" and "e \<notin> set rs"
  shows "renumber sid sent (assign sid rs seq) e = e"
proof -
  have "en_id e \<notin> en_id ` set rs" using assms same_envelope by blast
  then have "map_of (assign sid rs seq) (en_id e) = None"
    by (simp add: map_of_eq_None_iff dom_assign)
  then show ?thesis by (simp add: renumber_def)
qed

lemma renumber_numbered:
  assumes "distinct (map en_id es)" and "set rs \<subseteq> set es" and "e \<in> set es"
    and "en_session e = Some sid" and "en_seq e = Some n"
  shows "en_session (renumber sid sent (assign sid rs seq) e) = Some sid
       \<and> en_seq (renumber sid sent (assign sid rs seq) e) = Some n"
proof (cases "map_of (assign sid rs seq) (en_id e)")
  case None
  with assms show ?thesis by (simp add: renumber_def)
next
  case (Some m)
  from assign_in_rows [OF assms(1-3) map_of_SomeD [OF Some]] assms(4,5)
  have "m = n" by (auto simp: numbered_in_def)
  with Some show ?thesis by (simp add: renumber_def)
qed

lemma renumber_assigned:
  assumes "distinct (map en_id rs)" and "(en_id r, n) \<in> set (assign sid rs seq)"
  shows "renumber sid sent (assign sid rs seq) r = set_number sid sent n r"
proof -
  have "map_of (assign sid rs seq) (en_id r) = Some n"
    using assms by (intro map_of_is_SomeI) auto
  then show ?thesis by (simp add: renumber_def)
qed

text \<open>
  The situation of one numbering: a live session \<open>s\<close> of a channel in its invariant, and a batch
  \<open>rs\<close> of distinct pending envelopes of that session's server.
\<close>

definition sends :: "session_row list \<Rightarrow> envelope_row list \<Rightarrow> session_row \<Rightarrow> envelope_row list \<Rightarrow> bool" where
  "sends ss es s rs =
     (chan_inv ss es \<and> s \<in> set ss \<and> ss_ended s = None \<and> set rs \<subseteq> set es
      \<and> distinct (map en_id rs) \<and> (\<forall>r \<in> set rs. pending (ss_server s) r))"

definition sent_rows :: "stamp \<Rightarrow> session_row \<Rightarrow> envelope_row list \<Rightarrow> envelope_row list \<Rightarrow> envelope_row list" where
  "sent_rows sent s rs es =
     map (renumber (ss_id s) sent (assign (ss_id s) rs (ss_outbound_seq s))) es"

definition raise_seq :: "session_row \<Rightarrow> envelope_row list \<Rightarrow> session_row \<Rightarrow> session_row" where
  "raise_seq s rs x = x\<lparr>ss_outbound_seq := ss_outbound_seq s + fresh_count (ss_id s) rs\<rparr>"

definition sent_sessions :: "session_row \<Rightarrow> envelope_row list \<Rightarrow> session_row list \<Rightarrow> session_row list" where
  "sent_sessions s rs ss = update_where (\<lambda>x. ss_id x = ss_id s) (raise_seq s rs) ss"

lemma raise_seq_simps [simp]:
  "ss_id (raise_seq s rs x) = ss_id x" "ss_server (raise_seq s rs x) = ss_server x"
  "ss_ended (raise_seq s rs x) = ss_ended x" "ss_outbound_ack (raise_seq s rs x) = ss_outbound_ack x"
  "ss_outbound_seq (raise_seq s rs x) = ss_outbound_seq s + fresh_count (ss_id s) rs"
  by (simp_all add: raise_seq_def)

lemma sendsD:
  assumes "sends ss es s rs"
  shows "chan_inv ss es" "s \<in> set ss" "ss_ended s = None" "set rs \<subseteq> set es" "distinct (map en_id rs)"
    "\<And>r. r \<in> set rs \<Longrightarrow> pending (ss_server s) r"
    "\<And>r. r \<in> set rs \<Longrightarrow> r \<in> set es \<and> en_server r = ss_server s \<and> en_acked r = None"
    "0 \<le> ss_outbound_ack s" "ss_outbound_ack s \<le> ss_outbound_seq s"
proof -
  from assms have S: "chan_inv ss es" "s \<in> set ss" "ss_ended s = None" "set rs \<subseteq> set es"
    "distinct (map en_id rs)" "\<forall>r \<in> set rs. pending (ss_server s) r"
    unfolding sends_def by blast+
  then show "chan_inv ss es" "s \<in> set ss" "ss_ended s = None" "set rs \<subseteq> set es"
    "distinct (map en_id rs)" "\<And>r. r \<in> set rs \<Longrightarrow> pending (ss_server s) r" by blast+
  show "r \<in> set es \<and> en_server r = ss_server s \<and> en_acked r = None" if "r \<in> set rs" for r
    using S(4,6) that by (auto simp: pending_def)
  show "0 \<le> ss_outbound_ack s" "ss_outbound_ack s \<le> ss_outbound_seq s"
    using chan_invD(3) [OF S(1)] S(2) unfolding acks_bounded_def by blast+
qed

lemma sent_sessions_iff:
  assumes "sends ss es s rs"
  shows "x \<in> set (sent_sessions s rs ss) \<longleftrightarrow> x = raise_seq s rs s \<or> x \<in> set ss \<and> ss_id x \<noteq> ss_id s"
  unfolding sent_sessions_def
  using chan_invD(1) [OF sendsD(1) [OF assms]] sendsD(2) [OF assms] by (rule in_update_session) simp

lemma sends_numbered:
  assumes "sends ss es s rs" and "e \<in> set es" and "numbered_in (ss_id s) e"
  obtains n where "en_seq e = Some n" "en_server e = ss_server s" "1 \<le> n" "n \<le> ss_outbound_seq s"
    "en_acked e \<noteq> None \<longleftrightarrow> n \<le> ss_outbound_ack s"
  using row_ok_numbered [OF chan_invD(1) [OF sendsD(1) [OF assms(1)]] sendsD(2) [OF assms(1)]
      chan_invD(7) [OF sendsD(1) [OF assms(1)] assms(2)] assms(3)] by blast

lemma sent_rows_elim:
  assumes "sends ss es s rs" and "e' \<in> set (sent_rows sent s rs es)"
  obtains (same) "e' \<in> set es" "e' \<notin> set rs"
    | (old) e n where "e \<in> set rs" "e' = set_number (ss_id s) sent n e" "numbered_in (ss_id s) e"
        "en_seq e = Some n" "1 \<le> n" "n \<le> ss_outbound_seq s" "ss_outbound_ack s < n"
    | (new) e n where "e \<in> set rs" "e' = set_number (ss_id s) sent n e" "ss_outbound_seq s < n"
        "n \<le> ss_outbound_seq s + fresh_count (ss_id s) rs"
        "(en_id e, n) \<in> set (assign (ss_id s) rs (ss_outbound_seq s))"
  using assms(2) unfolding sent_rows_def
proof (rule renumber_elim [OF chan_invD(2) [OF sendsD(1) [OF assms(1)]] sendsD(4,5) [OF assms(1)]])
  fix e n
  assume e: "e \<in> set rs" "e' = set_number (ss_id s) sent n e" "numbered_in (ss_id s) e" "en_seq e = Some n"
  from sends_numbered [OF assms(1) conjunct1 [OF sendsD(7) [OF assms(1) e(1)]] e(3)]
  obtain m where m: "en_seq e = Some m" "1 \<le> m" "m \<le> ss_outbound_seq s"
    "en_acked e \<noteq> None \<longleftrightarrow> m \<le> ss_outbound_ack s" by metis
  moreover have "m = n" using m(1) e(4) by simp
  moreover have "en_acked e = None" using sendsD(7) [OF assms(1) e(1)] by blast
  ultimately have "1 \<le> n" "n \<le> ss_outbound_seq s" "ss_outbound_ack s < n" by simp_all
  with e show thesis by (rule old)
qed (blast intro: same new)+

lemma row_okI:
  assumes "x \<in> set ss" and "en_session e = Some (ss_id x)" and "en_seq e = Some n"
    and "en_server e = ss_server x" and "1 \<le> n" and "n \<le> ss_outbound_seq x"
    and "en_acked e \<noteq> None \<longleftrightarrow> n \<le> ss_outbound_ack x"
  shows "row_ok ss e"
  using assms by (auto simp: row_ok_def)

lemma row_okE:
  assumes "row_ok ss e"
  obtains (unsent) "en_session e = None" "en_seq e = None" "en_acked e = None"
    | (sent) x n where "x \<in> set ss" "en_session e = Some (ss_id x)" "en_seq e = Some n"
        "en_server e = ss_server x" "1 \<le> n" "n \<le> ss_outbound_seq x"
        "en_acked e \<noteq> None \<longleftrightarrow> n \<le> ss_outbound_ack x"
  using assms by (auto simp: row_ok_def split: option.splits)

lemma send_row_ok:
  assumes S: "sends ss es s rs" and e: "e \<in> set (sent_rows sent s rs es)"
  shows "row_ok (sent_sessions s rs ss) e"
  using S e
proof (cases rule: sent_rows_elim)
  case same
  from chan_invD(7) [OF sendsD(1) [OF S] same(1)] show ?thesis
  proof (cases rule: row_okE)
    case unsent
    then show ?thesis by (simp add: row_ok_def)
  next
    case (sent x n)
    show ?thesis
    proof (cases "ss_id x = ss_id s")
      case True
      with same_session [OF chan_invD(1) [OF sendsD(1) [OF S]] sent(1) sendsD(2) [OF S]]
      have "x = s" by blast
      moreover have "ss_outbound_seq s \<le> ss_outbound_seq s + fresh_count (ss_id s) rs" by simp
      ultimately show ?thesis using sent
        by (intro row_okI [of "raise_seq s rs s" _ _ n])
          (simp_all add: sent_sessions_iff [OF S] order.trans)
    next
      case False
      with sent show ?thesis by (intro row_okI [of x]) (auto simp: sent_sessions_iff [OF S])
    qed
  qed
next
  case (old x n)
  moreover have "ss_outbound_seq s \<le> ss_outbound_seq s + fresh_count (ss_id s) rs" by simp
  ultimately show ?thesis using sendsD(7) [OF S old(1)]
    by (intro row_okI [of "raise_seq s rs s" _ _ n])
      (simp_all add: sent_sessions_iff [OF S] order.trans)
next
  case (new x n)
  with sendsD(7) [OF S new(1)] sendsD(8,9) [OF S] show ?thesis
    by (intro row_okI [of "raise_seq s rs s" _ _ n]) (auto simp: sent_sessions_iff [OF S])
qed

text \<open>Where the number of a row numbered in the session comes from.\<close>

lemma sent_number_origin:
  assumes S: "sends ss es s rs" and e: "e \<in> set (sent_rows sent s rs es)"
    and ses: "en_session e = Some (ss_id s)"
  obtains (old) x n where "x \<in> set es" "en_id x = en_id e" "numbered_in (ss_id s) x"
      "en_seq x = Some n" "en_seq e = Some n" "n \<le> ss_outbound_seq s"
    | (new) n where "en_seq e = Some n" "ss_outbound_seq s < n"
      "(en_id e, n) \<in> set (assign (ss_id s) rs (ss_outbound_seq s))"
  using S e
proof (cases rule: sent_rows_elim)
  case same
  with chan_invD(7) [OF sendsD(1) [OF S] same(1)] ses have num: "numbered_in (ss_id s) e"
    by (auto simp: numbered_in_def row_ok_def)
  with sends_numbered [OF S same(1) num] same(1) show thesis by (metis old)
next
  case (old x n)
  with sendsD(7) [OF S old(1)] show thesis by (intro that(1) [of x n]) auto
next
  case (new x n)
  then show thesis by (intro that(2) [of n]) auto
qed

lemma send_unique:
  assumes S: "sends ss es s rs"
  shows "seqs_unique (sent_rows sent s rs es)"
  unfolding seqs_unique_def
proof (intro ballI impI)
  fix e f
  assume e: "e \<in> set (sent_rows sent s rs es)" and f: "f \<in> set (sent_rows sent s rs es)"
    and some: "en_session e \<noteq> None" and eq: "en_session e = en_session f" "en_seq e = en_seq f"
  have uniq: "en_id x = en_id y" if "x \<in> set es" "y \<in> set es" "en_session x \<noteq> None"
    "en_session x = en_session y" "en_seq x = en_seq y" for x y
    using chan_invD(4) [OF sendsD(1) [OF S]] that unfolding seqs_unique_def by blast
  show "en_id e = en_id f"
  proof (cases "en_session e = Some (ss_id s)")
    case False
    have "x \<in> set es" if "x \<in> set (sent_rows sent s rs es)" "en_session x \<noteq> Some (ss_id s)" for x
      using S that(1) by (cases rule: sent_rows_elim) (use that(2) in auto)
    with e f eq False have "e \<in> set es" "f \<in> set es" by auto
    with some eq show ?thesis by (blast intro: uniq)
  next
    case True
    have f': "en_session f = Some (ss_id s)" using True eq by simp
    have low: "\<forall>r \<in> set rs. numbered_in (ss_id s) r \<longrightarrow> the (en_seq r) \<le> ss_outbound_seq s"
      using S sendsD(7) [OF S] by (auto elim!: sends_numbered)
    from S e True show ?thesis
    proof (cases rule: sent_number_origin)
      case x: (old x n)
      from S f f' show ?thesis
      proof (cases rule: sent_number_origin)
        case (old y m)
        with x eq uniq [of x y] show ?thesis by (auto simp: numbered_in_def)
      qed (use x eq in auto)
    next
      case x: (new n)
      from S f f' show ?thesis
      proof (cases rule: sent_number_origin)
        case (new m)
        with x eq show ?thesis
          using assign_fresh_inj [OF sendsD(5) [OF S], of "en_id e" n "ss_id s" "ss_outbound_seq s" "en_id f"] low
          by auto
      qed (use x eq in auto)
    qed
  qed
qed

lemma send_no_gaps:
  assumes S: "sends ss es s rs"
  shows "no_gaps (sent_sessions s rs ss) (sent_rows sent s rs es)"
  unfolding no_gaps_def
proof (intro ballI impI allI)
  fix x n
  assume x: "x \<in> set (sent_sessions s rs ss)" and live: "ss_ended x = None"
    and n: "1 \<le> n" "n \<le> ss_outbound_seq x"
  let ?f = "renumber (ss_id s) sent (assign (ss_id s) rs (ss_outbound_seq s))"
  note D = chan_invD [OF sendsD(1) [OF S]] and rs = sendsD(4,5) [OF S]
  have img: "?f e \<in> set (sent_rows sent s rs es)" if "e \<in> set es" for e
    using that by (simp add: sent_rows_def)
  have gap: "\<exists>e \<in> set es. en_session e = Some (ss_id y) \<and> en_seq e = Some n"
    if "y \<in> set ss" "ss_ended y = None" "n \<le> ss_outbound_seq y" for y
    using D(5) that n(1) unfolding no_gaps_def by blast
  show "\<exists>e \<in> set (sent_rows sent s rs es). en_session e = Some (ss_id x) \<and> en_seq e = Some n"
  proof (cases "x = raise_seq s rs s")
    case x: True
    show ?thesis
    proof (cases "n \<le> ss_outbound_seq s")
      case True
      with gap [OF sendsD(2,3) [OF S]] obtain e where
        "e \<in> set es" "en_session e = Some (ss_id s)" "en_seq e = Some n" by blast
      with renumber_numbered [OF D(2) rs(1)] img x show ?thesis by fastforce
    next
      case False
      with n x assign_reaches [of "ss_outbound_seq s" n "ss_id s" rs]
      obtain r where r: "r \<in> set rs" "(en_id r, n) \<in> set (assign (ss_id s) rs (ss_outbound_seq s))" by auto
      from renumber_assigned [OF rs(2) r(2), of sent] img [of r] r(1) rs(1) x
      show ?thesis by (auto intro!: bexI [of _ "set_number (ss_id s) sent n r"])
    qed
  next
    case False
    with x have x: "x \<in> set ss" "ss_id x \<noteq> ss_id s" by (auto simp: sent_sessions_iff [OF S])
    with gap live n obtain e where e: "e \<in> set es" "en_session e = Some (ss_id x)" "en_seq e = Some n"
      by blast
    have "numbered_in (ss_id x) e" using e by (simp add: numbered_in_def)
    with row_ok_numbered [OF D(1) x(1) D(7) [OF e(1)]] have "en_server e = ss_server x" by blast
    then have "e \<notin> set rs"
      using sendsD(6) [OF S, of e] D(6) x live sendsD(2,3) [OF S] unfolding one_live_def pending_def by metis
    with renumber_other [OF D(2) rs(1) e(1)] img [OF e(1)] e show ?thesis by auto
  qed
qed

lemma send_chan:
  assumes S: "sends ss es s rs"
  shows "chan_inv (sent_sessions s rs ss) (sent_rows sent s rs es)"
  unfolding chan_inv_def
proof (intro conjI ballI)
  note D = chan_invD [OF sendsD(1) [OF S]]
  show "ids_distinct (sent_sessions s rs ss) (sent_rows sent s rs es)"
    using D(1,2) by (simp add: ids_distinct_def sent_sessions_def sent_rows_def o_def)
  have "ss_outbound_ack s \<le> ss_outbound_seq s + fresh_count (ss_id s) rs"
    using sendsD(9) [OF S] fresh_count_nonneg [of "ss_id s" rs] by linarith
  with D(3) sendsD(8) [OF S] show "acks_bounded (sent_sessions s rs ss)"
    unfolding acks_bounded_def by (auto simp: sent_sessions_iff [OF S])
  have origin: "\<exists>y \<in> set ss. ss_id y = ss_id x \<and> ss_ended y = ss_ended x \<and> ss_server y = ss_server x"
    if "x \<in> set (sent_sessions s rs ss)" for x
    using that sendsD(2) [OF S] unfolding sent_sessions_iff [OF S] by (elim disjE) force+
  show "one_live (sent_sessions s rs ss)"
    unfolding one_live_def
  proof (intro ballI impI)
    fix x y
    assume "x \<in> set (sent_sessions s rs ss)" "y \<in> set (sent_sessions s rs ss)"
    from origin [OF this(1)] origin [OF this(2)]
    show "ss_ended x = None \<Longrightarrow> ss_ended y = None \<Longrightarrow> ss_server x = ss_server y \<Longrightarrow> ss_id x = ss_id y"
      using D(6) unfolding one_live_def by metis
  qed
  show "seqs_unique (sent_rows sent s rs es)" using S by (rule send_unique)
  show "no_gaps (sent_sessions s rs ss) (sent_rows sent s rs es)" using S by (rule send_no_gaps)
qed (rule send_row_ok [OF S])

subsection \<open>Sending a batch, end to end\<close>

lemma next_outbound_sends:
  assumes inv: "outbound_inv d" and live: "live_session_row d sid live_now = Some s"
  shows "sends (sessions d) (outbound d) s (outbound_batch d (ss_server s) limit)"
    and "next_outbound d sid (ss_server s) limit live_now now =
      (let rs = outbound_batch d (ss_server s) limit in
       Inr (map2 to_outbound rs (map snd (assign sid rs (ss_outbound_seq s))),
            ss_outbound_seq s + fresh_count sid rs, ss_inbound_ack s,
            (if rs = [] then d
             else d\<lparr>outbound := sent_rows (format_time now) s rs (outbound d),
                    sessions := sent_sessions s rs (sessions d)\<rparr>)))"
proof -
  from live_session_rowD [OF live] have s: "s \<in> set (sessions d)" "ss_id s = sid" "ss_ended s = None"
    by auto
  have ch: "chan_inv (sessions d) (outbound d)" using inv by (simp add: outbound_inv_def)
  note b = outbound_batch_props [OF chan_invD(2) [OF ch], of "ss_server s" limit]
  from s ch b show "sends (sessions d) (outbound d) s (outbound_batch d (ss_server s) limit)"
    unfolding sends_def by blast
  show "next_outbound d sid (ss_server s) limit live_now now =
      (let rs = outbound_batch d (ss_server s) limit in
       Inr (map2 to_outbound rs (map snd (assign sid rs (ss_outbound_seq s))),
            ss_outbound_seq s + fresh_count sid rs, ss_inbound_ack s,
            (if rs = [] then d
             else d\<lparr>outbound := sent_rows (format_time now) s rs (outbound d),
                    sessions := sent_sessions s rs (sessions d)\<rparr>)))"
    using next_outbound_eq [OF inv live refl, of "ss_server s" limit now] s
    by (simp add: Let_def sent_rows_def sent_sessions_def raise_seq_def [abs_def])
qed

lemma next_outbound_inv:
  assumes inv: "outbound_inv d" and live: "live_session_row d sid live_now = Some s"
    and "next_outbound d sid (ss_server s) limit live_now now = Inr (out, seq, ack, d')"
  shows "outbound_inv d'"
  using assms(3) next_outbound_sends [OF inv live] send_chan [of "sessions d" "outbound d" s] inv
  by (auto simp: Let_def outbound_inv_def split: if_splits)

text \<open>The row behind one envelope of the answer.\<close>

lemma map2_to_outbound:
  assumes "o' \<in> set (map2 to_outbound rs (map snd (assign sid rs seq)))"
  obtains r n where "r \<in> set rs" "o' = to_outbound r n" "(en_id r, n) \<in> set (assign sid rs seq)"
proof -
  let ?as = "assign sid rs seq"
  have len: "length ?as = length rs" using map_fst_assign [of sid rs seq] by (metis length_map)
  from assms obtain r n where rn: "(r, n) \<in> set (zip rs (map snd ?as))" and o': "o' = to_outbound r n"
    by auto
  then obtain i where i: "i < length rs" "r = rs ! i" "n = snd (?as ! i)"
    using len by (auto simp: in_set_zip)
  have "fst (?as ! i) = en_id r"
  proof -
    have "map fst ?as ! i = map en_id rs ! i" by (simp only: map_fst_assign)
    then show ?thesis using i len by (simp del: map_fst_assign)
  qed
  with i len have "(en_id r, n) \<in> set ?as" by (metis nth_mem prod.collapse)
  moreover have "r \<in> set rs" using i by simp
  ultimately show thesis using that [OF _ o'] by blast
qed

lemma map_id_map2_to_outbound:
  "map oe_id (map2 to_outbound rs (map snd (assign sid rs seq))) = map en_id rs"
  by (induction rs arbitrary: seq) (auto simp: to_outbound_def)

subsection \<open>The ack\<close>

definition set_acked :: "stamp \<Rightarrow> envelope_row \<Rightarrow> envelope_row" where
  "set_acked t e = e\<lparr>en_acked := Some t\<rparr>"

definition raise_ack :: "int \<Rightarrow> session_row \<Rightarrow> session_row" where
  "raise_ack a s = s\<lparr>ss_outbound_ack := a\<rparr>"

lemma set_acked_simps [simp]:
  "en_id (set_acked t e) = en_id e" "en_server (set_acked t e) = en_server e"
  "en_session (set_acked t e) = en_session e" "en_seq (set_acked t e) = en_seq e"
  "en_acked (set_acked t e) = Some t"
  by (simp_all add: set_acked_def)

lemma raise_ack_simps [simp]:
  "ss_id (raise_ack a s) = ss_id s" "ss_server (raise_ack a s) = ss_server s"
  "ss_ended (raise_ack a s) = ss_ended s" "ss_outbound_seq (raise_ack a s) = ss_outbound_seq s"
  "ss_outbound_ack (raise_ack a s) = a"
  by (simp_all add: raise_ack_def)

text \<open>An update of rows that keeps id, server, session and number.\<close>

definition same_place :: "envelope_row \<Rightarrow> envelope_row \<Rightarrow> bool" where
  "same_place e f \<longleftrightarrow> en_id f = en_id e \<and> en_server f = en_server e \<and> en_session f = en_session e
     \<and> en_seq f = en_seq e"

lemma unique_update:
  assumes "seqs_unique es" and "\<And>e. same_place e (f e)"
  shows "seqs_unique (map f es)"
  using assms unfolding seqs_unique_def same_place_def by (auto 0 4)

lemma no_gaps_update:
  assumes "no_gaps ss es" and "\<And>e. same_place e (f e)"
    and "\<And>x. ss_id (g x) = ss_id x \<and> ss_ended (g x) = ss_ended x \<and> ss_outbound_seq (g x) = ss_outbound_seq x"
  shows "no_gaps (map g ss) (map f es)"
  unfolding no_gaps_def
proof (intro ballI impI allI)
  fix y n
  assume "y \<in> set (map g ss)" and y: "ss_ended y = None" "1 \<le> n" "n \<le> ss_outbound_seq y"
  then obtain x where x: "x \<in> set ss" "y = g x" by auto
  with y assms(1,3) obtain e where e: "e \<in> set es" "en_session e = Some (ss_id x)" "en_seq e = Some n"
    unfolding no_gaps_def by metis
  with assms(2) [of e] assms(3) [of x] x(2) e
  show "\<exists>e \<in> set (map f es). en_session e = Some (ss_id y) \<and> en_seq e = Some n"
    by (intro bexI [of _ "f e"]) (auto simp: same_place_def)
qed

lemma one_live_update:
  assumes "one_live ss"
    and "\<And>x. ss_id (g x) = ss_id x \<and> ss_ended (g x) = ss_ended x \<and> ss_server (g x) = ss_server x"
  shows "one_live (map g ss)"
  unfolding one_live_def
proof (intro ballI impI)
  fix x y
  assume "x \<in> set (map g ss)" "y \<in> set (map g ss)" and xy: "ss_ended x = None" "ss_ended y = None"
    "ss_server x = ss_server y"
  then obtain u v where "u \<in> set ss" "v \<in> set ss" "x = g u" "y = g v" by auto
  with assms xy show "ss_id x = ss_id y" unfolding one_live_def by metis
qed

lemma ack_row_ok:
  assumes inv: "chan_inv ss es" and s: "s \<in> set ss" and e: "e \<in> set es"
    and ack: "ss_outbound_ack s < ack" "ack \<le> ss_outbound_seq s"
  shows "row_ok (update_where (\<lambda>x. ss_id x = ss_id s) (raise_ack ack) ss)
     (if ack_covers (ss_id s) ack e then set_acked t e else e)"
proof -
  note D = chan_invD [OF inv]
  have mem: "x \<in> set (update_where (\<lambda>x. ss_id x = ss_id s) (raise_ack ack) ss) \<longleftrightarrow>
    x = raise_ack ack s \<or> x \<in> set ss \<and> ss_id x \<noteq> ss_id s" for x
    using D(1) s by (intro in_update_session) auto
  from D(7) [OF e] show ?thesis
  proof (cases rule: row_okE)
    case unsent
    then show ?thesis by (simp add: row_ok_def ack_covers_def)
  next
    case (sent x n)
    show ?thesis
    proof (cases "ss_id x = ss_id s")
      case True
      with same_session [OF D(1) sent(1) s] have x: "x = s" by blast
      show ?thesis
      proof (rule row_okI [of "raise_ack ack s" _ _ n])
        show "en_acked (if ack_covers (ss_id s) ack e then set_acked t e else e) \<noteq> None
            \<longleftrightarrow> n \<le> ss_outbound_ack (raise_ack ack s)"
          using sent(2,3,7) x ack(1) by (auto simp: ack_covers_def)
      qed (use sent(2-6) x mem in auto)
    next
      case False
      then have "\<not> ack_covers (ss_id s) ack e" using sent(2) by (simp add: ack_covers_def)
      with sent False mem show ?thesis by (intro row_okI [of x _ _ n]) auto
    qed
  qed
qed

lemma ack_chan:
  assumes inv: "chan_inv ss es" and s: "s \<in> set ss"
    and ack: "ss_outbound_ack s < ack" "ack \<le> ss_outbound_seq s"
  shows "chan_inv (update_where (\<lambda>x. ss_id x = ss_id s) (raise_ack ack) ss)
     (update_where (ack_covers (ss_id s) ack) (set_acked t) es)"
  unfolding chan_inv_def
proof (intro conjI)
  note D = chan_invD [OF inv]
  have place: "same_place e (if ack_covers (ss_id s) ack e then set_acked t e else e)" for e
    by (simp add: same_place_def)
  show "ids_distinct (update_where (\<lambda>x. ss_id x = ss_id s) (raise_ack ack) ss)
     (update_where (ack_covers (ss_id s) ack) (set_acked t) es)"
    using D(1,2) by (simp add: ids_distinct_def map_update_where)
  have "0 \<le> ss_outbound_ack s" using D(3) s by (auto simp: acks_bounded_def)
  with D(3) ack show "acks_bounded (update_where (\<lambda>x. ss_id x = ss_id s) (raise_ack ack) ss)"
    using same_session [OF D(1) s] by (fastforce simp: acks_bounded_def set_update_where)
  show "seqs_unique (update_where (ack_covers (ss_id s) ack) (set_acked t) es)"
    unfolding update_where_def by (rule unique_update [OF D(4) place])
  show "no_gaps (update_where (\<lambda>x. ss_id x = ss_id s) (raise_ack ack) ss)
     (update_where (ack_covers (ss_id s) ack) (set_acked t) es)"
    unfolding update_where_def by (rule no_gaps_update [OF D(5) place]) simp
  show "one_live (update_where (\<lambda>x. ss_id x = ss_id s) (raise_ack ack) ss)"
    unfolding update_where_def by (rule one_live_update [OF D(6)]) simp
  show "\<forall>e \<in> set (update_where (ack_covers (ss_id s) ack) (set_acked t) es).
      row_ok (update_where (\<lambda>x. ss_id x = ss_id s) (raise_ack ack) ss) e"
  proof
    fix e
    assume "e \<in> set (update_where (ack_covers (ss_id s) ack) (set_acked t) es)"
    then obtain x where "x \<in> set es" "e = (if ack_covers (ss_id s) ack x then set_acked t x else x)"
      unfolding set_update_where by blast
    with ack_row_ok [OF inv s _ ack, of x t]
    show "row_ok (update_where (\<lambda>x. ss_id x = ss_id s) (raise_ack ack) ss) e" by simp
  qed
qed

lemma mark_delivered_channel [simp]:
  "sessions (mark_delivered d sid ack now) = sessions d"
  "outbound (mark_delivered d sid ack now) = outbound d"
  by (simp_all add: mark_delivered_def with_actions_def)

lemma ack_outbound_inv:
  assumes "outbound_inv d" and "ack_outbound d sid ack live_now now = Inr d'"
  shows "outbound_inv d'"
proof (cases "d' = d")
  case True
  with assms(1) show ?thesis by simp
next
  case False
  with assms(2) obtain s where s: "live_session_row d sid live_now = Some s"
    and ack: "ss_outbound_ack s < ack" "ack \<le> ss_outbound_seq s"
    and d': "d' = mark_delivered (d\<lparr>outbound := update_where (ack_covers sid ack)
                 (\<lambda>e. e\<lparr>en_acked := Some (format_time now)\<rparr>) (outbound d),
               sessions := update_where (\<lambda>x. ss_id x = sid) (\<lambda>x. x\<lparr>ss_outbound_ack := ack\<rparr>) (sessions d)\<rparr>)
            sid ack now"
    by (auto simp: ack_outbound_def split: if_splits option.splits)
  from live_session_rowD [OF s] have s: "s \<in> set (sessions d)" "ss_id s = sid" by auto
  have ch: "chan_inv (sessions d) (outbound d)" using assms(1) by (simp add: outbound_inv_def)
  have eqs: "set_acked t = (\<lambda>e. e\<lparr>en_acked := Some t\<rparr>)" "raise_ack ack = (\<lambda>x. x\<lparr>ss_outbound_ack := ack\<rparr>)" for t
    by (simp_all add: fun_eq_iff set_acked_def raise_ack_def)
  from ack_chan [OF ch s(1) ack, of "format_time now"] s(2) eqs
  show ?thesis by (simp add: outbound_inv_def d')
qed

subsection \<open>What a poll returns\<close>

lemma insort_map_key:
  "(\<And>x. k (f x) = k x) \<Longrightarrow> insort_key k (f x) (map f xs) = map f (insort_key k x xs)"
  by (induction xs) auto

lemma sort_map_key: "(\<And>x. k (f x) = k x) \<Longrightarrow> sort_key k (map f xs) = map f (sort_key k xs)"
proof (induction xs)
  case (Cons x xs)
  then have "sort_key k (map f xs) = map f (sort_key k xs)" by blast
  with insort_map_key [of k f, OF Cons.prems] show ?case by simp
qed simp

lemma outbound_batch_map:
  assumes "\<And>e. en_created (f e) = en_created e \<and> en_id (f e) = en_id e \<and> pending server (f e) = pending server e"
    and "outbound d' = map f (outbound d)"
  shows "outbound_batch d' server limit = map f (outbound_batch d server limit)"
proof -
  have "filter (pending server) (map f es) = map f (filter (pending server) es)" for es
    using assms(1) by (simp add: filter_map o_def)
  moreover have "sort_key (\<lambda>e. (en_created e, en_id e)) (map f es) = map f (sort_key (\<lambda>e. (en_created e, en_id e)) es)" for es
    using assms(1) by (intro sort_map_key) simp
  ultimately show ?thesis by (simp add: outbound_batch_def assms(2) sql_limit_def take_map)
qed

lemma renumber_keeps [simp]:
  "en_created (renumber sid sent as e) = en_created e"
  "en_type (renumber sid sent as e) = en_type e"
  "en_body (renumber sid sent as e) = en_body e"
  "pending server (renumber sid sent as e) = pending server e"
  by (simp_all add: renumber_def pending_def split: option.split)

lemma map2_to_outbound_renumber [simp]:
  "map2 to_outbound (map (renumber sid sent as) rs) ns = map2 to_outbound rs ns"
  by (induction rs arbitrary: ns) (simp_all add: to_outbound_def zip_Cons1 split: list.splits)

lemma map_of_distinct_keys:
  "distinct (map fst as) \<Longrightarrow> as = map (\<lambda>k. (k, the (map_of as k))) (map fst as)"
proof (induction as)
  case (Cons a as)
  obtain k v where a: "a = (k, v)" by fastforce
  have k: "k \<notin> set (map fst as)" using Cons.prems a by auto
  have "map (\<lambda>x. (x, the (map_of ((k, v) # as) x))) (map fst as)
      = map (\<lambda>x. (x, the (map_of as x))) (map fst as)"
    using k by (intro map_cong) (auto simp del: set_map)
  also have "\<dots> = as" using Cons by simp
  finally show ?case unfolding a by simp
qed simp

lemma assign_all_numbered:
  "\<forall>r \<in> set rs. numbered_in sid r \<Longrightarrow>
   assign sid rs seq = map (\<lambda>r. (en_id r, the (en_seq r))) rs \<and> fresh_count sid rs = 0"
  by (induction rs) auto

lemma assign_renumbered:
  assumes "distinct (map en_id rs)" and F_def: "F = renumber sid sent (assign sid rs seq)"
  shows "(\<forall>r \<in> set (map F rs). numbered_in sid r)
    \<and> assign sid (map F rs) seq' = assign sid rs seq \<and> fresh_count sid (map F rs) = 0"
proof -
  let ?as = "assign sid rs seq"
  have num: "numbered_in sid (F r) \<and> the (en_seq (F r)) = the (map_of ?as (en_id r))"
    if "r \<in> set rs" for r
  proof -
    have "en_id r \<in> fst ` set ?as" using that by (simp add: dom_assign)
    then obtain n where "map_of ?as (en_id r) = Some n" by (meson map_of_eq_None_iff option.exhaust)
    then show ?thesis by (simp add: F_def renumber_def numbered_in_def)
  qed
  then have all: "\<forall>r \<in> set (map F rs). numbered_in sid r" by simp
  have "?as = map (\<lambda>k. (k, the (map_of ?as k))) (map en_id rs)"
    using map_of_distinct_keys [of ?as] assms(1) by simp
  also have "\<dots> = map (\<lambda>r. (en_id r, the (en_seq r))) (map F rs)"
    using num by (simp add: F_def)
  finally show ?thesis using assign_all_numbered [OF all] all by simp
qed

lemma sends_low:
  assumes S: "sends ss es s rs" and "r \<in> set rs" and "numbered_in (ss_id s) r"
  shows "ss_outbound_ack s < the (en_seq r) \<and> the (en_seq r) \<le> ss_outbound_seq s"
proof -
  note r = sendsD(7) [OF S assms(2)]
  from sends_numbered [OF S conjunct1 [OF r] assms(3)] obtain m where
    "en_seq r = Some m" "m \<le> ss_outbound_seq s" "en_acked r \<noteq> None \<longleftrightarrow> m \<le> ss_outbound_ack s" by metis
  with r show ?thesis by simp
qed

lemma sends_assign_range:
  assumes S: "sends ss es s rs" and i: "(i, n) \<in> set (assign (ss_id s) rs (ss_outbound_seq s))"
  shows "ss_outbound_ack s < n \<and> n \<le> ss_outbound_seq s + fresh_count (ss_id s) rs"
  using assign_cases [OF i]
proof (elim disjE bexE conjE)
  fix r assume "r \<in> set rs" "numbered_in (ss_id s) r" "n = the (en_seq r)"
  with sends_low [OF S] have "ss_outbound_ack s < n" "n \<le> ss_outbound_seq s" by auto
  with fresh_count_nonneg [of "ss_id s" rs] show ?thesis by linarith
next
  assume "ss_outbound_seq s < n" "n \<le> ss_outbound_seq s + fresh_count (ss_id s) rs"
  with sendsD(9) [OF S] show ?thesis by linarith
qed

lemma sends_assign_inj:
  assumes S: "sends ss es s rs"
    and i: "(i, n) \<in> set (assign (ss_id s) rs (ss_outbound_seq s))"
    and j: "(j, n) \<in> set (assign (ss_id s) rs (ss_outbound_seq s))"
  shows "i = j"
proof (cases "ss_outbound_seq s < n")
  case True
  with assign_fresh_inj [OF sendsD(5) [OF S] i j] sends_low [OF S] show ?thesis by blast
next
  case False
  with assign_cases [OF i] obtain x where
    x: "x \<in> set rs" "en_id x = i" "numbered_in (ss_id s) x" "n = the (en_seq x)" by auto
  from False assign_cases [OF j] obtain y where
    y: "y \<in> set rs" "en_id y = j" "numbered_in (ss_id s) y" "n = the (en_seq y)" by auto
  from x y have "en_session x \<noteq> None" "en_session x = en_session y" "en_seq x = en_seq y"
    by (auto simp: numbered_in_def)
  with x y sendsD(4) [OF S] chan_invD(4) [OF sendsD(1) [OF S]] show ?thesis
    unfolding seqs_unique_def by blast
qed

lemma map2_to_outbound_seq:
  "o' \<in> set (map2 to_outbound rs (map snd (assign sid rs seq))) \<Longrightarrow>
   (oe_id o', oe_seq o') \<in> set (assign sid rs seq)"
  by (erule map2_to_outbound) (simp add: to_outbound_def)

lemma next_outbound_assigns:
  assumes inv: "outbound_inv d" and live: "live_session_row d sid live_now = Some s"
  shows "\<exists>out seq d'. next_outbound d sid (ss_server s) limit live_now now
        = Inr (out, seq, ss_inbound_ack s, d')
      \<and> outbound_inv d'
      \<and> map oe_id out = map en_id (outbound_batch d (ss_server s) limit)
      \<and> map en_id (outbound d') = map en_id (outbound d)
      \<and> (\<forall>x \<in> set out. \<forall>y \<in> set out. oe_seq x = oe_seq y \<longrightarrow> oe_id x = oe_id y)
      \<and> (\<forall>o' \<in> set out. ss_outbound_ack s < oe_seq o' \<and> oe_seq o' \<le> seq)"
proof -
  let ?rs = "outbound_batch d (ss_server s) limit"
  let ?out = "map2 to_outbound ?rs (map snd (assign sid ?rs (ss_outbound_seq s)))"
  note S = next_outbound_sends(1) [OF inv live, of limit]
  have sid: "ss_id s = sid" using live_session_rowD [OF live] by simp
  obtain d' where d': "d' = (if ?rs = [] then d
             else d\<lparr>outbound := sent_rows (format_time now) s ?rs (outbound d),
                    sessions := sent_sessions s ?rs (sessions d)\<rparr>)" by blast
  have step: "next_outbound d sid (ss_server s) limit live_now now
      = Inr (?out, ss_outbound_seq s + fresh_count sid ?rs, ss_inbound_ack s, d')"
    using next_outbound_sends(2) [OF inv live, of limit now] by (simp add: Let_def d')
  have ids: "map en_id (outbound d') = map en_id (outbound d)"
    by (simp add: d' sent_rows_def o_def)
  have uniq: "\<forall>x \<in> set ?out. \<forall>y \<in> set ?out. oe_seq x = oe_seq y \<longrightarrow> oe_id x = oe_id y"
    using sends_assign_inj [OF S, unfolded sid] map2_to_outbound_seq by metis
  have range: "\<forall>o' \<in> set ?out. ss_outbound_ack s < oe_seq o' \<and> oe_seq o' \<le> ss_outbound_seq s + fresh_count sid ?rs"
    using sends_assign_range [OF S, unfolded sid] map2_to_outbound_seq by blast
  from step next_outbound_inv [OF inv live step] map_id_map2_to_outbound [of ?rs sid "ss_outbound_seq s"]
    ids uniq range show ?thesis by blast
qed

text \<open>
  C3. A poll on a live session always gets an answer: the oldest pending envelopes of its server,
  in order and each once, with distinct sequence numbers above everything the plugin has acked
  and up to the session's new highest number; no row is lost, and the queue keeps its invariant.
\<close>

theorem next_outbound_delivers:
  assumes inv: "outbound_inv d" and live: "live_session_row d sid live_now = Some s"
  shows "\<exists>out seq d'. next_outbound d sid (ss_server s) limit live_now now
        = Inr (out, seq, ss_inbound_ack s, d')
      \<and> outbound_inv d'
      \<and> map oe_id out = map en_id (outbound_batch d (ss_server s) limit)
      \<and> map en_id (outbound d') = map en_id (outbound d)
      \<and> (\<forall>x \<in> set out. \<forall>y \<in> set out. oe_seq x = oe_seq y \<longrightarrow> oe_id x = oe_id y)
      \<and> (\<forall>o' \<in> set out. ss_outbound_ack s < oe_seq o' \<and> oe_seq o' \<le> seq)"
  using assms by (rule next_outbound_assigns)

text \<open>A database with one enrolled server, its live session and two envelopes, one already sent.\<close>

definition sample_server :: server_row where
  "sample_server = \<lparr>sv_id = ''s1'', sv_name = ''one'', sv_game = ''dayz'', sv_created = 0,
     sv_secret = ''h'', sv_enrolled = Some 0, sv_revoked = None, sv_plugin_name = '''',
     sv_plugin_version = '''', sv_transports = '''', sv_last_seen = None, sv_link_state = ''unknown'',
     sv_bans_revision = None, sv_bans_at = None\<rparr>"

definition sample_session :: session_row where
  "sample_session = \<lparr>ss_id = ''S'', ss_token = ''t'', ss_server = ''s1'', ss_created = 0,
     ss_expires = 1000, ss_ended = None, ss_end_reason = '''', ss_protocol = 1, ss_poll_timeout = 30,
     ss_outbound_seq = 1, ss_outbound_ack = 0, ss_inbound_ack = 0, ss_inbound_count = 0\<rparr>"

definition sample_sent :: envelope_row where
  "sample_sent = \<lparr>en_id = ''e1'', en_server = ''s1'', en_type = ''core.ping'', en_body = ''{}'',
     en_created = 1, en_session = Some ''S'', en_seq = Some 1, en_sent = Some 1, en_acked = None\<rparr>"

definition sample_queued :: envelope_row where
  "sample_queued = new_outbound ''e2'' ''s1'' ''core.ping'' ''{}'' 2000000"

definition sample_link :: db where
  "sample_link = empty_db\<lparr>servers := [sample_server], sessions := [sample_session],
     outbound := [sample_sent, sample_queued]\<rparr>"

lemma sample_link_simps [simp]:
  "servers sample_link = [sample_server]" "sessions sample_link = [sample_session]"
  "outbound sample_link = [sample_sent, sample_queued]"
  by (simp_all add: sample_link_def)

lemmas sample_link_defs = sample_server_def sample_session_def sample_sent_def sample_queued_def
  new_outbound_def format_time_def nanos_per_milli_def

lemma sample_link_inv [simp]: "outbound_inv sample_link"
  by (auto simp: outbound_inv_def chan_inv_def chan_defs row_ok_def sample_link_defs)

lemma sample_link_live [simp]: "live_session_row sample_link ''S'' 0 = Some sample_session"
  by (simp add: live_session_row_def sample_link_defs)

lemma sample_link_batch [simp]: "outbound_batch sample_link ''s1'' 10 = [sample_sent, sample_queued]"
  by (simp add: outbound_batch_def pending_def sample_link_defs sql_limit_def)

theorem next_outbound_delivers_witness:
  "\<exists>out seq d'. next_outbound sample_link ''S'' ''s1'' 10 0 0 = Inr (out, seq, 0, d')
     \<and> outbound_inv d' \<and> map oe_id out = [''e1'', ''e2'']"
proof -
  have "ss_server sample_session = ''s1''" "ss_inbound_ack sample_session = 0"
    "map en_id [sample_sent, sample_queued] = [''e1'', ''e2'']"
    by (simp_all add: sample_link_defs)
  then show ?thesis
    using next_outbound_delivers [OF sample_link_inv sample_link_live, of 10 0] by auto
qed

text \<open>
  Delivery is at least once with stable numbers: if the plugin acks nothing and nothing is
  queued in between, polling again on the session returns exactly the same envelopes with the same ids,
  bodies and sequence numbers.
\<close>

lemma next_outbound_retransmits:
  assumes inv: "outbound_inv d" and live: "live_session_row d sid live_now = Some s"
    and first: "next_outbound d sid (ss_server s) limit live_now now = Inr (out, seq, ack, d')"
    and still: "live_session_row d' sid later_live = Some s'"
  shows "\<exists>d''. next_outbound d' sid (ss_server s') limit later_live later = Inr (out, seq, ack, d'')"
proof -
  let ?rs = "outbound_batch d (ss_server s) limit"
  let ?as = "assign sid ?rs (ss_outbound_seq s)"
  let ?f = "renumber sid (format_time now) ?as"
  note S = next_outbound_sends(1) [OF inv live, of limit]
    and eq = next_outbound_sends(2) [OF inv live, of limit now]
  have inv': "outbound_inv d'" using next_outbound_inv [OF inv live first] .
  have sid: "ss_id s = sid" "s \<in> set (sessions d)" using live_session_rowD [OF live] by auto
  have s'_in: "s' \<in> set (sessions d')" "ss_id s' = sid" using live_session_rowD [OF still] by auto
  show ?thesis
  proof (cases "?rs = []")
    case True
    with eq first have "d' = d" by (simp add: Let_def)
    with s'_in sid chan_invD(1) [OF inv [unfolded outbound_inv_def]] have "s' = s"
      using same_session by metis
    with next_outbound_sends(2) [OF inv, of sid later_live s' limit later] still first eq \<open>d' = d\<close> True
    show ?thesis by (simp add: Let_def)
  next
    case False
    with eq first have out: "out = map2 to_outbound ?rs (map snd ?as)" "seq = ss_outbound_seq s + fresh_count sid ?rs"
        "ack = ss_inbound_ack s" and ob: "outbound d' = map ?f (outbound d)"
      and ses: "sessions d' = sent_sessions s ?rs (sessions d)"
      by (auto simp: Let_def sent_rows_def sid)
    from s'_in have s': "s' = raise_seq s ?rs s" unfolding ses sent_sessions_iff [OF S] sid by blast
    have batch: "outbound_batch d' (ss_server s') limit = map ?f ?rs"
      using outbound_batch_map [OF _ ob] s' by simp
    from next_outbound_sends(2) [OF inv' still, of limit later] batch
      assign_renumbered [OF sendsD(5) [OF S] refl, of sid "format_time now" "ss_outbound_seq s" "ss_outbound_seq s'"]
    show ?thesis by (auto simp: Let_def out s' sid raise_seq_def)
  qed
qed

lemma next_outbound_retransmits_witness:
  "\<exists>out seq ack d' d''. next_outbound sample_link ''S'' ''s1'' 10 0 0 = Inr (out, seq, ack, d')
     \<and> next_outbound d' ''S'' ''s1'' 10 1 5000000 = Inr (out, seq, ack, d'') \<and> length out = 2"
proof -
  have srv: "ss_server sample_session = ''s1''" by (simp add: sample_session_def)
  let ?rs = "[sample_sent, sample_queued]"
  from next_outbound_sends(2) [OF sample_link_inv sample_link_live, of 10 0] srv obtain out seq ack where
    step: "next_outbound sample_link ''S'' (ss_server sample_session) 10 0 0
      = Inr (out, seq, ack, sample_link\<lparr>outbound := sent_rows (format_time 0) sample_session ?rs (outbound sample_link),
           sessions := sent_sessions sample_session ?rs (sessions sample_link)\<rparr>)"
    and len: "length out = 2" by (auto simp: Let_def)
  let ?d' = "sample_link\<lparr>outbound := sent_rows (format_time 0) sample_session ?rs (outbound sample_link),
           sessions := sent_sessions sample_session ?rs (sessions sample_link)\<rparr>"
  have "live_session_row ?d' ''S'' 1 = Some (raise_seq sample_session ?rs sample_session)"
    by (simp add: live_session_row_def sent_sessions_def raise_seq_def sample_link_defs)
  from next_outbound_retransmits [OF sample_link_inv sample_link_live step this] step len srv
  show ?thesis by fastforce
qed

lemma ack_outbound_cases:
  assumes live: "live_session_row d sid live_now = Some s"
  shows "ack_outbound d sid ack live_now now =
    (if ack \<le> 0 \<or> ack \<le> ss_outbound_seq s \<and> ack \<le> ss_outbound_ack s then Inr d
     else if ack > ss_outbound_seq s then Inl ErrAckOutOfRange
     else Inr (mark_delivered
            (d\<lparr>outbound := update_where (ack_covers sid ack) (set_acked (format_time now)) (outbound d),
               sessions := update_where (\<lambda>x. ss_id x = sid) (raise_ack ack) (sessions d)\<rparr>) sid ack now))"
proof -
  have eqs: "set_acked t = (\<lambda>e. e\<lparr>en_acked := Some t\<rparr>)" "raise_ack ack = (\<lambda>x. x\<lparr>ss_outbound_ack := ack\<rparr>)" for t
    by (simp_all add: fun_eq_iff set_acked_def raise_ack_def)
  show ?thesis 
    unfolding eqs ack_outbound_def live option.case
    by (cases "ack \<le> 0"; cases "ack > ss_outbound_seq s"; cases "ack \<le> ss_outbound_ack s") simp_all
qed

lemma ack_outbound_raises:
  assumes inv: "outbound_inv d" and live: "live_session_row d sid live_now = Some s"
    and "ack_outbound d sid ack live_now now = Inr d'" and s': "s' \<in> set (sessions d')" "ss_id s' = sid"
  shows "ack \<le> ss_outbound_ack s'"
proof -
  have s: "s \<in> set (sessions d)" "ss_id s = sid" using live_session_rowD [OF live] by auto
  have dist: "distinct (map ss_id (sessions d))" using chan_invD(1) inv by (auto simp: outbound_inv_def)
  from inv s have "0 \<le> ss_outbound_ack s"
    by (auto simp: outbound_inv_def chan_inv_def acks_bounded_def)
  with assms(3) ack_outbound_cases [OF live, of ack now] consider
    "d' = d" "ack \<le> ss_outbound_ack s"
    | "sessions d' = update_where (\<lambda>x. ss_id x = sid) (raise_ack ack) (sessions d)"
    by (auto split: if_splits)
  then show ?thesis
  proof cases
    case 1
    with same_session [OF dist s(1), of s'] s s' show ?thesis by simp
  next
    case 2
    with s'(1) have "s' \<in> set (update_where (\<lambda>x. ss_id x = sid) (raise_ack ack) (sessions d))" by simp
    then show ?thesis by (rule update_whereE) (use s'(2) in auto)
  qed
qed


lemma sample_ack:
  obtains d' where "ack_outbound sample_link ''S'' 1 0 0 = Inr d'"
    "outbound d' = [set_acked 0 sample_sent, sample_queued]" "sessions d' = [raise_ack 1 sample_session]"
  using ack_outbound_cases [OF sample_link_live, of 1 0]
  by (simp add: sample_link_defs ack_covers_def set_acked_def raise_ack_def)


text \<open>
  Queueing is bounded: it is refused for an unknown server and, under a positive bound,
  exactly when the bound is reached; an accepted envelope is appended, its server's pending count
  grows by one and stays within the bound, and no other server's count moves.
\<close>

lemma queue_envelope_bounded:
  assumes "outbound_inv d" and "0 < limit" and "eid \<notin> en_id ` set (outbound d)"
  shows "case queue_envelope d server ty body limit eid now of
      Inl err \<Rightarrow> err = ErrNotFound \<and> \<not> lock_server d server
        \<or> err = ErrOutboundQueueFull \<and> lock_server d server \<and> limit \<le> pending_envelope_count d server
    | Inr (e, d') \<Rightarrow> lock_server d server \<and> outbound d' = outbound d @ [e] \<and> outbound_inv d'
        \<and> pending_envelope_count d' server = pending_envelope_count d server + 1
        \<and> pending_envelope_count d' server \<le> limit
        \<and> (\<forall>t. t \<noteq> server \<longrightarrow> pending_envelope_count d' t = pending_envelope_count d t)"
proof (cases "queue_envelope d server ty body limit eid now")
  case (Inl err)
  then show ?thesis using assms(3)
    by (auto simp: queue_envelope_def queue_outbound_def insert_outbound_def new_outbound_def exists_row_def
        pending_envelope_count_def Let_def split: if_splits)
next
  case (Inr r)
  obtain e d' where r: "r = (e, d')" by fastforce
  let ?e = "new_outbound eid server ty body now"
  from Inr r have ins: "insert_outbound d server ?e limit = Inr d'" and e: "e = ?e" and srv: "lock_server d server"
    by (auto simp: queue_envelope_def queue_outbound_def Let_def split: if_splits sum.splits)
  from ins have d': "d' = d\<lparr>outbound := outbound d @ [?e]\<rparr>" "\<not> limit \<le> affected (pending server) (outbound d)"
    using assms(2) by (auto simp: insert_outbound_def split: if_splits)
  have "pending_envelope_count d' t = pending_envelope_count d t + (if t = server then 1 else 0)" for t
    by (simp add: pending_envelope_count_def d' affected_def pending_def new_outbound_def)
  with Inr r e srv d' insert_outbound_chan [OF ins assms(1)] show ?thesis
    by (simp add: pending_envelope_count_def)
qed

lemma queue_envelope_bounded_witness:
  "case queue_envelope sample_link ''s1'' ''core.ping'' ''{}'' 3 ''e3'' 0 of
     Inl err \<Rightarrow> False | Inr (e, d') \<Rightarrow> outbound_inv d' \<and> pending_envelope_count d' ''s1'' \<le> 3"
proof -
  have "''e3'' \<notin> en_id ` set (outbound sample_link)" by (simp add: sample_link_defs)
  from queue_envelope_bounded [OF sample_link_inv _ this, of 3 "''s1''" "''core.ping''" "''{}''" 0]
  have "case queue_envelope sample_link ''s1'' ''core.ping'' ''{}'' 3 ''e3'' 0 of
      Inl err \<Rightarrow> \<not> lock_server sample_link ''s1'' \<or> 3 \<le> pending_envelope_count sample_link ''s1''
    | Inr (e, d') \<Rightarrow> outbound_inv d' \<and> pending_envelope_count d' ''s1'' \<le> 3"
    by (auto split: sum.splits)
  moreover have "lock_server sample_link ''s1''" "pending_envelope_count sample_link ''s1'' = 2"
    by (simp_all add: lock_server_def exists_row_def pending_envelope_count_def affected_def pending_def sample_link_defs)
  ultimately show ?thesis by (auto split: sum.splits)
qed

end
