(* ===== verification/Pattern.thy ===== *)
theory Pattern
  imports Prelude
begin

text \<open>
  hub/internal/pattern/pattern.go and hub/internal/webhook/match.go: the one pattern grammar
  that access scopes and webhook filters share, and the decision which notifications one
  webhook receives.

  The contract a matcher offers its clients is the locale \<open>namespace_matcher\<close>; the code's
  \<open>Match\<close> is its interpretation, and the scope checks of theory \<open>Scope\<close> rest on it.
\<close>

subsection \<open>String primitives\<close>

text \<open>\<open>strings.HasSuffix(s, ".*")\<close> with \<open>strings.TrimSuffix\<close> and \<open>strings.CutSuffix\<close>.\<close>

definition trim_last :: "nat \<Rightarrow> string \<Rightarrow> string" where
  "trim_last n s = take (length s - n) s"

definition cut_suffix :: "string \<Rightarrow> string \<Rightarrow> string \<times> bool" where
  "cut_suffix s suf = (if suffix suf s then (trim_last (length suf) s, True) else (s, False))"

definition go_match :: "string \<Rightarrow> string \<Rightarrow> bool" where
  "go_match pat val =
     (if pat = '''' \<or> pat = ''*'' then True
      else if suffix ''.*'' pat then prefix (trim_last 1 pat) val
      else pat = val)"

lemma trim_last_append [simp]: "trim_last (length b) (a @ b) = a"
  by (simp add: trim_last_def)

lemma suffix_dotstar_cases:
  assumes "suffix ''.*'' p"
  obtains ns where "p = ns @ ''.*''"
  using assms by (auto simp: suffix_def)

lemma trim_last_one_dotstar [simp]: "trim_last 1 (ns @ ''.*'') = ns @ ''.''"
  by (simp add: trim_last_def)

lemma trim_last_Suc_dotstar [simp]: "trim_last (Suc 0) (ns @ ''.*'') = ns @ ''.''"
  by (simp add: trim_last_def)

lemma cut_suffix_dotstar [simp]: "cut_suffix (ns @ ''.*'') ''.*'' = (ns, True)"
  by (simp add: cut_suffix_def trim_last_def suffix_def)

lemma cut_suffix_False:
  "cut_suffix p ''.*'' = (q, b) \<Longrightarrow> \<not> suffix ''.*'' p \<Longrightarrow> q = p \<and> \<not> b"
  by (auto simp: cut_suffix_def)

subsection \<open>The contract of a namespace matcher\<close>

locale namespace_matcher =
  fixes mat :: "string \<Rightarrow> string \<Rightarrow> bool"
  assumes match_any: "p = '''' \<or> p = ''*'' \<Longrightarrow> mat p v"
    and match_ns: "mat (ns @ ''.*'') v \<longleftrightarrow> prefix (ns @ ''.'') v"
    and match_exact: "p \<noteq> '''' \<Longrightarrow> p \<noteq> ''*'' \<Longrightarrow> \<not> suffix ''.*'' p \<Longrightarrow> mat p v \<longleftrightarrow> p = v"
begin

lemma ns_not_any: "ns @ ''.*'' \<noteq> '''' \<and> ns @ ''.*'' \<noteq> ''*''"
  by (cases ns) auto

lemma narrowed_misses:
  assumes "p \<noteq> ''''" and "p \<noteq> ''*''"
  shows "\<not> mat p ''''"
proof (cases "suffix ''.*'' p")
  case True
  then obtain ns where "p = ns @ ''.*''" by (rule suffix_dotstar_cases)
  then show ?thesis by (simp add: match_ns)
next
  case False
  with assms show ?thesis by (simp add: match_exact)
qed

lemma ns_subset:
  "(\<forall>v. mat (a @ ''.*'') v \<longrightarrow> mat (b @ ''.*'') v) \<longleftrightarrow> prefix (b @ ''.'') (a @ ''.'')"
  by (auto simp: match_ns intro: prefix_order.trans dest: append_prefixD)

lemma ns_never_exact:
  assumes "p \<noteq> ''''" and "p \<noteq> ''*''" and "\<not> suffix ''.*'' p"
  shows "\<exists>v. mat (a @ ''.*'') v \<and> \<not> mat p v"
proof (cases "p = a @ ''.''")
  case True
  then have "mat (a @ ''.*'') (a @ ''.x'') \<and> \<not> mat p (a @ ''.x'')"
    using assms by (simp add: match_ns match_exact)
  then show ?thesis by blast
next
  case False
  then have "mat (a @ ''.*'') (a @ ''.'') \<and> \<not> mat p (a @ ''.'')"
    using assms by (simp add: match_ns match_exact)
  then show ?thesis by blast
qed

end

interpretation go: namespace_matcher go_match
proof
  fix p v :: string
  show "go_match p v" if "p = '''' \<or> p = ''*''" using that by (auto simp: go_match_def)
next
  fix ns v :: string
  show "go_match (ns @ ''.*'') v \<longleftrightarrow> prefix (ns @ ''.'') v"
    by (cases "ns = []") (simp_all add: go_match_def suffix_def trim_last_def Cons_eq_append_conv)
next
  fix p v :: string
  show "go_match p v \<longleftrightarrow> p = v" if "p \<noteq> ''''" "p \<noteq> ''*''" "\<not> suffix ''.*'' p"
    using that by (simp add: go_match_def)
qed

subsection \<open>Which notifications one webhook receives\<close>

text \<open>The constants of hub/internal/webhook that the filters mention.\<close>

definition audit_recorded :: string where
  "audit_recorded = ''audit.recorded''"

definition reserved_namespace :: "string \<Rightarrow> bool" where
  "reserved_namespace v =
     (prefix ''action.'' v \<or> prefix ''server.'' v \<or> prefix ''audit.'' v)"

definition opt_in :: "string \<Rightarrow> bool" where
  "opt_in ty = prefix ''audit.'' ty"

definition pattern_admits :: "string \<Rightarrow> string \<Rightarrow> bool" where
  "pattern_admits flt ty = (if flt = ''*'' \<and> opt_in ty then False else go_match flt ty)"

definition filter_admits_audit :: "string list \<Rightarrow> bool" where
  "filter_admits_audit evs = (\<exists>f \<in> set evs. pattern_admits f audit_recorded)"

definition subscribes_telemetry :: "string \<Rightarrow> bool" where
  "subscribes_telemetry flt = (flt = ''*'' \<or> \<not> reserved_namespace flt)"

text \<open>The fields of \<open>store.Webhook\<close> the decision reads.\<close>

record webhook_filter =
  wf_server_ids :: "string list"
  wf_events :: "string list"
  wf_audit_granted :: bool

definition webhook_matches :: "webhook_filter \<Rightarrow> string \<Rightarrow> string \<Rightarrow> bool" where
  "webhook_matches w ty sid =
     (if wf_server_ids w \<noteq> [] \<and> \<not> (\<exists>c \<in> set (wf_server_ids w). c = sid) then False
      else if opt_in ty \<and> \<not> wf_audit_granted w then False
      else if wf_events w = [] then \<not> opt_in ty
      else (\<exists>f \<in> set (wf_events w). pattern_admits f ty))"

lemma prefix_comparable:
  "prefix a v \<Longrightarrow> prefix b v \<Longrightarrow> prefix a b \<or> prefix b a"
  by (metis prefix_same_cases)

text \<open>
  A pattern that is not the catch-all and matches a reserved type lies in the reserved
  namespaces itself.
\<close>

lemma reserved_pattern:
  assumes "go_match flt ty" and "reserved_namespace flt" and "flt \<noteq> ''''"
  shows "reserved_namespace ty"
proof -
  have ns: "prefix (ns @ ''.'') v \<Longrightarrow> prefix r (ns @ ''.*'') \<Longrightarrow> r \<noteq> ns @ ''.*'' \<Longrightarrow> prefix r v"
    for ns v r :: string
    using prefix_snoc [of r "ns @ ''.''" "CHR ''*''"] by (auto intro: prefix_order.trans dest: append_prefixD)
  show ?thesis
  proof (cases "suffix ''.*'' flt")
    case True
    then obtain ns where flt: "flt = ns @ ''.*''" by (rule suffix_dotstar_cases)
    have "''action.'' \<noteq> ns @ ''.*''" "''server.'' \<noteq> ns @ ''.*''" "''audit.'' \<noteq> ns @ ''.*''"
      by (auto simp: Cons_eq_append_conv)
    with assms flt show ?thesis
      by (auto simp: reserved_namespace_def go.match_ns dest: ns)
  next
    case False
    with assms have "flt = ty"
      by (auto simp: go_match_def reserved_namespace_def split: if_splits)
    with assms show ?thesis by simp
  qed
qed

text \<open>
  A notification of an opt-in namespace (the audit log) reaches a webhook only when a token
  able to read the audit log authorised it, the server filter is empty or names the server, and
  some pattern of the filter other than the catch-all matches the type: an empty filter and
  \<open>*\<close> never export it.
\<close>

lemma opt_in_never_by_catch_all:
  assumes "opt_in ty"
  shows "webhook_matches w ty sid \<longleftrightarrow>
    wf_audit_granted w
    \<and> (wf_server_ids w = [] \<or> sid \<in> set (wf_server_ids w))
    \<and> (\<exists>f \<in> set (wf_events w). f \<noteq> ''*'' \<and> go_match f ty)"
  using assms by (auto simp: webhook_matches_def pattern_admits_def)

lemma opt_in_never_by_catch_all_witness:
  "\<not> webhook_matches \<lparr>wf_server_ids = [], wf_events = [''*''], wf_audit_granted = True\<rparr>
     ''audit.recorded'' ''s1''
   \<and> webhook_matches \<lparr>wf_server_ids = [], wf_events = [''audit.*''], wf_audit_granted = True\<rparr>
     ''audit.recorded'' ''s1''"
proof -
  have opt: "opt_in ''audit.recorded''" by (simp add: opt_in_def)
  have "go_match ''audit.*'' ''audit.recorded''"
    using go.match_ns [of "''audit''" "''audit.recorded''"] by simp
  then show ?thesis
    by (simp add: opt_in_never_by_catch_all [OF opt])
qed

text \<open>
  \<open>SubscribesTelemetry\<close> is sound: a filter it answers no for can match no telemetry type,
  because telemetry may not use the hub's reserved namespaces.
\<close>

lemma no_telemetry_outside:
  assumes "\<not> subscribes_telemetry flt" and "\<not> reserved_namespace ty"
  shows "\<not> pattern_admits flt ty"
proof -
  from assms(1) have "flt \<noteq> ''''" "reserved_namespace flt"
    by (auto simp: subscribes_telemetry_def reserved_namespace_def)
  with assms(2) show ?thesis
    using reserved_pattern by (auto simp: pattern_admits_def)
qed

lemma no_telemetry_outside_witness:
  "\<not> subscribes_telemetry ''action.*'' \<and> \<not> reserved_namespace ''core.player.death''
   \<and> \<not> pattern_admits ''action.*'' ''core.player.death''"
proof -
  have a: "\<not> subscribes_telemetry ''action.*''"
    by (simp add: subscribes_telemetry_def reserved_namespace_def)
  have b: "\<not> reserved_namespace ''core.player.death''"
    by (simp add: reserved_namespace_def)
  show ?thesis using a b no_telemetry_outside [OF a b] by simp
qed

end
