(* ===== verification/Scope.thy ===== *)
theory Scope
  imports Pattern
begin

text \<open>
  hub/scope.go: the grammar of admin token scopes, the grants one scope stands for, and the
  questions the route gates and handlers ask a caller (\<open>principal\<close>).
\<close>

subsection \<open>Splitting and trimming strings\<close>

text \<open>\<open>strings.Split\<close> on a one-byte separator: one more part than separators.\<close>

fun split_on :: "char \<Rightarrow> string \<Rightarrow> string list" where
  "split_on c [] = [[]]"
| "split_on c (x # xs) =
     (if x = c then [] # split_on c xs
      else (case split_on c xs of [] \<Rightarrow> [[x]] | w # ws \<Rightarrow> (x # w) # ws))"

fun join_with :: "string \<Rightarrow> string list \<Rightarrow> string" where
  "join_with sep [] = ''''"
| "join_with sep [w] = w"
| "join_with sep (w # v # ws) = w @ sep @ join_with sep (v # ws)"

lemma split_on_not_Nil [simp]: "split_on c s \<noteq> []"
  by (cases s) (auto split: list.split)

lemma split_on_single: "c \<notin> set w \<Longrightarrow> split_on c w = [w]"
  by (induction w) auto

lemma split_on_append: "c \<notin> set w \<Longrightarrow> split_on c (w @ c # s) = w # split_on c s"
  by (induction w) auto

lemma split_on_no_sep: "w \<in> set (split_on c s) \<Longrightarrow> c \<notin> set w"
proof (induction s arbitrary: w)
  case Nil
  then show ?case by simp
next
  case (Cons x s)
  show ?case
  proof (cases "x = c")
    case True
    with Cons show ?thesis by auto
  next
    case False
    obtain v vs where vs: "split_on c s = v # vs" by (meson list.exhaust split_on_not_Nil)
    with Cons.IH have "c \<notin> set v" "\<And>u. u \<in> set vs \<Longrightarrow> c \<notin> set u" by auto
    with Cons.prems False vs show ?thesis by auto
  qed
qed

lemma join_split: "join_with [c] (split_on c s) = s"
proof (induction s)
  case Nil
  then show ?case by simp
next
  case (Cons x s)
  obtain w ws where ws: "split_on c s = w # ws" by (meson list.exhaust split_on_not_Nil)
  with Cons show ?case by (cases ws) auto
qed

lemma split_join: "ws \<noteq> [] \<Longrightarrow> \<forall>w \<in> set ws. c \<notin> set w \<Longrightarrow> split_on c (join_with [c] ws) = ws"
  by (induction "[c]" ws rule: join_with.induct) (auto simp: split_on_single split_on_append)

text \<open>
  \<open>strings.TrimSpace\<close> removes Unicode white space at both ends: the UTF-8 encodings below.
\<close>

definition white_space :: "string list" where
  "white_space =
     [[CHR 0x09], [CHR 0x0A], [CHR 0x0B], [CHR 0x0C], [CHR 0x0D], [CHR 0x20],
      [CHR 0xC2, CHR 0x85], [CHR 0xC2, CHR 0xA0], [CHR 0xE1, CHR 0x9A, CHR 0x80],
      [CHR 0xE2, CHR 0x80, CHR 0x80], [CHR 0xE2, CHR 0x80, CHR 0x81],
      [CHR 0xE2, CHR 0x80, CHR 0x82], [CHR 0xE2, CHR 0x80, CHR 0x83],
      [CHR 0xE2, CHR 0x80, CHR 0x84], [CHR 0xE2, CHR 0x80, CHR 0x85],
      [CHR 0xE2, CHR 0x80, CHR 0x86], [CHR 0xE2, CHR 0x80, CHR 0x87],
      [CHR 0xE2, CHR 0x80, CHR 0x88], [CHR 0xE2, CHR 0x80, CHR 0x89],
      [CHR 0xE2, CHR 0x80, CHR 0x8A], [CHR 0xE2, CHR 0x80, CHR 0xA8],
      [CHR 0xE2, CHR 0x80, CHR 0xA9], [CHR 0xE2, CHR 0x80, CHR 0xAF],
      [CHR 0xE2, CHR 0x81, CHR 0x9F], [CHR 0xE3, CHR 0x80, CHR 0x80]]"

function strip_prefixes :: "string list \<Rightarrow> string \<Rightarrow> string" where
  "strip_prefixes ws s =
     (case find (\<lambda>w. w \<noteq> [] \<and> prefix w s) ws of
        None \<Rightarrow> s
      | Some w \<Rightarrow> strip_prefixes ws (drop (length w) s))"
  by pat_completeness auto
termination
  by (relation "measure (\<lambda>(ws, s). length s)")
    (auto dest!: find_Some_in simp: prefix_def)

declare strip_prefixes.simps [simp del]

definition trim_space :: "string \<Rightarrow> string" where
  "trim_space s =
     rev (strip_prefixes (map rev white_space) (rev (strip_prefixes white_space s)))"

lemma strip_prefixes_id:
  "\<forall>w \<in> set ws. w \<noteq> [] \<longrightarrow> \<not> prefix w s \<Longrightarrow> strip_prefixes ws s = s"
  by (subst strip_prefixes.simps) (auto split: option.split dest!: find_Some_in)

text \<open>A string of visible ASCII characters only is its own trimming.\<close>

definition visible :: "char \<Rightarrow> bool" where
  "visible c \<longleftrightarrow> 0x20 < (of_char c :: nat) \<and> (of_char c :: nat) < 0x7F"

lemma white_space_invisible: "w \<in> set white_space \<Longrightarrow> \<exists>c \<in> set w. \<not> visible c"
  by (auto simp: white_space_def visible_def)

lemma trim_space_visible:
  assumes "\<forall>c \<in> set s. visible c"
  shows "trim_space s = s"
proof -
  have no: "\<not> prefix w s" "\<not> prefix (rev w) (rev s)" if "w \<in> set white_space" for w
    using white_space_invisible [OF that] assms
    by (auto dest!: set_mono_prefix)
  then have "strip_prefixes white_space s = s"
    by (intro strip_prefixes_id) blast
  moreover from no have "strip_prefixes (map rev white_space) (rev s) = rev s"
    by (intro strip_prefixes_id) auto
  ultimately show ?thesis by (simp add: trim_space_def)
qed

subsection \<open>Scopes\<close>

record scope =
  sc_resource :: string
  sc_verb :: string
  sc_pattern :: string

record scope_kind =
  sk_resource :: string
  sk_verb :: string
  sk_patterned :: bool

definition scope_kinds :: "scope_kind list" where
  "scope_kinds =
     [\<lparr>sk_resource = ''servers'', sk_verb = ''read'', sk_patterned = False\<rparr>,
      \<lparr>sk_resource = ''events'', sk_verb = ''read'', sk_patterned = True\<rparr>,
      \<lparr>sk_resource = ''actions'', sk_verb = ''read'', sk_patterned = True\<rparr>,
      \<lparr>sk_resource = ''actions'', sk_verb = ''dispatch'', sk_patterned = True\<rparr>,
      \<lparr>sk_resource = ''kv'', sk_verb = ''rw'', sk_patterned = True\<rparr>,
      \<lparr>sk_resource = ''notes'', sk_verb = ''read'', sk_patterned = False\<rparr>,
      \<lparr>sk_resource = ''notes'', sk_verb = ''write'', sk_patterned = False\<rparr>,
      \<lparr>sk_resource = ''bans'', sk_verb = ''read'', sk_patterned = False\<rparr>,
      \<lparr>sk_resource = ''bans'', sk_verb = ''manage'', sk_patterned = False\<rparr>,
      \<lparr>sk_resource = ''webhooks'', sk_verb = ''manage'', sk_patterned = False\<rparr>,
      \<lparr>sk_resource = ''admin'', sk_verb = '''', sk_patterned = False\<rparr>]"

definition max_scope_pattern :: nat where
  "max_scope_pattern = 128"

datatype scope_error =
    ScopeEmpty
  | ScopeTooManyFields string
  | ScopeUnknown string
  | ScopeEmptyPattern string
  | ScopeNoPattern string string
  | ScopeBadPattern string

definition lookup_scope_kind :: "string \<Rightarrow> string \<Rightarrow> scope_kind option" where
  "lookup_scope_kind r v = find (\<lambda>k. sk_resource k = r \<and> sk_verb k = v) scope_kinds"

definition segment_char :: "char \<Rightarrow> bool" where
  "segment_char c =
     ((CHR ''a'' \<le> c \<and> c \<le> CHR ''z'') \<or> (CHR ''A'' \<le> c \<and> c \<le> CHR ''Z'')
      \<or> (CHR ''0'' \<le> c \<and> c \<le> CHR ''9'') \<or> c = CHR ''_'' \<or> c = CHR ''-'')"

definition valid_scope_pattern :: "string \<Rightarrow> bool" where
  "valid_scope_pattern p =
     (if p = ''*'' then True
      else if length p > max_scope_pattern then False
      else let (lit, is_prefix) = cut_suffix p ''.*'' in
        if is_prefix \<and> lit = '''' then False
        else if \<not> is_prefix \<and> CHR ''*'' \<in> set p then False
        else (\<forall>seg \<in> set (split_on (CHR ''.'') lit). seg \<noteq> '''' \<and> (\<forall>c \<in> set seg. segment_char c)))"

definition parse_scope :: "string \<Rightarrow> scope_error + scope" where
  "parse_scope value =
     (let text = trim_space value in
      if text = '''' then Inl ScopeEmpty
      else let parts = split_on (CHR '':'') text in
        if length parts > 3 then Inl (ScopeTooManyFields text)
        else let sc = \<lparr>sc_resource = parts ! 0,
                       sc_verb = (if length parts > 1 then parts ! 1 else ''''),
                       sc_pattern = (if length parts > 2 then parts ! 2 else '''')\<rparr> in
          case lookup_scope_kind (sc_resource sc) (sc_verb sc) of
            None \<Rightarrow> Inl (ScopeUnknown text)
          | Some kind \<Rightarrow>
              if sc_pattern sc = '''' then
                (if length parts > 2 then Inl (ScopeEmptyPattern text) else Inr sc)
              else if \<not> sk_patterned kind then
                Inl (ScopeNoPattern (sc_resource sc) (sc_verb sc))
              else if \<not> valid_scope_pattern (sc_pattern sc) then
                Inl (ScopeBadPattern (sc_pattern sc))
              else Inr sc)"

definition scope_string :: "scope \<Rightarrow> string" where
  "scope_string s =
     sc_resource s
     @ (if sc_verb s \<noteq> '''' then '':'' @ sc_verb s else '''')
     @ (if sc_pattern s \<noteq> '''' then '':'' @ sc_pattern s else '''')"

definition scope_matches :: "scope \<Rightarrow> string \<Rightarrow> bool" where
  "scope_matches s v = go_match (sc_pattern s) v"

definition scope_covers :: "scope \<Rightarrow> string \<Rightarrow> bool" where
  "scope_covers s pat =
     (if sc_pattern s = '''' \<or> sc_pattern s = ''*'' then True
      else let (requested, is_prefix) = cut_suffix pat ''.*'' in
        if \<not> is_prefix then
          (if pat = ''*'' then False else scope_matches s pat)
        else let (grant, grant_is_prefix) = cut_suffix (sc_pattern s) ''.*'' in
          if \<not> grant_is_prefix then False
          else prefix (grant @ ''.'') (requested @ ''.''))"

subsection \<open>Principals\<close>

record principal =
  pr_token_id :: string
  pr_name :: string
  pr_scopes :: "scope list"
  pr_servers :: "string list"

definition bound :: "principal \<Rightarrow> bool" where
  "bound p = (length (pr_servers p) > 0)"

definition bound_to :: "principal \<Rightarrow> string \<Rightarrow> bool" where
  "bound_to p sid =
     (if \<not> bound p then True
      else if sid = '''' then False
      else (\<exists>i \<in> set (pr_servers p). i = sid))"

definition is_admin :: "principal \<Rightarrow> bool" where
  "is_admin p = (\<exists>s \<in> set (pr_scopes p). sc_resource s = ''admin'')"

text \<open>
  The three questions share one shape in the code: the superuser passes, a scope of that
  resource and verb that passes a test grants it, and a read of actions or bans falls back on
  the stronger verb by a recursive call.
\<close>

function allows_any :: "principal \<Rightarrow> string \<Rightarrow> string \<Rightarrow> bool" where
  "allows_any p r v =
     (if is_admin p then True
      else if \<exists>s \<in> set (pr_scopes p). sc_resource s = r \<and> sc_verb s = v then True
      else if r = ''actions'' \<and> v = ''read'' then allows_any p ''actions'' ''dispatch''
      else if r = ''bans'' \<and> v = ''read'' then allows_any p ''bans'' ''manage''
      else False)"
  by pat_completeness auto
termination
  by (relation "measure (\<lambda>(p, r, v). if v = ''read'' then 1 else 0)") auto

function allows :: "principal \<Rightarrow> string \<Rightarrow> string \<Rightarrow> string \<Rightarrow> bool" where
  "allows p r v x =
     (if is_admin p then True
      else if \<exists>s \<in> set (pr_scopes p). sc_resource s = r \<and> sc_verb s = v \<and> scope_matches s x then True
      else if r = ''actions'' \<and> v = ''read'' then allows p ''actions'' ''dispatch'' x
      else if r = ''bans'' \<and> v = ''read'' then allows p ''bans'' ''manage'' x
      else False)"
  by pat_completeness auto
termination
  by (relation "measure (\<lambda>(p, r, v, x). if v = ''read'' then 1 else 0)") auto

function covers :: "principal \<Rightarrow> string \<Rightarrow> string \<Rightarrow> string \<Rightarrow> bool" where
  "covers p r v pat =
     (if is_admin p then True
      else if \<exists>s \<in> set (pr_scopes p). sc_resource s = r \<and> sc_verb s = v \<and> scope_covers s pat then True
      else if r = ''actions'' \<and> v = ''read'' then covers p ''actions'' ''dispatch'' pat
      else if r = ''bans'' \<and> v = ''read'' then covers p ''bans'' ''manage'' pat
      else False)"
  by pat_completeness auto
termination
  by (relation "measure (\<lambda>(p, r, v, x). if v = ''read'' then 1 else 0)") auto

declare allows_any.simps [simp del] allows.simps [simp del] covers.simps [simp del]

fun patterns_loop :: "string \<Rightarrow> string \<Rightarrow> scope list \<Rightarrow> string list \<Rightarrow> string list" where
  "patterns_loop r v [] acc = acc"
| "patterns_loop r v (s # ss) acc =
     (if sc_resource s \<noteq> r \<or> sc_verb s \<noteq> v then patterns_loop r v ss acc
      else if sc_pattern s = '''' \<or> sc_pattern s = ''*'' then []
      else patterns_loop r v ss (acc @ [sc_pattern s]))"

definition patterns_for :: "principal \<Rightarrow> string \<Rightarrow> string \<Rightarrow> string list" where
  "patterns_for p r v = (if is_admin p then [] else patterns_loop r v (pr_scopes p) [])"

subsection \<open>What the checks decide\<close>

lemma scope_matches_narrowed: "sc_pattern s = '''' \<or> sc_pattern s = ''*'' \<Longrightarrow> scope_matches s v"
  by (simp add: scope_matches_def go.match_any)

lemma scope_covers_ns:
  assumes "sc_pattern s \<noteq> ''''" and "sc_pattern s \<noteq> ''*''"
  shows "scope_covers s (a @ ''.*'') \<longleftrightarrow>
    (\<exists>b. sc_pattern s = b @ ''.*'' \<and> prefix (b @ ''.'') (a @ ''.''))"
proof (cases "suffix ''.*'' (sc_pattern s)")
  case True
  then obtain b where "sc_pattern s = b @ ''.*''" by (rule suffix_dotstar_cases)
  with assms show ?thesis by (auto simp: scope_covers_def)
next
  case False
  then have "cut_suffix (sc_pattern s) ''.*'' = (sc_pattern s, False)"
    by (simp add: cut_suffix_def)
  with assms False show ?thesis by (auto simp: scope_covers_def suffix_def)
qed

lemma scope_covers_matches:
  "scope_covers s pat \<longleftrightarrow> (\<forall>v. go_match pat v \<longrightarrow> scope_matches s v)"
proof (cases "sc_pattern s = '''' \<or> sc_pattern s = ''*''")
  case True
  then show ?thesis using scope_matches_narrowed by (auto simp: scope_covers_def)
next
  case nar: False
  show ?thesis
  proof (cases "suffix ''.*'' pat")
    case True
    then obtain a where pat: "pat = a @ ''.*''" by (rule suffix_dotstar_cases)
    have "(\<exists>b. sc_pattern s = b @ ''.*'' \<and> prefix (b @ ''.'') (a @ ''.''))
      \<longleftrightarrow> (\<forall>v. go_match pat v \<longrightarrow> scope_matches s v)"
    proof (cases "suffix ''.*'' (sc_pattern s)")
      case True
      then obtain b where "sc_pattern s = b @ ''.*''" by (rule suffix_dotstar_cases)
      then show ?thesis using go.ns_subset [of a b] by (simp add: pat scope_matches_def)
    next
      case False
      then show ?thesis using go.ns_never_exact [of "sc_pattern s" a] nar
        by (auto simp: pat scope_matches_def suffix_def)
    qed
    then show ?thesis using scope_covers_ns [of s a] nar pat by simp
  next
    case False
    then have cut: "cut_suffix pat ''.*'' = (pat, False)" by (simp add: cut_suffix_def)
    show ?thesis
    proof (cases "pat = '''' \<or> pat = ''*''")
      case True
      then have "\<not> scope_covers s pat"
        using nar cut go.narrowed_misses [of "sc_pattern s"]
        by (auto simp: scope_covers_def scope_matches_def)
      moreover have "go_match pat ''''" "\<not> scope_matches s ''''"
        using True nar go.match_any go.narrowed_misses [of "sc_pattern s"]
        by (auto simp: scope_matches_def)
      ultimately show ?thesis by blast
    next
      case exact: False
      then have "go_match pat v \<longleftrightarrow> pat = v" for v
        using False go.match_exact by blast
      with nar exact cut show ?thesis by (auto simp: scope_covers_def)
    qed
  qed
qed

text \<open>
  A grant covers a requested pattern exactly when it matches every value the pattern can
  match: the filter check is neither too lax (a token never reads beyond its grant) nor too
  strict.
\<close>

lemma scope_covers_iff:
  "scope_covers s pat \<longleftrightarrow> (\<forall>v. go_match pat v \<longrightarrow> scope_matches s v)"
  by (rule scope_covers_matches)

lemma scope_covers_iff_witness:
  "scope_matches \<lparr>sc_resource = ''events'', sc_verb = ''read'', sc_pattern = ''mod.*''\<rparr> ''mod.trader.sold''"
proof -
  have "scope_covers \<lparr>sc_resource = ''events'', sc_verb = ''read'', sc_pattern = ''mod.*''\<rparr> ''mod.trader.*''"
    by code_simp
  moreover have "go_match ''mod.trader.*'' ''mod.trader.sold''" by code_simp
  ultimately show ?thesis using scope_covers_iff by blast
qed

text \<open>The fallback of a read on the stronger verb, spelled out.\<close>

definition verbs_granting :: "string \<Rightarrow> string \<Rightarrow> string set" where
  "verbs_granting r v =
     {v} \<union> (if r = ''actions'' \<and> v = ''read'' then {''dispatch''} else {})
         \<union> (if r = ''bans'' \<and> v = ''read'' then {''manage''} else {})"

lemma allows_iff:
  "allows p r v x \<longleftrightarrow> is_admin p \<or>
     (\<exists>s \<in> set (pr_scopes p). sc_resource s = r \<and> sc_verb s \<in> verbs_granting r v
        \<and> scope_matches s x)"
  by (subst allows.simps, subst (1 2) allows.simps) (auto simp: verbs_granting_def)

lemma covers_iff:
  "covers p r v pat \<longleftrightarrow> is_admin p \<or>
     (\<exists>s \<in> set (pr_scopes p). sc_resource s = r \<and> sc_verb s \<in> verbs_granting r v
        \<and> scope_covers s pat)"
  by (subst covers.simps, subst (1 2) covers.simps) (auto simp: verbs_granting_def)

lemma allows_any_iff:
  "allows_any p r v \<longleftrightarrow> is_admin p \<or>
     (\<exists>s \<in> set (pr_scopes p). sc_resource s = r \<and> sc_verb s \<in> verbs_granting r v)"
  by (subst allows_any.simps, subst (1 2) allows_any.simps) (auto simp: verbs_granting_def)

text \<open>
  Least privilege of the value-level check: a request on a concrete value passes only
  through the superuser scope or a grant of the token itself whose pattern matches the value
  and whose verb is the one asked for, or, for a read of actions or bans, the verb that
  implies reading; and the route gate \<open>allowsAny\<close> never refuses a request that would pass.
\<close>

lemma allows_least_privilege:
  "(allows p r v x \<longleftrightarrow> is_admin p \<or>
     (\<exists>s \<in> set (pr_scopes p). sc_resource s = r
        \<and> (sc_verb s = v \<or> (r = ''actions'' \<and> v = ''read'' \<and> sc_verb s = ''dispatch'')
             \<or> (r = ''bans'' \<and> v = ''read'' \<and> sc_verb s = ''manage''))
        \<and> scope_matches s x))
   \<and> (allows p r v x \<le> allows_any p r v)"
  by (auto simp: allows_iff allows_any_iff verbs_granting_def)

text \<open>
  A query filter the caller's grants cover can only select values the caller is allowed
  one by one.
\<close>

lemma covers_allows:
  assumes "covers p r v pat" and "go_match pat x"
  shows "allows p r v x"
  using assms by (auto simp: covers_iff allows_iff scope_covers_matches)

lemma covers_allows_witness:
  "covers \<lparr>pr_token_id = ''t'', pr_name = ''n'',
           pr_scopes = [\<lparr>sc_resource = ''events'', sc_verb = ''read'', sc_pattern = ''core.*''\<rparr>],
           pr_servers = []\<rparr> ''events'' ''read'' ''core.player.*''
   \<and> allows \<lparr>pr_token_id = ''t'', pr_name = ''n'',
           pr_scopes = [\<lparr>sc_resource = ''events'', sc_verb = ''read'', sc_pattern = ''core.*''\<rparr>],
           pr_servers = []\<rparr> ''events'' ''read'' ''core.player.death''"
    (is "covers ?p _ _ _ \<and> _")
proof -
  have c: "covers ?p ''events'' ''read'' ''core.player.*''"
    by (simp add: covers_iff verbs_granting_def scope_covers_def cut_suffix_def suffix_def
          trim_last_def Cons_eq_append_conv)
  have m: "go_match ''core.player.*'' ''core.player.death''"
    using go.match_ns [of "''core.player''" "''core.player.death''"] by simp
  show ?thesis using c covers_allows [OF c m] by simp
qed

lemma patterns_loop_acc:
  "patterns_loop r v ss acc = [] \<Longrightarrow>
   acc = [] \<and> (\<forall>s \<in> set ss. sc_resource s \<noteq> r \<or> sc_verb s \<noteq> v)
   \<or> (\<exists>s \<in> set ss. sc_resource s = r \<and> sc_verb s = v \<and> (sc_pattern s = '''' \<or> sc_pattern s = ''*''))"
  by (induction r v ss acc rule: patterns_loop.induct) (auto split: if_splits)

lemma patterns_loop_set:
  "patterns_loop r v ss acc \<noteq> [] \<Longrightarrow>
   set (patterns_loop r v ss acc) =
     set acc \<union> {sc_pattern s |s. s \<in> set ss \<and> sc_resource s = r \<and> sc_verb s = v}"
  by (induction r v ss acc rule: patterns_loop.induct) (auto split: if_splits)

text \<open>
  The patterns a feed read is narrowed to select exactly what the caller may see, for a
  resource and verb no other verb implies (such as \<open>events:read\<close>, the only pair the hub asks
  for): an empty answer means everything, any other answer the union of the patterns.
\<close>

lemma patterns_for_exact:
  assumes "allows_any p r v" and "verbs_granting r v = {v}"
  shows "allows p r v x \<longleftrightarrow> patterns_for p r v = [] \<or> (\<exists>pt \<in> set (patterns_for p r v). go_match pt x)"
proof (cases "is_admin p \<or> patterns_for p r v = []")
  case True
  then show ?thesis using assms
    by (auto simp: patterns_for_def allows_iff allows_any_iff dest!: patterns_loop_acc
        intro: scope_matches_narrowed)
next
  case False
  then have "\<not> is_admin p" and ne: "patterns_loop r v (pr_scopes p) [] \<noteq> []"
    by (auto simp: patterns_for_def)
  then show ?thesis using assms patterns_loop_set [OF ne]
    by (auto simp: patterns_for_def allows_iff scope_matches_def)
qed

lemma patterns_for_exact_witness:
  "patterns_for \<lparr>pr_token_id = ''t'', pr_name = ''n'',
        pr_scopes = [\<lparr>sc_resource = ''events'', sc_verb = ''read'', sc_pattern = ''core.*''\<rparr>],
        pr_servers = []\<rparr> ''events'' ''read'' = [''core.*'']
   \<and> \<not> allows \<lparr>pr_token_id = ''t'', pr_name = ''n'',
        pr_scopes = [\<lparr>sc_resource = ''events'', sc_verb = ''read'', sc_pattern = ''core.*''\<rparr>],
        pr_servers = []\<rparr> ''events'' ''read'' ''mod.raid''"
    (is "_ \<and> \<not> allows ?p _ _ _")
proof -
  have a: "allows_any ?p ''events'' ''read''" by (simp add: allows_any_iff verbs_granting_def)
  have b: "verbs_granting ''events'' ''read'' = {''read''}" by (simp add: verbs_granting_def)
  have e: "patterns_for ?p ''events'' ''read'' = [''core.*'']"
    by (simp add: patterns_for_def is_admin_def)
  have "\<not> go_match ''core.*'' ''mod.raid''"
    using go.match_ns [of "''core''" "''mod.raid''"] by simp
  then show ?thesis using e patterns_for_exact [OF a b, of "''mod.raid''"] by simp
qed


text \<open>
  The server binding fails closed: an unbound caller may act on any server, a bound one
  exactly on the servers of its binding, and never on a request that resolved no server.
\<close>

lemma bound_to_iff:
  "bound_to p sid \<longleftrightarrow> pr_servers p = [] \<or> (sid \<noteq> '''' \<and> sid \<in> set (pr_servers p))"
  by (auto simp: bound_to_def bound_def)

subsection \<open>The grammar round-trips\<close>

lemma scope_kinds_plain:
  "lookup_scope_kind r v = Some k \<Longrightarrow>
   r \<noteq> '''' \<and> (\<forall>c \<in> set r. visible c \<and> c \<noteq> CHR '':'') \<and> (\<forall>c \<in> set v. visible c \<and> c \<noteq> CHR '':'')
   \<and> (sk_patterned k \<longrightarrow> v \<noteq> '''')"
proof -
  assume k: "lookup_scope_kind r v = Some k"
  have all: "\<forall>k \<in> set scope_kinds. sk_resource k \<noteq> ''''
      \<and> (\<forall>c \<in> set (sk_resource k). visible c \<and> c \<noteq> CHR '':'')
      \<and> (\<forall>c \<in> set (sk_verb k). visible c \<and> c \<noteq> CHR '':'')
      \<and> (sk_patterned k \<longrightarrow> sk_verb k \<noteq> '''')"
    by (simp add: scope_kinds_def visible_def)
  from k have "k \<in> set scope_kinds \<and> sk_resource k = r \<and> sk_verb k = v"
    unfolding lookup_scope_kind_def by (auto dest: find_Some_in)
  with all show ?thesis by blast
qed

lemma segment_char_visible: "segment_char c \<Longrightarrow> visible c \<and> c \<noteq> CHR '':''"
  by (auto simp: segment_char_def visible_def less_eq_char_def)

lemma split_dot_chars:
  "\<forall>seg \<in> set (split_on (CHR ''.'') s). \<forall>c \<in> set seg. segment_char c \<Longrightarrow>
   \<forall>c \<in> set s. visible c \<and> c \<noteq> CHR '':''"
proof (induction s)
  case Nil
  then show ?case by simp
next
  case (Cons x s)
  have dot: "visible (CHR ''.'') \<and> CHR ''.'' \<noteq> CHR '':''" by (simp add: visible_def)
  obtain w ws where ws: "split_on (CHR ''.'') s = w # ws" by (meson list.exhaust split_on_not_Nil)
  from Cons.prems have "x = CHR ''.'' \<or> segment_char x" by (auto simp: ws split: if_splits)
  moreover from Cons.prems have "\<forall>seg \<in> set (split_on (CHR ''.'') s). \<forall>c \<in> set seg. segment_char c"
    by (auto simp: ws split: if_splits)
  ultimately show ?case using Cons.IH dot segment_char_visible by auto
qed

lemma valid_pattern_chars:
  assumes "valid_scope_pattern p"
  shows "\<forall>c \<in> set p. visible c \<and> c \<noteq> CHR '':''"
proof (cases "p = ''*''")
  case True
  then show ?thesis by (simp add: visible_def)
next
  case False
  obtain lit b where cut: "cut_suffix p ''.*'' = (lit, b)" by (cases "cut_suffix p ''.*''")
  with False assms have "\<forall>c \<in> set lit. visible c \<and> c \<noteq> CHR '':''"
    by (intro split_dot_chars) (auto simp: valid_scope_pattern_def split: if_splits)
  moreover have "set p \<subseteq> set lit \<union> {CHR ''.'', CHR ''*''}"
    using cut by (auto simp: cut_suffix_def trim_last_def suffix_def split: if_splits)
  moreover have "visible (CHR ''.'') \<and> visible (CHR ''*'')" by (simp add: visible_def)
  ultimately show ?thesis by auto
qed

text \<open>A scope that parses is one of the closed set of kinds, with a legal pattern or none.\<close>

definition wf_scope :: "scope \<Rightarrow> bool" where
  "wf_scope s \<longleftrightarrow>
     (\<exists>k. lookup_scope_kind (sc_resource s) (sc_verb s) = Some k
        \<and> (sc_pattern s \<noteq> '''' \<longrightarrow> sk_patterned k \<and> valid_scope_pattern (sc_pattern s)))"

lemma parse_scope_wf: "parse_scope t = Inr s \<Longrightarrow> wf_scope s"
  by (auto simp: parse_scope_def wf_scope_def Let_def split: if_splits option.splits)

lemma split_scope_string:
  assumes "wf_scope s"
  shows "split_on (CHR '':'') (scope_string s) =
    sc_resource s # (if sc_verb s = '''' then [] else [sc_verb s])
      @ (if sc_pattern s = '''' then [] else [sc_pattern s])"
proof -
  from assms obtain k where k: "lookup_scope_kind (sc_resource s) (sc_verb s) = Some k"
    and p: "sc_pattern s \<noteq> '''' \<longrightarrow> sk_patterned k \<and> valid_scope_pattern (sc_pattern s)"
    by (auto simp: wf_scope_def)
  note plain = scope_kinds_plain [OF k]
  then have "CHR '':'' \<notin> set (sc_resource s)" "CHR '':'' \<notin> set (sc_verb s)" by auto
  moreover have "CHR '':'' \<notin> set (sc_pattern s)"
    using p valid_pattern_chars by (cases "sc_pattern s = ''''") auto
  moreover have "sc_pattern s \<noteq> '''' \<longrightarrow> sc_verb s \<noteq> ''''" using p plain by auto
  ultimately show ?thesis
    by (auto simp: scope_string_def split_on_single split_on_append)
qed

lemma scope_string_visible:
  assumes "wf_scope s"
  shows "\<forall>c \<in> set (scope_string s). visible c"
proof -
  have colon: "visible (CHR '':'')" by (simp add: visible_def)
  from assms obtain k where k: "lookup_scope_kind (sc_resource s) (sc_verb s) = Some k"
    and p: "sc_pattern s \<noteq> '''' \<longrightarrow> valid_scope_pattern (sc_pattern s)"
    by (auto simp: wf_scope_def)
  have "\<forall>c \<in> set (sc_pattern s). visible c"
    using p valid_pattern_chars by (cases "sc_pattern s = ''''") auto
  with scope_kinds_plain [OF k] colon show ?thesis by (auto simp: scope_string_def)
qed

lemma parse_scope_canonical:
  assumes "parse_scope t = Inr s"
  shows "parse_scope (scope_string s) = Inr s"
proof -
  from assms have wf: "wf_scope s" by (rule parse_scope_wf)
  then obtain k where k: "lookup_scope_kind (sc_resource s) (sc_verb s) = Some k"
    and p: "sc_pattern s \<noteq> '''' \<longrightarrow> sk_patterned k \<and> valid_scope_pattern (sc_pattern s)"
    by (auto simp: wf_scope_def)
  note plain = scope_kinds_plain [OF k]
  have trim: "trim_space (scope_string s) = scope_string s"
    using scope_string_visible [OF wf] by (rule trim_space_visible)
  have ne: "scope_string s \<noteq> ''''" using plain by (simp add: scope_string_def)
  have pv: "sc_pattern s \<noteq> '''' \<longrightarrow> sc_verb s \<noteq> ''''" using p plain by auto
  show ?thesis
    unfolding parse_scope_def Let_def trim split_scope_string [OF wf]
    using ne pv p k by auto
qed

text \<open>
  C35. A scope accepted at mint time round-trips: the canonical text stored for it parses back
  to the same grant, so a token is read back with exactly the scopes it was minted with.
\<close>

theorem parse_scope_roundtrip:
  assumes "parse_scope t = Inr s"
  shows "parse_scope (scope_string s) = Inr s"
  using assms by (rule parse_scope_canonical)

theorem parse_scope_roundtrip_witness:
  "parse_scope '' events:read:example-mod.* '' =
     Inr \<lparr>sc_resource = ''events'', sc_verb = ''read'', sc_pattern = ''example-mod.*''\<rparr>
   \<and> parse_scope ''events:read:example-mod.*'' =
     Inr \<lparr>sc_resource = ''events'', sc_verb = ''read'', sc_pattern = ''example-mod.*''\<rparr>"
proof -
  have p: "parse_scope '' events:read:example-mod.* '' =
     Inr \<lparr>sc_resource = ''events'', sc_verb = ''read'', sc_pattern = ''example-mod.*''\<rparr>"
  proof -
    have t: "trim_space '' events:read:example-mod.* '' = ''events:read:example-mod.*''" by code_simp
    have v: "valid_scope_pattern ''example-mod.*''" by code_simp
    show ?thesis
      by (simp add: parse_scope_def t v lookup_scope_kind_def scope_kinds_def)
  qed
  show ?thesis using p parse_scope_roundtrip [OF p] by (simp add: scope_string_def)
qed

text \<open>
  The two readings an operator could mistake for a wider grant are refused: a trailing
  colon is never read as the unnarrowed grant, and a pattern is never accepted on a pair that
  takes none.
\<close>

lemma parse_scope_never_widens:
  assumes "parse_scope t = Inr s"
  shows "(length (split_on (CHR '':'') (trim_space t)) = 3 \<longleftrightarrow> sc_pattern s \<noteq> '''')
    \<and> (sc_pattern s \<noteq> '''' \<longrightarrow> sc_resource s \<in> {''events'', ''actions'', ''kv''})"
proof
  from assms show "length (split_on (CHR '':'') (trim_space t)) = 3 \<longleftrightarrow> sc_pattern s \<noteq> ''''"
    by (auto simp: parse_scope_def Let_def split: if_splits option.splits)
  from parse_scope_wf [OF assms]
  show "sc_pattern s \<noteq> '''' \<longrightarrow> sc_resource s \<in> {''events'', ''actions'', ''kv''}"
    by (auto simp: wf_scope_def lookup_scope_kind_def scope_kinds_def split: if_splits)
qed

lemma parse_scope_never_widens_witness:
  "parse_scope ''kv:rw:shop'' = Inr \<lparr>sc_resource = ''kv'', sc_verb = ''rw'', sc_pattern = ''shop''\<rparr>
   \<and> length (split_on (CHR '':'') (trim_space ''kv:rw:shop'')) = 3
   \<and> parse_scope ''kv:rw:'' = Inl (ScopeEmptyPattern ''kv:rw:'')"
proof -
  have p: "parse_scope ''kv:rw:shop'' =
    Inr \<lparr>sc_resource = ''kv'', sc_verb = ''rw'', sc_pattern = ''shop''\<rparr>"
  proof -
    have t: "trim_space ''kv:rw:shop'' = ''kv:rw:shop''" by code_simp
    have v: "valid_scope_pattern ''shop''" by code_simp
    show ?thesis
      by (simp add: parse_scope_def t v lookup_scope_kind_def scope_kinds_def)
  qed
  have e: "parse_scope ''kv:rw:'' = Inl (ScopeEmptyPattern ''kv:rw:'')"
  proof -
    have t: "trim_space ''kv:rw:'' = ''kv:rw:''" by code_simp
    show ?thesis by (simp add: parse_scope_def t lookup_scope_kind_def scope_kinds_def)
  qed
  show ?thesis using p e parse_scope_never_widens [OF p] by simp
qed

end
