(* ===== verification/Envelope.thy ===== *)
theory Envelope
  imports Outbound Scope
begin

text \<open>
  Envelopes on the wire (hub/envelope.go, hub/poll.go): the framing checks on what a plugin
  sends, the classification of a poll's batch against the session's contiguous inbound ack, and
  the poll request's \<open>more\<close> member.
\<close>

definition max_inbound_envelopes :: nat where "max_inbound_envelopes = 500"
definition max_outbound_batch :: int where "max_outbound_batch = 200"
definition max_envelope_type :: nat where "max_envelope_type = 128"
definition max_envelope_id :: nat where "max_envelope_id = 128"
definition envelope_version :: int where "envelope_version = 1"

subsection \<open>The two shapes\<close>

record wire_envelope =
  we_v :: int
  we_id :: string
  we_type :: string
  we_seq :: int
  we_ts :: stamp
  we_body :: string

text \<open>\<open>ts\<close> is the raw JSON text: nothing is rejected over it.\<close>

record inbound_envelope =
  ie_v :: "int option"
  ie_id :: string
  ie_type :: string
  ie_seq :: int
  ie_ts :: string
  ie_body :: string

definition new_outbound_envelope :: "outbound_envelope \<Rightarrow> wire_envelope" where
  "new_outbound_envelope q =
     \<lparr>we_v = envelope_version, we_id = oe_id q, we_type = oe_type q, we_seq = oe_seq q,
      we_ts = format_time (oe_created q),
      we_body = (if oe_body q = '''' then ''{}'' else oe_body q)\<rparr>"

subsection \<open>Framing\<close>

record envelope_fault =
  ef_index :: nat
  ef_seq :: int
  ef_message :: string

definition validate_inbound :: "nat \<Rightarrow> inbound_envelope \<Rightarrow> envelope_fault option" where
  "validate_inbound index e =
     (let fault = (\<lambda>m. Some \<lparr>ef_index = index, ef_seq = ie_seq e, ef_message = m\<rparr>) in
      if ie_v e \<noteq> None \<and> the (ie_v e) \<noteq> envelope_version
      then fault (''envelope version '' @ show_int (the (ie_v e))
                  @ '' is not supported; this hub speaks version '' @ show_int envelope_version)
      else if ie_id e = '''' then fault ''id is required''
      else if length (ie_id e) > max_envelope_id
      then fault (''id is longer than '' @ show_int (int max_envelope_id) @ '' characters'')
      else if ie_type e = '''' then fault ''type is required''
      else if length (ie_type e) > max_envelope_type
      then fault (''type is longer than '' @ show_int (int max_envelope_type) @ '' characters'')
      else if ie_seq e < 1 then fault (''seq must be 1 or above, got '' @ show_int (ie_seq e))
      else None)"

text \<open>The loop of \<open>handlePoll\<close>: the first faulty envelope refuses the whole poll.\<close>

fun first_fault :: "nat \<Rightarrow> inbound_envelope list \<Rightarrow> envelope_fault option" where
  "first_fault index [] = None"
| "first_fault index (e # es) =
     (case validate_inbound index e of Some f \<Rightarrow> Some f | None \<Rightarrow> first_fault (Suc index) es)"

definition well_framed :: "inbound_envelope \<Rightarrow> bool" where
  "well_framed e =
     ((ie_v e = None \<or> ie_v e = Some envelope_version) \<and> 1 \<le> length (ie_id e) \<and> length (ie_id e) \<le> 128
      \<and> 1 \<le> length (ie_type e) \<and> length (ie_type e) \<le> 128 \<and> 1 \<le> ie_seq e)"

lemma validate_inbound_None: "validate_inbound index e = None \<longleftrightarrow> well_framed e"
  by (cases "ie_v e")
    (auto simp: validate_inbound_def well_framed_def Let_def max_envelope_id_def max_envelope_type_def
      Suc_le_eq)

lemma first_fault_None: "first_fault index es = None \<longleftrightarrow> (\<forall>e \<in> set es. well_framed e)"
proof (induction es arbitrary: index)
  case (Cons e es)
  then show ?case using validate_inbound_None [of index e]
    by (cases "validate_inbound index e") auto
qed simp

subsection \<open>Classification against the inbound ack\<close>

record inbound_batch =
  ib_ack :: int
  ib_accepted :: "nat list"
  ib_duplicate :: nat
  ib_gapped :: nat

definition classify_one :: "inbound_batch \<Rightarrow> nat \<times> inbound_envelope \<Rightarrow> inbound_batch" where
  "classify_one b ie =
     (case ie of (i, e) \<Rightarrow>
        if ie_seq e \<le> ib_ack b then b\<lparr>ib_duplicate := ib_duplicate b + 1\<rparr>
        else if ie_seq e = wrap64 (ib_ack b + 1)
        then b\<lparr>ib_ack := wrap64 (ib_ack b + 1), ib_accepted := ib_accepted b @ [i]\<rparr>
        else b\<lparr>ib_gapped := ib_gapped b + 1\<rparr>)"

definition classify_inbound :: "int \<Rightarrow> inbound_envelope list \<Rightarrow> inbound_batch" where
  "classify_inbound ack es =
     foldl classify_one \<lparr>ib_ack = ack, ib_accepted = [], ib_duplicate = 0, ib_gapped = 0\<rparr>
       (enumerate 0 es)"

text \<open>
  The specification: accept an envelope exactly when it is the next one.  No int64 arithmetic, no
  counters; \<open>accept_next\<close> answers the new ack and the accepted envelopes themselves.
\<close>

fun accept_next :: "int \<Rightarrow> inbound_envelope list \<Rightarrow> int \<times> inbound_envelope list" where
  "accept_next ack [] = (ack, [])"
| "accept_next ack (e # es) =
     (if ie_seq e = ack + 1
      then (case accept_next (ack + 1) es of (a, acc) \<Rightarrow> (a, e # acc))
      else accept_next ack es)"

definition seqs_fit :: "inbound_envelope list \<Rightarrow> bool" where
  "seqs_fit es = (\<forall>e \<in> set es. ie_seq e < 2 ^ 63)"

lemma classify_fold:
  assumes "seqs_fit es" and "0 \<le> ib_ack b" and "ib_ack b < 2 ^ 63"
    and "length pre = n" and "pre @ es = all"
  shows "let b' = foldl classify_one b (enumerate n es) in
     accept_next (ib_ack b) es
       = (ib_ack b', map (\<lambda>i. all ! i) (drop (length (ib_accepted b)) (ib_accepted b')))
     \<and> take (length (ib_accepted b)) (ib_accepted b') = ib_accepted b
     \<and> length (ib_accepted b') + ib_duplicate b' + ib_gapped b'
        = length (ib_accepted b) + ib_duplicate b + ib_gapped b + length es
     \<and> (\<forall>i \<in> set (drop (length (ib_accepted b)) (ib_accepted b')). n \<le> i \<and> i < n + length es)"
  using assms
proof (induction es arbitrary: b n pre)
  case Nil
  then show ?case by simp
next
  case (Cons e es)
  let ?b = "classify_one b (n, e)"
  have all: "(pre @ [e]) @ es = all" and len: "length (pre @ [e]) = Suc n" using Cons.prems by auto
  have fit: "seqs_fit es" "ie_seq e < 2 ^ 63" using Cons.prems(1) by (auto simp: seqs_fit_def)
  have at: "all ! n = e" using Cons.prems(4,5) by auto
  consider (dup) "ie_seq e \<le> ib_ack b" | (succ) "ie_seq e = ib_ack b + 1" | (gap) "ib_ack b + 1 < ie_seq e"
    by linarith
  then show ?case
  proof cases
    case dup
    then have "?b = b\<lparr>ib_duplicate := ib_duplicate b + 1\<rparr>" by (simp add: classify_one_def)
    with Cons.IH [OF fit(1) _ _ len all, of ?b] Cons.prems(2,3) dup show ?thesis
      by (auto simp: Let_def)
  next
    case succ
    with fit(2) have w: "wrap64 (ib_ack b + 1) = ib_ack b + 1" using Cons.prems(2)
      by (intro wrap64_id) auto
    with succ have b': "?b = b\<lparr>ib_ack := ib_ack b + 1, ib_accepted := ib_accepted b @ [n]\<rparr>"
      by (simp add: classify_one_def)
    let ?r = "foldl classify_one ?b (enumerate (Suc n) es)"
    have IH: "accept_next (ib_ack b + 1) es = (ib_ack ?r, map (\<lambda>i. all ! i) (drop (Suc (length (ib_accepted b))) (ib_accepted ?r)))
      \<and> take (Suc (length (ib_accepted b))) (ib_accepted ?r) = ib_accepted b @ [n]
      \<and> length (ib_accepted ?r) + ib_duplicate ?r + ib_gapped ?r
        = Suc (length (ib_accepted b)) + ib_duplicate b + ib_gapped b + length es
      \<and> (\<forall>i \<in> set (drop (Suc (length (ib_accepted b))) (ib_accepted ?r)). Suc n \<le> i \<and> i < Suc n + length es)"
      using Cons.IH [OF fit(1) _ _ len all, of ?b] Cons.prems(2) succ fit(2)
      by (simp add: b' Let_def)
    then have tk: "take (Suc (length (ib_accepted b))) (ib_accepted ?r) = ib_accepted b @ [n]" by blast
    then have "ib_accepted ?r = ib_accepted b @ n # drop (Suc (length (ib_accepted b))) (ib_accepted ?r)"
      by (metis append.assoc append_Cons append_Nil append_take_drop_id)
    then obtain acc where acc: "ib_accepted ?r = ib_accepted b @ n # acc" by blast
    with IH succ at show ?thesis by (simp add: Let_def) auto
  next
    case gap
    then have w: "wrap64 (ib_ack b + 1) = ib_ack b + 1" using Cons.prems(2,3) fit(2)
      by (intro wrap64_id) auto
    with gap have "?b = b\<lparr>ib_gapped := ib_gapped b + 1\<rparr>" by (simp add: classify_one_def)
    with Cons.IH [OF fit(1) _ _ len all, of ?b] Cons.prems(2,3) gap show ?thesis
      by (auto simp: Let_def)
  qed
qed

lemma classify_inbound_accepts:
  assumes "seqs_fit es" and "0 \<le> ack" and "ack < 2 ^ 63"
  shows "accept_next ack es
      = (ib_ack (classify_inbound ack es), map (\<lambda>i. es ! i) (ib_accepted (classify_inbound ack es)))"
    and "length (ib_accepted (classify_inbound ack es)) + ib_duplicate (classify_inbound ack es)
      + ib_gapped (classify_inbound ack es) = length es"
    and "\<forall>i \<in> set (ib_accepted (classify_inbound ack es)). i < length es"
  using classify_fold [OF assms(1), of "\<lparr>ib_ack = ack, ib_accepted = [], ib_duplicate = 0, ib_gapped = 0\<rparr>" "[]" 0 es]
    assms(2,3)
  by (simp_all add: classify_inbound_def Let_def)

lemma accept_next_append:
  "accept_next ack (xs @ ys) =
     (case accept_next ack xs of (a, p) \<Rightarrow> case accept_next a ys of (b, q) \<Rightarrow> (b, p @ q))"
  by (induction xs arbitrary: ack) (auto split: prod.split)

lemma accept_next_seqs:
  "ack \<le> fst (accept_next ack es) \<and> map ie_seq (snd (accept_next ack es)) = [ack + 1..fst (accept_next ack es)]
   \<and> set (snd (accept_next ack es)) \<subseteq> set es"
proof (induction es arbitrary: ack)
  case (Cons e es)
  have up: "[ack + 1..a] = (ack + 1) # [ack + 1 + 1..a]" if "ack + 1 \<le> a" for a
    using that by (simp add: upto_rec1)
  show ?case
    using Cons [of ack] Cons [of "ack + 1"] up [of "fst (accept_next (ack + 1) es)"]
    by (auto split: prod.split)
qed simp

lemma accept_next_bounded: "seqs_fit es \<Longrightarrow> ack < 2 ^ 63 \<Longrightarrow> fst (accept_next ack es) < 2 ^ 63"
proof (induction es arbitrary: ack)
  case (Cons e es)
  then have "seqs_fit es" "ie_seq e < 2 ^ 63" by (simp_all add: seqs_fit_def)
  with Cons.IH [of ack] Cons.IH [of "ack + 1"] Cons.prems(2) show ?case
    by (auto split: prod.split)
qed simp

lemma accept_next_reaches:
  assumes "subseq [m + 1..t] (map ie_seq es)" and "m \<le> ack"
  shows "t \<le> fst (accept_next ack es) \<or> t \<le> ack"
  using assms
proof (induction es arbitrary: m ack)
  case Nil
  then have "[m + 1..t] = []" by (simp only: list.map list_emb_Nil2)
  then have "t \<le> m" by simp
  with Nil show ?case by simp
next
  case (Cons e es)
  have step: "t \<le> fst (accept_next ack' es) \<or> t \<le> ack'"
    if "ack' = (if ie_seq e = ack + 1 then ack + 1 else ack)" for ack'
  proof (cases "t \<le> m")
    case True
    with Cons.prems(2) that show ?thesis by auto
  next
    case False
    then have up: "[m + 1..t] = (m + 1) # [m + 1 + 1..t]" by (simp add: upto_rec1)
    show ?thesis
    proof (cases "ie_seq e = m + 1")
      case True
      with Cons.prems(1) have "subseq [m + 1 + 1..t] (map ie_seq es)" by (simp add: up)
      moreover have "m + 1 \<le> ack'" using True Cons.prems(2) that by auto
      ultimately show ?thesis by (rule Cons.IH)
    next
      case False
      with Cons.prems(1) have "subseq [m + 1..t] (map ie_seq es)" by (simp add: up)
      moreover have "m \<le> ack'" using Cons.prems(2) that by auto
      ultimately show ?thesis by (rule Cons.IH)
    qed
  qed
  show ?case
    using step [OF refl] accept_next_seqs [of "ack + 1" es] by (auto split: prod.split if_splits)
qed

subsection \<open>Many polls of one session\<close>

text \<open>The ack after a run of polls, and every envelope whose effect was taken, in order.\<close>

fun poll_run :: "int \<Rightarrow> inbound_envelope list list \<Rightarrow> int \<times> inbound_envelope list" where
  "poll_run ack [] = (ack, [])"
| "poll_run ack (es # ess) =
     (let b = classify_inbound ack es in
      case poll_run (ib_ack b) ess of (a, acc) \<Rightarrow> (a, map (\<lambda>i. es ! i) (ib_accepted b) @ acc))"

text \<open>
  C1. Inbound exactly once and in order: over any run of polls, with envelopes repeated, reordered or
  missing in any way, the envelopes taken carry exactly the sequence numbers from the first ack up to the last,
  each once and ascending, and every one of them was sent; how the traffic is cut into polls makes no difference.
\<close>

theorem inbound_exactly_once:
  assumes "\<forall>es \<in> set ess. seqs_fit es" and "0 \<le> ack" and "ack < 2 ^ 63"
  shows "map ie_seq (snd (poll_run ack ess)) = [ack + 1..fst (poll_run ack ess)]
    \<and> ack \<le> fst (poll_run ack ess)
    \<and> set (snd (poll_run ack ess)) \<subseteq> set (concat ess)
    \<and> poll_run ack ess = poll_run ack [concat ess]"
proof -
  have run: "poll_run ack ess = accept_next ack (concat ess)"
    using assms
  proof (induction ess arbitrary: ack)
    case (Cons es ess)
    let ?b = "classify_inbound ack es"
    have fit: "seqs_fit es" using Cons.prems(1) by simp
    note eq = classify_inbound_accepts(1) [OF fit Cons.prems(2,3)]
    have "0 \<le> ib_ack ?b" "ib_ack ?b < 2 ^ 63"
      using accept_next_seqs [of ack es] accept_next_bounded [OF fit Cons.prems(3)] Cons.prems(2) by (auto simp: eq)
    then have "poll_run (ib_ack ?b) ess = accept_next (ib_ack ?b) (concat ess)"
      using Cons.IH Cons.prems(1) by simp
    then show ?case by (simp add: Let_def accept_next_append eq)
  qed simp
  have "seqs_fit (concat ess)" using assms(1) by (auto simp: seqs_fit_def)
  then have "poll_run ack [concat ess] = accept_next ack (concat ess)"
    using classify_inbound_accepts(1) [OF _ assms(2,3)] by (simp add: Let_def)
  with run accept_next_seqs [of ack "concat ess"] show ?thesis by simp
qed

definition sample_inbound :: "int \<Rightarrow> inbound_envelope" where
  "sample_inbound n = \<lparr>ie_v = None, ie_id = ''i'', ie_type = ''core.x'', ie_seq = n, ie_ts = '''', ie_body = ''{}''\<rparr>"

theorem inbound_exactly_once_witness:
  "map ie_seq (snd (poll_run 0 [[sample_inbound 2, sample_inbound 1], [sample_inbound 1, sample_inbound 2]])) = [1, 2]"
proof -
  let ?p = "[[sample_inbound 2, sample_inbound 1], [sample_inbound 1, sample_inbound 2]]"
  have "fst (poll_run 0 ?p) = 2"
    by (simp add: classify_inbound_def classify_one_def enumerate_eq_zip upt_rec sample_inbound_def wrap64_def)
  moreover have "\<forall>es \<in> set ?p. seqs_fit es" by (simp add: seqs_fit_def sample_inbound_def)
  ultimately have "map ie_seq (snd (poll_run 0 ?p)) = [0 + 1..2]"
    using inbound_exactly_once [of ?p 0] by (metis order.refl zero_less_numeral zero_less_power)
  then show ?thesis by (simp add: upto_rec1 del: poll_run.simps)
qed

text \<open>
  Retransmission makes progress: once a poll carries, in order, every number after the ack up to
  some target, whatever else it carries in between, the ack it is answered with reaches that target.
\<close>

lemma retransmission_advances:
  assumes "seqs_fit es" and "0 \<le> ack" and "ack < 2 ^ 63" and "subseq [ack + 1..t] (map ie_seq es)"
  shows "ack \<le> ib_ack (classify_inbound ack es) \<and> (t \<le> ack \<or> t \<le> ib_ack (classify_inbound ack es))"
  using classify_inbound_accepts(1) [OF assms(1-3)] accept_next_reaches [OF assms(4) order.refl]
    accept_next_seqs [of ack es]
  by auto

lemma retransmission_advances_witness:
  "3 \<le> ib_ack (classify_inbound 1 [sample_inbound 2, sample_inbound 9, sample_inbound 3])"
proof -
  have s: "subseq [1 + 1..(3::int)] (map ie_seq [sample_inbound 2, sample_inbound 9, sample_inbound 3])"
    by (simp add: upto_rec1 sample_inbound_def)
  have f: "seqs_fit [sample_inbound 2, sample_inbound 9, sample_inbound 3]"
    by (simp add: seqs_fit_def sample_inbound_def)
  from retransmission_advances [OF f _ _ s] show ?thesis by simp
qed

subsection \<open>The \<open>more\<close> member\<close>

text \<open>The raw JSON text of the member, empty when absent; \<open>None\<close> is the refusal.\<close>

definition decode_more :: "string \<Rightarrow> bool option" where
  "decode_more raw =
     (let t = trim_space raw in
      if t = '''' then Some False else if t = ''true'' then Some True
      else if t = ''false'' then Some False else None)"

fun floor_loop :: "int \<Rightarrow> inbound_envelope list \<Rightarrow> int" where
  "floor_loop floor [] = floor"
| "floor_loop floor (e # es) = floor_loop (if floor = 0 \<or> ie_seq e < floor then ie_seq e else floor) es"

definition backlog_floor :: "bool \<Rightarrow> inbound_envelope list \<Rightarrow> int" where
  "backlog_floor held es = (if \<not> held then 0 else floor_loop 0 es)"

lemma floor_loop_min:
  assumes "\<forall>e \<in> set es. 1 \<le> ie_seq e" and "1 \<le> f"
  shows "floor_loop f es = Min (insert f (ie_seq ` set es))"
  using assms
proof (induction es arbitrary: f)
  case (Cons e es)
  have f: "(if f = 0 \<or> ie_seq e < f then ie_seq e else f) = min (ie_seq e) f"
    using Cons.prems by auto
  have "floor_loop (min (ie_seq e) f) es = Min (insert (min (ie_seq e) f) (ie_seq ` set es))"
    using Cons.prems by (intro Cons.IH) auto
  also have "\<dots> = Min (insert f (ie_seq ` set (e # es)))"
    by (cases "es = []") (simp_all add: insert_commute min.assoc min.left_commute min.commute)
  finally show ?case by (simp only: floor_loop.simps f)
qed simp

text \<open>
  A poll that says more is answered without holding exactly when the ack it is answered with covers at
  least one of the envelopes it carried, so an early answer always means progress.
\<close>

lemma drain_means_progress:
  assumes "\<forall>e \<in> set es. well_framed e"
  shows "(0 < backlog_floor held es \<and> backlog_floor held es \<le> ack)
    \<longleftrightarrow> held \<and> (\<exists>e \<in> set es. ie_seq e \<le> ack)"
proof (cases es)
  case Nil
  then show ?thesis by (simp add: backlog_floor_def)
next
  case (Cons e es')
  have pos: "\<forall>x \<in> set es. 1 \<le> ie_seq x" using assms by (simp add: well_framed_def)
  then have "floor_loop 0 es = Min (ie_seq ` set es)"
    using floor_loop_min [of es' "ie_seq e"] Cons by simp
  moreover have "1 \<le> Min (ie_seq ` set es)" using pos Cons by simp
  moreover have "Min (ie_seq ` set es) \<le> ack \<longleftrightarrow> (\<exists>x \<in> set es. ie_seq x \<le> ack)"
    using Cons by (simp add: Min_le_iff)
  ultimately show ?thesis by (auto simp: backlog_floor_def)
qed

lemma drain_means_progress_witness:
  "0 < backlog_floor True [sample_inbound 5, sample_inbound 4] \<and> backlog_floor True [sample_inbound 5, sample_inbound 4] \<le> 4"
  by (subst drain_means_progress) (simp_all add: sample_inbound_def well_framed_def)

end
