(* ===== verification/Sessions.thy ===== *)
theory Sessions
  imports Outbound Scope
begin

text \<open>
  Enrollment, credentials and sessions (hub/store/servers.go): one-time enrollment tokens, the
  server's secret and its revocation, and the rule of at most one live session per server.
  Identifiers and token digests are drawn by the caller and are arguments here; a clash with a
  unique key is the driver's constraint error.
\<close>

subsection \<open>Reading a server record\<close>

definition split_transports :: "string \<Rightarrow> string list" where
  "split_transports v =
     (if trim_space v = '''' then []
      else filter (\<lambda>p. p \<noteq> '''') (map trim_space (split_on (CHR '','') v)))"

definition join_transports :: "string list \<Rightarrow> string" where
  "join_transports vs = join_with '','' vs"

record server =
  sr_id :: string
  sr_name :: string
  sr_game :: string
  sr_created :: time
  sr_enrolled :: "time option"
  sr_revoked :: "time option"
  sr_last_seen :: "time option"
  sr_has_credentials :: bool
  sr_plugin_name :: string
  sr_plugin_version :: string
  sr_transports :: "string list"
  sr_link_state :: string
  sr_bans_revision :: "int option"
  sr_bans_at :: "time option"

definition scan_time :: "stamp option \<Rightarrow> time option" where
  "scan_time c = map_option parse_time c"

definition scan_server :: "server_row \<Rightarrow> server" where
  "scan_server r =
     \<lparr>sr_id = sv_id r, sr_name = sv_name r, sr_game = sv_game r,
      sr_created = parse_time (sv_created r), sr_enrolled = scan_time (sv_enrolled r),
      sr_revoked = scan_time (sv_revoked r), sr_last_seen = scan_time (sv_last_seen r),
      sr_has_credentials = (sv_secret r \<noteq> ''''), sr_plugin_name = sv_plugin_name r,
      sr_plugin_version = sv_plugin_version r, sr_transports = split_transports (sv_transports r),
      sr_link_state = sv_link_state r, sr_bans_revision = sv_bans_revision r,
      sr_bans_at = scan_time (sv_bans_at r)\<rparr>"

datatype credential_state = CredentialNone | CredentialActive | CredentialRevoked

definition credential_state :: "server \<Rightarrow> credential_state" where
  "credential_state s =
     (if sr_revoked s \<noteq> None then CredentialRevoked
      else if sr_has_credentials s then CredentialActive else CredentialNone)"

record session =
  se_id :: string
  se_server :: string
  se_created :: time
  se_expires :: time
  se_ended :: "time option"
  se_end_reason :: string
  se_protocol :: int
  se_poll_timeout :: int
  se_outbound_seq :: int
  se_outbound_ack :: int
  se_inbound_ack :: int
  se_inbound_count :: int

definition scan_session :: "session_row \<Rightarrow> session" where
  "scan_session r =
     \<lparr>se_id = ss_id r, se_server = ss_server r, se_created = parse_time (ss_created r),
      se_expires = parse_time (ss_expires r), se_ended = scan_time (ss_ended r),
      se_end_reason = ss_end_reason r, se_protocol = ss_protocol r,
      se_poll_timeout = ss_poll_timeout r, se_outbound_seq = ss_outbound_seq r,
      se_outbound_ack = ss_outbound_ack r, se_inbound_ack = ss_inbound_ack r,
      se_inbound_count = ss_inbound_count r\<rparr>"

definition session_is_live :: "session \<Rightarrow> time \<Rightarrow> bool" where
  "session_is_live s now = (se_ended s = None \<and> se_expires s > now)"

definition find_server :: "db \<Rightarrow> string \<Rightarrow> store_error + server" where
  "find_server d sid =
     (case find (\<lambda>r. sv_id r = sid) (servers d) of
        None \<Rightarrow> Inl ErrNotFound
      | Some r \<Rightarrow> Inr (scan_server r))"

definition list_servers :: "db \<Rightarrow> server list" where
  "list_servers d = map scan_server (rev (sort_key (\<lambda>r. (sv_created r, sv_id r)) (servers d)))"

subsection \<open>Creating and enrolling a server\<close>

text \<open>\<open>Truncate(time.Millisecond)\<close> on the hub's clock: what the database will hold.\<close>

definition truncate_milli :: "time \<Rightarrow> time" where
  "truncate_milli t = parse_time (format_time t)"

definition create_server :: "db \<Rightarrow> string \<Rightarrow> string \<Rightarrow> string \<Rightarrow> time \<Rightarrow> store_error + (server \<times> db)" where
  "create_server d name game sid now =
     (let s = \<lparr>sr_id = sid, sr_name = name, sr_game = game, sr_created = truncate_milli now,
               sr_enrolled = None, sr_revoked = None, sr_last_seen = None, sr_has_credentials = False,
               sr_plugin_name = '''', sr_plugin_version = '''', sr_transports = [],
               sr_link_state = link_unknown, sr_bans_revision = None, sr_bans_at = None\<rparr>;
          r = \<lparr>sv_id = sid, sv_name = name, sv_game = game, sv_created = format_time now,
               sv_secret = '''', sv_enrolled = None, sv_revoked = None, sv_plugin_name = '''',
               sv_plugin_version = '''', sv_transports = '''', sv_last_seen = None,
               sv_link_state = link_unknown, sv_bans_revision = None, sv_bans_at = None\<rparr>
      in if exists_row (\<lambda>x. sv_id x = sid) (servers d) then Inl (ErrConstraint ''servers'')
         else Inr (s, d\<lparr>servers := servers d @ [r]\<rparr>))"

definition issue_enrollment_token ::
  "db \<Rightarrow> string \<Rightarrow> string \<Rightarrow> int \<Rightarrow> time \<Rightarrow> store_error + (time \<times> db)" where
  "issue_enrollment_token d sid hash ttl now =
     (let expires = truncate_milli (now + ttl) in
      if \<not> lock_server d sid then Inl ErrNotFound
      else let cleared = delete_where (\<lambda>t. et_server t = sid \<and> et_used t = None) (enrollment_tokens d) in
        if exists_row (\<lambda>t. et_hash t = hash) cleared then Inl (ErrConstraint ''enrollment_tokens'')
        else Inr (expires, d\<lparr>enrollment_tokens := cleared @
               [\<lparr>et_hash = hash, et_server = sid, et_created = format_time now,
                 et_expires = format_time expires, et_used = None\<rparr>]\<rparr>))"

definition end_session_row :: "string \<Rightarrow> time \<Rightarrow> session_row \<Rightarrow> session_row" where
  "end_session_row reason now s = s\<lparr>ss_ended := Some (format_time now), ss_end_reason := reason\<rparr>"

definition end_sessions :: "db \<Rightarrow> string \<Rightarrow> string \<Rightarrow> time \<Rightarrow> db" where
  "end_sessions d sid reason now =
     d\<lparr>sessions := update_where (\<lambda>s. ss_server s = sid \<and> ss_ended s = None)
                     (end_session_row reason now) (sessions d)\<rparr>"

definition session_end_superseded :: string where
  "session_end_superseded = ''superseded''"

definition session_end_credentials :: string where
  "session_end_credentials = ''credentials-changed''"

definition session_end_revoked :: string where
  "session_end_revoked = ''credentials-revoked''"

record plugin_info =
  pi_name :: string
  pi_version :: string
  pi_transports :: "string list"

definition install_credentials :: "string \<Rightarrow> string \<Rightarrow> plugin_info \<Rightarrow> time \<Rightarrow> server_row \<Rightarrow> server_row" where
  "install_credentials secret game plugin now r =
     r\<lparr>sv_secret := secret, sv_game := game,
       sv_enrolled := coalesce (sv_enrolled r) (format_time now), sv_revoked := None,
       sv_plugin_name := pi_name plugin, sv_plugin_version := pi_version plugin,
       sv_transports := join_transports (pi_transports plugin)\<rparr>"

definition burns :: "string \<Rightarrow> enrollment_row \<Rightarrow> bool" where
  "burns hash t = (et_hash t = hash \<and> et_used t = None)"

definition enroll ::
  "db \<Rightarrow> string \<Rightarrow> string \<Rightarrow> string \<Rightarrow> plugin_info \<Rightarrow> time \<Rightarrow> store_error + (server \<times> db)" where
  "enroll d hash game secret plugin now =
     (case find (\<lambda>t. et_hash t = hash) (enrollment_tokens d) of
        None \<Rightarrow> Inl ErrEnrollmentTokenInvalid
      | Some t \<Rightarrow>
        if et_used t \<noteq> None then Inl ErrEnrollmentTokenUsed
        else if \<not> parse_time (et_expires t) > now then Inl ErrEnrollmentTokenInvalid
        else case find (\<lambda>r. sv_id r = et_server t) (servers d) of
          None \<Rightarrow> Inl (ErrNoRows ''servers'')
        | Some r \<Rightarrow>
          if sv_game r \<noteq> '''' \<and> sv_game r \<noteq> game then Inl ErrGameMismatch
          else if affected (burns hash) (enrollment_tokens d) \<noteq> 1
          then (case find (\<lambda>t. et_hash t = hash) (enrollment_tokens d) of
                  None \<Rightarrow> Inl ErrEnrollmentTokenInvalid | Some _ \<Rightarrow> Inl ErrEnrollmentTokenUsed)
          else if secret \<noteq> '''' \<and> exists_row (\<lambda>x. sv_secret x = secret \<and> sv_id x \<noteq> et_server t) (servers d)
          then Inl (ErrConstraint ''servers'')
          else let d1 = d\<lparr>enrollment_tokens := update_where (burns hash)
                            (\<lambda>t. t\<lparr>et_used := Some (format_time now)\<rparr>) (enrollment_tokens d)\<rparr>;
                   d2 = d1\<lparr>servers := update_where (\<lambda>r. sv_id r = et_server t)
                             (install_credentials secret game plugin now) (servers d1)\<rparr>;
                   d3 = end_sessions d2 (et_server t) session_end_credentials now
               in case find_server d3 (et_server t) of
                    Inl err \<Rightarrow> Inl (ErrNoRows ''servers'')
                  | Inr s \<Rightarrow> Inr (s, d3))"

subsection \<open>Credentials\<close>

definition token_equal :: "string \<Rightarrow> string \<Rightarrow> bool" where
  "token_equal a b = (a = b)"

definition authenticate_server :: "db \<Rightarrow> string \<Rightarrow> string \<Rightarrow> store_error + server" where
  "authenticate_server d sid secret =
     (case find (\<lambda>r. sv_id r = sid) (servers d) of
        None \<Rightarrow> Inl ErrCredentialsInvalid
      | Some r \<Rightarrow>
        if sv_secret r = '''' \<or> \<not> token_equal (sv_secret r) secret then Inl ErrCredentialsInvalid
        else case find_server d sid of
          Inl err \<Rightarrow> Inl err
        | Inr s \<Rightarrow> if sr_revoked s \<noteq> None then Inl ErrCredentialsRevoked else Inr s)"

definition revoke_credentials :: "db \<Rightarrow> string \<Rightarrow> time \<Rightarrow> store_error + db" where
  "revoke_credentials d sid now =
     (case find (\<lambda>r. sv_id r = sid) (servers d) of
        None \<Rightarrow> Inl ErrNotFound
      | Some r \<Rightarrow>
        let d1 = (if sv_secret r \<noteq> ''''
                  then d\<lparr>servers := update_where (\<lambda>x. sv_id x = sid)
                           (\<lambda>x. x\<lparr>sv_revoked := coalesce (sv_revoked x) (format_time now)\<rparr>) (servers d)\<rparr>
                  else d)
        in Inr (end_sessions d1 sid session_end_revoked now))"

subsection \<open>Sessions\<close>

record new_session =
  ns_server :: string
  ns_token :: string
  ns_ttl :: int
  ns_protocol :: int
  ns_poll_timeout :: int
  ns_plugin :: plugin_info

definition session_start_row :: "new_session \<Rightarrow> string \<Rightarrow> time \<Rightarrow> session_row" where
  "session_start_row q sid now =
     \<lparr>ss_id = sid, ss_token = ns_token q, ss_server = ns_server q,
      ss_created = format_time (truncate_milli now),
      ss_expires = format_time (truncate_milli (now + ns_ttl q)), ss_ended = None,
      ss_end_reason = '''', ss_protocol = ns_protocol q, ss_poll_timeout = ns_poll_timeout q,
      ss_outbound_seq = 0, ss_outbound_ack = 0, ss_inbound_ack = 0, ss_inbound_count = 0\<rparr>"

definition session_clash :: "session_row \<Rightarrow> session_row \<Rightarrow> bool" where
  "session_clash r x =
     (ss_id x = ss_id r \<or> ss_token x = ss_token r
      \<or> ss_server x = ss_server r \<and> ss_ended x = None \<and> ss_ended r = None)"

definition start_session :: "db \<Rightarrow> new_session \<Rightarrow> string \<Rightarrow> time \<Rightarrow> store_error + (session \<times> db)" where
  "start_session d q sid now =
     (if \<not> lock_server d (ns_server q) then Inl ErrNotFound
      else let d1 = end_sessions d (ns_server q) session_end_superseded now;
               r = session_start_row q sid now
           in if exists_row (session_clash r) (sessions d1) then Inl (ErrConstraint ''sessions'')
              else Inr (scan_session r,
                d1\<lparr>sessions := sessions d1 @ [r],
                   servers := update_where (\<lambda>x. sv_id x = ns_server q)
                     (\<lambda>x. x\<lparr>sv_last_seen := Some (format_time now),
                            sv_plugin_name := pi_name (ns_plugin q),
                            sv_plugin_version := pi_version (ns_plugin q),
                            sv_transports := join_transports (pi_transports (ns_plugin q))\<rparr>)
                     (servers d1)\<rparr>))"

definition session_by_token :: "db \<Rightarrow> string \<Rightarrow> time \<Rightarrow> store_error + (session \<times> server)" where
  "session_by_token d token now =
     (case find (\<lambda>s. ss_token s = token) (sessions d) of
        None \<Rightarrow> Inl ErrNotFound
      | Some r \<Rightarrow>
        if \<not> session_is_live (scan_session r) now then Inl ErrNotFound
        else case find_server d (ss_server r) of
          Inl err \<Rightarrow> Inl err
        | Inr s \<Rightarrow> Inr (scan_session r, s))"

definition live_session :: "db \<Rightarrow> string \<Rightarrow> time \<Rightarrow> session option" where
  "live_session d server now =
     (case rev (sort_key ss_created
             (filter (\<lambda>s. ss_server s = server \<and> ss_ended s = None \<and> ss_expires s > format_time now)
                (sessions d))) of
        [] \<Rightarrow> None
      | s # _ \<Rightarrow> Some (scan_session s))"

text \<open>
  \<open>authenticateSession\<close> (hub/plugin.go), the gate of every Plugin API call: the one answer for
  every kind of dead session is \<open>None\<close>.
\<close>

definition authenticate_session :: "db \<Rightarrow> string \<Rightarrow> time \<Rightarrow> (session \<times> server) option" where
  "authenticate_session d token now =
     (case session_by_token d token now of
        Inl err \<Rightarrow> None
      | Inr (se, s) \<Rightarrow> if sr_revoked s \<noteq> None then None else Some (se, s))"

subsection \<open>The invariant of accounts and sessions\<close>

definition auth_inv :: "db \<Rightarrow> bool" where
  "auth_inv d =
     (distinct (map sv_id (servers d)) \<and> distinct (map et_hash (enrollment_tokens d))
      \<and> distinct (map ss_token (sessions d)) \<and> outbound_inv d)"

lemma end_session_row_simps [simp]:
  "ss_id (end_session_row r now s) = ss_id s" "ss_token (end_session_row r now s) = ss_token s"
  "ss_server (end_session_row r now s) = ss_server s"
  "ss_ended (end_session_row r now s) = Some (format_time now)"
  "ss_outbound_seq (end_session_row r now s) = ss_outbound_seq s"
  "ss_outbound_ack (end_session_row r now s) = ss_outbound_ack s"
  by (simp_all add: end_session_row_def)

lemma end_sessions_simps [simp]:
  "servers (end_sessions d sid r now) = servers d"
  "enrollment_tokens (end_sessions d sid r now) = enrollment_tokens d"
  "outbound (end_sessions d sid r now) = outbound d"
  "map ss_token (sessions (end_sessions d sid r now)) = map ss_token (sessions d)"
  "map ss_id (sessions (end_sessions d sid r now)) = map ss_id (sessions d)"
  by (simp_all add: end_sessions_def map_update_where)

text \<open>Ending sessions, and starting one, as steps of the channel.\<close>

lemma end_sessions_chan:
  assumes inv: "chan_inv ss es"
  shows "chan_inv (update_where p (end_session_row r now) ss) es"
  unfolding chan_inv_def
proof (intro conjI ballI)
  note D = chan_invD [OF inv]
  let ?ss = "update_where p (end_session_row r now) ss"
  have orig: "\<exists>x \<in> set ss. ss_id y = ss_id x \<and> ss_server y = ss_server x \<and> (ss_ended y = None \<longrightarrow> y = x)
      \<and> ss_outbound_seq y = ss_outbound_seq x \<and> ss_outbound_ack y = ss_outbound_ack x" if "y \<in> set ?ss" for y
    using that by (rule update_whereE) auto
  show "ids_distinct ?ss es" using D(1,2) by (simp add: ids_distinct_def map_update_where)
  show "acks_bounded ?ss" using D(3) orig unfolding acks_bounded_def by metis
  show "seqs_unique es" by (rule D(4))
  show "no_gaps ?ss es" using D(5) orig unfolding no_gaps_def by metis
  show "one_live ?ss" using D(6) orig unfolding one_live_def by metis
  fix e assume "e \<in> set es"
  from D(7) [OF this] show "row_ok ?ss e"
  proof (cases rule: row_okE)
    case unsent
    then show ?thesis by (simp add: row_ok_def)
  next
    case (sent x n)
    let ?y = "if p x then end_session_row r now x else x"
    have "?y \<in> set ?ss" using sent(1) unfolding set_update_where by blast
    then show ?thesis by (rule row_okI [of _ _ _ n]) (use sent in auto)
  qed
qed

lemma end_sessions_inv: "outbound_inv d \<Longrightarrow> outbound_inv (end_sessions d sid r now)"
  unfolding outbound_inv_def by (simp add: end_sessions_def end_sessions_chan)

lemma start_session_chan:
  assumes inv: "chan_inv ss es" and new: "ss_id r \<notin> ss_id ` set ss"
    and zero: "ss_outbound_seq r = 0" "ss_outbound_ack r = 0"
    and only: "\<forall>x \<in> set ss. ss_server x = ss_server r \<longrightarrow> ss_ended x \<noteq> None"
  shows "chan_inv (ss @ [r]) es"
  unfolding chan_inv_def
proof (intro conjI ballI)
  note D = chan_invD [OF inv]
  show "ids_distinct (ss @ [r]) es" using D(1,2) new by (simp add: ids_distinct_def)
  show "acks_bounded (ss @ [r])" using D(3) zero by (simp add: acks_bounded_def)
  show "seqs_unique es" by (rule D(4))
  show "no_gaps (ss @ [r]) es" using D(5) zero by (auto simp: no_gaps_def)
  show "one_live (ss @ [r])"
    unfolding one_live_def
  proof (intro ballI impI)
    fix x y assume "x \<in> set (ss @ [r])" "y \<in> set (ss @ [r])"
      and "ss_ended x = None" "ss_ended y = None" "ss_server x = ss_server y"
    with only consider "x \<in> set ss" "y \<in> set ss" | "x = r" "y = r"
      unfolding set_append by (metis Un_iff empty_iff empty_set insert_iff list.set(2))
    then show "ss_id x = ss_id y"
      using D(6) \<open>ss_ended x = None\<close> \<open>ss_ended y = None\<close> \<open>ss_server x = ss_server y\<close>
      unfolding one_live_def by cases blast+
  qed
  fix e assume "e \<in> set es"
  from D(7) [OF this] show "row_ok (ss @ [r]) e"
  proof (cases rule: row_okE)
    case unsent
    then show ?thesis by (simp add: row_ok_def)
  next
    case (sent x n)
    then show ?thesis by (intro row_okI [of x _ _ n]) auto
  qed
qed

lemma end_sessions_ended:
  "s \<in> set (sessions (end_sessions d sid r now)) \<Longrightarrow> ss_server s = sid \<Longrightarrow> ss_ended s \<noteq> None"
  unfolding end_sessions_def by (simp, erule update_whereE) auto

lemma in_end_sessions:
  assumes "x \<in> set (sessions d)"
  shows "\<exists>y \<in> set (sessions (end_sessions d sid r now)). ss_id y = ss_id x \<and> ss_token y = ss_token x"
proof -
  have "(if ss_server x = sid \<and> ss_ended x = None then end_session_row r now x else x)
      \<in> set (sessions (end_sessions d sid r now))"
    using assms by (auto simp: end_sessions_def set_update_where)
  then show ?thesis by (rule rev_bexI) simp
qed

lemma session_start_row_simps [simp]:
  "ss_id (session_start_row q sid now) = sid" "ss_token (session_start_row q sid now) = ns_token q"
  "ss_server (session_start_row q sid now) = ns_server q" "ss_ended (session_start_row q sid now) = None"
  "ss_outbound_seq (session_start_row q sid now) = 0" "ss_outbound_ack (session_start_row q sid now) = 0"
  "ss_expires (session_start_row q sid now) = format_time (now + ns_ttl q)"
  by (simp_all add: session_start_row_def truncate_milli_def)

lemma start_sessionE:
  assumes "start_session d q sid now = Inr (se, d')"
  obtains r where "r = session_start_row q sid now" "se = scan_session r" "lock_server d (ns_server q)"
    "sessions d' = sessions (end_sessions d (ns_server q) session_end_superseded now) @ [r]"
    "outbound d' = outbound d" "enrollment_tokens d' = enrollment_tokens d"
    "map sv_id (servers d') = map sv_id (servers d)"
    "sid \<notin> ss_id ` set (sessions d)" "ns_token q \<notin> ss_token ` set (sessions d)"
proof -
  let ?d1 = "end_sessions d (ns_server q) session_end_superseded now"
  from assms have clash: "\<not> exists_row (session_clash (session_start_row q sid now)) (sessions ?d1)"
    by (auto simp: start_session_def Let_def split: if_splits)
  then have "\<forall>y \<in> set (sessions ?d1). ss_id y \<noteq> sid \<and> ss_token y \<noteq> ns_token q"
    by (simp add: exists_row_def session_clash_def)
  then have "sid \<notin> ss_id ` set (sessions d)" "ns_token q \<notin> ss_token ` set (sessions d)"
    using in_end_sessions [of _ d "ns_server q" session_end_superseded now] by fastforce+
  with assms show thesis
    by (intro that [of "session_start_row q sid now"])
      (auto simp: start_session_def Let_def map_update_where split: if_splits)
qed

lemma start_session_inv:
  assumes "auth_inv d" and "start_session d q sid now = Inr (se, d')"
  shows "auth_inv d'"
proof -
  from assms(2) obtain r where r: "r = session_start_row q sid now"
    and ss: "sessions d' = sessions (end_sessions d (ns_server q) session_end_superseded now) @ [r]"
    and rest: "outbound d' = outbound d" "enrollment_tokens d' = enrollment_tokens d"
      "map sv_id (servers d') = map sv_id (servers d)"
    and new: "sid \<notin> ss_id ` set (sessions d)" "ns_token q \<notin> ss_token ` set (sessions d)"
    by (rule start_sessionE) blast
  let ?e = "end_sessions d (ns_server q) session_end_superseded now"
  have ids: "ss_id ` set (sessions ?e) = ss_id ` set (sessions d)"
    "ss_token ` set (sessions ?e) = ss_token ` set (sessions d)"
    by (simp_all only: set_map [symmetric] end_sessions_simps)
  have "chan_inv (sessions ?e) (outbound d)"
    using assms(1) end_sessions_inv [of d] by (auto simp: auth_inv_def outbound_inv_def)
  then have "chan_inv (sessions ?e @ [r]) (outbound d)"
    by (rule start_session_chan) (use new r ids end_sessions_ended in auto)
  moreover have "distinct (map ss_token (sessions ?e @ [r]))"
    using assms(1) new r ids by (simp add: auth_inv_def)
  ultimately show ?thesis
    using assms(1) by (simp add: auth_inv_def outbound_inv_def ss rest)
qed

lemma auth_invD:
  assumes "auth_inv d"
  shows "distinct (map sv_id (servers d))" "distinct (map et_hash (enrollment_tokens d))"
    "distinct (map ss_token (sessions d))" "outbound_inv d" "distinct (map ss_id (sessions d))"
  using assms chan_invD(1) by (auto simp: auth_inv_def outbound_inv_def)

lemma create_server_inv:
  "auth_inv d \<Longrightarrow> create_server d name game sid now = Inr (s, d') \<Longrightarrow> auth_inv d'"
  by (auto simp: auth_inv_def create_server_def Let_def exists_row_def outbound_inv_def split: if_splits)

lemma issue_enrollment_tokenE:
  assumes "issue_enrollment_token d sid hash ttl now = Inr (e, d')"
  obtains r where "d' = d\<lparr>enrollment_tokens :=
        delete_where (\<lambda>t. et_server t = sid \<and> et_used t = None) (enrollment_tokens d) @ [r]\<rparr>"
    "et_hash r \<notin> et_hash ` set (delete_where (\<lambda>t. et_server t = sid \<and> et_used t = None) (enrollment_tokens d))"
    "r = \<lparr>et_hash = hash, et_server = sid, et_created = format_time now,
          et_expires = format_time (now + ttl), et_used = None\<rparr>"
    "e = parse_time (format_time (now + ttl))" "lock_server d sid"
proof -
  from assms have "\<not> exists_row (\<lambda>t. et_hash t = hash)
      (delete_where (\<lambda>t. et_server t = sid \<and> et_used t = None) (enrollment_tokens d))"
    by (auto simp: issue_enrollment_token_def Let_def split: if_splits)
  then have "hash \<notin> et_hash ` set (delete_where (\<lambda>t. et_server t = sid \<and> et_used t = None) (enrollment_tokens d))"
    by (auto simp: exists_row_def image_iff)
  with assms show thesis
    by (intro that [OF _ _ refl])
      (simp_all add: issue_enrollment_token_def Let_def truncate_milli_def split: if_splits)
qed

lemma issue_enrollment_token_inv:
  assumes "auth_inv d" and "issue_enrollment_token d sid hash ttl now = Inr (e, d')"
  shows "auth_inv d'"
proof -
  from assms(2) obtain r where d': "d' = d\<lparr>enrollment_tokens :=
        delete_where (\<lambda>t. et_server t = sid \<and> et_used t = None) (enrollment_tokens d) @ [r]\<rparr>"
    and new: "et_hash r \<notin> et_hash ` set (delete_where (\<lambda>t. et_server t = sid \<and> et_used t = None) (enrollment_tokens d))"
    by (rule issue_enrollment_tokenE) blast
  have "distinct (map et_hash (delete_where (\<lambda>t. et_server t = sid \<and> et_used t = None) (enrollment_tokens d)))"
    using assms(1) by (auto simp: auth_inv_def)
  with new assms(1) show ?thesis by (simp add: d' auth_inv_def outbound_inv_def)
qed

text \<open>What a successful enrollment did.\<close>

lemma enrollE:
  assumes "enroll d hash game secret plugin now = Inr (s, d')"
  obtains t r where "find (\<lambda>t. et_hash t = hash) (enrollment_tokens d) = Some t" "et_used t = None"
    "now < parse_time (et_expires t)" "find (\<lambda>r. sv_id r = et_server t) (servers d) = Some r"
    "sv_game r = '''' \<or> sv_game r = game"
    "secret \<noteq> '''' \<longrightarrow> (\<forall>x \<in> set (servers d). sv_secret x = secret \<longrightarrow> sv_id x = et_server t)"
    "enrollment_tokens d' = update_where (burns hash) (\<lambda>t. t\<lparr>et_used := Some (format_time now)\<rparr>) (enrollment_tokens d)"
    "servers d' = update_where (\<lambda>r. sv_id r = et_server t) (install_credentials secret game plugin now) (servers d)"
    "sessions d' = sessions (end_sessions d (et_server t) session_end_credentials now)"
    "outbound d' = outbound d"
    "s = scan_server (install_credentials secret game plugin now r)"
proof -
  from assms obtain t where t: "find (\<lambda>t. et_hash t = hash) (enrollment_tokens d) = Some t"
    by (auto simp: enroll_def split: option.splits)
  with assms have u: "et_used t = None" "now < parse_time (et_expires t)"
    by (auto simp: enroll_def split: if_splits)
  with assms t obtain r where r: "find (\<lambda>r. sv_id r = et_server t) (servers d) = Some r"
    by (auto simp: enroll_def split: option.splits)
  let ?ss = "update_where (\<lambda>r. sv_id r = et_server t) (install_credentials secret game plugin now) (servers d)"
  have fnd: "find (\<lambda>r. sv_id r = et_server t) ?ss = Some (install_credentials secret game plugin now r)"
    using find_Some_in [OF r] r
    by (subst find_update_where) (auto simp: install_credentials_def)
  show thesis
    using assms t u r fnd
    by (intro that [of t r])
      (auto simp: enroll_def find_server_def Let_def exists_row_def end_sessions_def split: if_splits)
qed

lemma enroll_inv:
  assumes "auth_inv d" and "enroll d hash game secret plugin now = Inr (s, d')"
  shows "auth_inv d'"
proof -
  from assms(2) obtain t :: enrollment_row where
    e: "enrollment_tokens d' = update_where (burns hash) (\<lambda>t. t\<lparr>et_used := Some (format_time now)\<rparr>) (enrollment_tokens d)"
    "servers d' = update_where (\<lambda>r. sv_id r = et_server t) (install_credentials secret game plugin now) (servers d)"
    "sessions d' = sessions (end_sessions d (et_server t) session_end_credentials now)"
    "outbound d' = outbound d" by (rule enrollE) blast
  have "outbound_inv d'"
    using end_sessions_inv [of d] assms(1) e(3,4) by (simp add: auth_inv_def outbound_inv_def)
  with assms(1) e show ?thesis
    by (simp add: auth_inv_def map_update_where install_credentials_def)
qed

lemma revoke_credentialsE:
  assumes "revoke_credentials d sid now = Inr d'"
  obtains r where "find (\<lambda>r. sv_id r = sid) (servers d) = Some r"
    "servers d' = (if sv_secret r \<noteq> ''''
       then update_where (\<lambda>x. sv_id x = sid) (\<lambda>x. x\<lparr>sv_revoked := coalesce (sv_revoked x) (format_time now)\<rparr>) (servers d)
       else servers d)"
    "sessions d' = sessions (end_sessions d sid session_end_revoked now)"
    "outbound d' = outbound d" "enrollment_tokens d' = enrollment_tokens d"
  using assms
  by (auto simp: revoke_credentials_def Let_def end_sessions_def split: option.splits if_splits)

lemma revoke_credentials_inv:
  assumes "auth_inv d" and "revoke_credentials d sid now = Inr d'"
  shows "auth_inv d'"
proof -
  from assms(2) obtain r :: server_row where
    e: "servers d' = (if sv_secret r \<noteq> ''''
       then update_where (\<lambda>x. sv_id x = sid) (\<lambda>x. x\<lparr>sv_revoked := coalesce (sv_revoked x) (format_time now)\<rparr>) (servers d)
       else servers d)"
    "sessions d' = sessions (end_sessions d sid session_end_revoked now)"
    "outbound d' = outbound d" "enrollment_tokens d' = enrollment_tokens d"
    by (rule revoke_credentialsE) blast
  have "outbound_inv d'"
    using end_sessions_inv [of d] assms(1) e by (simp add: auth_inv_def outbound_inv_def)
  with assms(1) e show ?thesis by (simp add: auth_inv_def map_update_where)
qed

subsection \<open>Who can authenticate, and with which session\<close>

lemma session_is_live_scan [simp]:
  "session_is_live (scan_session r) now \<longleftrightarrow> ss_ended r = None \<and> now < parse_time (ss_expires r)"
  by (simp add: session_is_live_def scan_session_def scan_time_def)

lemma session_token_ended:
  assumes "auth_inv d" and "s \<in> set (sessions d)" and "ss_ended s \<noteq> None"
  shows "session_by_token d (ss_token s) now = Inl ErrNotFound"
  using find_unique [OF auth_invD(3) [OF assms(1)] assms(2)] assms(3)
  by (simp add: session_by_token_def)

lemma session_token_ended_of:
  assumes inv: "auth_inv d" "auth_inv d'" and old: "s \<in> set (sessions d)" "ss_server s = sid"
    and ss: "set (sessions (end_sessions d sid r t)) \<subseteq> set (sessions d')"
  shows "session_by_token d' (ss_token s) now = Inl ErrNotFound"
proof -
  from in_end_sessions [OF old(1)] obtain y where
    y: "y \<in> set (sessions (end_sessions d sid r t))" "ss_token y = ss_token s" "ss_id y = ss_id s" by metis
  have "ss_server y = sid"
    using y(1)
  proof (simp add: end_sessions_def, elim update_whereE)
    assume "y \<in> set (sessions d)"
    with same_session [OF auth_invD(5) [OF inv(1)] this old(1) y(3)] old(2) show ?thesis by simp
  qed simp
  then have "ss_ended y \<noteq> None" using end_sessions_ended [OF y(1)] by simp
  with session_token_ended [OF inv(2), of y] y ss show ?thesis by auto
qed

lemma start_session_takes_over:
  assumes inv: "auth_inv d" and start: "start_session d q sid now = Inr (se, d')"
  shows "auth_inv d'
    \<and> (\<forall>s \<in> set (sessions d'). ss_server s = ns_server q \<longrightarrow> (ss_ended s = None \<longleftrightarrow> ss_id s = sid))
    \<and> (\<forall>s \<in> set (sessions d). ss_server s = ns_server q \<longrightarrow> session_by_token d' (ss_token s) t = Inl ErrNotFound)
    \<and> (\<forall>s \<in> set (sessions d). ss_server s \<noteq> ns_server q \<longrightarrow> s \<in> set (sessions d'))
    \<and> (t < parse_time (format_time (now + ns_ttl q)) \<longrightarrow>
        (\<exists>s. session_by_token d' (ns_token q) t = Inr (se, s) \<and> sr_id s = ns_server q))"
proof -
  from start obtain r where r: "r = session_start_row q sid now" "se = scan_session r"
    and srv: "lock_server d (ns_server q)"
    and ss: "sessions d' = sessions (end_sessions d (ns_server q) session_end_superseded now) @ [r]"
    and ids: "map sv_id (servers d') = map sv_id (servers d)"
    and new: "sid \<notin> ss_id ` set (sessions d)" "ns_token q \<notin> ss_token ` set (sessions d)"
    by (rule start_sessionE) blast
  let ?e = "end_sessions d (ns_server q) session_end_superseded now"
  have inv': "auth_inv d'" using start_session_inv [OF inv start] .
  have same: "ss_id ` set (sessions ?e) = ss_id ` set (sessions d)"
    "ss_token ` set (sessions ?e) = ss_token ` set (sessions d)"
    by (simp_all only: set_map [symmetric] end_sessions_simps)
  have only: "ss_ended s = None \<longleftrightarrow> ss_id s = sid" if s: "s \<in> set (sessions d')" "ss_server s = ns_server q" for s
  proof (cases "s = r")
    case False
    with s have s: "s \<in> set (sessions ?e)" by (simp add: ss)
    then have "ss_id s \<in> ss_id ` set (sessions ?e)" by simp
    with same(1) new(1) have "ss_id s \<noteq> sid" by auto
    with end_sessions_ended [OF s that(2)] show ?thesis by simp
  qed (simp add: r)
  have dead: "\<forall>s \<in> set (sessions d). ss_server s = ns_server q \<longrightarrow> session_by_token d' (ss_token s) t = Inl ErrNotFound"
  proof (intro ballI impI)
    fix s assume "s \<in> set (sessions d)" "ss_server s = ns_server q"
    then show "session_by_token d' (ss_token s) t = Inl ErrNotFound"
      by (rule session_token_ended_of [OF inv inv']) (auto simp: ss)
  qed
  have keep: "\<forall>s \<in> set (sessions d). ss_server s \<noteq> ns_server q \<longrightarrow> s \<in> set (sessions d')"
    by (force simp: ss end_sessions_def set_update_where)
  have tok: "find (\<lambda>s. ss_token s = ns_token q) (sessions d') = Some r"
    using find_unique [OF auth_invD(3) [OF inv'], of r] by (simp add: ss r)
  have "ns_server q \<in> set (map sv_id (servers d'))"
    using srv unfolding ids by (force simp: lock_server_def exists_row_def)
  then obtain s where "find_server d' (ns_server q) = Inr s" "sr_id s = ns_server q"
    by (cases "find (\<lambda>r. sv_id r = ns_server q) (servers d')")
      (auto simp: find_server_def find_None_iff scan_server_def dest: find_Some_in)
  with tok have "t < parse_time (format_time (now + ns_ttl q)) \<Longrightarrow>
      \<exists>s. session_by_token d' (ns_token q) t = Inr (se, s) \<and> sr_id s = ns_server q"
    by (simp add: session_by_token_def r)
  with inv' only dead keep show ?thesis by blast
qed

text \<open>
  C5. Starting a session leaves the server with exactly one session that is not over, the new one:
  its token authenticates until its expiry, every token of an earlier session of the server is dead from
  then on, the sessions of other servers are untouched, and the account invariant is kept.
\<close>

theorem start_session_supersedes:
  assumes inv: "auth_inv d" and start: "start_session d q sid now = Inr (se, d')"
  shows "auth_inv d'
    \<and> (\<forall>s \<in> set (sessions d'). ss_server s = ns_server q \<longrightarrow> (ss_ended s = None \<longleftrightarrow> ss_id s = sid))
    \<and> (\<forall>s \<in> set (sessions d). ss_server s = ns_server q \<longrightarrow> session_by_token d' (ss_token s) t = Inl ErrNotFound)
    \<and> (\<forall>s \<in> set (sessions d). ss_server s \<noteq> ns_server q \<longrightarrow> s \<in> set (sessions d'))
    \<and> (t < parse_time (format_time (now + ns_ttl q)) \<longrightarrow>
        (\<exists>s. session_by_token d' (ns_token q) t = Inr (se, s) \<and> sr_id s = ns_server q))"
  using assms by (rule start_session_takes_over)

text \<open>
  Revoking a server's credentials takes effect at once: none of its sessions authenticates any
  more and no secret does, whatever the clock says; other servers keep their sessions and credentials.
\<close>

lemma revoke_credentials_final:
  assumes inv: "auth_inv d" and rev: "revoke_credentials d sid now = Inr d'"
  shows "auth_inv d'
    \<and> (\<forall>s \<in> set (sessions d). ss_server s = sid \<longrightarrow> session_by_token d' (ss_token s) t = Inl ErrNotFound)
    \<and> (\<forall>secret. authenticate_server d' sid secret \<in> {Inl ErrCredentialsInvalid, Inl ErrCredentialsRevoked})
    \<and> (\<forall>other secret. other \<noteq> sid \<longrightarrow> authenticate_server d' other secret = authenticate_server d other secret)
    \<and> (\<forall>s \<in> set (sessions d). ss_server s \<noteq> sid \<longrightarrow> s \<in> set (sessions d'))"
proof (intro conjI ballI allI impI)
  from rev obtain r where r: "find (\<lambda>r. sv_id r = sid) (servers d) = Some r"
    and sv: "servers d' = (if sv_secret r \<noteq> ''''
       then update_where (\<lambda>x. sv_id x = sid) (\<lambda>x. x\<lparr>sv_revoked := coalesce (sv_revoked x) (format_time now)\<rparr>) (servers d)
       else servers d)"
    and ss: "sessions d' = sessions (end_sessions d sid session_end_revoked now)"
    by (rule revoke_credentialsE)
  show inv': "auth_inv d'" using revoke_credentials_inv [OF inv rev] .
  fix s assume "s \<in> set (sessions d)"
  then show "ss_server s = sid \<Longrightarrow> session_by_token d' (ss_token s) t = Inl ErrNotFound"
    by (rule session_token_ended_of [OF inv inv']) (auto simp: ss)
  from \<open>s \<in> set (sessions d)\<close> show "ss_server s \<noteq> sid \<Longrightarrow> s \<in> set (sessions d')"
    by (force simp: ss end_sessions_def set_update_where)
next
  fix secret
  from rev obtain r where r: "find (\<lambda>r. sv_id r = sid) (servers d) = Some r"
    and sv: "servers d' = (if sv_secret r \<noteq> ''''
       then update_where (\<lambda>x. sv_id x = sid) (\<lambda>x. x\<lparr>sv_revoked := coalesce (sv_revoked x) (format_time now)\<rparr>) (servers d)
       else servers d)"
    by (rule revoke_credentialsE)
  have f: "find (\<lambda>x. sv_id x = sid) (servers d')
      = Some (if sv_secret r \<noteq> '''' then r\<lparr>sv_revoked := coalesce (sv_revoked r) (format_time now)\<rparr> else r)"
    using find_Some_in [OF r] r by (simp add: sv find_update_where)
  then show "authenticate_server d' sid secret \<in> {Inl ErrCredentialsInvalid, Inl ErrCredentialsRevoked}"
    by (auto simp: authenticate_server_def find_server_def scan_server_def scan_time_def)
  fix other assume "other \<noteq> sid"
  then have "find (\<lambda>x. sv_id x = other) (servers d') = find (\<lambda>x. sv_id x = other) (servers d)"
    by (cases "find (\<lambda>x. sv_id x = other) (servers d)") (auto simp: sv find_update_where dest: find_Some_in)
  moreover from this have "find_server d' other = find_server d other" by (simp add: find_server_def)
  ultimately show "authenticate_server d' other secret = authenticate_server d other secret"
    by (simp add: authenticate_server_def split: option.split)
qed

lemma enroll_burns:
  assumes inv: "auth_inv d" and "secret \<noteq> ''''" and en: "enroll d hash game secret plugin now = Inr (s, d')"
  shows "enroll d' hash game' secret' plugin' now' = Inl ErrEnrollmentTokenUsed
    \<and> (\<forall>given. authenticate_server d' (sr_id s) given
        = (if given = secret then Inr s else Inl ErrCredentialsInvalid))
    \<and> (\<forall>x \<in> set (sessions d). ss_server x = sr_id s \<longrightarrow> session_by_token d' (ss_token x) t = Inl ErrNotFound)
    \<and> auth_inv d'"
proof (intro conjI allI ballI impI)
  from en obtain k r where k: "find (\<lambda>t. et_hash t = hash) (enrollment_tokens d) = Some k" "et_used k = None"
    and r: "find (\<lambda>r. sv_id r = et_server k) (servers d) = Some r"
    and tk: "enrollment_tokens d' = update_where (burns hash) (\<lambda>t. t\<lparr>et_used := Some (format_time now)\<rparr>) (enrollment_tokens d)"
    and sv: "servers d' = update_where (\<lambda>r. sv_id r = et_server k) (install_credentials secret game plugin now) (servers d)"
    and ss: "sessions d' = sessions (end_sessions d (et_server k) session_end_credentials now)"
    and s: "s = scan_server (install_credentials secret game plugin now r)"
    by (rule enrollE)
  show inv': "auth_inv d'" using enroll_inv [OF inv en] .
  from find_Some_in [OF k(1)] have "burns hash k" using k(2) by (simp add: burns_def)
  then have "find (\<lambda>t. et_hash t = hash) (enrollment_tokens d') = Some (k\<lparr>et_used := Some (format_time now)\<rparr>)"
    using k by (simp add: tk find_update_where)
  then show "enroll d' hash game' secret' plugin' now' = Inl ErrEnrollmentTokenUsed"
    by (simp add: enroll_def)
  have id: "sr_id s = et_server k"
    using find_Some_in [OF r] by (simp add: s scan_server_def install_credentials_def)
  have "find (\<lambda>r. sv_id r = et_server k) (servers d') = Some (install_credentials secret game plugin now r)"
    using find_Some_in [OF r] r unfolding sv
    by (subst find_update_where) (auto simp: install_credentials_def)
  then show "authenticate_server d' (sr_id s) given = (if given = secret then Inr s else Inl ErrCredentialsInvalid)" for given
    using assms(2) unfolding id
    by (simp add: authenticate_server_def find_server_def token_equal_def s install_credentials_def
        scan_server_def scan_time_def)
  fix x assume "x \<in> set (sessions d)" "ss_server x = sr_id s"
  then show "session_by_token d' (ss_token x) t = Inl ErrNotFound"
    unfolding id by (rule session_token_ended_of [OF inv inv']) (auto simp: ss)
qed

text \<open>
  An enrollment token is good for one enrollment: once it has enrolled, it never does again
  and answers "already used"; the new secret authenticates the server, no other secret does, and no session
  from before the enrollment authenticates.
\<close>

lemma enroll_once:
  assumes inv: "auth_inv d" and "secret \<noteq> ''''" and en: "enroll d hash game secret plugin now = Inr (s, d')"
  shows "enroll d' hash game' secret' plugin' now' = Inl ErrEnrollmentTokenUsed
    \<and> (\<forall>given. authenticate_server d' (sr_id s) given
        = (if given = secret then Inr s else Inl ErrCredentialsInvalid))
    \<and> (\<forall>x \<in> set (sessions d). ss_server x = sr_id s \<longrightarrow> session_by_token d' (ss_token x) t = Inl ErrNotFound)
    \<and> auth_inv d'"
  using assms by (rule enroll_burns)

text \<open>
  Issuing an enrollment token withdraws every unused one the server had, so only the newest can
  enroll: the withdrawn ones are unknown from then on, and the new one enrolls its server until it expires.
\<close>

lemma issue_withdraws_older:
  assumes inv: "auth_inv d" and iss: "issue_enrollment_token d sid hash ttl now = Inr (e, d')"
  shows "auth_inv d'
    \<and> (\<forall>t \<in> set (enrollment_tokens d). et_server t = sid \<and> et_used t = None \<and> et_hash t \<noteq> hash \<longrightarrow>
         enroll d' (et_hash t) game secret plugin later = Inl ErrEnrollmentTokenInvalid)
    \<and> (\<forall>r \<in> set (servers d). sv_id r = sid \<and> later < e \<and> (sv_game r = '''' \<or> sv_game r = game)
         \<and> secret \<notin> sv_secret ` set (servers d) \<longrightarrow>
         (\<exists>s d''. enroll d' hash game secret plugin later = Inr (s, d'') \<and> sr_id s = sid))"
proof (intro conjI ballI impI)
  from iss obtain n where d': "d' = d\<lparr>enrollment_tokens :=
        delete_where (\<lambda>t. et_server t = sid \<and> et_used t = None) (enrollment_tokens d) @ [n]\<rparr>"
    and new: "et_hash n \<notin> et_hash ` set (delete_where (\<lambda>t. et_server t = sid \<and> et_used t = None) (enrollment_tokens d))"
    and n: "n = \<lparr>et_hash = hash, et_server = sid, et_created = format_time now,
          et_expires = format_time (now + ttl), et_used = None\<rparr>" and e: "e = parse_time (format_time (now + ttl))"
    by (rule issue_enrollment_tokenE)
  show inv': "auth_inv d'" using issue_enrollment_token_inv [OF inv iss] .
  fix t assume t: "t \<in> set (enrollment_tokens d)" and old: "et_server t = sid \<and> et_used t = None \<and> et_hash t \<noteq> hash"
  have "x = t" if "x \<in> set (enrollment_tokens d)" "et_hash x = et_hash t" for x
    using auth_invD(2) [OF inv] that t by (meson distinct_map inj_onD)
  with old n have "find (\<lambda>x. et_hash x = et_hash t) (enrollment_tokens d') = None"
    by (auto simp: d' find_None_iff)
  then show "enroll d' (et_hash t) game secret plugin later = Inl ErrEnrollmentTokenInvalid"
    by (simp add: enroll_def)
next
  fix r assume r: "r \<in> set (servers d)" and h: "sv_id r = sid \<and> later < e \<and> (sv_game r = '''' \<or> sv_game r = game)
         \<and> secret \<notin> sv_secret ` set (servers d)"
  from iss obtain n where d': "d' = d\<lparr>enrollment_tokens :=
        delete_where (\<lambda>t. et_server t = sid \<and> et_used t = None) (enrollment_tokens d) @ [n]\<rparr>"
    and n: "n = \<lparr>et_hash = hash, et_server = sid, et_created = format_time now,
          et_expires = format_time (now + ttl), et_used = None\<rparr>" and e: "e = parse_time (format_time (now + ttl))"
    by (rule issue_enrollment_tokenE)
  have inv': "auth_inv d'" using issue_enrollment_token_inv [OF inv iss] .
  have f: "find (\<lambda>t. et_hash t = hash) (enrollment_tokens d') = Some n"
    using find_unique [OF auth_invD(2) [OF inv'], of n] by (simp add: d' n)
  have n_in: "n \<in> set (enrollment_tokens d')" by (simp add: d')
  have "burns hash x \<longleftrightarrow> et_hash x = et_hash n" if "x \<in> set (enrollment_tokens d')" for x
  proof -
    have "et_hash n = hash" "et_used n = None" by (simp_all add: n)
    then show ?thesis
      using key_unique [OF auth_invD(2) [OF inv'] that n_in] unfolding burns_def by metis
  qed
  then have "affected (burns hash) (enrollment_tokens d') = affected (\<lambda>x. et_hash x = et_hash n) (enrollment_tokens d')"
    by (rule affected_cong)
  then have one: "affected (burns hash) (enrollment_tokens d') = 1"
    using affected_key [OF auth_invD(2) [OF inv'] n_in] by simp
  have fs: "find (\<lambda>x. sv_id x = sid) (servers d) = Some r"
    using find_unique [OF auth_invD(1) [OF inv] r] h by simp
  have fu: "find (\<lambda>r. sv_id r = sid) (update_where (\<lambda>r. sv_id r = sid) (install_credentials secret game plugin later) (servers d))
      = Some (install_credentials secret game plugin later r)"
    using fs h by (subst find_update_where) (auto simp: install_credentials_def)
  have "\<not> exists_row (\<lambda>x. sv_secret x = secret \<and> sv_id x \<noteq> sid) (servers d)"
    using h by (auto simp: exists_row_def)
  moreover have "servers d' = servers d" by (simp add: d')
  ultimately show "\<exists>s d''. enroll d' hash game secret plugin later = Inr (s, d'') \<and> sr_id s = sid"
    using f one fs fu h by (simp add: enroll_def n find_server_def Let_def e scan_server_def install_credentials_def)
qed

subsection \<open>The accounts as one machine\<close>

datatype account_event =
    CreateServer string string string time
  | IssueToken string string int time
  | Enroll string string string plugin_info time
  | Revoke string time
  | StartSession new_session string time

text \<open>A refused request leaves the database as it was.\<close>

fun account_step :: "db \<Rightarrow> account_event \<Rightarrow> db" where
  "account_step d (CreateServer name game sid now) =
     (case create_server d name game sid now of Inl _ \<Rightarrow> d | Inr (_, d') \<Rightarrow> d')"
| "account_step d (IssueToken sid hash ttl now) =
     (case issue_enrollment_token d sid hash ttl now of Inl _ \<Rightarrow> d | Inr (_, d') \<Rightarrow> d')"
| "account_step d (Enroll hash game secret plugin now) =
     (case enroll d hash game secret plugin now of Inl _ \<Rightarrow> d | Inr (_, d') \<Rightarrow> d')"
| "account_step d (Revoke sid now) =
     (case revoke_credentials d sid now of Inl _ \<Rightarrow> d | Inr d' \<Rightarrow> d')"
| "account_step d (StartSession q sid now) =
     (case start_session d q sid now of Inl _ \<Rightarrow> d | Inr (_, d') \<Rightarrow> d')"

definition burned_stay :: "db \<Rightarrow> db \<Rightarrow> bool" where
  "burned_stay d e =
     (\<forall>t \<in> set (enrollment_tokens d). et_used t \<noteq> None \<longrightarrow> t \<in> set (enrollment_tokens e))"

lemma enroll_burned_stay: "enroll d hash game secret plugin now = Inr (s, d') \<Longrightarrow> burned_stay d d'"
  by (erule enrollE) (force simp: burned_stay_def set_update_where burns_def)

lemma delete_unused_stay:
  "enrollment_tokens d' = delete_where (\<lambda>t. et_server t = sid \<and> et_used t = None) (enrollment_tokens d) @ ts \<Longrightarrow>
   burned_stay d d'"
  by (auto simp: burned_stay_def)

lemma same_tokens_stay: "enrollment_tokens d' = enrollment_tokens d \<Longrightarrow> burned_stay d d'"
  by (simp add: burned_stay_def)

lemma account_step_burned: "burned_stay d (account_step d e)"
proof (cases e)
  case (CreateServer name game sid now)
  then show ?thesis
    by (intro same_tokens_stay) (simp add: create_server_def Let_def)
next
  case (IssueToken sid hash ttl now)
  show ?thesis
  proof (cases "issue_enrollment_token d sid hash ttl now")
    case (Inr r)
    then obtain x d' where r: "issue_enrollment_token d sid hash ttl now = Inr (x, d')" by (cases r) auto
    then show ?thesis
      by (rule issue_enrollment_tokenE) (use IssueToken r in \<open>simp add: delete_unused_stay\<close>)
  qed (simp add: IssueToken same_tokens_stay)
next
  case (Enroll hash game secret plugin now)
  then show ?thesis using enroll_burned_stay
    by (cases "enroll d hash game secret plugin now") (auto intro: same_tokens_stay)
next
  case (Revoke sid now)
  then show ?thesis
    by (cases "revoke_credentials d sid now") (auto elim!: revoke_credentialsE intro: same_tokens_stay)
next
  case (StartSession q sid now)
  then show ?thesis
    by (cases "start_session d q sid now") (auto elim!: start_sessionE intro: same_tokens_stay)
qed

lemma account_step_inv: "auth_inv d \<Longrightarrow> auth_inv (account_step d e)"
proof (cases e)
  case (CreateServer name game sid now)
  then show "auth_inv d \<Longrightarrow> ?thesis"
    by (cases "create_server d name game sid now") (auto intro: create_server_inv)
next
  case (IssueToken sid hash ttl now)
  then show "auth_inv d \<Longrightarrow> ?thesis"
    by (cases "issue_enrollment_token d sid hash ttl now") (auto intro: issue_enrollment_token_inv)
next
  case (Enroll hash game secret plugin now)
  then show "auth_inv d \<Longrightarrow> ?thesis"
    by (cases "enroll d hash game secret plugin now") (auto intro: enroll_inv)
next
  case (Revoke sid now)
  then show "auth_inv d \<Longrightarrow> ?thesis"
    by (cases "revoke_credentials d sid now") (auto intro: revoke_credentials_inv)
next
  case (StartSession q sid now)
  then show "auth_inv d \<Longrightarrow> ?thesis"
    by (cases "start_session d q sid now") (auto intro: start_session_inv)
qed

interpretation accounts: monotone_machine account_step auth_inv burned_stay
proof
  fix d f g :: db and e
  show "auth_inv d \<Longrightarrow> auth_inv (account_step d e)" by (rule account_step_inv)
  show "burned_stay d d" by (simp add: burned_stay_def)
  show "burned_stay d f \<Longrightarrow> burned_stay f g \<Longrightarrow> burned_stay d g" by (auto simp: burned_stay_def)
qed (rule account_step_burned)

text \<open>
  A burned enrollment token stays burned: after it enrolled a server, whatever servers are
  created, tokens issued, credentials replaced or revoked and sessions started, enrolling with it again is
  always refused as already used, and the account invariant holds throughout.
\<close>

lemma burned_token_forever:
  assumes inv: "auth_inv d" and en: "enroll d hash game secret plugin now = Inr (s, d')"
  shows "enroll (run_steps account_step d' es) hash game' secret' plugin' now' = Inl ErrEnrollmentTokenUsed
    \<and> auth_inv (run_steps account_step d' es)"
proof -
  let ?d = "run_steps account_step d' es"
  from en obtain k where k: "find (\<lambda>t. et_hash t = hash) (enrollment_tokens d) = Some k" "et_used k = None"
    and tk: "enrollment_tokens d' = update_where (burns hash) (\<lambda>t. t\<lparr>et_used := Some (format_time now)\<rparr>) (enrollment_tokens d)"
    by (rule enrollE)
  let ?k = "k\<lparr>et_used := Some (format_time now)\<rparr>"
  have inv': "auth_inv d'" using enroll_inv [OF inv en] .
  from find_Some_in [OF k(1)] k(2) have "k \<in> set (enrollment_tokens d)" "burns hash k" "et_hash ?k = hash"
    by (simp_all add: burns_def)
  then have "?k \<in> set (enrollment_tokens d')" by (auto simp: tk set_update_where)
  moreover have "et_used ?k \<noteq> None" by simp
  ultimately have "?k \<in> set (enrollment_tokens ?d)"
    using accounts.run_rel [OF inv', of es] unfolding burned_stay_def by blast
  moreover have inv'': "auth_inv ?d" using accounts.run_inv [OF inv'] .
  ultimately have "find (\<lambda>t. et_hash t = hash) (enrollment_tokens ?d) = Some ?k"
    using find_unique [OF auth_invD(2) [OF inv''], of ?k] \<open>et_hash ?k = hash\<close> by simp
  then show ?thesis using inv'' by (simp add: enroll_def)
qed

lemma session_by_token_server:
  assumes "session_by_token d tok t = Inr (se, s)"
  shows "\<exists>x \<in> set (servers d). sv_id x = sr_id s \<and> s = scan_server x"
proof -
  from assms obtain r :: session_row where "find_server d (ss_server r) = Inr s"
    by (auto simp: session_by_token_def split: option.splits if_splits sum.splits)
  then obtain x where "find (\<lambda>x. sv_id x = ss_server r) (servers d) = Some x" "s = scan_server x"
    by (auto simp: find_server_def split: option.splits)
  then show ?thesis using find_Some_in by (intro bexI [of _ x]) (auto simp: scan_server_def dest: find_Some_in)
qed


subsection \<open>Concrete runs\<close>

definition sample_token :: enrollment_row where
  "sample_token = \<lparr>et_hash = ''k'', et_server = ''s1'', et_created = 0, et_expires = 1000, et_used = None\<rparr>"

definition sample_accounts :: db where
  "sample_accounts = sample_link\<lparr>enrollment_tokens := [sample_token]\<rparr>"

definition sample_plugin :: plugin_info where
  "sample_plugin = \<lparr>pi_name = ''vyshka'', pi_version = ''1'', pi_transports = [''http'']\<rparr>"

definition sample_start :: new_session where
  "sample_start = \<lparr>ns_server = ''s1'', ns_token = ''t2'', ns_ttl = 3600000000000, ns_protocol = 1,
     ns_poll_timeout = 30, ns_plugin = sample_plugin\<rparr>"

lemma sample_accounts_simps [simp]:
  "servers sample_accounts = [sample_server]" "sessions sample_accounts = [sample_session]"
  "outbound sample_accounts = [sample_sent, sample_queued]"
  "enrollment_tokens sample_accounts = [sample_token]"
  by (simp_all add: sample_accounts_def)

lemmas sample_account_defs = sample_link_defs sample_token_def sample_start_def sample_plugin_def

lemma sample_accounts_inv [simp]: "auth_inv sample_accounts"
  using sample_link_inv by (simp add: auth_inv_def outbound_inv_def)

lemma sample_enroll:
  obtains s d' where "enroll sample_accounts ''k'' ''dayz'' ''h2'' sample_plugin 0 = Inr (s, d')" "sr_id s = ''s1''"
  by (simp add: enroll_def sample_account_defs Let_def affected_def burns_def exists_row_def find_server_def
      install_credentials_def scan_server_def end_sessions_def parse_time_def)

lemma start_sample_ok:
  assumes "auth_inv d" and "''s1'' \<in> sv_id ` set (servers d)"
    and "''S2'' \<notin> ss_id ` set (sessions d)" and "''t2'' \<notin> ss_token ` set (sessions d)"
  obtains se d' where "start_session d sample_start ''S2'' now = Inr (se, d')"
proof -
  let ?e = "end_sessions d ''s1'' session_end_superseded now"
  have srv: "ns_server sample_start = ''s1''" "ns_token sample_start = ''t2''" by (simp_all add: sample_start_def)
  have "ss_id ` set (sessions ?e) = ss_id ` set (sessions d)"
    "ss_token ` set (sessions ?e) = ss_token ` set (sessions d)"
    by (simp_all only: set_map [symmetric] end_sessions_simps)
  with assms(3,4) have "\<forall>y \<in> set (sessions ?e). ss_id y \<noteq> ''S2'' \<and> ss_token y \<noteq> ''t2''"
    by (metis imageI)
  then have "\<not> exists_row (session_clash (session_start_row sample_start ''S2'' now)) (sessions ?e)"
    using end_sessions_ended [of _ d "''s1''" session_end_superseded now]
    by (auto simp: exists_row_def session_clash_def srv)
  moreover have "lock_server d ''s1''" using assms(2) by (force simp: lock_server_def exists_row_def)
  ultimately show thesis by (intro that) (simp add: start_session_def srv Let_def)
qed

theorem start_session_supersedes_witness:
  "\<exists>se d' s. start_session sample_accounts sample_start ''S2'' 0 = Inr (se, d') \<and> auth_inv d'
     \<and> session_by_token d' ''t'' 1 = Inl ErrNotFound \<and> session_by_token d' ''t2'' 1 = Inr (se, s)"
proof -
  obtain se d' where st: "start_session sample_accounts sample_start ''S2'' 0 = Inr (se, d')"
    by (rule start_sample_ok [of sample_accounts 0]) (auto simp: sample_link_defs)
  have "ss_server sample_session = ns_server sample_start" "ss_token sample_session = ''t''"
    "ns_token sample_start = ''t2''" "1 < parse_time (format_time (0 + ns_ttl sample_start))"
    by (simp_all add: sample_account_defs parse_time_def)
  with start_session_supersedes [OF sample_accounts_inv st, of 1] st show ?thesis by auto
qed

lemma revoke_credentials_final_witness:
  "\<exists>d'. revoke_credentials sample_accounts ''s1'' 0 = Inr d' \<and> auth_inv d'
     \<and> session_by_token d' ''t'' 1 = Inl ErrNotFound
     \<and> authenticate_server d' ''s1'' ''h'' \<in> {Inl ErrCredentialsInvalid, Inl ErrCredentialsRevoked}"
proof -
  obtain d' where "revoke_credentials sample_accounts ''s1'' 0 = Inr d'"
    by (simp add: revoke_credentials_def sample_server_def Let_def)
  moreover have "ss_server sample_session = ''s1''" "ss_token sample_session = ''t''"
    by (simp_all add: sample_session_def)
  ultimately show ?thesis
    using revoke_credentials_final [OF sample_accounts_inv, of "''s1''" 0 d' 1] by auto
qed

lemma enroll_once_witness:
  "\<exists>s d'. enroll sample_accounts ''k'' ''dayz'' ''h2'' sample_plugin 0 = Inr (s, d')
     \<and> enroll d' ''k'' ''dayz'' ''h3'' sample_plugin 1 = Inl ErrEnrollmentTokenUsed
     \<and> authenticate_server d' ''s1'' ''h2'' = Inr s \<and> authenticate_server d' ''s1'' ''h'' = Inl ErrCredentialsInvalid"
proof -
  obtain s d' where "enroll sample_accounts ''k'' ''dayz'' ''h2'' sample_plugin 0 = Inr (s, d')" "sr_id s = ''s1''"
    by (rule sample_enroll)
  with enroll_once [OF sample_accounts_inv _ this(1)] show ?thesis by auto
qed

lemma issue_withdraws_older_witness:
  "\<exists>e d' s d''. issue_enrollment_token sample_accounts ''s1'' ''k2'' 1000000000 0 = Inr (e, d') \<and> auth_inv d'
     \<and> enroll d' ''k'' ''dayz'' ''h2'' sample_plugin 0 = Inl ErrEnrollmentTokenInvalid
     \<and> enroll d' ''k2'' ''dayz'' ''h2'' sample_plugin 0 = Inr (s, d'')"
proof -
  obtain e d' where iss: "issue_enrollment_token sample_accounts ''s1'' ''k2'' 1000000000 0 = Inr (e, d')"
    and e: "e = 1000000000"
    by (simp add: issue_enrollment_token_def lock_server_def exists_row_def sample_account_defs
        truncate_milli_def parse_time_def)
  have "et_server sample_token = ''s1''" "et_used sample_token = None" "et_hash sample_token = ''k''"
    "sv_id sample_server = ''s1''" "sv_game sample_server = ''dayz''" "sv_secret sample_server = ''h''"
    by (simp_all add: sample_account_defs)
  with issue_withdraws_older [OF sample_accounts_inv iss, of "''dayz''" "''h2''" sample_plugin 0] iss e
  show ?thesis by auto
qed

lemma burned_token_forever_witness:
  "\<exists>s d'. enroll sample_accounts ''k'' ''dayz'' ''h2'' sample_plugin 0 = Inr (s, d')
     \<and> enroll (run_steps account_step d' [Revoke ''s1'' 5, IssueToken ''s1'' ''k2'' 1 6]) ''k'' ''dayz'' ''h3'' sample_plugin 7
        = Inl ErrEnrollmentTokenUsed"
proof -
  obtain s d' where "enroll sample_accounts ''k'' ''dayz'' ''h2'' sample_plugin 0 = Inr (s, d')" "sr_id s = ''s1''"
    by (rule sample_enroll)
  with burned_token_forever [OF sample_accounts_inv this(1)] show ?thesis by blast
qed


end
