(* ===== verification/Dispatch.thy ===== *)
theory Dispatch
  imports Sessions
begin

text \<open>
  Manifests (hub/store/manifests.go) and the dispatch of an action (\<open>DispatchAction\<close> in
  hub/store/actions.go): the action row and its dispatch envelope in one transaction, gated on the
  manifest revision the request was validated against, idempotent under the caller's key.
\<close>

subsection \<open>Manifests\<close>

definition find_manifest :: "db \<Rightarrow> string \<Rightarrow> store_error + manifest_row" where
  "find_manifest d server =
     (case find (\<lambda>m. mf_server m = server) (manifests d) of
        None \<Rightarrow> Inl ErrNotFound
      | Some m \<Rightarrow> Inr m)"

text \<open>One upsert statement: a first manifest is inserted, a higher revision replaces the stored one.\<close>

definition manifest_row_of :: "string \<Rightarrow> int \<Rightarrow> string \<Rightarrow> string list \<Rightarrow> time \<Rightarrow> manifest_row" where
  "manifest_row_of server revision body caps now =
     \<lparr>mf_server = server, mf_revision = revision, mf_body = body, mf_published = format_time now,
      mf_capabilities = Some caps\<rparr>"

definition apply_manifest :: "db \<Rightarrow> string \<Rightarrow> int \<Rightarrow> string \<Rightarrow> string list \<Rightarrow> time \<Rightarrow> bool \<times> db" where
  "apply_manifest d server revision body caps now =
     (let row = manifest_row_of server revision body caps now;
          older = (\<lambda>m. mf_server m = server \<and> revision > mf_revision m)
      in if \<not> exists_row (\<lambda>m. mf_server m = server) (manifests d)
         then (True, d\<lparr>manifests := manifests d @ [row]\<rparr>)
         else (affected older (manifests d) > 0,
               d\<lparr>manifests := update_where older (\<lambda>m. row) (manifests d)\<rparr>))"

text \<open>The revisions a run of publishes leaves behind: the highest one, applied in any order.\<close>

definition manifests_keyed :: "db \<Rightarrow> bool" where
  "manifests_keyed d = distinct (map mf_server (manifests d))"

definition stored_revision :: "db \<Rightarrow> string \<Rightarrow> int option" where
  "stored_revision d server = map_option mf_revision (find (\<lambda>m. mf_server m = server) (manifests d))"

lemma manifest_row_of_simps [simp]:
  "mf_server (manifest_row_of server revision body caps now) = server"
  "mf_revision (manifest_row_of server revision body caps now) = revision"
  "mf_body (manifest_row_of server revision body caps now) = body"
  by (simp_all add: manifest_row_of_def)

lemma find_append: "find p (xs @ ys) = (case find p xs of None \<Rightarrow> find p ys | Some x \<Rightarrow> Some x)"
  by (induction xs) auto

lemma apply_manifest_keyed:
  assumes "manifests_keyed d" and "apply_manifest d server revision body caps now = (b, d')"
  shows "manifests_keyed d'"
proof -
  have "map mf_server (update_where (\<lambda>m. mf_server m = server \<and> revision > mf_revision m)
      (\<lambda>m. manifest_row_of server revision body caps now) ms) = map mf_server ms" for ms
    by (induction ms) auto
  with assms show ?thesis
    by (auto simp: apply_manifest_def manifests_keyed_def Let_def exists_row_def split: if_splits)
qed

lemma apply_manifest_stored:
  assumes keyed: "manifests_keyed d" and ap: "apply_manifest d server revision body caps now = (b, d')"
  shows "find (\<lambda>m. mf_server m = t) (manifests d') =
     (if t = server \<and> (case stored_revision d server of None \<Rightarrow> True | Some r \<Rightarrow> r < revision)
      then Some (manifest_row_of server revision body caps now)
      else find (\<lambda>m. mf_server m = t) (manifests d))"
    and "b \<longleftrightarrow> (case stored_revision d server of None \<Rightarrow> True | Some r \<Rightarrow> r < revision)"
proof -
  let ?row = "manifest_row_of server revision body caps now"
  let ?older = "\<lambda>m. mf_server m = server \<and> revision > mf_revision m"
  have upd: "distinct (map mf_server ms) \<Longrightarrow> find (\<lambda>m. mf_server m = server) ms = Some m \<Longrightarrow>
      find (\<lambda>m. mf_server m = t) (update_where ?older (\<lambda>m. ?row) ms)
        = (if t = server \<and> mf_revision m < revision then Some ?row else find (\<lambda>m. mf_server m = t) ms)
      \<and> (0 < affected ?older ms \<longleftrightarrow> mf_revision m < revision)" for ms m
    unfolding affected_pos_iff
  proof (induction ms)
    case (Cons x ms)
    show ?case
    proof (cases "mf_server x = server")
      case True
      with Cons.prems have "x = m" "server \<notin> mf_server ` set ms" by (auto split: if_splits)
      then have "x = m" "\<forall>y \<in> set ms. mf_server y \<noteq> server" by force+
      moreover from this(2) have "update_where ?older (\<lambda>m. ?row) ms = ms" by (intro update_where_none) blast
      ultimately show ?thesis using True by auto
    next
      case False
      with Cons show ?thesis by auto
    qed
  qed simp
  have f: "find (\<lambda>m. mf_server m = server) (manifests d) = None \<longleftrightarrow> \<not> exists_row (\<lambda>m. mf_server m = server) (manifests d)"
    by (auto simp: find_None_iff exists_row_def)
  show "find (\<lambda>m. mf_server m = t) (manifests d') =
     (if t = server \<and> (case stored_revision d server of None \<Rightarrow> True | Some r \<Rightarrow> r < revision)
      then Some ?row else find (\<lambda>m. mf_server m = t) (manifests d))"
    using ap f upd [OF keyed [unfolded manifests_keyed_def]]
    by (cases "find (\<lambda>m. mf_server m = server) (manifests d)")
      (auto simp: apply_manifest_def stored_revision_def Let_def find_append split: option.split)
  show "b \<longleftrightarrow> (case stored_revision d server of None \<Rightarrow> True | Some r \<Rightarrow> r < revision)"
    using ap f upd [OF keyed [unfolded manifests_keyed_def]]
    by (cases "find (\<lambda>m. mf_server m = server) (manifests d)")
      (auto simp: apply_manifest_def stored_revision_def Let_def)
qed

subsection \<open>Dispatching\<close>

record new_action =
  na_id :: string
  na_server :: string
  na_code :: string
  na_context :: string
  na_reference :: string
  na_params :: string
  na_idem :: string
  na_expires :: time
  na_revision :: int
  na_envelope_type :: string
  na_envelope_body :: string
  na_limit :: int

definition action_row_of :: "new_action \<Rightarrow> string \<Rightarrow> time \<Rightarrow> action_row" where
  "action_row_of q eid now =
     \<lparr>ac_id = na_id q, ac_server = na_server q, ac_code = na_code q, ac_context = na_context q,
      ac_reference = na_reference q, ac_params = na_params q, ac_idem = nonempty (na_idem q),
      ac_envelope = eid, ac_state = Queued, ac_created = format_time now,
      ac_expires = format_time (na_expires q), ac_delivered = None, ac_running = None,
      ac_finished = None, ac_ok = None, ac_result = None, ac_error = None, ac_duration = None, ac_notified = False\<rparr>"

definition same_key :: "action_row \<Rightarrow> action_row \<Rightarrow> bool" where
  "same_key a b = (ac_server a = ac_server b \<and> ac_idem a \<noteq> None \<and> ac_idem a = ac_idem b)"

text \<open>
  The clock is read when the transaction starts (\<open>now\<close>), when the envelope is framed
  (\<open>framed\<close>) and twice by the final read of the action.
\<close>

definition dispatch_action ::
  "db \<Rightarrow> new_action \<Rightarrow> string \<Rightarrow> time \<Rightarrow> time \<Rightarrow> time \<Rightarrow> time \<Rightarrow> store_error + (action_row \<times> bool \<times> db)" where
  "dispatch_action d q eid now framed read_stamp read_now =
     (if \<not> lock_server d (na_server q) then Inl ErrNotFound
      else case find (\<lambda>m. mf_server m = na_server q) (manifests d) of
        None \<Rightarrow> Inl ErrManifestChanged
      | Some m \<Rightarrow>
        if mf_revision m \<noteq> na_revision q then Inl ErrManifestChanged
        else let e = new_outbound eid (na_server q) (na_envelope_type q) (na_envelope_body q) framed;
                 r = action_row_of q eid now
        in if exists_row (same_key r) (actions d)
           then (case action_by_idempotency_key d (na_server q) (na_idem q) of
                   Inl err \<Rightarrow> Inl err
                 | Inr a \<Rightarrow> Inr (a, False, d))
           else if exists_row (\<lambda>a. ac_id a = na_id q) (actions d) then Inl (ErrConstraint ''actions'')
           else case insert_outbound (d\<lparr>actions := actions d @ [r]\<rparr>) (na_server q) e (na_limit q) of
                  Inl err \<Rightarrow> Inl err
                | Inr d' \<Rightarrow>
                    (case action_by_id d' (na_id q) read_stamp read_now of
                       (Inl err, d'') \<Rightarrow> Inl err
                     | (Inr a, d'') \<Rightarrow> Inr (a, True, d'')))"

text \<open>
  Publishing is monotone in the revision whatever order publishes arrive in: after any run of
  publishes for a server the stored revision is the highest ever seen, and manifests of other servers are
  untouched.
\<close>

fun publish_all :: "db \<Rightarrow> string \<Rightarrow> (int \<times> string \<times> string list \<times> time) list \<Rightarrow> db" where
  "publish_all d server [] = d"
| "publish_all d server ((revision, body, caps, now) # ps) =
     publish_all (snd (apply_manifest d server revision body caps now)) server ps"

lemma stored_revision_apply:
  assumes "manifests_keyed d"
  shows "stored_revision (snd (apply_manifest d server revision body caps now)) server
    = Some (case stored_revision d server of None \<Rightarrow> revision | Some r \<Rightarrow> max r revision)"
proof -
  obtain b d' where "apply_manifest d server revision body caps now = (b, d')" by fastforce
  with apply_manifest_stored(1) [OF assms this, of server] show ?thesis
    by (auto simp: stored_revision_def split: option.splits if_splits)
qed

text \<open>
  The manifest revision gate: whatever order a server's manifests arrive in, redelivered or
  reordered, the stored revision is the highest one ever published, and no other server's manifest
  is touched.
\<close>

lemma publish_keeps_highest:
  assumes "manifests_keyed d"
  shows "manifests_keyed (publish_all d server ps)
    \<and> (ps \<noteq> [] \<longrightarrow> stored_revision (publish_all d server ps) server
         = Some (Max (fst ` set ps \<union> set_option (stored_revision d server))))
    \<and> (\<forall>t. t \<noteq> server \<longrightarrow> find_manifest (publish_all d server ps) t = find_manifest d t)"
  using assms
proof (induction ps arbitrary: d)
  case (Cons p ps)
  obtain revision body caps now where p: "p = (revision, body, caps, now)" by (metis prod_cases4)
  obtain b d' where ap: "apply_manifest d server revision body caps now = (b, d')" by fastforce
  have keyed: "manifests_keyed d'" using apply_manifest_keyed [OF Cons.prems ap] .
  have rev: "stored_revision d' server = Some (case stored_revision d server of None \<Rightarrow> revision | Some r \<Rightarrow> max r revision)"
    using stored_revision_apply [OF Cons.prems, of server revision body caps now] ap by simp
  have other: "find_manifest d' t = find_manifest d t" if "t \<noteq> server" for t
    using apply_manifest_stored(1) [OF Cons.prems ap, of t] that by (simp add: find_manifest_def)
  have run: "publish_all d server (p # ps) = publish_all d' server ps" by (simp add: p ap)
  have "stored_revision (publish_all d' server ps) server
      = Some (Max (fst ` set (p # ps) \<union> set_option (stored_revision d server)))"
  proof (cases "ps = []")
    case True
    then show ?thesis using rev by (cases "stored_revision d server") (simp_all add: p max.commute)
  next
    case False
    with Cons.IH [OF keyed] rev show ?thesis
      by (cases "stored_revision d server") (simp_all add: p max.assoc max.left_commute max.commute)
  qed
  with Cons.IH [OF keyed] other show ?case unfolding run by simp
qed simp

lemma publish_keeps_highest_witness:
  "stored_revision (publish_all empty_db ''s1'' [(3, ''{}'', [], 0), (7, ''{}'', [], 1), (5, ''{}'', [], 2)]) ''s1'' = Some 7"
proof -
  have "manifests_keyed empty_db" by (simp add: manifests_keyed_def)
  from publish_keeps_highest [OF this, of "''s1''" "[(3, ''{}'', [], 0), (7, ''{}'', [], 1), (5, ''{}'', [], 2)]"]
  show ?thesis by (simp add: stored_revision_def)
qed

subsection \<open>What a dispatch does\<close>

definition keys_unique :: "db \<Rightarrow> bool" where
  "keys_unique d =
     (distinct (map ac_id (actions d))
      \<and> (\<forall>a \<in> set (actions d). \<forall>b \<in> set (actions d). same_key a b \<longrightarrow> ac_id a = ac_id b))"

lemma action_by_id_spec:
  "action_by_id d aid t now =
    (case find (\<lambda>a. ac_id a = aid) (actions d) of
       None \<Rightarrow> Inl ErrNotFound
     | Some a \<Rightarrow> Inr (if expire_due now a then expire_row t a else a),
     with_actions (update_where (\<lambda>a. ac_id a = aid \<and> expire_due now a) (expire_row t)) d)"
proof -
  have "find (\<lambda>a. ac_id a = aid) (update_where (\<lambda>a. ac_id a = aid \<and> expire_due now a) (expire_row t) as)
      = map_option (\<lambda>a. if ac_id a = aid \<and> expire_due now a then expire_row t a else a) (find (\<lambda>a. ac_id a = aid) as)" for as
    by (rule find_update_where) (simp add: expire_row_def)
  then show ?thesis
    by (auto simp: action_by_id_def with_actions_def Let_def split: option.split dest: find_Some_in)
qed

lemma action_row_of_simps [simp]:
  "ac_id (action_row_of q eid now) = na_id q" "ac_server (action_row_of q eid now) = na_server q"
  "ac_envelope (action_row_of q eid now) = eid" "ac_state (action_row_of q eid now) = Queued"
  "ac_idem (action_row_of q eid now) = nonempty (na_idem q)"
  by (simp_all add: action_row_of_def)

lemma dispatch_createdE:
  assumes "dispatch_action d q eid now framed rs rn = Inr (a, True, d')"
  obtains m e r where "find (\<lambda>m. mf_server m = na_server q) (manifests d) = Some m" "mf_revision m = na_revision q"
    "e = new_outbound eid (na_server q) (na_envelope_type q) (na_envelope_body q) framed"
    "r = action_row_of q eid now" "lock_server d (na_server q)"
    "\<not> exists_row (same_key r) (actions d)" "na_id q \<notin> ac_id ` set (actions d)"
    "eid \<notin> en_id ` set (outbound d)"
    "na_limit q > 0 \<longrightarrow> pending_envelope_count d (na_server q) < na_limit q"
    "outbound d' = outbound d @ [e]" "sessions d' = sessions d" "servers d' = servers d"
    "manifests d' = manifests d" "actions d' = actions d @ [if expire_due rn r then expire_row rs r else r]"
    "a = (if expire_due rn r then expire_row rs r else r)"
proof -
  let ?r = "action_row_of q eid now"
  let ?e = "new_outbound eid (na_server q) (na_envelope_type q) (na_envelope_body q) framed"
  let ?d = "d\<lparr>actions := actions d @ [?r]\<rparr>"
  from assms obtain m where m: "find (\<lambda>m. mf_server m = na_server q) (manifests d) = Some m"
    by (auto simp: dispatch_action_def split: if_splits option.splits)
  with assms have g: "lock_server d (na_server q)" "mf_revision m = na_revision q"
    "\<not> exists_row (same_key ?r) (actions d)" "\<not> exists_row (\<lambda>a. ac_id a = na_id q) (actions d)"
    by (auto simp: dispatch_action_def Let_def split: if_splits sum.splits)
  with assms m obtain d1 where ins: "insert_outbound ?d (na_server q) ?e (na_limit q) = Inr d1"
    by (auto simp: dispatch_action_def Let_def split: sum.splits)
  then have d1: "d1 = ?d\<lparr>outbound := outbound d @ [?e]\<rparr>" and fresh: "\<not> exists_row (\<lambda>x. en_id x = en_id ?e) (outbound d)"
    and room: "na_limit q > 0 \<longrightarrow> affected (pending (na_server q)) (outbound d) < na_limit q"
    by (auto simp: insert_outbound_def split: if_splits)
  have ids: "na_id q \<notin> ac_id ` set (actions d)" using g(4) by (auto simp: exists_row_def)
  then have "find (\<lambda>a. ac_id a = na_id q) (actions d) = None" by (force simp: find_None_iff)
  then have f: "find (\<lambda>a. ac_id a = na_id q) (actions d1) = Some ?r"
    by (simp add: d1 find_append)
  have upd: "update_where (\<lambda>a. ac_id a = na_id q \<and> expire_due rn a) (expire_row rs) (actions d @ [?r])
      = actions d @ [if expire_due rn ?r then expire_row rs ?r else ?r]"
  proof -
    have "update_where (\<lambda>a. ac_id a = na_id q \<and> expire_due rn a) (expire_row rs) (actions d) = actions d"
      using ids by (intro update_where_none) force
    then show ?thesis by (simp add: update_where_def)
  qed
  from assms m g ins f have
    "a = (if expire_due rn ?r then expire_row rs ?r else ?r)"
    "d' = with_actions (update_where (\<lambda>a. ac_id a = na_id q \<and> expire_due rn a) (expire_row rs)) d1"
    by (simp_all add: dispatch_action_def Let_def action_by_id_spec)
  with m g ids fresh room d1 upd show thesis
    by (intro that [of m ?e ?r]) (auto simp: with_actions_def exists_row_def new_outbound_def pending_envelope_count_def)
qed

lemma expire_row_keeps [simp]:
  "ac_id (expire_row t a) = ac_id a" "ac_server (expire_row t a) = ac_server a"
  "ac_idem (expire_row t a) = ac_idem a" "ac_envelope (expire_row t a) = ac_envelope a"
  by (simp_all add: expire_row_def)

lemma dispatch_commits_whole:
  assumes inv: "outbound_inv d" and keys: "keys_unique d"
    and disp: "dispatch_action d q eid now framed rs rn = Inr (a, True, d')"
  shows "stored_revision d (na_server q) = Some (na_revision q)
    \<and> (\<exists>e. outbound d' = outbound d @ [e] \<and> pending (na_server q) e \<and> en_id e = ac_envelope a
          \<and> en_type e = na_envelope_type q \<and> en_body e = na_envelope_body q)
    \<and> actions d' = actions d @ [a] \<and> ac_id a = na_id q \<and> ac_server a = na_server q
    \<and> (0 < na_limit q \<longrightarrow> pending_envelope_count d' (na_server q) \<le> na_limit q)
    \<and> outbound_inv d' \<and> keys_unique d'"
proof -
  from disp obtain m e r where m: "find (\<lambda>m. mf_server m = na_server q) (manifests d) = Some m" "mf_revision m = na_revision q"
    and e: "e = new_outbound eid (na_server q) (na_envelope_type q) (na_envelope_body q) framed"
    and r: "r = action_row_of q eid now"
    and new: "\<not> exists_row (same_key r) (actions d)" "na_id q \<notin> ac_id ` set (actions d)" "eid \<notin> en_id ` set (outbound d)"
    and room: "na_limit q > 0 \<longrightarrow> pending_envelope_count d (na_server q) < na_limit q"
    and out: "outbound d' = outbound d @ [e]" "sessions d' = sessions d"
    and acts: "actions d' = actions d @ [if expire_due rn r then expire_row rs r else r]"
    and a: "a = (if expire_due rn r then expire_row rs r else r)"
    by (rule dispatch_createdE)
  have e_simps: "en_id e = eid" "pending (na_server q) e" "en_session e = None" "en_seq e = None" "en_acked e = None"
    "en_type e = na_envelope_type q" "en_body e = na_envelope_body q"
    by (simp_all add: e new_outbound_def pending_def)
  have a_simps: "ac_id a = na_id q" "ac_server a = na_server q" "ac_idem a = nonempty (na_idem q)" "ac_envelope a = eid"
    by (simp_all add: a r)
  have "outbound_inv d'"
    using chan_inv_snoc [of "sessions d" "outbound d" e] inv new(3) e_simps
    by (simp add: outbound_inv_def out)
  moreover have cnt: "pending_envelope_count d' (na_server q) = pending_envelope_count d (na_server q) + 1"
    using e_simps by (simp add: pending_envelope_count_def affected_def out)
  moreover have "keys_unique d'"
  proof -
    have "\<not> same_key a b \<and> \<not> same_key b a" if "b \<in> set (actions d)" for b
      using new(1) that by (auto simp: exists_row_def same_key_def a_simps r)
    with keys new(2) show ?thesis by (auto simp: keys_unique_def acts a [symmetric] a_simps)
  qed
  moreover from cnt room have "0 < na_limit q \<longrightarrow> pending_envelope_count d' (na_server q) \<le> na_limit q" by auto
  moreover have "actions d' = actions d @ [a]" by (simp add: acts a)
  moreover have "stored_revision d (na_server q) = Some (na_revision q)" using m by (simp add: stored_revision_def)
  moreover have "\<exists>e. outbound d' = outbound d @ [e] \<and> pending (na_server q) e \<and> en_id e = ac_envelope a
          \<and> en_type e = na_envelope_type q \<and> en_body e = na_envelope_body q"
    using e_simps a_simps(4) out(1) by (intro exI [of _ e]) simp
  ultimately show ?thesis using a_simps(1,2) by (intro conjI)
qed

text \<open>
  C39. A dispatch that creates an action is atomic: it happened against the manifest revision it was
  validated for, and it leaves exactly one new action and exactly one new pending envelope carrying it, within
  the queue bound; the key index and the queue invariant are kept.
\<close>

theorem dispatch_atomic:
  assumes inv: "outbound_inv d" and keys: "keys_unique d"
    and disp: "dispatch_action d q eid now framed rs rn = Inr (a, True, d')"
  shows "stored_revision d (na_server q) = Some (na_revision q)
    \<and> (\<exists>e. outbound d' = outbound d @ [e] \<and> pending (na_server q) e \<and> en_id e = ac_envelope a
          \<and> en_type e = na_envelope_type q \<and> en_body e = na_envelope_body q)
    \<and> actions d' = actions d @ [a] \<and> ac_id a = na_id q \<and> ac_server a = na_server q
    \<and> (0 < na_limit q \<longrightarrow> pending_envelope_count d' (na_server q) \<le> na_limit q)
    \<and> outbound_inv d' \<and> keys_unique d'"
  using assms by (rule dispatch_commits_whole)

text \<open>
  Dispatching is idempotent under the caller's key: any later request with the same key for the same
  server, whatever else it asks for and however full the queue is, answers the original action, creates
  nothing and queues nothing.
\<close>

lemma dispatch_idempotent:
  assumes keys: "keys_unique d" and "outbound_inv d"
    and disp: "dispatch_action d q eid now framed rs rn = Inr (a, True, d')" and "na_idem q \<noteq> ''''"
    and retry: "na_server q' = na_server q" "na_idem q' = na_idem q" "na_revision q' = na_revision q"
  shows "dispatch_action d' q' eid' now' framed' rs' rn' = Inr (a, False, d')"
proof -
  from disp obtain m where m: "find (\<lambda>m. mf_server m = na_server q) (manifests d) = Some m" "mf_revision m = na_revision q"
    and srv: "lock_server d (na_server q)" "servers d' = servers d" and man: "manifests d' = manifests d" by (rule dispatch_createdE)
  note at = dispatch_commits_whole [OF assms(2) keys disp]
  have idem: "ac_idem a = Some (na_idem q)" "ac_server a = na_server q" "actions d' = actions d @ [a]"
    using disp at \<open>na_idem q \<noteq> ''''\<close> by (auto elim!: dispatch_createdE simp: nonempty_def)
  have old: "b \<in> set (actions d) \<Longrightarrow> \<not> (ac_server b = na_server q \<and> ac_idem b = Some (na_idem q))" for b
    using disp \<open>na_idem q \<noteq> ''''\<close>
    by (elim dispatch_createdE) (auto simp: exists_row_def same_key_def nonempty_def)
  then have none: "find (\<lambda>b. ac_server b = na_server q \<and> ac_idem b = Some (na_idem q)) (actions d) = None"
    by (auto simp: find_None_iff)
  have "same_key (action_row_of q' eid' now') a"
    using retry idem \<open>na_idem q \<noteq> ''''\<close> by (simp add: same_key_def nonempty_def)
  then have "exists_row (same_key (action_row_of q' eid' now')) (actions d')"
    by (simp add: exists_row_def idem)
  moreover have "action_by_idempotency_key d' (na_server q) (na_idem q) = Inr a"
    using none idem by (simp add: action_by_idempotency_key_def find_append)
  ultimately show ?thesis
    using m srv by (simp add: dispatch_action_def man retry Let_def lock_server_def)
qed

definition sample_dispatch :: new_action where
  "sample_dispatch = \<lparr>na_id = ''a1'', na_server = ''s1'', na_code = ''core.heal'', na_context = '''',
     na_reference = '''', na_params = ''{}'', na_idem = ''k1'', na_expires = 60000000000, na_revision = 4,
     na_envelope_type = ''action.dispatch'', na_envelope_body = ''{}'', na_limit = 3\<rparr>"

definition sample_site :: db where
  "sample_site = sample_link\<lparr>manifests := [manifest_row_of ''s1'' 4 ''{}'' [] 0]\<rparr>"

lemma sample_site_inv [simp]: "outbound_inv sample_site" "keys_unique sample_site"
  using sample_link_inv by (simp_all add: sample_site_def outbound_inv_def keys_unique_def sample_link_def)

lemma sample_dispatched:
  obtains a d' where "dispatch_action sample_site sample_dispatch ''e9'' 0 0 0 0 = Inr (a, True, d')"
proof -
  have site: "servers sample_site = [sample_server]" "manifests sample_site = [manifest_row_of ''s1'' 4 ''{}'' [] 0]"
    "actions sample_site = []" "outbound sample_site = [sample_sent, sample_queued]"
    by (simp_all add: sample_site_def sample_link_def)
  have "\<exists>a d'. dispatch_action sample_site sample_dispatch ''e9'' 0 0 0 0 = Inr (a, True, d')"
    by (simp add: dispatch_action_def Let_def lock_server_def exists_row_def insert_outbound_def affected_def
        action_by_id_spec site sample_dispatch_def action_row_of_def sample_link_defs pending_def)
  then show thesis using that by blast
qed

theorem dispatch_atomic_witness:
  "\<exists>a d'. dispatch_action sample_site sample_dispatch ''e9'' 0 0 0 0 = Inr (a, True, d') \<and> ac_id a = ''a1''
     \<and> pending_envelope_count d' ''s1'' \<le> 3 \<and> outbound_inv d' \<and> keys_unique d'"
proof -
  obtain a d' where d: "dispatch_action sample_site sample_dispatch ''e9'' 0 0 0 0 = Inr (a, True, d')"
    by (rule sample_dispatched)
  have "na_id sample_dispatch = ''a1''" "na_server sample_dispatch = ''s1''" "na_limit sample_dispatch = 3"
    by (simp_all add: sample_dispatch_def)
  with dispatch_atomic [OF sample_site_inv d] d show ?thesis by auto
qed

lemma dispatch_idempotent_witness:
  "\<exists>a d'. dispatch_action sample_site sample_dispatch ''e9'' 0 0 0 0 = Inr (a, True, d')
     \<and> dispatch_action d' (sample_dispatch\<lparr>na_id := ''a2'', na_code := ''core.kick''\<rparr>) ''e10'' 5 5 5 5 = Inr (a, False, d')"
proof -
  obtain a d' where d: "dispatch_action sample_site sample_dispatch ''e9'' 0 0 0 0 = Inr (a, True, d')"
    by (rule sample_dispatched)
  have "na_idem sample_dispatch \<noteq> ''''" by (simp add: sample_dispatch_def)
  from dispatch_idempotent [OF sample_site_inv(2,1) d this, of "sample_dispatch\<lparr>na_id := ''a2'', na_code := ''core.kick''\<rparr>"] d
  show ?thesis by auto
qed

end
