(* ===== verification/Paging.thy ===== *)
theory Paging
  imports Prelude "HOL-Library.Product_Lexorder"
begin

text \<open>
  Cursor paging, the contract every list of the Admin API shares: a page starts right after the
  row its cursor names, in a fixed total order of the matching rows.  The locale proves once that
  walking such pages to the end returns every row exactly once and in order; each listing of the
  store interprets it.
\<close>

text \<open>A client's walk, with at most \<open>k\<close> pages.\<close>

fun walk :: "nat \<Rightarrow> ('c option \<Rightarrow> 'r list) \<Rightarrow> ('r \<Rightarrow> 'c) \<Rightarrow> 'c option \<Rightarrow> 'r list" where
  "walk 0 page cursor c = []"
| "walk (Suc k) page cursor c =
     (if page c = [] then [] else page c @ walk k page cursor (Some (cursor (last (page c)))))"

lemma walk_map: "walk k (\<lambda>c. map f (page c)) cursor c = map f (walk k page (\<lambda>r. cursor (f r)) c)"
proof (induction k arbitrary: c)
  case (Suc k)
  then show ?case by (simp add: last_map)
qed simp

locale paged_read =
  fixes ok :: "'s \<Rightarrow> bool"
    and all_rows :: "'s \<Rightarrow> 'r list"
    and page :: "'s \<Rightarrow> nat \<Rightarrow> 'c option \<Rightarrow> 'r list"
    and cursor :: "'r \<Rightarrow> 'c"
  assumes first_page: "ok s \<Longrightarrow> 0 < n \<Longrightarrow> page s n None = take n (all_rows s)"
    and next_page: "ok s \<Longrightarrow> 0 < n \<Longrightarrow> i < length (all_rows s) \<Longrightarrow>
      page s n (Some (cursor (all_rows s ! i))) = take n (drop (Suc i) (all_rows s))"
begin

lemma walk_from:
  assumes "ok s" and "0 < n"
    and "page s n c = take n (drop i (all_rows s))" and "length (all_rows s) - i \<le> k"
  shows "walk (Suc k) (page s n) cursor c = drop i (all_rows s)"
  using assms(3,4)
proof (induction k arbitrary: c i)
  case 0
  then show ?case by simp
next
  case (Suc k)
  let ?xs = "all_rows s"
  show ?case
  proof (cases "i < length ?xs")
    case False
    with Suc.prems show ?thesis by simp
  next
    case True
    let ?p = "take n (drop i ?xs)"
    define m where "m = min n (length ?xs - i)"
    have m: "0 < m" "m \<le> n" "i + m \<le> length ?xs" using True assms(2) by (auto simp: m_def)
    have len: "length ?p = m" by (simp add: m_def min.commute)
    then have ne: "?p \<noteq> []" using m(1) by force
    have "last ?p = ?p ! (m - 1)" using last_conv_nth [OF ne] len by (simp del: length_take)
    also have "\<dots> = ?xs ! (i + (m - 1))" using m by (subst nth_take) auto
    finally have lst: "last ?p = ?xs ! (i + (m - 1))" .
    have sj: "Suc (i + (m - 1)) = i + m" using m(1) by simp
    have "page s n (Some (cursor (?xs ! (i + (m - 1))))) = take n (drop (i + m) ?xs)"
      using next_page [OF assms(1,2), of "i + (m - 1)"] m unfolding sj by simp
    then have w: "walk (Suc k) (page s n) cursor (Some (cursor (last ?p))) = drop (i + m) ?xs"
      unfolding lst by (rule Suc.IH) (use Suc.prems(2) m in linarith)
    have dr: "drop (i + m) ?xs = drop n (drop i ?xs)"
      unfolding m_def by (cases "n \<le> length ?xs - i") (simp_all add: add.commute)
    have "?p @ walk (Suc k) (page s n) cursor (Some (cursor (last ?p))) = drop i ?xs"
      unfolding w dr by (rule append_take_drop_id)
    with Suc.prems(1) ne show ?thesis by (simp del: walk.simps(2) add: walk.simps(2) [of "Suc k"])
  qed
qed

lemma walk_all:
  assumes "ok s" and "0 < n" and "length (all_rows s) \<le> k"
  shows "walk (Suc k) (page s n) cursor None = all_rows s"
  using walk_from [OF assms(1,2), of None 0 k] first_page [OF assms(1,2)] assms(3) by simp

lemma page_bound: "ok s \<Longrightarrow> 0 < n \<Longrightarrow> length (page s n None) \<le> n"
  by (simp add: first_page)

end

text \<open>Sorted lists cut at one of their own keys, the two directions the store sorts in.\<close>

lemma filter_after:
  assumes "sorted_wrt R xs" and "\<And>x y. R x y \<Longrightarrow> P x y" and "\<And>x y. R y x \<Longrightarrow> \<not> P x y" and "\<And>x. \<not> P x x"
    and "i < length xs"
  shows "filter (P (xs ! i)) xs = drop (Suc i) xs"
proof -
  have xs: "xs = take i xs @ xs ! i # drop (Suc i) xs" using assms(5) by (simp add: id_take_nth_drop)
  then have "sorted_wrt R (take i xs @ xs ! i # drop (Suc i) xs)" using assms(1) by simp
  then have "\<forall>y \<in> set (take i xs). R y (xs ! i)" "\<forall>y \<in> set (drop (Suc i) xs). R (xs ! i) y"
    by (auto simp: sorted_wrt_append)
  with assms(2-4) have f1: "filter (P (xs ! i)) (take i xs) = []"
    and f2: "filter (P (xs ! i)) (drop (Suc i) xs) = drop (Suc i) xs"
    by (auto simp: filter_empty_conv filter_id_conv)
  have "filter (P (xs ! i)) xs = filter (P (xs ! i)) (take i xs @ xs ! i # drop (Suc i) xs)"
    using xs by simp
  also have "\<dots> = drop (Suc i) xs" using f1 f2 assms(4) by simp
  finally show ?thesis .
qed

lemma sorted_wrt_less_sort_key:
  fixes k :: "'r \<Rightarrow> 'k::linorder"
  assumes "distinct (map k xs)"
  shows "sorted_wrt (\<lambda>x y. k x < k y) (sort_key k xs)"
proof -
  have "sorted (map k (sort_key k xs))" "distinct (map k (sort_key k xs))"
    using assms by (simp_all add: distinct_map)
  then have "sorted_wrt (<) (map k (sort_key k xs))" by (simp add: strict_sorted_iff)
  then show ?thesis by (simp add: sorted_wrt_map)
qed

lemma filter_sort_key: "filter p (sort_key k xs) = sort_key k (filter p xs)"
  by (simp add: filter_sort)

lemma ascending_after:
  fixes k :: "'r \<Rightarrow> 'k::linorder"
  assumes "distinct (map k xs)" and "i < length xs"
  shows "sort_key k (filter (\<lambda>r. k (sort_key k xs ! i) < k r) xs) = drop (Suc i) (sort_key k xs)"
proof -
  have "filter ((\<lambda>x y. k x < k y) (sort_key k xs ! i)) (sort_key k xs) = drop (Suc i) (sort_key k xs)"
    using sorted_wrt_less_sort_key [OF assms(1)]
    by (rule filter_after) (use assms(2) in auto)
  then show ?thesis by (simp add: filter_sort)
qed

lemma descending_after:
  fixes k :: "'r \<Rightarrow> 'k::linorder"
  assumes "distinct (map k xs)" and "i < length xs"
  shows "rev (sort_key k (filter (\<lambda>r. k r < k (rev (sort_key k xs) ! i)) xs)) = drop (Suc i) (rev (sort_key k xs))"
proof -
  have "sorted_wrt (\<lambda>x y. k y < k x) (rev (sort_key k xs))"
    using sorted_wrt_less_sort_key [OF assms(1)] by (simp add: sorted_wrt_rev)
  then have "filter ((\<lambda>x y. k y < k x) (rev (sort_key k xs) ! i)) (rev (sort_key k xs)) = drop (Suc i) (rev (sort_key k xs))"
    by (rule filter_after) (use assms(2) in auto)
  then show ?thesis by (simp add: filter_sort rev_filter [symmetric])
qed

text \<open>
  The newest-first feeds: rows ordered by a stored instant and an id, both descending, and a cursor
  that names a position by the two.  A cursor without an id names no position.
\<close>

definition after_cursor :: "time \<times> string \<Rightarrow> stamp \<times> string \<Rightarrow> bool" where
  "after_cursor c k =
     (snd c \<noteq> '''' \<longrightarrow> fst k < format_time (fst c) \<or> fst k = format_time (fst c) \<and> snd k < snd c)"

definition newest_page :: "('r \<Rightarrow> stamp \<times> string) \<Rightarrow> int \<Rightarrow> time \<times> string \<Rightarrow> 'r list \<Rightarrow> 'r list" where
  "newest_page key n c rows = sql_limit n (rev (sort_key key (filter (\<lambda>r. after_cursor c (key r)) rows)))"

definition row_cursor :: "('r \<Rightarrow> stamp \<times> string) \<Rightarrow> 'r \<Rightarrow> time \<times> string" where
  "row_cursor key r = (parse_time (fst (key r)), snd (key r))"

lemma after_row_cursor:
  "snd (key r) \<noteq> '''' \<Longrightarrow> after_cursor (row_cursor key r) (key x) \<longleftrightarrow> key x < key r"
  by (cases "key x"; cases "key r") (auto simp: after_cursor_def row_cursor_def)

locale newest_first_feed =
  fixes ok :: "'s \<Rightarrow> bool"
    and rows :: "'s \<Rightarrow> 'r list"
    and key :: "'r \<Rightarrow> stamp \<times> string"
  assumes keys_distinct: "ok s \<Longrightarrow> distinct (map key (rows s))"
    and ids_named: "ok s \<Longrightarrow> r \<in> set (rows s) \<Longrightarrow> snd (key r) \<noteq> ''''"

sublocale newest_first_feed \<subseteq> pages: paged_read ok "\<lambda>s. rev (sort_key key (rows s))"
  "\<lambda>s n c. newest_page key (int n) (case c of None \<Rightarrow> (0, '''') | Some x \<Rightarrow> x) (rows s)" "row_cursor key"
proof
  fix s n and i :: nat
  assume ok: "ok s"
  show "newest_page key (int n) (case None of None \<Rightarrow> (0, '''') | Some x \<Rightarrow> x) (rows s)
      = take n (rev (sort_key key (rows s)))"
    by (simp add: newest_page_def after_cursor_def sql_limit_def)
  let ?r = "rev (sort_key key (rows s)) ! i"
  assume i: "i < length (rev (sort_key key (rows s)))"
  then have "?r \<in> set (rev (sort_key key (rows s)))" by (rule nth_mem)
  then have "snd (key ?r) \<noteq> ''''" using ids_named [OF ok] by simp
  then have "(\<lambda>x. after_cursor (row_cursor key ?r) (key x)) = (\<lambda>x. key x < key ?r)"
    by (simp add: fun_eq_iff after_row_cursor)
  with descending_after [OF keys_distinct [OF ok], of i] i
  show "newest_page key (int n) (case Some (row_cursor key ?r) of None \<Rightarrow> (0, '''') | Some x \<Rightarrow> x) (rows s)
      = take n (drop (Suc i) (rev (sort_key key (rows s))))"
    by (simp add: newest_page_def sql_limit_def)
qed

context newest_first_feed
begin

text \<open>A walk to the end visits every row once, newest first.\<close>

lemma walk_feed:
  assumes "ok s" and "0 < n" and "length (rows s) \<le> k"
  shows "walk (Suc k) (\<lambda>c. newest_page key (int n) (case c of None \<Rightarrow> (0, '''') | Some x \<Rightarrow> x) (rows s))
      (row_cursor key) None = rev (sort_key key (rows s))"
  using pages.walk_all [OF assms(1,2), of k] assms(3) by simp

lemma feed_distinct: "ok s \<Longrightarrow> distinct (rev (sort_key key (rows s)))"
  using keys_distinct by (simp add: distinct_map)

end

end
