(* ===== verification/Kv.thy ===== *)
theory Kv
  imports Dispatch Paging
begin

text \<open>
  The key/value store (hub/store/kv.go): get, compare-and-swap set, delete, increment, the key and
  namespace listings and the retention pass.  Each operation holds its key's lock for the whole
  transaction, so it is one step on the table.  The abstract view \<open>kv_view\<close> is what a
  reader sees at a moment: the live keys with their value, revision and expiry.
\<close>

definition max_kv_exact :: int where
  "max_kv_exact = 2 ^ 53 - 1"

record kv_entry =
  ke_namespace :: string
  ke_key :: string
  ke_value :: "string option"
  ke_revision :: int
  ke_expires :: "time option"

definition kv_live :: "stamp option \<Rightarrow> time \<Rightarrow> bool" where
  "kv_live expires now = (case expires of None \<Rightarrow> True | Some e \<Rightarrow> e > format_time now)"

definition kv_id :: "kv_row \<Rightarrow> string \<times> string" where
  "kv_id r = (kv_namespace r, kv_key r)"

definition kv_find :: "db \<Rightarrow> string \<Rightarrow> string \<Rightarrow> kv_row option" where
  "kv_find d ns key = find (\<lambda>r. kv_id r = (ns, key)) (kv_table d)"

definition kv_get :: "db \<Rightarrow> string \<Rightarrow> string \<Rightarrow> time \<Rightarrow> store_error + kv_entry" where
  "kv_get d ns key now =
     (case kv_find d ns key of
        None \<Rightarrow> Inl ErrNotFound
      | Some r \<Rightarrow>
        if \<not> kv_live (kv_expires r) now then Inl ErrNotFound
        else Inr \<lparr>ke_namespace = ns, ke_key = key, ke_value = Some (kv_value r),
                  ke_revision = kv_revision r, ke_expires = scan_time (kv_expires r)\<rparr>)"

definition kv_current_revision :: "db \<Rightarrow> string \<Rightarrow> string \<Rightarrow> time \<Rightarrow> int" where
  "kv_current_revision d ns key now =
     (case kv_find d ns key of
        None \<Rightarrow> 0
      | Some r \<Rightarrow> if \<not> kv_live (kv_expires r) now then 0 else kv_revision r)"

definition kv_upsert :: "db \<Rightarrow> string \<Rightarrow> string \<Rightarrow> string \<Rightarrow> int \<Rightarrow> time option \<Rightarrow> time \<Rightarrow> db" where
  "kv_upsert d ns key value revision expiry now =
     (let expires = map_option format_time expiry in
      if exists_row (\<lambda>r. kv_id r = (ns, key)) (kv_table d)
      then d\<lparr>kv_table := update_where (\<lambda>r. kv_id r = (ns, key))
             (\<lambda>r. r\<lparr>kv_value := value, kv_revision := revision, kv_updated := format_time now,
                    kv_expires := expires\<rparr>) (kv_table d)\<rparr>
      else d\<lparr>kv_table := kv_table d @
             [\<lparr>kv_namespace = ns, kv_key = key, kv_value = value, kv_revision = revision,
               kv_created = format_time now, kv_updated = format_time now, kv_expires = expires\<rparr>]\<rparr>)"

definition kv_set ::
  "db \<Rightarrow> string \<Rightarrow> string \<Rightarrow> string \<Rightarrow> int option \<Rightarrow> int option \<Rightarrow> time \<Rightarrow> store_error + (kv_entry \<times> db)" where
  "kv_set d ns key value if_revision ttl now =
     (let current = kv_current_revision d ns key now in
      if if_revision \<noteq> None \<and> the if_revision \<noteq> current then Inl (ErrKVRevisionMismatch current)
      else if current \<ge> max_kv_exact then Inl ErrKVRevisionExhausted
      else let expiry = map_option (\<lambda>t. truncate_milli (now + t)) ttl;
               revision = current + 1
           in Inr (\<lparr>ke_namespace = ns, ke_key = key, ke_value = None, ke_revision = revision,
                    ke_expires = expiry\<rparr>,
                   kv_upsert d ns key value revision expiry now))"

definition kv_delete :: "db \<Rightarrow> string \<Rightarrow> string \<Rightarrow> time \<Rightarrow> store_error + db" where
  "kv_delete d ns key now =
     (let hit = (\<lambda>r. kv_id r = (ns, key) \<and> kv_live (kv_expires r) now) in
      if affected hit (kv_table d) = 0 then Inl ErrNotFound
      else Inr (d\<lparr>kv_table := delete_where hit (kv_table d)\<rparr>))"

text \<open>\<open>strconv.ParseInt\<close> in base 10 for 64 bits.\<close>

definition digit_value :: "char \<Rightarrow> int option" where
  "digit_value c = (if CHR ''0'' \<le> c \<and> c \<le> CHR ''9'' then Some (int (of_char c) - 48) else None)"

fun digits_value :: "int \<Rightarrow> string \<Rightarrow> int option" where
  "digits_value acc [] = Some acc"
| "digits_value acc (c # cs) =
     (case digit_value c of None \<Rightarrow> None | Some v \<Rightarrow> digits_value (10 * acc + v) cs)"

definition unsigned_value :: "string \<Rightarrow> int option" where
  "unsigned_value s = (if s = '''' then None else digits_value 0 s)"

definition parse_int64 :: "string \<Rightarrow> int option" where
  "parse_int64 s =
     (case (case s of
              [] \<Rightarrow> None
            | c # cs \<Rightarrow>
              if c = CHR ''-'' then map_option uminus (unsigned_value cs)
              else if c = CHR ''+'' then unsigned_value cs
              else unsigned_value s) of
        None \<Rightarrow> None
      | Some v \<Rightarrow> if fits64 v then Some v else None)"

definition kv_incr :: "db \<Rightarrow> string \<Rightarrow> string \<Rightarrow> int \<Rightarrow> time \<Rightarrow> store_error + (kv_entry \<times> db)" where
  "kv_incr d ns key delta now =
     (let entry = (\<lambda>revision value expires.
            \<lparr>ke_namespace = ns, ke_key = key, ke_value = Some value, ke_revision = revision, ke_expires = expires\<rparr>);
          fresh = Inr (entry 1 (show_int delta) None, kv_upsert d ns key (show_int delta) 1 None now)
      in case kv_find d ns key of
           None \<Rightarrow> fresh
         | Some r \<Rightarrow>
           if \<not> kv_live (kv_expires r) now then fresh
           else case parse_int64 (trim_space (kv_value r)) of
             None \<Rightarrow> Inl ErrKVNotInteger
           | Some current \<Rightarrow>
             if current > max_kv_exact \<or> current < - max_kv_exact then Inl ErrKVNotInteger
             else let sum = wrap64 (current + delta) in
               if sum > max_kv_exact \<or> sum < - max_kv_exact then Inl ErrKVRangeExceeded
               else if kv_revision r \<ge> max_kv_exact then Inl ErrKVRevisionExhausted
               else let expires = scan_time (kv_expires r) in
                 Inr (entry (kv_revision r + 1) (show_int sum) expires,
                      kv_upsert d ns key (show_int sum) (kv_revision r + 1) expires now))"

subsection \<open>Listings and retention\<close>

record kv_key_row =
  kk_key :: string
  kk_revision :: int
  kk_expires :: "time option"

record kv_list_query =
  kq_namespace :: string
  kq_prefix :: string
  kq_limit :: int
  kq_after :: string

definition key_alphabet :: "string \<Rightarrow> bool" where
  "key_alphabet s = list_all (\<lambda>c. (CHR ''a'' \<le> c \<and> c \<le> CHR ''z'') \<or> (CHR ''A'' \<le> c \<and> c \<le> CHR ''Z'')
     \<or> (CHR ''0'' \<le> c \<and> c \<le> CHR ''9'') \<or> c = CHR ''_'' \<or> c = CHR ''-'' \<or> c = CHR ''.'') s"

text \<open>The last byte incremented, as Go's byte arithmetic does it.\<close>

definition prefix_successor :: "string \<Rightarrow> string" where
  "prefix_successor p = butlast p @ [char_of ((of_char (last p) + 1 :: nat) mod 256)]"

definition kv_list_row :: "kv_row \<Rightarrow> kv_key_row" where
  "kv_list_row r = \<lparr>kk_key = kv_key r, kk_revision = kv_revision r, kk_expires = scan_time (kv_expires r)\<rparr>"

definition kv_list :: "db \<Rightarrow> kv_list_query \<Rightarrow> time \<Rightarrow> kv_key_row list" where
  "kv_list d q now =
     (let limit = (if kq_limit q \<le> 0 then 100 else kq_limit q);
          cond = (\<lambda>r. kv_namespace r = kq_namespace q \<and> kv_live (kv_expires r) now
                   \<and> (kq_after q \<noteq> '''' \<longrightarrow> kv_key r > kq_after q)
                   \<and> (kq_prefix q \<noteq> '''' \<longrightarrow> kv_key r \<ge> kq_prefix q \<and> kv_key r < prefix_successor (kq_prefix q)))
      in if kq_prefix q \<noteq> '''' \<and> \<not> key_alphabet (kq_prefix q) then []
         else map kv_list_row (sql_limit limit (sort_key kv_key (filter cond (kv_table d)))))"

definition kv_namespaces :: "db \<Rightarrow> time \<Rightarrow> (string \<times> int) list" where
  "kv_namespaces d now =
     (let live = filter (\<lambda>r. kv_live (kv_expires r) now) (kv_table d) in
      map (\<lambda>ns. (ns, affected (\<lambda>r. kv_namespace r = ns) live)) (sort (remdups (map kv_namespace live))))"



text \<open>The LIMIT has no ORDER BY, so which expired rows go first is the engine's choice \<open>pick\<close>.\<close>

definition kv_prune :: "(int \<Rightarrow> kv_row list \<Rightarrow> kv_row list) \<Rightarrow> db \<Rightarrow> int \<Rightarrow> time \<Rightarrow> int \<times> db" where
  "kv_prune pick d limit now =
     (let n = (if limit \<le> 0 then default_prune_batch else limit);
          expired = (\<lambda>r. kv_expires r \<noteq> None \<and> the (kv_expires r) \<le> format_time now);
          batch = map kv_id (pick n (filter expired (kv_table d)));
          hit = (\<lambda>r. expired r \<and> kv_id r \<in> set batch)
      in (affected hit (kv_table d), d\<lparr>kv_table := delete_where hit (kv_table d)\<rparr>))"

subsection \<open>The view of a reader\<close>

definition kv_inv :: "db \<Rightarrow> bool" where
  "kv_inv d = distinct (map kv_id (kv_table d))"

type_synonym kv_cell = "string \<times> int \<times> stamp option"

definition kv_view :: "db \<Rightarrow> time \<Rightarrow> (string \<times> string) \<Rightarrow> kv_cell option" where
  "kv_view d now k =
     (case find (\<lambda>r. kv_id r = k) (kv_table d) of
        None \<Rightarrow> None
      | Some r \<Rightarrow> if kv_live (kv_expires r) now then Some (kv_value r, kv_revision r, kv_expires r) else None)"

lemma kv_view_Some:
  "kv_view d now (ns, key) = Some (v, n, e) \<longleftrightarrow>
   (\<exists>r. kv_find d ns key = Some r \<and> kv_live (kv_expires r) now \<and> v = kv_value r \<and> n = kv_revision r \<and> e = kv_expires r)"
  by (auto simp: kv_view_def kv_find_def split: option.splits)

lemma kv_view_None:
  "kv_view d now (ns, key) = None \<longleftrightarrow>
   (\<forall>r. kv_find d ns key = Some r \<longrightarrow> \<not> kv_live (kv_expires r) now)"
  by (auto simp: kv_view_def kv_find_def split: option.splits)

lemma kv_current_revision_view:
  "kv_current_revision d ns key now = (case kv_view d now (ns, key) of None \<Rightarrow> 0 | Some (v, n, e) \<Rightarrow> n)"
  by (auto simp: kv_current_revision_def kv_view_def kv_find_def split: option.splits)

lemma kv_upsert_inv: "kv_inv d \<Longrightarrow> kv_inv (kv_upsert d ns key v n e now)"
proof -
  assume inv: "kv_inv d"
  have "map kv_id (update_where (\<lambda>r. kv_id r = (ns, key)) (\<lambda>r. r\<lparr>kv_value := v, kv_revision := n, kv_updated := t,
      kv_expires := x\<rparr>) rs) = map kv_id rs" for t x rs
    by (rule map_update_where) (simp add: kv_id_def)
  with inv show ?thesis
    by (auto simp: kv_upsert_def kv_inv_def Let_def exists_row_def kv_id_def)
qed

lemma kv_find_upsert:
  "map_option (\<lambda>r. (kv_value r, kv_revision r, kv_expires r))
     (find (\<lambda>r. kv_id r = k) (kv_table (kv_upsert d ns key v n e now)))
   = (if k = (ns, key) then Some (v, n, map_option format_time e)
      else map_option (\<lambda>r. (kv_value r, kv_revision r, kv_expires r)) (find (\<lambda>r. kv_id r = k) (kv_table d)))"
proof -
  let ?f = "\<lambda>r. r\<lparr>kv_value := v, kv_revision := n, kv_updated := format_time now, kv_expires := map_option format_time e\<rparr>"
  have upd: "find (\<lambda>r. kv_id r = k) (update_where (\<lambda>r. kv_id r = (ns, key)) ?f rs)
      = map_option (\<lambda>r. if kv_id r = (ns, key) then ?f r else r) (find (\<lambda>r. kv_id r = k) rs)" for rs
    by (rule find_update_where) (simp add: kv_id_def)
  show ?thesis
  proof (cases "find (\<lambda>r. kv_id r = (ns, key)) (kv_table d)")
    case None
    then have "\<not> exists_row (\<lambda>r. kv_id r = (ns, key)) (kv_table d)"
      by (auto simp: find_None_iff exists_row_def)
    with None show ?thesis
      by (auto simp: kv_upsert_def Let_def find_append kv_id_def split: option.split)
  next
    case (Some r)
    then have "exists_row (\<lambda>r. kv_id r = (ns, key)) (kv_table d)"
      by (auto simp: exists_row_def dest: find_Some_in)
    with Some show ?thesis
      by (cases "find (\<lambda>r. kv_id r = k) (kv_table d)")
        (auto simp: kv_upsert_def Let_def upd dest: find_Some_in)
  qed
qed

lemma kv_view_alt:
  "kv_view d now k = Option.bind (map_option (\<lambda>r. (kv_value r, kv_revision r, kv_expires r)) (find (\<lambda>r. kv_id r = k) (kv_table d)))
     (\<lambda>c. if kv_live (snd (snd c)) now then Some c else None)"
  by (simp add: kv_view_def split: option.split)

lemma kv_view_upsert:
  "kv_view (kv_upsert d ns key v n e now) t =
     (kv_view d t)((ns, key) := if kv_live (map_option format_time e) t
                                then Some (v, n, map_option format_time e) else None)"
  by (rule ext) (simp add: kv_view_alt kv_find_upsert)


definition sample_kv :: db where
  "sample_kv = empty_db\<lparr>kv_table := [\<lparr>kv_namespace = ''mod'', kv_key = ''a'', kv_value = ''41'', kv_revision = 3,
     kv_created = 0, kv_updated = 0, kv_expires = None\<rparr>]\<rparr>"

lemma sample_kv_inv [simp]: "kv_inv sample_kv"
  by (simp add: kv_inv_def sample_kv_def)


lemma kv_get_view:
  "kv_get d ns key now =
     (case kv_view d now (ns, key) of
        None \<Rightarrow> Inl ErrNotFound
      | Some (v, n, e) \<Rightarrow> Inr \<lparr>ke_namespace = ns, ke_key = key, ke_value = Some v, ke_revision = n,
                               ke_expires = scan_time e\<rparr>)"
  by (auto simp: kv_get_def kv_view_def kv_find_def split: option.split)

lemma kv_view_dom:
  assumes inv: "kv_inv d"
  shows "kv_view d now (ns, key) \<noteq> None \<longleftrightarrow>
    (\<exists>r \<in> set (kv_table d). kv_id r = (ns, key) \<and> kv_live (kv_expires r) now)"
proof -
  have "find (\<lambda>r. kv_id r = (ns, key)) (kv_table d) = Some r" if "r \<in> set (kv_table d)" "kv_id r = (ns, key)" for r
    using find_unique [OF inv [unfolded kv_inv_def] that(1)] that(2) by simp
  then show ?thesis by (auto simp: kv_view_def split: option.splits dest: find_Some_in)
qed

lemma kv_delete_view:
  assumes inv: "kv_inv d"
  shows "case kv_delete d ns key now of
      Inl err \<Rightarrow> err = ErrNotFound \<and> kv_view d now (ns, key) = None
    | Inr d' \<Rightarrow> kv_view d now (ns, key) \<noteq> None \<and> kv_inv d' \<and> (\<forall>t. kv_view d' t = (kv_view d t)((ns, key) := None))"
proof -
  let ?hit = "\<lambda>r. kv_id r = (ns, key) \<and> kv_live (kv_expires r) now"
  note dom = kv_view_dom [OF inv, of now ns key]
  show ?thesis
  proof (cases "affected ?hit (kv_table d) = 0")
    case True
    with dom have "kv_view d now (ns, key) = None" by (auto simp: affected_zero_iff)
    with True show ?thesis by (simp add: kv_delete_def)
  next
    case False
    then obtain r where r: "r \<in> set (kv_table d)" "?hit r" by (auto simp: affected_zero_iff)
    let ?t = "delete_where ?hit (kv_table d)"
    have d': "kv_delete d ns key now = Inr (d\<lparr>kv_table := ?t\<rparr>)" using False by (simp add: kv_delete_def)
    have "x = r" if "x \<in> set (kv_table d)" "kv_id x = (ns, key)" for x
      using key_unique [OF inv [unfolded kv_inv_def] that(1) r(1)] that(2) r(2) by simp
    with r(2) have gone: "find (\<lambda>r. kv_id r = (ns, key)) ?t = None" by (auto simp: find_None_iff)
    have other: "find (\<lambda>r. kv_id r = k) (delete_where ?hit xs) = find (\<lambda>r. kv_id r = k) xs" if "k \<noteq> (ns, key)" for k xs
      using that by (induction xs) auto
    have "kv_view (d\<lparr>kv_table := ?t\<rparr>) t = (kv_view d t)((ns, key) := None)" for t
      by (rule ext) (simp add: kv_view_def gone other)
    moreover have "kv_inv (d\<lparr>kv_table := ?t\<rparr>)" using inv by (auto simp: kv_inv_def)
    ultimately show ?thesis using d' dom r by auto
  qed
qed

subsection \<open>Decimal integers\<close>

lemma digit_table:
  "\<forall>n \<in> set [0..<10]. digit_value (char_of (48 + n :: nat)) = Some (int n) \<and> visible (char_of (48 + n))
     \<and> char_of (48 + n) \<noteq> CHR ''-'' \<and> char_of (48 + n) \<noteq> CHR ''+''"
  by code_simp

lemma digit_value_of: "n < 10 \<Longrightarrow> digit_value (char_of (48 + n :: nat)) = Some (int n)"
  using digit_table by simp

lemma digit_char:
  "n < 10 \<Longrightarrow> visible (char_of (48 + n :: nat)) \<and> char_of (48 + n) \<noteq> CHR ''-'' \<and> char_of (48 + n) \<noteq> CHR ''+''"
  using digit_table by simp

lemma digits_value_append:
  "digits_value a (xs @ ys) = (case digits_value a xs of None \<Rightarrow> None | Some b \<Rightarrow> digits_value b ys)"
  by (induction xs arbitrary: a) (auto split: option.split)

lemma digits_value_rev:
  "digits_value a (rev (digits_rev n)) = Some (a * 10 ^ length (digits_rev n) + int n)"
proof (induction n arbitrary: a rule: digits_rev.induct)
  case (1 n)
  show ?case
  proof (cases "n < 10")
    case True
    then show ?thesis by (simp add: digits_rev.simps [of n] digit_value_of)
  next
    case False
    have m: "digit_value (char_of (48 + n mod 10)) = Some (int (n mod 10))"
      by (rule digit_value_of) simp
    have "digits_value a (rev (digits_rev n)) = digits_value (a * 10 ^ length (digits_rev (n div 10)) + int (n div 10)) [char_of (48 + n mod 10)]"
      using False 1 by (simp add: digits_rev.simps [of n] digits_value_append)
    also have "\<dots> = Some (10 * (a * 10 ^ length (digits_rev (n div 10)) + int (n div 10)) + int (n mod 10))"
      using m by simp
    also have "\<dots> = Some (a * 10 ^ length (digits_rev n) + int n)"
      using False by (simp add: digits_rev.simps [of n] algebra_simps zdiv_int zmod_int)
    finally show ?thesis .
  qed
qed

lemma digits_rev_not_Nil [simp]: "digits_rev n \<noteq> []"
  by (subst digits_rev.simps) simp

lemma digits_rev_chars: "c \<in> set (digits_rev n) \<Longrightarrow> \<exists>m<10. c = char_of (48 + m :: nat)"
proof (induction n rule: digits_rev.induct)
  case (1 n)
  have "n mod 10 < 10" by simp
  moreover have "\<not> n < 10 \<and> c \<in> set (digits_rev (n div 10)) \<or> c = char_of (48 + n mod 10) \<or> c = char_of (48 + n) \<and> n < 10"
    using 1(2) by (auto simp: digits_rev.simps [of n] split: if_splits)
  moreover have "\<not> n < 10 \<Longrightarrow> c \<in> set (digits_rev (n div 10)) \<Longrightarrow> \<exists>m<10. c = char_of (48 + m :: nat)"
    by (rule 1(1))
  ultimately show ?case by blast
qed

lemma unsigned_value_digits: "unsigned_value (rev (digits_rev n)) = Some (int n)"
  using digits_value_rev [of 0 n] by (simp add: unsigned_value_def)

lemma show_int_visible: "c \<in> set (show_int i) \<Longrightarrow> visible c"
  using digits_rev_chars digit_char by (fastforce simp: show_int_def visible_def split: if_splits)

lemma trim_show_int [simp]: "trim_space (show_int i) = show_int i"
  using show_int_visible by (intro trim_space_visible) blast

lemma parse_show_int:
  assumes "fits64 i"
  shows "parse_int64 (show_int i) = Some i"
proof (cases "i < 0")
  case True
  then have "show_int i = CHR ''-'' # rev (digits_rev (nat (- i)))" by (simp add: show_int_def)
  with True assms show ?thesis by (simp add: parse_int64_def unsigned_value_digits)
next
  case False
  let ?s = "rev (digits_rev (nat i))"
  obtain c cs where s: "?s = c # cs" by (metis digits_rev_not_Nil list.exhaust rev_is_Nil_conv)
  then have "c \<in> set (digits_rev (nat i))" by (metis list.set_intros(1) set_rev)
  then obtain m :: nat where "m < 10" "c = char_of (48 + m)" using digits_rev_chars by blast
  then have "c \<noteq> CHR ''-''" "c \<noteq> CHR ''+''" using digit_char by simp_all
  with False assms s unsigned_value_digits [of "nat i"] show ?thesis
    by (simp add: show_int_def parse_int64_def)
qed

subsection \<open>Increments\<close>

lemma kv_incr_fresh:
  assumes "kv_view d now (ns, key) = None"
  shows "kv_incr d ns key delta now =
    Inr (\<lparr>ke_namespace = ns, ke_key = key, ke_value = Some (show_int delta), ke_revision = 1, ke_expires = None\<rparr>,
         kv_upsert d ns key (show_int delta) 1 None now)"
  using assms by (auto simp: kv_incr_def Let_def kv_view_None split: option.split)

lemma scan_time_format [simp]: "map_option format_time (scan_time e) = e"
  by (cases e) (simp_all add: scan_time_def)

lemma kv_incr_live:
  assumes "kv_view d now (ns, key) = Some (show_int v, n, e)"
    and "\<bar>v\<bar> \<le> max_kv_exact" and "\<bar>delta\<bar> \<le> max_kv_exact"
  shows "kv_incr d ns key delta now =
    (if \<bar>v + delta\<bar> > max_kv_exact then Inl ErrKVRangeExceeded
     else if n \<ge> max_kv_exact then Inl ErrKVRevisionExhausted
     else Inr (\<lparr>ke_namespace = ns, ke_key = key, ke_value = Some (show_int (v + delta)), ke_revision = n + 1,
                ke_expires = scan_time e\<rparr>,
               kv_upsert d ns key (show_int (v + delta)) (n + 1) (scan_time e) now))"
proof -
  from assms(1) [unfolded kv_view_Some] obtain r where "kv_find d ns key = Some r \<and> kv_live (kv_expires r) now
    \<and> show_int v = kv_value r \<and> n = kv_revision r \<and> e = kv_expires r" by (rule exE)
  then have r: "kv_find d ns key = Some r" "kv_live (kv_expires r) now" "kv_value r = show_int v"
    "kv_revision r = n" "kv_expires r = e" by simp_all
  have b: "\<bar>v\<bar> \<le> 9007199254740991" "\<bar>delta\<bar> \<le> 9007199254740991"
    using assms(2,3) by (simp_all add: max_kv_exact_def)
  have "wrap64 (v + delta) = v + delta" by (rule wrap64_id) (use b in \<open>simp_all add: abs_le_iff\<close>)
  moreover have "fits64 v" using b(1) by (simp add: fits64_def abs_le_iff)
  ultimately have w: "wrap64 (v + delta) = v + delta" and p: "parse_int64 (trim_space (kv_value r)) = Some v"
    using r(3) parse_show_int [of v] by simp_all
  have c: "\<not> (v > max_kv_exact \<or> v < - max_kv_exact)" using assms(2) by (simp add: abs_le_iff)
  have "(v + delta > max_kv_exact \<or> v + delta < - max_kv_exact) = (\<bar>v + delta\<bar> > max_kv_exact)" by linarith
  then show ?thesis
    using r(1,2,4,5) w p c by (simp add: kv_incr_def Let_def)
qed

text \<open>A run of increments, each at its own moment; \<open>None\<close> when one is refused.\<close>

fun incr_run :: "db \<Rightarrow> string \<Rightarrow> string \<Rightarrow> (int \<times> time) list \<Rightarrow> db option" where
  "incr_run d ns key [] = Some d"
| "incr_run d ns key ((delta, now) # ds) =
     (case kv_incr d ns key delta now of Inl _ \<Rightarrow> None | Inr (_, d') \<Rightarrow> incr_run d' ns key ds)"

definition in_bounds :: "int \<Rightarrow> int list \<Rightarrow> bool" where
  "in_bounds v ds = (\<forall>i \<le> length ds. \<bar>v + sum_list (take i ds)\<bar> \<le> max_kv_exact)"

lemma in_bounds_Cons: "in_bounds v (x # ds) \<longleftrightarrow> \<bar>v\<bar> \<le> max_kv_exact \<and> in_bounds (v + x) ds"
proof
  assume a: "in_bounds v (x # ds)"
  have "\<bar>v + x + sum_list (take i ds)\<bar> \<le> max_kv_exact" if "i \<le> length ds" for i
    using a [unfolded in_bounds_def, rule_format, of "Suc i"] that by (simp add: add.assoc)
  moreover have "\<bar>v\<bar> \<le> max_kv_exact" using a [unfolded in_bounds_def, rule_format, of 0] by simp
  ultimately show "\<bar>v\<bar> \<le> max_kv_exact \<and> in_bounds (v + x) ds" by (simp add: in_bounds_def)
next
  assume a: "\<bar>v\<bar> \<le> max_kv_exact \<and> in_bounds (v + x) ds"
  show "in_bounds v (x # ds)"
    unfolding in_bounds_def
  proof (intro allI impI)
    fix i assume i: "i \<le> length (x # ds)"
    show "\<bar>v + sum_list (take i (x # ds))\<bar> \<le> max_kv_exact"
    proof (cases i)
      case (Suc j)
      with a i show ?thesis by (simp add: in_bounds_def add.assoc)
    qed (use a in simp)
  qed
qed

lemma incr_run_live:
  assumes "\<And>t. kv_view d t (ns, key) = Some (show_int v, n, None)"
    and "\<forall>x \<in> set (map fst ds). \<bar>x\<bar> \<le> max_kv_exact" and "in_bounds v (map fst ds)"
    and "n + int (length ds) \<le> max_kv_exact"
  shows "\<exists>d'. incr_run d ns key ds = Some d'
    \<and> (\<forall>t. kv_view d' t = (kv_view d t)((ns, key) \<mapsto> (show_int (v + sum_list (map fst ds)), n + int (length ds), None)))"
  using assms
proof (induction ds arbitrary: d v n)
  case Nil
  then show ?case by (auto simp: fun_upd_idem)
next
  case (Cons p ds)
  obtain x now where p: "p = (x, now)" by fastforce
  let ?d = "kv_upsert d ns key (show_int (v + x)) (n + 1) None now"
  from Cons.prems(3) have b: "\<bar>v\<bar> \<le> max_kv_exact" "in_bounds (v + x) (map fst ds)"
    by (simp_all add: p in_bounds_Cons)
  then have "\<bar>v + x\<bar> \<le> max_kv_exact" unfolding in_bounds_def by (metis add.right_neutral le0 sum_list.Nil take_0)
  moreover have "\<bar>x\<bar> \<le> max_kv_exact" "n < max_kv_exact" using Cons.prems(2,4) by (simp_all add: p)
  ultimately have step: "incr_run d ns key (p # ds) = incr_run ?d ns key ds"
    using kv_incr_live [OF Cons.prems(1) b(1), of x now] by (simp add: p scan_time_def)
  have view: "kv_view ?d t = (kv_view d t)((ns, key) \<mapsto> (show_int (v + x), n + 1, None))" for t
    by (simp add: kv_view_upsert kv_live_def)
  then have "\<exists>d'. incr_run ?d ns key ds = Some d'
    \<and> (\<forall>t. kv_view d' t = (kv_view ?d t)((ns, key) \<mapsto> (show_int (v + x + sum_list (map fst ds)), n + 1 + int (length ds), None)))"
    using Cons.prems(2,4) b(2) by (intro Cons.IH) simp_all
  then obtain d' where "incr_run ?d ns key ds = Some d'"
    "\<forall>t. kv_view d' t = (kv_view ?d t)((ns, key) \<mapsto> (show_int (v + x + sum_list (map fst ds)), n + 1 + int (length ds), None))"
    by blast
  then have "incr_run d ns key (p # ds) = Some d'" "\<forall>t. kv_view d' t = (kv_view d t)((ns, key) \<mapsto>
      (show_int (v + sum_list (map fst (p # ds))), n + int (length (p # ds)), None))"
    unfolding step view by (simp_all add: p add.assoc)
  then show ?case by blast
qed

text \<open>
  No delta vanishes: a run of increments on a key that does not exist yet, whose deltas and running
  totals stay within the exactness bound, all succeed, and the key ends at the exact sum of the deltas, as a decimal
  integer that reads back as that sum, at a revision that counts them.
\<close>

lemma increments_add_up:
  assumes "kv_view d now (ns, key) = None" and "\<forall>x \<in> set (delta # map fst ds). \<bar>x\<bar> \<le> max_kv_exact"
    and "in_bounds delta (map fst ds)" and "1 + int (length ds) \<le> max_kv_exact"
  shows "\<exists>d'. incr_run d ns key ((delta, now) # ds) = Some d'
    \<and> (\<forall>t. kv_view d' t = (kv_view d t)((ns, key) \<mapsto>
          (show_int (delta + sum_list (map fst ds)), 1 + int (length ds), None)))
    \<and> parse_int64 (show_int (delta + sum_list (map fst ds))) = Some (delta + sum_list (map fst ds))"
proof -
  let ?d = "kv_upsert d ns key (show_int delta) 1 None now"
  have view: "kv_view ?d t = (kv_view d t)((ns, key) \<mapsto> (show_int delta, 1, None))" for t
    by (simp add: kv_view_upsert kv_live_def)
  have "\<exists>d'. incr_run ?d ns key ds = Some d'
    \<and> (\<forall>t. kv_view d' t = (kv_view ?d t)((ns, key) \<mapsto> (show_int (delta + sum_list (map fst ds)), 1 + int (length ds), None)))"
    using assms(2-4) view by (intro incr_run_live) simp_all
  then obtain d' where "incr_run ?d ns key ds = Some d'"
    "\<forall>t. kv_view d' t = (kv_view ?d t)((ns, key) \<mapsto> (show_int (delta + sum_list (map fst ds)), 1 + int (length ds), None))"
    by blast
  moreover have "fits64 (delta + sum_list (map fst ds))"
    using assms(3) [unfolded in_bounds_def, rule_format, of "length ds"]
    by (simp add: fits64_def max_kv_exact_def abs_le_iff)
  ultimately show ?thesis using kv_incr_fresh [OF assms(1)] parse_show_int by (simp add: view)
qed

lemma increments_add_up_witness:
  "\<exists>d'. incr_run empty_db ''mod'' ''n'' [(5, 0), (-2, 1), (4, 2)] = Some d'
     \<and> kv_view d' 3 (''mod'', ''n'') = Some (show_int 7, 3, None)"
proof -
  have "kv_view empty_db 0 (''mod'', ''n'') = None" by (simp add: kv_view_def)
  moreover have "in_bounds 5 (map fst [(-2, 1), (4, 2 :: time)])"
    by (auto simp: in_bounds_def max_kv_exact_def le_Suc_eq numeral_2_eq_2)
  ultimately show ?thesis
    using increments_add_up [of empty_db 0 "''mod''" "''n''" 5 "[(-2, 1), (4, 2)]"] by (auto simp: max_kv_exact_def)
qed

subsection \<open>Compare-and-swap, as a contract\<close>

locale cas_cells =
  fixes inv :: "'s \<Rightarrow> bool"
    and rev_of :: "'s \<Rightarrow> 'k \<Rightarrow> int"
    and put :: "'s \<Rightarrow> 'k \<Rightarrow> 'v \<Rightarrow> int option \<Rightarrow> 'e + 's"
  assumes put_done: "inv s \<Longrightarrow> put s k v r = Inr s' \<Longrightarrow>
      inv s' \<and> rev_of s' k = rev_of s k + 1 \<and> (j \<noteq> k \<longrightarrow> rev_of s' j = rev_of s j) \<and> (r = None \<or> r = Some (rev_of s k))"
begin

lemma put_raises: "inv s \<Longrightarrow> put s k v r = Inr s' \<Longrightarrow> inv s' \<and> rev_of s j \<le> rev_of s' j"
  using put_done [of s k v r s' j] by (cases "j = k") auto

text \<open>Whoever presents a revision another write already consumed loses, whatever was written in between.\<close>

lemma cas_exclusive:
  assumes "inv s" and "put s k v (Some r) = Inr s1" and "inv s2" and "rev_of s1 k \<le> rev_of s2 k"
  shows "put s2 k v' (Some r) \<noteq> Inr s3"
proof
  assume "put s2 k v' (Some r) = Inr s3"
  with put_done [OF assms(3), of k v' "Some r" s3 k] have "r = rev_of s2 k" by simp
  moreover from put_done [OF assms(1,2), of k] have "r = rev_of s k" "rev_of s1 k = r + 1" by auto
  ultimately show False using assms(4) by simp
qed

end

definition kv_put :: "time \<Rightarrow> db \<Rightarrow> string \<times> string \<Rightarrow> string \<Rightarrow> int option \<Rightarrow> store_error + db" where
  "kv_put now d k v r =
     (case kv_set d (fst k) (snd k) v r None now of Inl err \<Rightarrow> Inl err | Inr (e, d') \<Rightarrow> Inr d')"

definition kv_rev :: "time \<Rightarrow> db \<Rightarrow> string \<times> string \<Rightarrow> int" where
  "kv_rev now d k = kv_current_revision d (fst k) (snd k) now"

lemma kv_set_view:
  assumes "kv_inv d" and "kv_set d ns key v if_revision ttl now = Inr (entry, d')"
  shows "kv_inv d' \<and> if_revision \<in> {None, Some (kv_current_revision d ns key now)}
    \<and> (\<forall>t. kv_view d' t = (kv_view d t)((ns, key) :=
          if kv_live (map_option (\<lambda>l. format_time (now + l)) ttl) t
          then Some (v, kv_current_revision d ns key now + 1, map_option (\<lambda>l. format_time (now + l)) ttl) else None))"
  using assms kv_upsert_inv [OF assms(1)]
  by (cases if_revision)
    (auto simp: kv_set_def Let_def kv_view_upsert option.map_comp o_def truncate_milli_def split: if_splits)

interpretation kv_cells: cas_cells kv_inv "kv_rev now" "kv_put now" for now
proof
  fix d d' :: db and k j :: "string \<times> string" and v :: string and r :: "int option"
  assume inv: "kv_inv d" and put: "kv_put now d k v r = Inr d'"
  obtain ns key where k: "k = (ns, key)" by fastforce
  from put obtain e where set: "kv_set d ns key v r None now = Inr (e, d')"
    by (auto simp: kv_put_def k split: sum.splits)
  from kv_set_view [OF inv set] have v: "kv_inv d'" "r = None \<or> r = Some (kv_current_revision d ns key now)"
    "\<And>t. kv_view d' t = (kv_view d t)((ns, key) \<mapsto> (v, kv_current_revision d ns key now + 1, None))"
    by (auto simp: kv_live_def)
  then show "kv_inv d' \<and> kv_rev now d' k = kv_rev now d k + 1
      \<and> (j \<noteq> k \<longrightarrow> kv_rev now d' j = kv_rev now d j) \<and> (r = None \<or> r = Some (kv_rev now d k))"
    by (cases j) (auto simp: kv_rev_def k kv_current_revision_view)
qed

text \<open>
  Of any number of writers that read the same revision, at most one wins: once a set conditional on a
  revision has succeeded, another set conditional on the same revision fails, even after further writes and
  increments by others have come in between.
\<close>

lemma cas_one_winner:
  assumes "kv_inv d" and "kv_put now d k v (Some r) = Inr d1"
    and "kv_inv d2" and "kv_rev now d1 k \<le> kv_rev now d2 k"
  shows "\<exists>err. kv_put now d2 k v' (Some r) = Inl err"
  using kv_cells.cas_exclusive [OF assms] by (cases "kv_put now d2 k v' (Some r)") auto

lemma cas_one_winner_witness:
  "\<exists>d1 err. kv_put 0 sample_kv (''mod'', ''a'') ''7'' (Some 3) = Inr d1
     \<and> kv_put 0 d1 (''mod'', ''a'') ''8'' (Some 3) = Inl err"
proof -
  obtain d1 where d1: "kv_put 0 sample_kv (''mod'', ''a'') ''7'' (Some 3) = Inr d1"
    by (simp add: kv_put_def kv_set_def kv_current_revision_def kv_find_def sample_kv_def kv_id_def kv_live_def
        max_kv_exact_def)
  have "kv_inv d1" using kv_cells.put_raises [OF sample_kv_inv d1] by blast
  from cas_one_winner [OF sample_kv_inv d1 this order.refl] d1 show ?thesis by blast
qed

subsection \<open>Retention is invisible\<close>

text \<open>
  The retention pass only removes what no reader can see any more: at every moment from the pass on, each
  key reads exactly as it did before, whichever expired rows the bounded delete picked; and a pass whose
  bound covers all expired rows leaves none of them.
\<close>

lemma kv_prune_invisible:
  assumes inv: "kv_inv d" and pick: "row_picker pick" and run: "kv_prune pick d limit now = (n, d')"
  shows "kv_inv d' \<and> (\<forall>t. now \<le> t \<longrightarrow> kv_view d' t = kv_view d t)
    \<and> (affected (\<lambda>r. kv_expires r \<noteq> None \<and> the (kv_expires r) \<le> format_time now) (kv_table d)
          \<le> (if limit \<le> 0 then default_prune_batch else limit) \<longrightarrow>
       (\<forall>r \<in> set (kv_table d'). kv_live (kv_expires r) now))"
proof (intro conjI allI impI ballI)
  let ?exp = "\<lambda>r. kv_expires r \<noteq> None \<and> the (kv_expires r) \<le> format_time now"
  let ?n = "if limit \<le> 0 then default_prune_batch else limit"
  let ?hit = "\<lambda>r. ?exp r \<and> kv_id r \<in> set (map kv_id (pick ?n (filter ?exp (kv_table d))))"
  have d': "d' = d\<lparr>kv_table := delete_where ?hit (kv_table d)\<rparr>"
    using run by (simp add: kv_prune_def Let_def)
  show "kv_inv d'" using inv by (auto simp: kv_inv_def d')
  show "kv_view d' t = kv_view d t" if "now \<le> t" for t
  proof
    fix k
    have dead: "\<not> kv_live (kv_expires r) t" if "?hit r" for r
      using that format_time_mono [OF \<open>now \<le> t\<close>] by (auto simp: kv_live_def)
    show "kv_view d' t k = kv_view d t k"
    proof (cases "find (\<lambda>r. kv_id r = k) (kv_table d)")
      case None
      then have "find (\<lambda>r. kv_id r = k) (kv_table d') = None" by (auto simp: find_None_iff d')
      with None show ?thesis by (simp add: kv_view_def)
    next
      case (Some r)
      then have r: "r \<in> set (kv_table d)" "kv_id r = k" by (auto dest: find_Some_in)
      have only: "x = r" if "x \<in> set (kv_table d)" "kv_id x = k" for x
        using key_unique [OF inv [unfolded kv_inv_def] that(1) r(1)] that(2) r(2) by simp
      show ?thesis
      proof (cases "?hit r")
        case True
        with only have "find (\<lambda>r. kv_id r = k) (kv_table d') = None" by (auto simp: find_None_iff d')
        with Some dead [OF True] show ?thesis by (simp add: kv_view_def)
      next
        case False
        have "r \<in> set (kv_table d')" using False r(1) by (simp add: d')
        moreover have "distinct (map kv_id (kv_table d'))" using inv by (auto simp: kv_inv_def d')
        ultimately have "find (\<lambda>r. kv_id r = k) (kv_table d') = Some r" using find_unique r(2) by fastforce
        with Some show ?thesis by (simp add: kv_view_def)
      qed
    qed
  qed
  fix r assume few: "affected ?exp (kv_table d) \<le> ?n" and r: "r \<in> set (kv_table d')"
  have "pick ?n (filter ?exp (kv_table d)) = filter ?exp (kv_table d)"
    using row_picker.pick_all [OF pick] few by (simp add: affected_def)
  then show "kv_live (kv_expires r) now"
    using r by (auto simp: d' kv_live_def not_le split: option.splits)
qed

definition sample_expired :: kv_row where
  "sample_expired = \<lparr>kv_namespace = ''mod'', kv_key = ''old'', kv_value = ''1'', kv_revision = 1,
     kv_created = 0, kv_updated = 0, kv_expires = Some 5\<rparr>"

lemma kv_prune_invisible_witness:
  "let d = sample_kv\<lparr>kv_table := sample_expired # kv_table sample_kv\<rparr>;
       d' = snd (kv_prune sql_limit d 10 6000000)
   in kv_view d' 6000000 = kv_view d 6000000 \<and> list_all (\<lambda>r. kv_live (kv_expires r) 6000000) (kv_table d')"
proof -
  let ?d = "sample_kv\<lparr>kv_table := sample_expired # kv_table sample_kv\<rparr>"
  have inv: "kv_inv ?d" by (simp add: kv_inv_def sample_kv_def sample_expired_def kv_id_def)
  obtain n d' where run: "kv_prune sql_limit ?d 10 6000000 = (n, d')" by fastforce
  have "affected (\<lambda>r. kv_expires r \<noteq> None \<and> the (kv_expires r) \<le> format_time 6000000) (kv_table ?d) \<le> 10"
    by (simp add: affected_def sample_kv_def sample_expired_def format_time_def nanos_per_milli_def)
  with kv_prune_invisible [OF inv limit_picker.row_picker_axioms run] run show ?thesis
    by (simp add: Let_def list_all_iff)
qed

subsection \<open>Listing a namespace\<close>

lemma char_succ_le: "(of_char c :: nat) < 255 \<Longrightarrow> x < char_of ((of_char c + 1 :: nat) mod 256) \<longleftrightarrow> x \<le> c"
  by (simp add: less_char_def less_eq_char_def of_char_of less_Suc_eq_le)

text \<open>The half-open byte range is exactly the prefix.\<close>

lemma prefix_range:
  assumes "p \<noteq> ''''" and "(of_char (last p) :: nat) < 255"
  shows "p \<le> s \<and> s < prefix_successor p \<longleftrightarrow> prefix p s"
  using assms
proof (induction p arbitrary: s)
  case (Cons c p)
  show ?case
  proof (cases s)
    case Nil
    then show ?thesis by simp
  next
    case s: (Cons x s')
    show ?thesis
    proof (cases "p = []")
      case True
      with Cons.prems(2) have "prefix_successor (c # p) = [char_of ((of_char c + 1 :: nat) mod 256)]"
        by (simp add: prefix_successor_def)
      with char_succ_le [of c x] Cons.prems(2) True show ?thesis
        by (auto simp: s less_le not_le)
    next
      case False
      with Cons.prems(2) Cons.IH [of s'] have "prefix_successor (c # p) = c # prefix_successor p"
        "p \<le> s' \<and> s' < prefix_successor p \<longleftrightarrow> prefix p s'"
        by (simp_all add: prefix_successor_def)
      then show ?thesis by (auto simp: s)
    qed
  qed
qed simp

lemma key_alphabet_last: "key_alphabet p \<Longrightarrow> p \<noteq> '''' \<Longrightarrow> (of_char (last p) :: nat) < 255"
proof -
  assume "key_alphabet p" "p \<noteq> ''''"
  then have "last p \<le> CHR ''z''"
    by (auto simp: key_alphabet_def list_all_iff less_eq_char_def dest!: bspec [OF _ last_in_set])
  then show ?thesis by (simp add: less_eq_char_def)
qed

text \<open>The reader's idea of a listing: the live keys of a namespace that start with a prefix, in byte order.\<close>

definition listed_keys :: "db \<times> string \<times> string \<times> time \<Rightarrow> kv_key_row list" where
  "listed_keys s =
     (case s of (d, ns, p, now) \<Rightarrow>
        map kv_list_row (sort_key kv_key
          (filter (\<lambda>r. kv_namespace r = ns \<and> kv_live (kv_expires r) now \<and> prefix p (kv_key r)) (kv_table d))))"

definition kv_page :: "db \<times> string \<times> string \<times> time \<Rightarrow> nat \<Rightarrow> string option \<Rightarrow> kv_key_row list" where
  "kv_page s n c =
     (case s of (d, ns, p, now) \<Rightarrow>
        kv_list d \<lparr>kq_namespace = ns, kq_prefix = p, kq_limit = int n,
                   kq_after = (case c of None \<Rightarrow> '''' | Some k \<Rightarrow> k)\<rparr> now)"

definition kv_keys_ok :: "db \<times> string \<times> string \<times> time \<Rightarrow> bool" where
  "kv_keys_ok s = (kv_inv (fst s) \<and> (\<forall>r \<in> set (kv_table (fst s)). key_alphabet (kv_key r) \<and> kv_key r \<noteq> ''''))"

lemma kv_list_prefix:
  assumes "kv_keys_ok (d, ns, p, now)" and "0 < n"
  shows "kv_list d \<lparr>kq_namespace = ns, kq_prefix = p, kq_limit = int n, kq_after = a\<rparr> now
    = map kv_list_row (take n (sort_key kv_key (filter (\<lambda>r. a \<noteq> '''' \<longrightarrow> a < kv_key r)
        (filter (\<lambda>r. kv_namespace r = ns \<and> kv_live (kv_expires r) now \<and> prefix p (kv_key r)) (kv_table d)))))"
proof (cases "p = '''' \<or> key_alphabet p")
  case True
  then have "prefix p s \<longleftrightarrow> (p \<noteq> '''' \<longrightarrow> p \<le> s \<and> s < prefix_successor p)" for s
    using prefix_range key_alphabet_last by (cases "p = ''''") auto
  then show ?thesis using True assms(2)
    by (auto simp: kv_list_def Let_def sql_limit_def intro!: arg_cong [where f = "map kv_list_row"]
        arg_cong [where f = "take n"] arg_cong [where f = "sort_key kv_key"] filter_cong)
next
  case False
  have "\<not> prefix p (kv_key r)" if "r \<in> set (kv_table d)" for r
    using assms(1) that False
    by (auto simp: kv_keys_ok_def key_alphabet_def list_all_iff dest!: set_mono_prefix)
  then have "filter (\<lambda>r. kv_namespace r = ns \<and> kv_live (kv_expires r) now \<and> prefix p (kv_key r)) (kv_table d) = []"
    by (auto simp: filter_empty_conv)
  then show ?thesis using False by (simp add: kv_list_def Let_def)
qed

interpretation kv_pages: paged_read kv_keys_ok listed_keys kv_page kk_key
proof
  fix s :: "db \<times> string \<times> string \<times> time" and n i :: nat
  assume ok: "kv_keys_ok s" and n: "0 < n"
  obtain d ns p now where s: "s = (d, ns, p, now)" by (metis prod_cases4)
  let ?live = "filter (\<lambda>r. kv_namespace r = ns \<and> kv_live (kv_expires r) now \<and> prefix p (kv_key r)) (kv_table d)"
  note eq = kv_list_prefix [OF ok [unfolded s] n]
  show "kv_page s n None = take n (listed_keys s)"
    by (simp add: kv_page_def s eq listed_keys_def take_map)
  assume i: "i < length (listed_keys s)"
  have i': "i < length ?live" using i by (simp add: s listed_keys_def)
  let ?k = "kv_key (sort_key kv_key ?live ! i)"
  have "distinct (map kv_key ?live)"
  proof -
    have "inj_on kv_id (set (kv_table d))" using ok by (simp add: kv_keys_ok_def s kv_inv_def distinct_map)
    then have "inj_on kv_key (set ?live)" by (auto simp: inj_on_def kv_id_def)
    then show ?thesis using ok by (simp add: kv_keys_ok_def s kv_inv_def distinct_map)
  qed
  then have "sort_key kv_key (filter (\<lambda>r. ?k < kv_key r) ?live) = drop (Suc i) (sort_key kv_key ?live)"
    using i' by (rule ascending_after)
  moreover have "?k \<noteq> ''''"
  proof -
    have "i < length (sort_key kv_key ?live)" using i' by simp
    then have "sort_key kv_key ?live ! i \<in> set (sort_key kv_key ?live)" by (rule nth_mem)
    then have "sort_key kv_key ?live ! i \<in> set ?live" by (simp only: set_sort)
    then have "sort_key kv_key ?live ! i \<in> set (kv_table d)" by simp
    then show ?thesis using ok unfolding kv_keys_ok_def s fst_conv by blast
  qed
  moreover have "kk_key (listed_keys s ! i) = ?k"
    using i' by (simp add: s listed_keys_def kv_list_row_def)
  ultimately show "kv_page s n (Some (kk_key (listed_keys s ! i))) = take n (drop (Suc i) (listed_keys s))"
    by (simp add: kv_page_def s eq) (simp add: listed_keys_def drop_map take_map)
qed

text \<open>
  Walking a namespace page by page, with any prefix and any page size, visits each live key with that
  prefix exactly once, in byte order, and nothing else.
\<close>

lemma kv_walk_complete:
  assumes "kv_keys_ok (d, ns, p, now)" and "0 < n" and "length (kv_table d) \<le> k"
  shows "walk (Suc k) (kv_page (d, ns, p, now) n) kk_key None = listed_keys (d, ns, p, now)
    \<and> set (map kk_key (listed_keys (d, ns, p, now)))
      = {key. kv_view d now (ns, key) \<noteq> None \<and> prefix p key}
    \<and> sorted_wrt (<) (map kk_key (listed_keys (d, ns, p, now)))"
proof (intro conjI)
  let ?live = "filter (\<lambda>r. kv_namespace r = ns \<and> kv_live (kv_expires r) now \<and> prefix p (kv_key r)) (kv_table d)"
  have "length (listed_keys (d, ns, p, now)) \<le> k"
    using assms(3) le_trans [OF length_filter_le] by (simp add: listed_keys_def)
  then show "walk (Suc k) (kv_page (d, ns, p, now) n) kk_key None = listed_keys (d, ns, p, now)"
    using kv_pages.walk_all [OF assms(1,2)] by blast
  have inj: "inj_on kv_id (set (kv_table d))" using assms(1) by (simp add: kv_keys_ok_def kv_inv_def distinct_map)
  have view: "kv_view d now (ns, key) \<noteq> None \<longleftrightarrow>
      (\<exists>r \<in> set (kv_table d). kv_id r = (ns, key) \<and> kv_live (kv_expires r) now)" for key
    using assms(1) by (intro kv_view_dom) (simp add: kv_keys_ok_def)
  have "set (map kk_key (listed_keys (d, ns, p, now))) = kv_key ` set ?live"
    by (simp add: listed_keys_def image_image kv_list_row_def)
  also have "\<dots> = {key. kv_view d now (ns, key) \<noteq> None \<and> prefix p key}"
    unfolding view by (auto simp: kv_id_def)
  finally show "set (map kk_key (listed_keys (d, ns, p, now))) = {key. kv_view d now (ns, key) \<noteq> None \<and> prefix p key}" .
  have "inj_on kv_key (set ?live)" using inj by (auto simp: inj_on_def kv_id_def)
  then have "distinct (map kv_key ?live)"
    using assms(1) by (simp add: kv_keys_ok_def kv_inv_def distinct_map)
  then show "sorted_wrt (<) (map kk_key (listed_keys (d, ns, p, now)))"
    using sorted_wrt_less_sort_key [of kv_key ?live]
    by (simp add: listed_keys_def sorted_wrt_map kv_list_row_def)
qed

lemma kv_walk_complete_witness:
  "walk 2 (kv_page (sample_kv, ''mod'', ''a'', 0) 1) kk_key None = listed_keys (sample_kv, ''mod'', ''a'', 0)"
proof -
  have "kv_keys_ok (sample_kv, ''mod'', ''a'', 0)"
    by (simp add: kv_keys_ok_def) (simp add: sample_kv_def key_alphabet_def less_eq_char_def)
  from kv_walk_complete [OF this, of 1 1] show ?thesis
    by (simp add: sample_kv_def numeral_2_eq_2)
qed

end
