(* ===== verification/Dedup.thy ===== *)
theory Dedup
  imports Prelude
begin

text \<open>
  Deduplication by envelope id, the contract that telemetry batches and state snapshots share:
  an envelope is claimed before what it carries is stored, and a claimed envelope stores nothing.
\<close>

locale dedup_log =
  fixes claimed :: "'s \<Rightarrow> 'k \<Rightarrow> bool"
    and ingest :: "'s \<Rightarrow> 'k \<Rightarrow> 'i \<Rightarrow> 'e + (int \<times> 's)"
  assumes claimed_noop: "claimed s k \<Longrightarrow> ingest s k x = Inr (0, s)"
    and ingest_claims: "ingest s k x = Inr (n, s') \<Longrightarrow> 0 < n \<Longrightarrow> claimed s' k"
    and claims_stay: "ingest s k x = Inr (n, s') \<Longrightarrow> claimed s j \<Longrightarrow> claimed s' j"
begin

text \<open>A run of deliveries, in any order and with any repetition; a failed one is rolled back.\<close>

lemma run_claims:
  "claimed s k \<Longrightarrow> claimed (run_steps (\<lambda>s (k, x). case ingest s k x of Inl _ \<Rightarrow> s | Inr (n, s') \<Rightarrow> s') s es) k"
proof (induction es arbitrary: s)
  case (Cons e es)
  obtain j x where e: "e = (j, x)" by fastforce
  have "claimed (case ingest s j x of Inl _ \<Rightarrow> s | Inr (n, s') \<Rightarrow> s') k"
    using Cons.prems claims_stay by (auto split: sum.split)
  then show ?case using Cons.IH by (simp add: e)
qed simp

lemma replay_noop:
  assumes "ingest s k x = Inr (n, s')" and "0 < n"
  shows "ingest (run_steps (\<lambda>s (k, x). case ingest s k x of Inl _ \<Rightarrow> s | Inr (n, s') \<Rightarrow> s') s' es) k y
      = Inr (0, run_steps (\<lambda>s (k, x). case ingest s k x of Inl _ \<Rightarrow> s | Inr (n, s') \<Rightarrow> s') s' es)"
  by (rule claimed_noop [OF run_claims [OF ingest_claims [OF assms]]])

end

end
