(* ===== verification/Events.thy ===== *)
theory Events
  imports Kv Dedup
begin

text \<open>
  Telemetry (hub/store/events.go and the identity index of hub/store/players.go): ingesting the
  batches of accepted envelopes, the feed and its filters, and the retention pass.  \<open>nv_id\<close>
  is the identifier the hub draws for a stored event.
\<close>

subsection \<open>Ingest\<close>

record new_event =
  nv_id :: string
  nv_type :: string
  nv_occurred :: "time option"
  nv_data :: string
  nv_retention :: int
  nv_identities :: "identity list"

record new_event_batch =
  nb_envelope :: string
  nb_events :: "new_event list"

definition identity_clash :: "string \<Rightarrow> identity \<Rightarrow> event_identity_row \<Rightarrow> bool" where
  "identity_clash eid i r =
     (ei_event r = eid \<and> idn_platform (ei_identity r) = idn_platform i
      \<and> idn_player (ei_identity r) = idn_player i)"

fun insert_event_identities ::
  "event_identity_row list \<Rightarrow> string \<Rightarrow> string \<Rightarrow> string \<Rightarrow> stamp \<Rightarrow> identity list \<Rightarrow> event_identity_row list" where
  "insert_event_identities t eid server ty occurred [] = t"
| "insert_event_identities t eid server ty occurred (i # is) =
     insert_event_identities
       (if exists_row (identity_clash eid i) t then t
        else t @ [\<lparr>ei_event = eid, ei_identity = i, ei_server = server, ei_type = ty, ei_occurred = occurred\<rparr>])
       eid server ty occurred is"

definition event_row_of :: "string \<Rightarrow> time \<Rightarrow> new_event \<Rightarrow> event_row" where
  "event_row_of server now e =
     \<lparr>ev_id = nv_id e, ev_server = server, ev_type = nv_type e,
      ev_occurred = format_time (case nv_occurred e of None \<Rightarrow> now | Some t \<Rightarrow> t),
      ev_received = format_time now, ev_expires = format_time (now + nv_retention e),
      ev_data = (if nv_data e = '''' then ''{}'' else nv_data e), ev_notified = False\<rparr>"

fun insert_events :: "db \<Rightarrow> string \<Rightarrow> new_event list \<Rightarrow> time \<Rightarrow> store_error + db" where
  "insert_events d server [] now = Inr d"
| "insert_events d server (e # es) now =
     (let r = event_row_of server now e in
      if exists_row (\<lambda>x. ev_id x = ev_id r) (events d) then Inl (ErrConstraint ''events'')
      else insert_events
             (d\<lparr>events := events d @ [r],
                event_identities := insert_event_identities (event_identities d) (ev_id r) server
                  (ev_type r) (ev_occurred r) (nv_identities e)\<rparr>) server es now)"

definition batch_horizon :: "new_event list \<Rightarrow> int" where
  "batch_horizon es = foldl (\<lambda>h e. max h (nv_retention e)) 0 es"

definition batch_claimed :: "db \<Rightarrow> string \<Rightarrow> string \<Rightarrow> bool" where
  "batch_claimed d server envelope =
     exists_row (\<lambda>b. eb_server b = server \<and> eb_envelope b = envelope) (event_batches d)"

fun insert_event_batches ::
  "db \<Rightarrow> string \<Rightarrow> new_event_batch list \<Rightarrow> time \<Rightarrow> store_error + (int \<times> db)" where
  "insert_event_batches d server [] now = Inr (0, d)"
| "insert_event_batches d server (b # bs) now =
     (if nb_events b = [] then insert_event_batches d server bs now
      else if batch_claimed d server (nb_envelope b) then insert_event_batches d server bs now
      else case insert_events (d\<lparr>event_batches := event_batches d @
                  [\<lparr>eb_server = server, eb_envelope = nb_envelope b,
                    eb_expires = format_time (now + batch_horizon (nb_events b))\<rparr>]\<rparr>) server (nb_events b) now of
             Inl err \<Rightarrow> Inl err
           | Inr d' \<Rightarrow>
               (case insert_event_batches d' server bs now of
                  Inl err \<Rightarrow> Inl err
                | Inr (n, d'') \<Rightarrow> Inr (int (length (nb_events b)) + n, d'')))"

definition ingested_event_batches :: "db \<Rightarrow> string \<Rightarrow> string list \<Rightarrow> string set" where
  "ingested_event_batches d server ids = {i \<in> set ids. batch_claimed d server i}"

subsection \<open>The feed\<close>

record event_type_filter =
  tf_exact :: string
  tf_prefix :: string

record event_query =
  eq_server :: string
  eq_types :: "event_type_filter list"
  eq_since :: "time option"
  eq_until :: "time option"
  eq_limit :: int
  eq_after :: "time \<times> string"

definition ceil_millisecond :: "time \<Rightarrow> time" where
  "ceil_millisecond t =
     (if truncate_milli t = t then t else truncate_milli t + nanos_per_milli)"

definition prefix_upper_bound :: "string \<Rightarrow> string" where
  "prefix_upper_bound p =
     (if p \<noteq> '''' \<and> last p = CHR ''.'' then butlast p @ ''/''
      else p @ [CHR 0xEF, CHR 0xBF, CHR 0xBF])"

definition type_term :: "event_type_filter \<Rightarrow> string \<Rightarrow> bool" where
  "type_term f ty =
     (if tf_prefix f = '''' then ty = tf_exact f
      else ty \<ge> tf_prefix f \<and> ty < prefix_upper_bound (tf_prefix f))"

definition type_condition :: "event_type_filter list \<Rightarrow> string \<Rightarrow> bool" where
  "type_condition fs ty = list_ex (\<lambda>f. type_term f ty) fs"

definition event_key :: "event_row \<Rightarrow> stamp \<times> string" where
  "event_key e = (ev_occurred e, ev_id e)"

definition event_selected :: "event_query \<Rightarrow> event_row \<Rightarrow> bool" where
  "event_selected q e =
     (ev_server e = eq_server q
      \<and> (eq_types q \<noteq> [] \<longrightarrow> type_condition (eq_types q) (ev_type e))
      \<and> (case eq_since q of None \<Rightarrow> True | Some t \<Rightarrow> ev_occurred e \<ge> format_time (ceil_millisecond t))
      \<and> (case eq_until q of None \<Rightarrow> True | Some t \<Rightarrow> ev_occurred e < format_time (ceil_millisecond t)))"

text \<open>A cursor without an id names no position.\<close>

definition event_after :: "time \<times> string \<Rightarrow> event_row \<Rightarrow> bool" where
  "event_after c e =
     (snd c \<noteq> '''' \<longrightarrow> ev_occurred e < format_time (fst c) \<or> ev_occurred e = format_time (fst c) \<and> ev_id e < snd c)"

definition query_events :: "db \<Rightarrow> event_query \<Rightarrow> event_row list" where
  "query_events d q =
     sql_limit (eq_limit q)
       (rev (sort_key event_key (filter (\<lambda>e. event_selected q e \<and> event_after (eq_after q) e) (events d))))"

subsection \<open>Retention\<close>

definition delete_ids :: "('r \<Rightarrow> 'k) \<Rightarrow> 'r list \<Rightarrow> 'r list \<Rightarrow> 'r list" where
  "delete_ids k rows t = delete_where (\<lambda>r. k r \<in> k ` set rows) t"

definition event_expired :: "time \<Rightarrow> event_row \<Rightarrow> bool" where
  "event_expired now e = (ev_expires e \<le> format_time now)"

definition batch_id :: "batch_row \<Rightarrow> string \<times> string" where
  "batch_id b = (eb_server b, eb_envelope b)"

definition batch_sweepable :: "event_row list \<Rightarrow> time \<Rightarrow> batch_row \<Rightarrow> bool" where
  "batch_sweepable t now b =
     (eb_expires b \<le> format_time now
      \<and> \<not> exists_row (\<lambda>e. ev_server e = eb_server b \<and> event_expired now e) t)"

text \<open>The index rows of a deleted event go with it (ON DELETE CASCADE).\<close>

definition prune_events ::
  "(int \<Rightarrow> event_row list \<Rightarrow> event_row list) \<Rightarrow> (int \<Rightarrow> batch_row list \<Rightarrow> batch_row list)
    \<Rightarrow> db \<Rightarrow> int \<Rightarrow> time \<Rightarrow> int \<times> db" where
  "prune_events pick pick_batches d limit now =
     (let n = (if limit \<le> 0 then default_prune_batch else limit);
          gone = pick n (filter (event_expired now) (events d));
          kept = delete_ids ev_id gone (events d);
          swept = pick_batches n (filter (batch_sweepable kept now) (event_batches d))
      in (int (length (events d)) - int (length kept),
          d\<lparr>events := kept,
            event_identities := delete_where (\<lambda>r. ei_event r \<in> ev_id ` set gone) (event_identities d),
            event_batches := delete_ids batch_id swept (event_batches d)\<rparr>))"

subsection \<open>Deduplication\<close>

lemma insert_events_batches:
  "insert_events d server es now = Inr d' \<Longrightarrow> event_batches d' = event_batches d"
  by (induction es arbitrary: d) (auto simp: Let_def split: if_splits)

lemma insert_events_append:
  "insert_events d server es now = Inr d' \<Longrightarrow>
   events d' = events d @ map (event_row_of server now) es
   \<and> (distinct (map ev_id (events d)) \<longrightarrow> distinct (map ev_id (events d')))"
proof (induction es arbitrary: d)
  case (Cons e es)
  let ?r = "event_row_of server now e"
  from Cons.prems have new: "ev_id ?r \<notin> ev_id ` set (events d)"
    by (auto simp: Let_def exists_row_def split: if_splits)
  from Cons.prems have "insert_events (d\<lparr>events := events d @ [?r],
      event_identities := insert_event_identities (event_identities d) (ev_id ?r) server
        (ev_type ?r) (ev_occurred ?r) (nv_identities e)\<rparr>) server es now = Inr d'"
    by (simp add: Let_def split: if_splits)
  note IH = Cons.IH [OF this]
  show ?case
  proof (intro conjI impI)
    show "events d' = events d @ map (event_row_of server now) (e # es)" using IH by simp
    assume "distinct (map ev_id (events d))"
    with new have "distinct (map ev_id (events d @ [?r]))" by simp
    with conjunct2 [OF IH] show "distinct (map ev_id (events d'))" by simp
  qed
qed simp

definition ingest_one :: "db \<Rightarrow> string \<times> string \<Rightarrow> new_event list \<times> time \<Rightarrow> store_error + (int \<times> db)" where
  "ingest_one d k x = insert_event_batches d (fst k) [\<lparr>nb_envelope = snd k, nb_events = fst x\<rparr>] (snd x)"

definition batch_claimed' :: "db \<Rightarrow> string \<times> string \<Rightarrow> bool" where
  "batch_claimed' d k = batch_claimed d (fst k) (snd k)"

lemma ingest_one_cases:
  "ingest_one d k x =
     (if fst x = [] \<or> batch_claimed' d k then Inr (0, d)
      else case insert_events (d\<lparr>event_batches := event_batches d @
                  [\<lparr>eb_server = fst k, eb_envelope = snd k,
                    eb_expires = format_time (snd x + batch_horizon (fst x))\<rparr>]\<rparr>) (fst k) (fst x) (snd x) of
             Inl err \<Rightarrow> Inl err
           | Inr d' \<Rightarrow> Inr (int (length (fst x)), d'))"
  by (auto simp: ingest_one_def batch_claimed'_def split: sum.split)

interpretation batches: dedup_log batch_claimed' ingest_one
proof
  fix d d' :: db and k j :: "string \<times> string" and x :: "new_event list \<times> time" and n
  show "batch_claimed' d k \<Longrightarrow> ingest_one d k x = Inr (0, d)" by (simp add: ingest_one_cases)
  assume in': "ingest_one d k x = Inr (n, d')"
  have b: "d' = d \<and> n = 0 \<or> (\<exists>r. event_batches d' = event_batches d @ [r] \<and> eb_server r = fst k \<and> eb_envelope r = snd k)"
    using in' insert_events_batches by (fastforce simp: ingest_one_cases split: if_splits sum.splits)
  then show "batch_claimed' d j \<Longrightarrow> batch_claimed' d' j"
    by (auto simp: batch_claimed'_def batch_claimed_def exists_row_def)
  from b show "0 < n \<Longrightarrow> batch_claimed' d' k"
    by (auto simp: batch_claimed'_def batch_claimed_def exists_row_def)
qed

text \<open>
  Telemetry is stored once: after a batch has been stored, delivering its envelope again, after any number
  of other batches in between and whatever events it carries then, stores nothing and changes nothing.
\<close>

lemma batch_stored_once:
  assumes "insert_event_batches d server [\<lparr>nb_envelope = envelope, nb_events = es\<rparr>] now = Inr (n, d')" and "0 < n"
    and "d'' = run_steps (\<lambda>s (k, x). case ingest_one s k x of Inl _ \<Rightarrow> s | Inr (n, s') \<Rightarrow> s') d' others"
  shows "insert_event_batches d'' server [\<lparr>nb_envelope = envelope, nb_events = es'\<rparr>] later = Inr (0, d'')"
  using batches.replay_noop [of d "(server, envelope)" "(es, now)" n d' others "(es', later)"] assms
  by (simp add: ingest_one_def)

definition sample_event :: new_event where
  "sample_event = \<lparr>nv_id = ''v1'', nv_type = ''core.player.death'', nv_occurred = None, nv_data = '''',
     nv_retention = 1000000000, nv_identities = []\<rparr>"

lemma batch_stored_once_witness:
  "\<exists>d'. insert_event_batches empty_db ''s1'' [\<lparr>nb_envelope = ''m1'', nb_events = [sample_event]\<rparr>] 0 = Inr (1, d')
     \<and> insert_event_batches d' ''s1'' [\<lparr>nb_envelope = ''m1'', nb_events = [sample_event]\<rparr>] 7 = Inr (0, d')"
proof -
  obtain d' where d': "insert_event_batches empty_db ''s1'' [\<lparr>nb_envelope = ''m1'', nb_events = [sample_event]\<rparr>] 0 = Inr (1, d')"
    by (simp add: batch_claimed_def exists_row_def sample_event_def event_row_of_def Let_def)
  have "insert_event_batches d' ''s1'' [\<lparr>nb_envelope = ''m1'', nb_events = [sample_event]\<rparr>] 7 = Inr (0, d')"
    by (rule batch_stored_once [OF d', of d' "[]"]) (simp_all only: run_steps.simps zero_less_one)
  with d' show ?thesis by blast
qed

text \<open>
  The marker of a batch and the events it guards.  \<open>E\<close> is the set of identifiers the batch's events
  were stored under and \<open>X\<close> its horizon.
\<close>

definition marker_ok :: "string \<Rightarrow> string \<Rightarrow> string set \<Rightarrow> stamp \<Rightarrow> db \<Rightarrow> bool" where
  "marker_ok server envelope E X d =
     (distinct (map batch_id (event_batches d))
      \<and> (\<forall>e \<in> set (events d). ev_id e \<in> E \<longrightarrow> ev_server e = server \<and> ev_expires e \<le> X)
      \<and> ((\<exists>e \<in> set (events d). ev_id e \<in> E) \<longrightarrow>
            (\<exists>b \<in> set (event_batches d). batch_id b = (server, envelope) \<and> eb_expires b = X)))"

datatype feed_event = Ingest string "new_event_batch list" time | PruneFeed int time

fun feed_step :: "(int \<Rightarrow> event_row list \<Rightarrow> event_row list) \<Rightarrow> (int \<Rightarrow> batch_row list \<Rightarrow> batch_row list)
    \<Rightarrow> db \<Rightarrow> feed_event \<Rightarrow> db" where
  "feed_step pick pick_batches d (Ingest server bs now) =
     (case insert_event_batches d server bs now of Inl _ \<Rightarrow> d | Inr (n, d') \<Rightarrow> d')"
| "feed_step pick pick_batches d (PruneFeed limit now) = snd (prune_events pick pick_batches d limit now)"

text \<open>Identifiers are never drawn twice.\<close>

fun draws :: "feed_event \<Rightarrow> string set" where
  "draws (Ingest server bs now) = nv_id ` (\<Union>b \<in> set bs. set (nb_events b))"
| "draws (PruneFeed limit now) = {}"

lemma event_row_of_simps [simp]:
  "ev_id (event_row_of server now e) = nv_id e" "ev_server (event_row_of server now e) = server"
  "ev_expires (event_row_of server now e) = format_time (now + nv_retention e)"
  by (simp_all add: event_row_of_def)

lemma insert_event_batches_marker:
  assumes "insert_event_batches d s bs now = Inr (n, d')" and "marker_ok server envelope E X d"
    and "nv_id ` (\<Union>b \<in> set bs. set (nb_events b)) \<inter> E = {}"
  shows "marker_ok server envelope E X d'"
  using assms
proof (induction bs arbitrary: d n)
  case (Cons b bs)
  have fresh: "nv_id ` (\<Union>b \<in> set bs. set (nb_events b)) \<inter> E = {}" "nv_id ` set (nb_events b) \<inter> E = {}"
    using Cons.prems(3) by auto
  show ?case
  proof (cases "nb_events b = [] \<or> batch_claimed d s (nb_envelope b)")
    case True
    with Cons.prems(1) have "insert_event_batches d s bs now = Inr (n, d')"
      by (cases "nb_events b = []") simp_all
    from Cons.IH [OF this Cons.prems(2) fresh(1)] show ?thesis .
  next
    case False
    let ?r = "\<lparr>eb_server = s, eb_envelope = nb_envelope b, eb_expires = format_time (now + batch_horizon (nb_events b))\<rparr>"
    let ?d = "d\<lparr>event_batches := event_batches d @ [?r]\<rparr>"
    from False Cons.prems(1) obtain d1 m where d1: "insert_events ?d s (nb_events b) now = Inr d1"
      and run: "insert_event_batches d1 s bs now = Inr (m, d')"
      by (auto split: sum.splits)
    have ev: "events d1 = events d @ map (event_row_of s now) (nb_events b)" "event_batches d1 = event_batches d @ [?r]"
      using insert_events_append [OF d1] insert_events_batches [OF d1] by simp_all
    have "batch_id ?r \<notin> batch_id ` set (event_batches d)"
      using False by (auto simp: batch_claimed_def exists_row_def batch_id_def)
    then have dist: "distinct (map batch_id (event_batches d1))"
      using Cons.prems(2) by (simp add: marker_ok_def ev(2))
    have old: "e \<in> set (events d)" if "e \<in> set (events d1)" "ev_id e \<in> E" for e
      using that fresh(2) by (auto simp: ev)
    have "marker_ok server envelope E X d1"
      unfolding marker_ok_def
    proof (intro conjI ballI impI dist)
      fix e assume e: "e \<in> set (events d1)" "ev_id e \<in> E"
      with old [OF e] Cons.prems(2) show "ev_server e = server" "ev_expires e \<le> X"
        unfolding marker_ok_def by blast+
    next
      assume "\<exists>e \<in> set (events d1). ev_id e \<in> E"
      with old have "\<exists>e \<in> set (events d). ev_id e \<in> E" by blast
      with Cons.prems(2) have "\<exists>b \<in> set (event_batches d). batch_id b = (server, envelope) \<and> eb_expires b = X"
        unfolding marker_ok_def by blast
      then show "\<exists>b \<in> set (event_batches d1). batch_id b = (server, envelope) \<and> eb_expires b = X"
        unfolding ev(2) set_append by blast
    qed
    from Cons.IH [OF run this fresh(1)] show ?thesis .
  qed
qed simp

lemma in_delete_ids [simp]: "r \<in> set (delete_ids k rows t) \<longleftrightarrow> r \<in> set t \<and> k r \<notin> k ` set rows"
  by (simp add: delete_ids_def)

lemma prune_events_marker:
  assumes "\<And>n t. set (pick_batches n t) \<subseteq> set t" and ok: "marker_ok server envelope E X d"
  shows "marker_ok server envelope E X (snd (prune_events pick pick_batches d limit now))"
proof -
  let ?n = "if limit \<le> 0 then default_prune_batch else limit"
  let ?kept = "delete_ids ev_id (pick ?n (filter (event_expired now) (events d))) (events d)"
  let ?swept = "pick_batches ?n (filter (batch_sweepable ?kept now) (event_batches d))"
  let ?d = "snd (prune_events pick pick_batches d limit now)"
  have d: "events ?d = ?kept" "event_batches ?d = delete_ids batch_id ?swept (event_batches d)"
    by (simp_all add: prune_events_def Let_def)
  have dist: "distinct (map batch_id (event_batches d))" using ok by (simp add: marker_ok_def)
  have "\<exists>b \<in> set (event_batches ?d). batch_id b = (server, envelope) \<and> eb_expires b = X"
    if e: "e \<in> set ?kept" "ev_id e \<in> E" for e
  proof -
    from e ok obtain b where b: "b \<in> set (event_batches d)" "batch_id b = (server, envelope)" "eb_expires b = X"
      and ex: "ev_server e = server" "ev_expires e \<le> X" unfolding marker_ok_def by auto
    have "b' \<notin> set ?swept" if "batch_id b' = batch_id b" for b'
    proof
      assume "b' \<in> set ?swept"
      then have b': "b' \<in> set (event_batches d)" "batch_sweepable ?kept now b'" using assms(1) by fastforce+
      with key_unique [OF dist b'(1) b(1) that] have "batch_sweepable ?kept now b" by simp
      then have x: "eb_expires b \<le> format_time now" and "\<not> (ev_server e = eb_server b \<and> event_expired now e)"
        using e(1) unfolding batch_sweepable_def exists_row_def by blast+
      moreover have "ev_server e = eb_server b" using ex(1) b(2) by (simp add: batch_id_def)
      moreover have "event_expired now e" using ex(2) x b(3) unfolding event_expired_def by linarith
      ultimately show False by blast
    qed
    then have "b \<in> set (event_batches ?d)" using b(1) by (auto simp: d)
    with b show ?thesis by blast
  qed
  moreover have "distinct (map batch_id (event_batches ?d))"
    using dist by (auto simp: d delete_ids_def)
  moreover have "ev_server e = server \<and> ev_expires e \<le> X" if "e \<in> set ?kept" "ev_id e \<in> E" for e
    using ok that unfolding marker_ok_def by simp
  ultimately show ?thesis unfolding marker_ok_def d(1) by blast
qed

lemma batch_horizon_ge: "x \<in> set es \<Longrightarrow> nv_retention x \<le> batch_horizon es"
proof -
  have "h \<le> foldl (\<lambda>h e. max h (nv_retention e)) h xs
      \<and> (\<forall>x \<in> set xs. nv_retention x \<le> foldl (\<lambda>h e. max h (nv_retention e)) h xs)" for h xs
  proof (induction xs arbitrary: h)
    case (Cons y xs)
    from Cons.IH [of "max h (nv_retention y)"] show ?case by auto
  qed simp
  then show "x \<in> set es \<Longrightarrow> nv_retention x \<le> batch_horizon es" unfolding batch_horizon_def by blast
qed

lemma marker_ok_run:
  assumes "\<And>n t. set (pick_batches n t) \<subseteq> set t" and "marker_ok server envelope E X d"
    and "\<forall>step \<in> set steps. draws step \<inter> E = {}"
  shows "marker_ok server envelope E X (run_steps (feed_step pick pick_batches) d steps)"
  using assms(2,3)
proof (induction steps arbitrary: d)
  case (Cons s steps)
  have "marker_ok server envelope E X (feed_step pick pick_batches d s)"
  proof (cases s)
    case (Ingest t bs time)
    with Cons.prems insert_event_batches_marker show ?thesis by (auto split: sum.split)
  next
    case (PruneFeed limit time)
    with Cons.prems(1) prune_events_marker [OF assms(1)] show ?thesis by simp
  qed
  with Cons.IH Cons.prems(2) show ?case by simp
qed simp

text \<open>
  A dedup marker outlives the events it guards: as long as any event of a stored batch is still in the feed,
  through whatever ingests and retention passes at whatever times, a replay of its envelope stores nothing.
\<close>

lemma marker_outlives_events:
  assumes "\<And>n t. set (pick_batches n t) \<subseteq> set t"
    and "distinct (map batch_id (event_batches d))" and "ev_id ` set (events d) \<inter> nv_id ` set es = {}"
    and "insert_event_batches d server [\<lparr>nb_envelope = envelope, nb_events = es\<rparr>] now = Inr (n, d')" and "0 < n"
    and "\<forall>step \<in> set steps. draws step \<inter> nv_id ` set es = {}"
    and "d'' = run_steps (feed_step pick pick_batches) d' steps"
    and "e \<in> set (events d'')" and "ev_id e \<in> nv_id ` set es"
  shows "insert_event_batches d'' server [\<lparr>nb_envelope = envelope, nb_events = es'\<rparr>] later = Inr (0, d'')"
proof -
  let ?E = "nv_id ` set es" and ?X = "format_time (now + batch_horizon es)"
  let ?r = "\<lparr>eb_server = server, eb_envelope = envelope, eb_expires = ?X\<rparr>"
  have free: "es \<noteq> []" "\<not> batch_claimed d server envelope"
    and ins: "insert_events (d\<lparr>event_batches := event_batches d @ [?r]\<rparr>) server es now = Inr d'"
    using assms(4,5) by (auto split: if_splits sum.splits)
  have ev: "events d' = events d @ map (event_row_of server now) es" "event_batches d' = event_batches d @ [?r]"
    using insert_events_append [OF ins] insert_events_batches [OF ins] by simp_all
  have "marker_ok server envelope ?E ?X d'"
  proof -
    have "batch_id ?r \<notin> batch_id ` set (event_batches d)"
      using free(2) by (auto simp: batch_claimed_def exists_row_def batch_id_def)
    then have "distinct (map batch_id (event_batches d'))" using assms(2) by (simp add: ev)
    moreover have "ev_server x = server \<and> ev_expires x \<le> ?X" if "x \<in> set (events d')" "ev_id x \<in> ?E" for x
    proof -
      have "x \<notin> set (events d)" using assms(3) that(2) by blast
      with that(1) obtain y where "y \<in> set es" "x = event_row_of server now y" by (auto simp: ev)
      with batch_horizon_ge show ?thesis by (simp add: format_time_mono)
    qed
    moreover have "\<exists>b \<in> set (event_batches d'). batch_id b = (server, envelope) \<and> eb_expires b = ?X"
      by (simp add: ev batch_id_def)
    ultimately show ?thesis unfolding marker_ok_def by blast
  qed
  then have "marker_ok server envelope ?E ?X d''"
    unfolding assms(7) by (rule marker_ok_run [OF assms(1) _ assms(6)])
  then have "\<exists>b \<in> set (event_batches d''). batch_id b = (server, envelope)"
    using assms(8,9) unfolding marker_ok_def by blast
  then have "batch_claimed d'' server envelope" by (auto simp: batch_claimed_def exists_row_def batch_id_def)
  then show ?thesis by simp
qed

lemma marker_outlives_events_witness:
  "\<exists>d' d''. insert_event_batches empty_db ''s1'' [\<lparr>nb_envelope = ''m1'', nb_events = [sample_event]\<rparr>] 0 = Inr (1, d')
     \<and> d'' = run_steps (feed_step sql_limit sql_limit) d' [PruneFeed 10 5]
     \<and> insert_event_batches d'' ''s1'' [\<lparr>nb_envelope = ''m1'', nb_events = []\<rparr>] 7 = Inr (0, d'')
     \<and> events d'' = [event_row_of ''s1'' 0 sample_event]"
proof -
  obtain d' where d': "insert_event_batches empty_db ''s1'' [\<lparr>nb_envelope = ''m1'', nb_events = [sample_event]\<rparr>] 0 = Inr (1, d')"
    and ev: "events d' = [event_row_of ''s1'' 0 sample_event]"
    by (simp add: batch_claimed_def exists_row_def sample_event_def Let_def)
  let ?d = "run_steps (feed_step sql_limit sql_limit) d' [PruneFeed 10 5]"
  have ev': "events ?d = [event_row_of ''s1'' 0 sample_event]"
    by (simp add: prune_events_def Let_def ev event_expired_def sample_event_def format_time_def nanos_per_milli_def
        delete_ids_def sql_limit_def)
  have pre: "distinct (map batch_id (event_batches empty_db))"
    "ev_id ` set (events empty_db) \<inter> nv_id ` set [sample_event] = {}"
    "\<forall>step \<in> set [PruneFeed 10 5]. draws step \<inter> nv_id ` set [sample_event] = {}"
    "event_row_of ''s1'' 0 sample_event \<in> set (events ?d)" "ev_id (event_row_of ''s1'' 0 sample_event) \<in> nv_id ` set [sample_event]"
    unfolding ev' by simp_all
  from marker_outlives_events [OF set_sql_limit pre(1,2) d' zero_less_one pre(3) refl pre(4,5)] d' ev'
  show ?thesis by blast
qed

subsection \<open>What the feed selects, and its pages\<close>

lemma ceil_millisecond_le: "format_time (ceil_millisecond t) \<le> s \<longleftrightarrow> t \<le> parse_time s"
proof -
  define a where "a = t div 1000000"
  have t: "t = a * 1000000 + t mod 1000000" "0 \<le> t mod 1000000" "t mod 1000000 < 1000000"
    by (simp_all add: a_def)
  have tr: "truncate_milli t = a * 1000000" by (simp add: truncate_milli_def parse_time_def format_time_def nanos_per_milli_def a_def)
  have "(a * 1000000 + 1000000) div 1000000 = a + 1" by simp
  then have "format_time (ceil_millisecond t) = (if a * 1000000 = t then a else a + 1)"
    by (simp add: ceil_millisecond_def tr) (simp add: format_time_def nanos_per_milli_def a_def)
  then show ?thesis using t by (auto simp: parse_time_def nanos_per_milli_def)
qed

lemma last_dot_bound: "p \<noteq> '''' \<Longrightarrow> last p = CHR ''.'' \<Longrightarrow> prefix_upper_bound p = prefix_successor p"
proof -
  assume "p \<noteq> ''''" "last p = CHR ''.''"
  moreover have "char_of ((of_char CHR ''.'' + 1 :: nat) mod 256) = CHR ''/''" by code_simp
  ultimately show ?thesis by (simp only: prefix_upper_bound_def prefix_successor_def) simp
qed

text \<open>
  The feed's filters mean what they say: a type term matches its exact type or, for a namespace, exactly the
  types below it; and both bounds of the time window are exact although stored times are whole milliseconds.
\<close>

lemma event_selection_exact:
  assumes "\<forall>f \<in> set (eq_types q). tf_prefix f \<noteq> '''' \<longrightarrow> last (tf_prefix f) = CHR ''.''"
  shows "event_selected q e \<longleftrightarrow>
    ev_server e = eq_server q
    \<and> (eq_types q = [] \<or> (\<exists>f \<in> set (eq_types q).
         if tf_prefix f = '''' then ev_type e = tf_exact f else prefix (tf_prefix f) (ev_type e)))
    \<and> (\<forall>t. eq_since q = Some t \<longrightarrow> t \<le> parse_time (ev_occurred e))
    \<and> (\<forall>t. eq_until q = Some t \<longrightarrow> parse_time (ev_occurred e) < t)"
proof -
  have "type_term f (ev_type e) = (if tf_prefix f = '''' then ev_type e = tf_exact f else prefix (tf_prefix f) (ev_type e))"
    if "f \<in> set (eq_types q)" for f
  proof (cases "tf_prefix f = ''''")
    case False
    with assms that have l: "last (tf_prefix f) = CHR ''.''" by blast
    then have "(of_char (last (tf_prefix f)) :: nat) < 255" by simp
    with prefix_range [OF False this] last_dot_bound [OF False l] False show ?thesis
      by (simp add: type_term_def)
  qed (simp add: type_term_def)
  then have "type_condition (eq_types q) (ev_type e) \<longleftrightarrow> (\<exists>f \<in> set (eq_types q).
      if tf_prefix f = '''' then ev_type e = tf_exact f else prefix (tf_prefix f) (ev_type e))"
    unfolding type_condition_def list_ex_iff by blast
  then show ?thesis
    unfolding event_selected_def
    by (cases "eq_since q"; cases "eq_until q"; cases "eq_types q = []")
      (simp_all add: ceil_millisecond_le not_le [symmetric])
qed

lemma event_selection_exact_witness:
  "event_selected \<lparr>eq_server = ''s1'', eq_types = [\<lparr>tf_exact = '''', tf_prefix = ''core.player.''\<rparr>], eq_since = Some 0,
       eq_until = None, eq_limit = 5, eq_after = (0, '''')\<rparr> (event_row_of ''s1'' 0 sample_event)"
  by (subst event_selection_exact) (simp_all add: event_row_of_def sample_event_def parse_time_def format_time_def)

definition events_ok :: "db \<times> event_query \<Rightarrow> bool" where
  "events_ok s = (distinct (map ev_id (events (fst s))) \<and> (\<forall>e \<in> set (events (fst s)). ev_id e \<noteq> ''''))"

definition feed_rows :: "db \<times> event_query \<Rightarrow> event_row list" where
  "feed_rows s = rev (sort_key event_key (filter (event_selected (snd s)) (events (fst s))))"

definition event_cursor :: "event_row \<Rightarrow> time \<times> string" where
  "event_cursor = row_cursor event_key"

definition event_page :: "db \<times> event_query \<Rightarrow> nat \<Rightarrow> (time \<times> string) option \<Rightarrow> event_row list" where
  "event_page s n c = query_events (fst s)
     ((snd s)\<lparr>eq_limit := int n, eq_after := (case c of None \<Rightarrow> (0, '''') | Some x \<Rightarrow> x)\<rparr>)"

lemma event_selected_page [simp]:
  "event_selected (q\<lparr>eq_limit := n, eq_after := c\<rparr>) = event_selected q"
  by (rule ext) (simp add: event_selected_def)

definition feed_selected :: "db \<times> event_query \<Rightarrow> event_row list" where
  "feed_selected s = filter (event_selected (snd s)) (events (fst s))"

interpretation feed_pages: newest_first_feed events_ok feed_selected event_key
proof
  fix s r
  assume ok: "events_ok s"
  then have "distinct (map ev_id (feed_selected s))" by (simp add: events_ok_def feed_selected_def distinct_map_filter)
  then show "distinct (map event_key (feed_selected s))"
    by (auto simp: distinct_map inj_on_def event_key_def)
  show "r \<in> set (feed_selected s) \<Longrightarrow> snd (event_key r) \<noteq> ''''"
    using ok by (simp add: events_ok_def feed_selected_def event_key_def)
qed

lemma event_page_newest:
  "event_page s n c = newest_page event_key (int n) (case c of None \<Rightarrow> (0, '''') | Some x \<Rightarrow> x) (feed_selected s)"
  by (simp add: event_page_def query_events_def newest_page_def feed_selected_def event_after_def after_cursor_def
      event_key_def conj_commute)

text \<open>
  Reading the feed page by page with the cursor of the last row visits every selected event exactly once,
  newest first, also when many events share a millisecond.
\<close>

lemma feed_walk_complete:
  assumes "distinct (map ev_id (events d))" and "\<forall>e \<in> set (events d). ev_id e \<noteq> ''''" and "0 < n"
    and "length (events d) \<le> k"
  shows "walk (Suc k) (event_page (d, q) n) event_cursor None = feed_rows (d, q)
    \<and> set (feed_rows (d, q)) = {e \<in> set (events d). event_selected q e}
    \<and> distinct (feed_rows (d, q))"
proof (intro conjI)
  have "length (feed_selected (d, q)) \<le> k"
    using assms(4) le_trans [OF length_filter_le] by (simp add: feed_selected_def)
  moreover have "events_ok (d, q)" using assms(1,2) by (simp add: events_ok_def)
  ultimately have "walk (Suc k) (\<lambda>c. event_page (d, q) n c) event_cursor None = rev (sort_key event_key (feed_selected (d, q)))"
    unfolding event_page_newest event_cursor_def using feed_pages.walk_feed [OF _ assms(3)] by blast
  then show "walk (Suc k) (event_page (d, q) n) event_cursor None = feed_rows (d, q)"
    by (simp only: feed_rows_def feed_selected_def)
  show "set (feed_rows (d, q)) = {e \<in> set (events d). event_selected q e}" by (auto simp: feed_rows_def)
  show "distinct (feed_rows (d, q))" using assms(1) by (simp add: feed_rows_def distinct_map)
qed

definition sample_feed :: db where
  "sample_feed = empty_db\<lparr>events := [event_row_of ''s1'' 0 sample_event, event_row_of ''s1'' 0 (sample_event\<lparr>nv_id := ''v2''\<rparr>)]\<rparr>"

definition sample_query :: event_query where
  "sample_query = \<lparr>eq_server = ''s1'', eq_types = [], eq_since = None, eq_until = None, eq_limit = 1, eq_after = (0, '''')\<rparr>"

lemma feed_walk_complete_witness:
  "walk 3 (event_page (sample_feed, sample_query) 1) event_cursor None = feed_rows (sample_feed, sample_query)
   \<and> map ev_id (feed_rows (sample_feed, sample_query)) = [''v2'', ''v1'']"
proof
  have "distinct (map ev_id (events sample_feed))" "\<forall>e \<in> set (events sample_feed). ev_id e \<noteq> ''''"
    "length (events sample_feed) \<le> 2"
    by (simp_all add: sample_feed_def sample_event_def)
  from feed_walk_complete [OF this(1,2) _ this(3), of 1 sample_query]
  show "walk 3 (event_page (sample_feed, sample_query) 1) event_cursor None = feed_rows (sample_feed, sample_query)"
    by (simp only: numeral_3_eq_3 numeral_2_eq_2)
  show "map ev_id (feed_rows (sample_feed, sample_query)) = [''v2'', ''v1'']"
    by (simp add: feed_rows_def sample_feed_def sample_query_def event_selected_def sample_event_def event_row_of_def
        event_key_def)
qed

end
