(* ===== verification/Bans.thy ===== *)
theory Bans
  imports Dispatch Paging
begin

text \<open>
  The installation ban list (hub/store/bans.go): placing, lifting and sweeping bans, each one
  revision of the active list, the notices a change queues, and the two readings of the list: the
  Admin API's pages and the walk of one revision the plugins pull.

  What a statement leaves to the outside is an argument: the clock reading, the identifier and
  clock reading of each notice (\<open>draw\<close>), and the reading of a manifest's JSON body by
  \<open>encoding/json\<close> (\<open>body_caps\<close>).
\<close>

definition ban_changed_type :: string where "ban_changed_type = ''bans.changed''"

definition capability_bans :: string where "capability_bans = ''bans''"

subsection \<open>Records\<close>

record ban =
  ba_id :: string
  ba_platform :: string
  ba_player :: string
  ba_reason :: string
  ba_name :: string
  ba_server :: string
  ba_created :: time
  ba_token_id :: string
  ba_token_name :: string
  ba_expires :: "time option"
  ba_lifted :: "time option"
  ba_lifted_token_id :: string
  ba_lifted_token_name :: string
  ba_listed :: int
  ba_delisted :: "int option"

definition on_list :: "ban \<Rightarrow> bool" where "on_list b = (ba_delisted b = None)"

definition scan_ban :: "ban_row \<Rightarrow> ban" where
  "scan_ban r =
     \<lparr>ba_id = bn_id r, ba_platform = bn_platform r, ba_player = bn_player r, ba_reason = bn_reason r,
      ba_name = bn_name r, ba_server = bn_server r, ba_created = parse_time (bn_created r),
      ba_token_id = bn_token_id r, ba_token_name = bn_token_name r,
      ba_expires = scan_time (bn_expires r), ba_lifted = scan_time (bn_lifted r),
      ba_lifted_token_id = bn_lifted_token_id r, ba_lifted_token_name = bn_lifted_token_name r,
      ba_listed = bn_listed r, ba_delisted = bn_delisted r\<rparr>"

record new_ban =
  wb_id :: string
  wb_platform :: string
  wb_player :: string
  wb_reason :: string
  wb_name :: string
  wb_server :: string
  wb_token_id :: string
  wb_token_name :: string
  wb_duration :: int

text \<open>A sweep answers no ban: \<open>bc_ban\<close> is \<open>None\<close> for the zero value.\<close>

record ban_change =
  bc_ban :: "ban option"
  bc_revision :: int
  bc_changed :: bool
  bc_notified :: "string list"
  bc_dropped :: "string list"

subsection \<open>Revisions\<close>

definition next_ban_revision :: "int \<Rightarrow> time \<Rightarrow> int" where
  "next_ban_revision current now = max (wrap64 (current + 1)) (format_time now)"

definition set_ban_revision :: "db \<Rightarrow> int \<Rightarrow> time \<Rightarrow> store_error + db" where
  "set_ban_revision d revision now =
     (if revision \<in> fst ` set (ban_revisions d) then Inl (ErrConstraint ''ban_revisions'')
      else Inr (d\<lparr>ban_revision := revision,
                  ban_revisions := ban_revisions d @ [(revision, format_time now)]\<rparr>))"

definition ban_expired :: "stamp \<Rightarrow> ban_row \<Rightarrow> bool" where
  "ban_expired now r =
     (bn_delisted r = None \<and> (case bn_expires r of None \<Rightarrow> False | Some t \<Rightarrow> t \<le> now))"

definition delist :: "int \<Rightarrow> ban_row \<Rightarrow> ban_row" where
  "delist revision r = r\<lparr>bn_delisted := Some revision\<rparr>"

definition delist_expired :: "db \<Rightarrow> int \<Rightarrow> time \<Rightarrow> int \<times> db" where
  "delist_expired d revision now =
     (affected (ban_expired (format_time now)) (bans d),
      d\<lparr>bans := update_where (ban_expired (format_time now)) (delist revision) (bans d)\<rparr>)"

subsection \<open>Notices\<close>

definition decode_capabilities :: "(string \<Rightarrow> string list) \<Rightarrow> string list option \<Rightarrow> string \<Rightarrow> string list" where
  "decode_capabilities body_caps column body =
     (case column of Some caps \<Rightarrow> caps | None \<Rightarrow> body_caps body)"

fun has_capability :: "string list \<Rightarrow> string \<Rightarrow> bool" where
  "has_capability [] want = False"
| "has_capability (one # rest) want = (if one = want then True else has_capability rest want)"

definition manifest_capabilities :: "(string \<Rightarrow> string list) \<Rightarrow> db \<Rightarrow> string \<Rightarrow> string list" where
  "manifest_capabilities body_caps d server =
     (case find (\<lambda>m. mf_server m = server) (manifests d) of
        None \<Rightarrow> []
      | Some m \<Rightarrow> decode_capabilities body_caps (mf_capabilities m) (mf_body m))"

text \<open>The servers a change is told to: enrolled, not revoked, with the capability; sorted.\<close>

definition ban_targets :: "(string \<Rightarrow> string list) \<Rightarrow> db \<Rightarrow> string list" where
  "ban_targets body_caps d =
     sort (concat (map (\<lambda>s. map (\<lambda>_. sv_id s)
        (filter (\<lambda>m. mf_server m = sv_id s \<and> sv_secret s \<noteq> '''' \<and> sv_revoked s = None
                   \<and> has_capability (decode_capabilities body_caps (mf_capabilities m) (mf_body m)) capability_bans)
           (manifests d))) (servers d)))"

definition revision_body :: "int \<Rightarrow> string" where
  "revision_body revision =
     ''{'' @ [CHR 0x22] @ ''revision'' @ [CHR 0x22] @ '':'' @ show_int revision @ ''}''"

text \<open>A notice queued for a server and not yet sent.\<close>

definition unsent_notice :: "string \<Rightarrow> envelope_row \<Rightarrow> bool" where
  "unsent_notice server e =
     (en_server e = server \<and> en_type e = ban_changed_type \<and> en_session e = None \<and> en_acked e = None)"

definition notice_ban_revision ::
  "db \<Rightarrow> string \<Rightarrow> int \<Rightarrow> int \<Rightarrow> string \<Rightarrow> time \<Rightarrow> store_error + (bool \<times> db)" where
  "notice_ban_revision d server revision limit eid now =
     (if affected (unsent_notice server) (outbound d) > 0
      then Inr (True, d\<lparr>outbound := update_where (unsent_notice server)
                          (\<lambda>e. e\<lparr>en_body := revision_body revision\<rparr>) (outbound d)\<rparr>)
      else case queue_outbound d server ban_changed_type (revision_body revision) limit eid now of
             Inl err \<Rightarrow> if err = ErrOutboundQueueFull then Inr (False, d) else Inl err
           | Inr (e, d') \<Rightarrow> Inr (True, d'))"

fun notice_each ::
  "(string \<Rightarrow> string \<times> time) \<Rightarrow> int \<Rightarrow> int \<Rightarrow> string list \<Rightarrow> db
    \<Rightarrow> store_error + (string list \<times> string list \<times> db)" where
  "notice_each draw revision limit [] d = Inr ([], [], d)"
| "notice_each draw revision limit (server # rest) d =
     (if \<not> lock_server d server then notice_each draw revision limit rest d
      else case notice_ban_revision d server revision limit (fst (draw server)) (snd (draw server)) of
        Inl err \<Rightarrow> Inl err
      | Inr (queued, d') \<Rightarrow>
          (case notice_each draw revision limit rest d' of
             Inl err \<Rightarrow> Inl err
           | Inr (notified, dropped, d'') \<Rightarrow>
               if queued then Inr (server # notified, dropped, d'')
               else Inr (notified, server # dropped, d'')))"

definition queue_ban_notices ::
  "(string \<Rightarrow> string list) \<Rightarrow> (string \<Rightarrow> string \<times> time) \<Rightarrow> db \<Rightarrow> int \<Rightarrow> int
    \<Rightarrow> store_error + (string list \<times> string list \<times> db)" where
  "queue_ban_notices body_caps draw d revision limit =
     notice_each draw revision limit (ban_targets body_caps d) d"

subsection \<open>Changes\<close>

text \<open>The end that every change shares: its revision is recorded and its notices are queued.\<close>

definition commit_revision ::
  "(string \<Rightarrow> string list) \<Rightarrow> (string \<Rightarrow> string \<times> time) \<Rightarrow> db \<Rightarrow> int \<Rightarrow> int \<Rightarrow> time \<Rightarrow> ban option
    \<Rightarrow> store_error + (ban_change \<times> db)" where
  "commit_revision body_caps draw d revision limit now b =
     (case set_ban_revision d revision now of
        Inl err \<Rightarrow> Inl err
      | Inr d1 \<Rightarrow>
          (case queue_ban_notices body_caps draw d1 revision limit of
             Inl err \<Rightarrow> Inl err
           | Inr (notified, dropped, d2) \<Rightarrow>
               Inr (\<lparr>bc_ban = b, bc_revision = revision, bc_changed = True,
                     bc_notified = notified, bc_dropped = dropped\<rparr>, d2)))"

definition active_ban :: "db \<Rightarrow> string \<Rightarrow> string \<Rightarrow> ban_row option" where
  "active_ban d platform player =
     find (\<lambda>r. bn_platform r = platform \<and> bn_player r = player \<and> bn_delisted r = None) (bans d)"

definition ban_row_of :: "new_ban \<Rightarrow> time \<Rightarrow> int \<Rightarrow> ban_row" where
  "ban_row_of q now revision =
     \<lparr>bn_id = wb_id q, bn_platform = wb_platform q, bn_player = wb_player q, bn_reason = wb_reason q,
      bn_name = wb_name q, bn_server = wb_server q, bn_created = format_time now,
      bn_token_id = wb_token_id q, bn_token_name = wb_token_name q,
      bn_expires = (if wb_duration q > 0
                    then Some (format_time (truncate_milli (now + wb_duration q))) else None),
      bn_lifted = None, bn_lifted_token_id = '''', bn_lifted_token_name = '''',
      bn_listed = revision, bn_delisted = None\<rparr>"

definition create_ban ::
  "(string \<Rightarrow> string list) \<Rightarrow> (string \<Rightarrow> string \<times> time) \<Rightarrow> db \<Rightarrow> new_ban \<Rightarrow> int \<Rightarrow> time
    \<Rightarrow> store_error + (ban_change \<times> db)" where
  "create_ban body_caps draw d q limit now =
     (let revision = next_ban_revision (ban_revision d) now;
          d1 = snd (delist_expired d revision now)
      in case active_ban d1 (wb_platform q) (wb_player q) of
           Some r \<Rightarrow> Inl (ErrBanActive (bn_id r))
         | None \<Rightarrow>
             if exists_row (\<lambda>r. bn_id r = wb_id q) (bans d1) then Inl (ErrConstraint ''bans'')
             else commit_revision body_caps draw
                    (d1\<lparr>bans := bans d1 @ [ban_row_of q now revision]\<rparr>) revision limit now
                    (Some \<lparr>ba_id = wb_id q, ba_platform = wb_platform q, ba_player = wb_player q,
                           ba_reason = wb_reason q, ba_name = wb_name q, ba_server = wb_server q,
                           ba_created = truncate_milli now,
                           ba_token_id = wb_token_id q, ba_token_name = wb_token_name q,
                           ba_expires = (if wb_duration q > 0
                             then Some (truncate_milli (now + wb_duration q)) else None),
                           ba_lifted = None, ba_lifted_token_id = '''', ba_lifted_token_name = '''',
                           ba_listed = revision, ba_delisted = None\<rparr>))"

definition lift_row :: "time \<Rightarrow> string \<Rightarrow> string \<Rightarrow> int \<Rightarrow> ban_row \<Rightarrow> ban_row" where
  "lift_row now token_id token_name revision r =
     r\<lparr>bn_lifted := Some (format_time now), bn_lifted_token_id := token_id,
       bn_lifted_token_name := token_name, bn_delisted := Some revision\<rparr>"

definition lift_ban ::
  "(string \<Rightarrow> string list) \<Rightarrow> (string \<Rightarrow> string \<times> time) \<Rightarrow> db \<Rightarrow> string \<Rightarrow> string \<Rightarrow> string \<Rightarrow> int \<Rightarrow> time
    \<Rightarrow> store_error + (ban_change \<times> db)" where
  "lift_ban body_caps draw d bid token_id token_name limit now =
     (let revision = next_ban_revision (ban_revision d) now;
          (swept, d1) = delist_expired d revision now
      in case find (\<lambda>r. bn_id r = bid) (bans d1) of
           None \<Rightarrow> Inl ErrNotFound
         | Some r \<Rightarrow>
             let b = scan_ban r in
             if on_list b then
               commit_revision body_caps draw
                 (d1\<lparr>bans := update_where (\<lambda>x. bn_id x = bid \<and> bn_delisted x = None)
                               (lift_row now token_id token_name revision) (bans d1)\<rparr>)
                 revision limit now
                 (Some (b\<lparr>ba_lifted := Some (truncate_milli now), ba_lifted_token_id := token_id,
                          ba_lifted_token_name := token_name, ba_delisted := Some revision\<rparr>))
             else if swept > 0 then
               (case commit_revision body_caps draw d1 revision limit now (Some b) of
                  Inl err \<Rightarrow> Inl err
                | Inr (c, d2) \<Rightarrow> Inr (c\<lparr>bc_changed := False\<rparr>, d2))
             else Inr (\<lparr>bc_ban = Some b, bc_revision = ban_revision d, bc_changed = False,
                        bc_notified = [], bc_dropped = []\<rparr>, d1))"

text \<open>
  The sweep first counts without the lock, on whatever the tables are then (\<open>seen\<close>), and
  opens its transaction on \<open>d\<close> only when the count found something.
\<close>

definition sweep_expired_bans ::
  "(string \<Rightarrow> string list) \<Rightarrow> (string \<Rightarrow> string \<times> time) \<Rightarrow> db \<Rightarrow> db \<Rightarrow> int \<Rightarrow> time
    \<Rightarrow> store_error + (ban_change \<times> int \<times> db)" where
  "sweep_expired_bans body_caps draw seen d limit now =
     (if affected (ban_expired (format_time now)) (bans seen) = 0
      then Inr (\<lparr>bc_ban = None, bc_revision = 0, bc_changed = False, bc_notified = [], bc_dropped = []\<rparr>, 0, d)
      else
        let revision = next_ban_revision (ban_revision d) now;
            (swept, d1) = delist_expired d revision now
        in if swept > 0 then
             (case commit_revision body_caps draw d1 revision limit now None of
                Inl err \<Rightarrow> Inl err
              | Inr (c, d2) \<Rightarrow> Inr (c, swept, d2))
           else Inr (\<lparr>bc_ban = None, bc_revision = ban_revision d, bc_changed = False,
                      bc_notified = [], bc_dropped = []\<rparr>, swept, d1))"

subsection \<open>Readings\<close>

definition ban_by_id :: "db \<Rightarrow> string \<Rightarrow> store_error + ban" where
  "ban_by_id d bid =
     (case find (\<lambda>r. bn_id r = bid) (bans d) of None \<Rightarrow> Inl ErrNotFound | Some r \<Rightarrow> Inr (scan_ban r))"

record ban_query =
  bq_all :: bool
  bq_now :: time
  bq_platform :: string
  bq_player :: string
  bq_limit :: int
  bq_after_at :: time
  bq_after_id :: string

definition ban_selected :: "ban_query \<Rightarrow> ban_row \<Rightarrow> bool" where
  "ban_selected q r =
     ((\<not> bq_all q \<longrightarrow> bn_delisted r = None \<and>
         (case bn_expires r of None \<Rightarrow> True | Some t \<Rightarrow> t > format_time (bq_now q)))
      \<and> (bq_platform q \<noteq> '''' \<longrightarrow> bn_platform r = bq_platform q \<and> bn_player r = bq_player q))"

definition ban_after_cursor :: "ban_query \<Rightarrow> ban_row \<Rightarrow> bool" where
  "ban_after_cursor q r =
     (bq_after_id q \<noteq> '''' \<longrightarrow>
        bn_created r < format_time (bq_after_at q)
        \<or> bn_created r = format_time (bq_after_at q) \<and> bn_id r < bq_after_id q)"

definition read_bans :: "db \<Rightarrow> ban_query \<Rightarrow> ban list" where
  "read_bans d q =
     map scan_ban (sql_limit (bq_limit q) (rev (sort_key (\<lambda>r. (bn_created r, bn_id r))
        (filter (ban_after_cursor q) (filter (ban_selected q) (bans d))))))"

definition bans_with_revision :: "db \<Rightarrow> ban_query \<Rightarrow> int \<times> ban list" where
  "bans_with_revision d q = (ban_revision d, read_bans d q)"

text \<open>A ban's place in the list's history covers a revision.\<close>

definition on_at :: "int \<Rightarrow> ban_row \<Rightarrow> bool" where
  "on_at revision r =
     (bn_listed r \<le> revision \<and> (case bn_delisted r of None \<Rightarrow> True | Some n \<Rightarrow> n > revision))"

definition ban_key :: "ban_row \<Rightarrow> string \<times> string" where
  "ban_key r = (bn_platform r, bn_player r)"

definition after_position :: "string \<times> string \<Rightarrow> ban_row \<Rightarrow> bool" where
  "after_position p r =
     (fst p \<noteq> '''' \<longrightarrow> bn_platform r > fst p \<or> bn_platform r = fst p \<and> bn_player r > snd p)"

text \<open>
  \<open>BanListAt\<close> reads the current revision, the register and the page in three statements with no
  lock between them: \<open>d1\<close>, \<open>d2\<close> and \<open>d3\<close> are the tables each finds.
\<close>

definition ban_list_at ::
  "db \<Rightarrow> db \<Rightarrow> db \<Rightarrow> int \<Rightarrow> string \<times> string \<Rightarrow> int \<Rightarrow> store_error + (int \<times> ban list)" where
  "ban_list_at d1 d2 d3 revision pos limit =
     (let current = ban_revision d1;
          revision = (if revision < 0 then current else revision)
      in if revision > current then Inl ErrBanRevisionGone
         else if revision \<noteq> current \<and> revision \<noteq> 0 \<and> revision \<notin> fst ` set (ban_revisions d2)
         then Inl ErrBanRevisionGone
         else Inr (revision, map scan_ban (sql_limit limit (sort_key ban_key
                (filter (after_position pos) (filter (on_at revision) (bans d3)))))))"

subsection \<open>The history of the list\<close>

text \<open>
  A ban without what a lift or an expiry later writes into it: what a plugin is served of it.  The
  history of the list at a revision is the entries whose place covers it.
\<close>

definition ban_entry :: "ban \<Rightarrow> ban" where
  "ban_entry b = b\<lparr>ba_lifted := None, ba_lifted_token_id := '''', ba_lifted_token_name := '''',
     ba_delisted := None\<rparr>"

definition list_at :: "ban_row list \<Rightarrow> int \<Rightarrow> ban list" where
  "list_at rows revision = map (\<lambda>r. ban_entry (scan_ban r)) (filter (on_at revision) rows)"

definition entry_key :: "ban \<Rightarrow> string \<times> string" where
  "entry_key b = (ba_platform b, ba_player b)"

lemma entry_key_scan [simp]: "entry_key (ban_entry (scan_ban r)) = ban_key r" "entry_key (scan_ban r) = ban_key r"
  by (simp_all add: entry_key_def ban_entry_def scan_ban_def ban_key_def)

text \<open>Two bans of one identity stand on the list one after the other.\<close>

definition apart :: "ban_row \<Rightarrow> ban_row \<Rightarrow> bool" where
  "apart r s = ((\<exists>n. bn_delisted r = Some n \<and> n \<le> bn_listed s) \<or> (\<exists>n. bn_delisted s = Some n \<and> n \<le> bn_listed r))"

definition span_ok :: "int \<Rightarrow> int \<Rightarrow> ban_row \<Rightarrow> bool" where
  "span_ok cur cap r =
     (bn_listed r \<le> cur \<and> bn_platform r \<noteq> ''''
      \<and> (case bn_delisted r of None \<Rightarrow> True | Some n \<Rightarrow> bn_listed r < n \<and> n \<le> cap))"

definition history_ok :: "int \<Rightarrow> int \<Rightarrow> ban_row list \<Rightarrow> bool" where
  "history_ok cur cap rows =
     (distinct (map bn_id rows) \<and> (\<forall>r \<in> set rows. span_ok cur cap r)
      \<and> (\<forall>r \<in> set rows. \<forall>s \<in> set rows. ban_key r = ban_key s \<longrightarrow> bn_id r \<noteq> bn_id s \<longrightarrow> apart r s))"

definition register_ok :: "db \<Rightarrow> bool" where
  "register_ok d =
     (0 \<le> ban_revision d \<and> (\<forall>n \<in> fst ` set (ban_revisions d). n \<le> ban_revision d)
      \<and> (ban_revision d \<noteq> 0 \<longrightarrow> ban_revision d \<in> fst ` set (ban_revisions d)))"

definition ban_inv :: "db \<Rightarrow> bool" where
  "ban_inv d = (history_ok (ban_revision d) (ban_revision d) (bans d) \<and> register_ok d)"

lemma history_okE:
  assumes "history_ok cur cap rows"
  obtains "distinct (map bn_id rows)" and "\<And>r. r \<in> set rows \<Longrightarrow> span_ok cur cap r"
    and "\<And>r s. r \<in> set rows \<Longrightarrow> s \<in> set rows \<Longrightarrow> ban_key r = ban_key s \<Longrightarrow> bn_id r \<noteq> bn_id s \<Longrightarrow> apart r s"
  using assms by (auto simp: history_ok_def)

text \<open>Taking active bans off the list at a revision above all the others.\<close>

definition leaves :: "int \<Rightarrow> (ban_row \<Rightarrow> bool) \<Rightarrow> (ban_row \<Rightarrow> ban_row) \<Rightarrow> bool" where
  "leaves revision p f =
     ((\<forall>r. p r \<longrightarrow> bn_delisted r = None) \<and> (\<forall>r. bn_delisted (f r) = Some revision)
      \<and> (\<forall>r. ban_entry (scan_ban (f r)) = ban_entry (scan_ban r) \<and> bn_id (f r) = bn_id r
            \<and> bn_listed (f r) = bn_listed r \<and> ban_key (f r) = ban_key r))"

lemma leaves_delist: "leaves revision (ban_expired now) (delist revision)"
  by (simp add: leaves_def ban_expired_def delist_def ban_entry_def scan_ban_def ban_key_def)

lemma leaves_lift:
  "leaves revision (\<lambda>x. bn_id x = bid \<and> bn_delisted x = None) (lift_row now ti tn revision)"
  by (simp add: leaves_def lift_row_def ban_entry_def scan_ban_def ban_key_def)

lemma on_at_leave:
  assumes "leaves revision p f" and "R < revision"
  shows "on_at R (if p r then f r else r) = on_at R r"
  using assms by (auto simp: leaves_def on_at_def)

lemma list_at_leave:
  assumes "leaves revision p f" and "R < revision"
  shows "list_at (update_where p f rows) R = list_at rows R"
proof -
  have same: "ban_entry (scan_ban (if p r then f r else r)) = ban_entry (scan_ban r)" for r
    using assms(1) by (simp add: leaves_def)
  show ?thesis
    by (induction rows) (simp_all add: list_at_def on_at_leave [OF assms] same)
qed

lemma apart_leave:
  assumes "leaves revision p f" and "apart r s"
  shows "apart (if p r then f r else r) (if p s then f s else s)"
  using assms unfolding leaves_def apart_def by (smt (verit) option.distinct(1))

lemma history_leave:
  assumes L: "leaves revision p f" and "history_ok cur revision rows" and "cur < revision"
  shows "history_ok cur revision (update_where p f rows)"
  unfolding history_ok_def
proof (intro conjI ballI impI)
  note inv = assms(2)
  have id: "bn_id (if p r then f r else r) = bn_id r" "ban_key (if p r then f r else r) = ban_key r" for r
    using L by (simp_all add: leaves_def)
  have "map bn_id (update_where p f rows) = map bn_id rows" using L by (simp add: leaves_def map_update_where)
  then show "distinct (map bn_id (update_where p f rows))" using inv by (simp add: history_ok_def)
  show "span_ok cur revision r" if r: "r \<in> set (update_where p f rows)" for r
  proof -
    from r obtain x where x: "x \<in> set rows" "r = (if p x then f x else x)" unfolding set_update_where by blast
    have "span_ok cur revision x" using inv x(1) by (simp add: history_ok_def)
    moreover have "bn_platform (f x) = bn_platform x" using L by (simp add: leaves_def ban_key_def)
    ultimately show ?thesis using L assms(3) x(2) by (auto simp: span_ok_def leaves_def)
  qed
  show "apart r s" if r: "r \<in> set (update_where p f rows)" "s \<in> set (update_where p f rows)"
    and eq: "ban_key r = ban_key s" "bn_id r \<noteq> bn_id s" for r s
  proof -
    from r(1) obtain x where x: "x \<in> set rows" "r = (if p x then f x else x)" unfolding set_update_where by blast
    from r(2) obtain y where y: "y \<in> set rows" "s = (if p y then f y else y)" unfolding set_update_where by blast
    have "apart x y" using inv x y eq id by (auto simp: history_ok_def)
    then show ?thesis unfolding x(2) y(2) by (rule apart_leave [OF L])
  qed
qed

text \<open>A ban joining the list at a revision above all the others.\<close>

lemma history_join:
  assumes inv: "history_ok cur revision rows" and "cur < revision"
    and new: "bn_listed r = revision" "bn_delisted r = None" "bn_platform r \<noteq> ''''" "bn_id r \<notin> bn_id ` set rows"
    and none: "\<And>x. x \<in> set rows \<Longrightarrow> ban_key x = ban_key r \<Longrightarrow> bn_delisted x \<noteq> None"
  shows "history_ok revision revision (rows @ [r])"
proof -
  have old: "span_ok revision revision x" if "x \<in> set rows" for x
    using inv that assms(2) by (force simp: history_ok_def span_ok_def)
  have "apart x r \<and> apart r x" if "x \<in> set rows" "ban_key x = ban_key r" for x
  proof -
    from none [OF that] obtain n where "bn_delisted x = Some n" by blast
    moreover have "span_ok cur revision x" using inv that(1) by (simp add: history_ok_def)
    ultimately show ?thesis using new(1) by (auto simp: apart_def span_ok_def)
  qed
  then show ?thesis
    using inv old new by (auto simp: history_ok_def span_ok_def)
qed

lemma list_at_join: "R < bn_listed r \<Longrightarrow> list_at (rows @ [r]) R = list_at rows R"
  by (simp add: list_at_def on_at_def)

lemma history_widen: "history_ok cur cap rows \<Longrightarrow> cur \<le> cur' \<Longrightarrow> cap \<le> cap' \<Longrightarrow> history_ok cur' cap' rows"
  by (force simp: history_ok_def span_ok_def split: option.splits)

lemma next_ban_revision_above:
  "0 \<le> current \<Longrightarrow> current < 2 ^ 63 - 1 \<Longrightarrow> current < next_ban_revision current now"
  by (simp add: next_ban_revision_def wrap64_id)

subsection \<open>What each change does to the history\<close>

definition same_bans :: "db \<Rightarrow> db \<Rightarrow> bool" where
  "same_bans d d' \<longleftrightarrow> bans d' = bans d \<and> ban_revision d' = ban_revision d \<and> ban_revisions d' = ban_revisions d"

lemma same_bans_refl [simp]: "same_bans d d"
  by (simp add: same_bans_def)

lemma same_bans_trans: "same_bans d e \<Longrightarrow> same_bans e f \<Longrightarrow> same_bans d f"
  by (simp add: same_bans_def)

lemma notice_same_bans:
  "notice_ban_revision d server revision limit eid now = Inr (b, d') \<Longrightarrow> same_bans d d'"
  by (auto simp: notice_ban_revision_def queue_outbound_def insert_outbound_def Let_def same_bans_def
      split: if_splits sum.splits)

lemma notice_each_same_bans:
  "notice_each draw revision limit ts d = Inr (ns, ds, d') \<Longrightarrow> same_bans d d'"
proof (induction ts arbitrary: d ns ds d')
  case (Cons t ts)
  show ?case
  proof (cases "lock_server d t")
    case False
    with Cons show ?thesis by simp
  next
    case True
    with Cons.prems obtain b d1 ns' ds' where
      n: "notice_ban_revision d t revision limit (fst (draw t)) (snd (draw t)) = Inr (b, d1)"
      and r: "notice_each draw revision limit ts d1 = Inr (ns', ds', d')"
      by (auto split: sum.splits if_splits)
    from same_bans_trans [OF notice_same_bans [OF n] Cons.IH [OF r]] show ?thesis .
  qed
qed simp

lemma commit_revisionD:
  assumes "commit_revision body_caps draw d revision limit now b = Inr (c, d')"
  shows "bans d' = bans d \<and> ban_revision d' = revision
    \<and> ban_revisions d' = ban_revisions d @ [(revision, format_time now)]
    \<and> bc_ban c = b \<and> bc_revision c = revision \<and> bc_changed c"
proof -
  from assms obtain d1 ns ds where d1: "set_ban_revision d revision now = Inr d1"
    and q: "notice_each draw revision limit (ban_targets body_caps d1) d1 = Inr (ns, ds, d')"
    and c: "c = \<lparr>bc_ban = b, bc_revision = revision, bc_changed = True, bc_notified = ns, bc_dropped = ds\<rparr>"
    by (auto simp: commit_revision_def queue_ban_notices_def split: sum.splits)
  from notice_each_same_bans [OF q] d1 c show ?thesis
    by (auto simp: same_bans_def set_ban_revision_def split: if_splits)
qed

text \<open>
  The move from one state of the list to the next: the history up to the revision before is what it
  was, the revision grew, and the invariant holds again.
\<close>

definition ban_advance :: "db \<Rightarrow> db \<Rightarrow> bool" where
  "ban_advance d d' =
     (ban_inv d' \<and> ban_revision d \<le> ban_revision d'
      \<and> fst ` set (ban_revisions d) \<subseteq> fst ` set (ban_revisions d')
      \<and> (\<forall>R \<le> ban_revision d. list_at (bans d') R = list_at (bans d) R))"

lemma ban_advance_same: "ban_inv d \<Longrightarrow> same_bans d d' \<Longrightarrow> ban_advance d d'"
  by (simp add: ban_advance_def same_bans_def ban_inv_def register_ok_def)

lemma ban_advance_trans:
  assumes "ban_advance d e" and "ban_advance e f"
  shows "ban_advance d f"
  using assms unfolding ban_advance_def by (smt (verit, best) order_trans subset_trans)

lemma advance_commit:
  assumes inv: "ban_inv d" and above: "ban_revision d < revision"
    and hist: "history_ok revision revision rows"
    and old: "\<And>R. R < revision \<Longrightarrow> list_at rows R = list_at (bans d) R"
    and d': "bans d' = rows" "ban_revision d' = revision" "ban_revisions d' = ban_revisions d @ [(revision, t)]"
  shows "ban_advance d d'"
  unfolding ban_advance_def
proof (intro conjI allI impI)
  from inv above hist show "ban_inv d'"
    by (force simp: ban_inv_def register_ok_def d')
qed (use above old in \<open>auto simp: d'\<close>)

lemma delist_expiredD:
  "delist_expired d revision now = (n, d1) \<Longrightarrow>
    n = affected (ban_expired (format_time now)) (bans d) \<and> ban_revisions d1 = ban_revisions d
    \<and> ban_revision d1 = ban_revision d
    \<and> bans d1 = update_where (ban_expired (format_time now)) (delist revision) (bans d)"
  by (auto simp: delist_expired_def)

lemma delist_history:
  assumes "ban_inv d" and "ban_revision d < revision" and "delist_expired d revision now = (n, d1)"
  shows "history_ok (ban_revision d) revision (bans d1)"
    "R < revision \<Longrightarrow> list_at (bans d1) R = list_at (bans d) R"
proof -
  have "history_ok (ban_revision d) revision (bans d)"
    using assms(1,2) history_widen [of "ban_revision d" "ban_revision d" "bans d"] by (simp add: ban_inv_def)
  from history_leave [OF leaves_delist this assms(2)] delist_expiredD [OF assms(3)]
  show "history_ok (ban_revision d) revision (bans d1)" by simp
  show "R < revision \<Longrightarrow> list_at (bans d1) R = list_at (bans d) R"
    using list_at_leave [OF leaves_delist] delist_expiredD [OF assms(3)] by simp
qed

text \<open>There is room for one more revision below the int64 bound.\<close>

definition ban_room :: "db \<Rightarrow> bool" where
  "ban_room d = (ban_revision d < 2 ^ 63 - 1)"

lemma ban_next:
  assumes "ban_inv d" and "ban_room d"
  shows "ban_revision d < next_ban_revision (ban_revision d) now"
  using assms by (simp add: ban_inv_def register_ok_def ban_room_def next_ban_revision_above)

lemma create_ban_cases:
  assumes "create_ban body_caps draw d q limit now = Inr (c, d')"
  defines "revision \<equiv> next_ban_revision (ban_revision d) now"
  obtains n d1 b where "delist_expired d revision now = (n, d1)"
    and "active_ban d1 (wb_platform q) (wb_player q) = None"
    and "wb_id q \<notin> bn_id ` set (bans d1)"
    and "commit_revision body_caps draw (d1\<lparr>bans := bans d1 @ [ban_row_of q now revision]\<rparr>)
           revision limit now b = Inr (c, d')"
proof -
  obtain n d1 where "delist_expired d revision now = (n, d1)" by fastforce
  with assms that show ?thesis
    by (force simp: create_ban_def Let_def exists_row_def split: option.splits if_splits)
qed

lemma create_ban_advance:
  assumes inv: "ban_inv d" and room: "ban_room d" and named: "wb_platform q \<noteq> ''''"
    and run: "create_ban body_caps draw d q limit now = Inr (c, d')"
  shows "ban_advance d d'"
proof -
  let ?n = "next_ban_revision (ban_revision d) now"
  note above = ban_next [OF inv room, of now]
  from run obtain n d1 b where d1: "delist_expired d ?n now = (n, d1)"
    and none: "active_ban d1 (wb_platform q) (wb_player q) = None"
    and new: "wb_id q \<notin> bn_id ` set (bans d1)"
    and c: "commit_revision body_caps draw (d1\<lparr>bans := bans d1 @ [ban_row_of q now ?n]\<rparr>) ?n limit now b = Inr (c, d')"
    by (rule create_ban_cases)
  note h = delist_history [OF inv above d1]
  have "history_ok ?n ?n (bans d1 @ [ban_row_of q now ?n])"
  proof (rule history_join [OF h(1) above])
    fix x
    assume "x \<in> set (bans d1)" "ban_key x = ban_key (ban_row_of q now ?n)"
    with none show "bn_delisted x \<noteq> None"
      by (auto simp: active_ban_def find_None_iff' ban_key_def ban_row_of_def)
  qed (use new named in \<open>simp_all add: ban_row_of_def\<close>)
  with inv above show ?thesis
    by (rule advance_commit [where t = "format_time now"])
      (use commit_revisionD [OF c] h(2) delist_expiredD [OF d1] in
        \<open>simp_all add: list_at_join ban_row_of_def\<close>)
qed

lemma delist_advance:
  assumes inv: "ban_inv d" and room: "ban_room d"
    and d1: "delist_expired d (next_ban_revision (ban_revision d) now) now = (n, d1)"
    and c: "commit_revision body_caps draw d1 (next_ban_revision (ban_revision d) now) limit now b = Inr (c, d')"
  shows "ban_advance d d'"
proof -
  note above = ban_next [OF inv room, of now]
  note h = delist_history [OF inv above d1]
  from history_widen [OF h(1) less_imp_le [OF above] order.refl] inv above show ?thesis
    by (intro advance_commit [where t = "format_time now"])
      (use commit_revisionD [OF c] h(2) delist_expiredD [OF d1] in simp_all)
qed

lemma delist_nothing:
  assumes "ban_inv d" and "delist_expired d revision now = (0, d1)"
  shows "ban_advance d d1"
proof (rule ban_advance_same [OF assms(1)])
  from delist_expiredD [OF assms(2)] have "\<forall>r \<in> set (bans d). \<not> ban_expired (format_time now) r"
    by (metis affected_zero_iff)
  with delist_expiredD [OF assms(2)] show "same_bans d d1"
    by (simp add: same_bans_def update_where_none)
qed

lemma lift_ban_advance:
  assumes inv: "ban_inv d" and room: "ban_room d"
    and run: "lift_ban body_caps draw d bid ti tn limit now = Inr (c, d')"
  shows "ban_advance d d'"
proof -
  let ?n = "next_ban_revision (ban_revision d) now"
  note above = ban_next [OF inv room, of now]
  obtain n d1 where d1: "delist_expired d ?n now = (n, d1)" by fastforce
  with run obtain r where r: "find (\<lambda>r. bn_id r = bid) (bans d1) = Some r"
    by (auto simp: lift_ban_def Let_def split: option.splits)
  note h = delist_history [OF inv above d1]
  consider (lift) b where "commit_revision body_caps draw
        (d1\<lparr>bans := update_where (\<lambda>x. bn_id x = bid \<and> bn_delisted x = None) (lift_row now ti tn ?n) (bans d1)\<rparr>)
        ?n limit now b = Inr (c, d')"
    | (swept) c' where "commit_revision body_caps draw d1 ?n limit now (Some (scan_ban r)) = Inr (c', d')"
    | (still) "n = 0" "d' = d1"
  proof (cases "on_list (scan_ban r)")
    case True
    with run d1 r show ?thesis by (auto simp: lift_ban_def Let_def intro: lift)
  next
    case False
    show ?thesis
    proof (cases "n > 0")
      case True
      with run d1 r False show ?thesis
        by (auto simp: lift_ban_def Let_def split: sum.splits intro: swept)
    next
      case None: False
      with delist_expiredD [OF d1] have "n = 0" by (metis affected_nonneg order.not_eq_order_implies_strict)
      with run d1 r False show ?thesis by (intro still) (auto simp: lift_ban_def)
    qed
  qed
  then show ?thesis
  proof cases
    case lift
    from history_widen [OF history_leave [OF leaves_lift h(1) above] less_imp_le [OF above] order.refl] inv above
    show ?thesis
      by (intro advance_commit [where t = "format_time now"])
        (use commit_revisionD [OF lift] h(2) delist_expiredD [OF d1] list_at_leave [OF leaves_lift] in simp_all)
  next
    case swept
    with delist_advance [OF inv room d1] show ?thesis by blast
  next
    case still
    with delist_nothing [OF inv] d1 show ?thesis by blast
  qed
qed

lemma sweep_bans_advance:
  assumes inv: "ban_inv d" and room: "ban_room d"
    and run: "sweep_expired_bans body_caps draw seen d limit now = Inr (c, k, d')"
  shows "ban_advance d d'"
proof -
  let ?n = "next_ban_revision (ban_revision d) now"
  obtain n d1 where d1: "delist_expired d ?n now = (n, d1)" by fastforce
  have nonneg: "0 \<le> n" using delist_expiredD [OF d1] by simp
  consider "d' = d" | "n = 0" "d' = d1"
    | c' where "commit_revision body_caps draw d1 ?n limit now None = Inr (c', d')"
  proof (cases "affected (ban_expired (format_time now)) (bans seen) = 0")
    case True
    with run that(1) show ?thesis by (simp add: sweep_expired_bans_def)
  next
    case due: False
    show ?thesis
    proof (cases "n > 0")
      case True
      with run d1 due show ?thesis
        by (intro that(3)) (auto simp: sweep_expired_bans_def split: sum.splits)
    next
      case False
      with nonneg have "n = 0" by simp
      with run d1 due show ?thesis by (intro that(2)) (auto simp: sweep_expired_bans_def)
    qed
  qed
  then show ?thesis
    using ban_advance_same [OF inv] delist_nothing [OF inv] delist_advance [OF inv room] d1
    by cases auto
qed

text \<open>
  The life of the list: any change to it, with any arguments, and anything else the hub does, which
  leaves these tables alone.
\<close>

inductive ban_step :: "db \<Rightarrow> db \<Rightarrow> bool" where
  create: "wb_platform q \<noteq> '''' \<Longrightarrow> create_ban body_caps draw d q limit now = Inr (c, d') \<Longrightarrow> ban_step d d'"
| lift: "lift_ban body_caps draw d bid ti tn limit now = Inr (c, d') \<Longrightarrow> ban_step d d'"
| sweep: "sweep_expired_bans body_caps draw seen d limit now = Inr (c, k, d') \<Longrightarrow> ban_step d d'"
| elsewhere: "same_bans d d' \<Longrightarrow> ban_step d d'"

inductive ban_reach :: "db \<Rightarrow> db \<Rightarrow> bool" where
  here: "ban_reach d d"
| further: "ban_reach d e \<Longrightarrow> ban_room e \<Longrightarrow> ban_step e f \<Longrightarrow> ban_reach d f"

lemma ban_step_advance:
  assumes "ban_step d d'" and "ban_inv d" and "ban_room d"
  shows "ban_advance d d'"
  using assms
  by cases (auto intro: create_ban_advance lift_ban_advance sweep_bans_advance ban_advance_same)

lemma ban_reach_advance: "ban_reach d d' \<Longrightarrow> ban_inv d \<Longrightarrow> ban_advance d d'"
proof (induction rule: ban_reach.induct)
  case (here d)
  then show ?case by (simp add: ban_advance_same)
next
  case (further d e f)
  then have "ban_advance d e" by blast
  moreover from this further.hyps(2,3) have "ban_advance e f"
    by (intro ban_step_advance) (auto simp: ban_advance_def)
  ultimately show ?case by (rule ban_advance_trans)
qed

subsection \<open>The walk of one revision\<close>

lemma on_list_once:
  assumes "history_ok cur cap rows"
  shows "distinct (map ban_key (filter (on_at R) rows))"
proof -
  from assms have d: "distinct (map bn_id rows)" by (simp add: history_ok_def)
  have "ban_key r \<noteq> ban_key s"
    if "r \<in> set (filter (on_at R) rows)" "s \<in> set (filter (on_at R) rows)" "bn_id r \<noteq> bn_id s" for r s
    using that assms by (force simp: history_ok_def apart_def on_at_def)
  moreover have "distinct (map bn_id (filter (on_at R) rows))" using d by (simp add: distinct_map_filter)
  ultimately show ?thesis
    unfolding distinct_map inj_on_def by blast
qed

lemma sort_key_map_gen: "map f (sort_key (\<lambda>x. k (f x)) xs) = sort_key k (map f xs)"
proof -
  have ins: "map f (insort_key (\<lambda>x. k (f x)) a xs) = insort_key k (f a) (map f xs)" for a xs
    by (induction xs) auto
  show ?thesis by (induction xs) (simp_all add: ins)
qed

definition after_key :: "string \<times> string \<Rightarrow> ban \<Rightarrow> bool" where
  "after_key p b = (fst p \<noteq> '''' \<longrightarrow> entry_key b > p)"

lemma after_key_scan: "after_position p r = after_key p (ban_entry (scan_ban r))"
  by (cases p) (auto simp: after_position_def after_key_def ban_key_def)

lemma page_entries:
  "map ban_entry (map scan_ban (sql_limit n (sort_key ban_key
       (filter (after_position p) (filter (on_at R) rows)))))
   = sql_limit n (sort_key entry_key (filter (after_key p) (list_at rows R)))"
proof -
  let ?f = "\<lambda>r. ban_entry (scan_ban r)"
  have "map ?f (sort_key ban_key xs) = sort_key entry_key (map ?f xs)" for xs
    using sort_key_map_gen [of ?f entry_key xs] by simp
  then show ?thesis
    by (simp add: sql_limit_def list_at_def filter_map o_def after_key_scan take_map [symmetric])
qed

text \<open>
  What the plugins are served: the page after a position, read while the three statements find the
  tables in the states \<open>serve\<close> gives for that position.
\<close>

definition ban_page :: "((string \<times> string) option \<Rightarrow> db \<times> db \<times> db) \<Rightarrow> int \<Rightarrow> nat \<Rightarrow> (string \<times> string) option \<Rightarrow> ban list" where
  "ban_page serve R n c =
     (case serve c of (d1, d2, d3) \<Rightarrow>
        case ban_list_at d1 d2 d3 R (case c of None \<Rightarrow> ('''', '''') | Some p \<Rightarrow> p) (int n) of
          Inl err \<Rightarrow> [] | Inr (revision, bs) \<Rightarrow> map ban_entry bs)"

definition list_state_ok :: "db \<times> int \<Rightarrow> bool" where
  "list_state_ok s = (ban_inv (fst s) \<and> snd s \<le> ban_revision (fst s))"

definition listed_entries :: "db \<times> int \<Rightarrow> ban list" where
  "listed_entries s = sort_key entry_key (list_at (bans (fst s)) (snd s))"

definition entry_page :: "db \<times> int \<Rightarrow> nat \<Rightarrow> (string \<times> string) option \<Rightarrow> ban list" where
  "entry_page s n c = take n (sort_key entry_key
     (filter (after_key (case c of None \<Rightarrow> ('''', '''') | Some p \<Rightarrow> p)) (list_at (bans (fst s)) (snd s))))"

lemma entry_keys_distinct:
  assumes "list_state_ok s"
  shows "distinct (map entry_key (list_at (bans (fst s)) (snd s)))"
proof -
  have "map entry_key (list_at (bans (fst s)) (snd s)) = map ban_key (filter (on_at (snd s)) (bans (fst s)))"
    by (simp add: list_at_def o_def)
  with on_list_once assms show ?thesis unfolding list_state_ok_def ban_inv_def by metis
qed

lemma entry_platform:
  assumes "list_state_ok s" and "b \<in> set (list_at (bans (fst s)) (snd s))"
  shows "fst (entry_key b) \<noteq> ''''"
  using assms by (auto simp: list_state_ok_def ban_inv_def history_ok_def span_ok_def list_at_def ban_key_def)

interpretation ban_pages: paged_read list_state_ok listed_entries entry_page entry_key
proof
  fix s :: "db \<times> int" and n i :: nat
  assume ok: "list_state_ok s" and n: "0 < n"
  show "entry_page s n None = take n (listed_entries s)"
    by (simp add: entry_page_def listed_entries_def after_key_def)
  assume i: "i < length (listed_entries s)"
  let ?xs = "list_at (bans (fst s)) (snd s)"
  let ?k = "entry_key (sort_key entry_key ?xs ! i)"
  have i': "i < length ?xs" using i by (simp add: listed_entries_def)
  then have "sort_key entry_key ?xs ! i \<in> set ?xs" by (metis length_sort nth_mem set_sort)
  from entry_platform [OF ok this] have "after_key ?k = (\<lambda>b. ?k < entry_key b)"
    by (simp add: after_key_def fun_eq_iff)
  with ascending_after [OF entry_keys_distinct [OF ok] i']
  show "entry_page s n (Some (entry_key (listed_entries s ! i))) = take n (drop (Suc i) (listed_entries s))"
    by (simp add: entry_page_def listed_entries_def)
qed

lemma notice_each_not_active: "notice_each draw revision limit ts d \<noteq> Inl (ErrBanActive bid)"
proof (induction ts arbitrary: d)
  case (Cons t ts)
  have "notice_ban_revision d t revision limit e now \<noteq> Inl (ErrBanActive bid)" for e now
    by (auto simp: notice_ban_revision_def queue_outbound_def insert_outbound_def Let_def split: if_splits sum.splits)
  with Cons show ?case by (auto split: sum.splits)
qed simp

lemma commit_not_active: "commit_revision body_caps draw d revision limit now b \<noteq> Inl (ErrBanActive bid)"
  using notice_each_not_active
  by (auto simp: commit_revision_def set_ban_revision_def queue_ban_notices_def split: sum.splits if_splits)

lemma ban_page_entry:
  assumes inv: "ban_inv d" and n: "0 < n" and R: "R = ban_revision d"
    and later: "serve c = (d1, d2, d3)" "ban_reach d d1" "ban_reach d d2" "ban_reach d d3"
  shows "ban_page serve R n c = entry_page (d, R) n c"
proof -
  have a: "ban_advance d d1" "ban_advance d d2" "ban_advance d d3"
    using ban_reach_advance inv later by blast+
  then have cur: "\<not> ban_revision d1 < R" and list: "list_at (bans d3) R = list_at (bans d) R"
    by (auto simp: ban_advance_def R)
  have "R = 0 \<or> R \<in> fst ` set (ban_revisions d2)"
    using a(2) inv by (auto simp: ban_advance_def ban_inv_def register_ok_def R)
  moreover have "0 \<le> R" using inv by (simp add: ban_inv_def register_ok_def R)
  ultimately show ?thesis
    using n cur list page_entries [of "int n" "case c of None \<Rightarrow> ('''', '''') | Some p \<Rightarrow> p" R "bans d3"]
    by (auto simp: ban_page_def later(1) ban_list_at_def Let_def entry_page_def sql_limit_def)
qed

text \<open>
  The walk of a revision is a snapshot: a plugin that pulls the list page by page, with any page
  size, is served exactly the bans that were on the list when it began, each once and in identity
  order, whatever bans are placed, lifted or swept between its pages and between the statements of
  each page.
\<close>

lemma ban_walk_snapshot:
  assumes "ban_inv d" and "0 < n" and "length (bans d) \<le> k"
    and "\<And>c. \<exists>d1 d2 d3. serve c = (d1, d2, d3) \<and> ban_reach d d1 \<and> ban_reach d d2 \<and> ban_reach d d3"
  shows "set (walk (Suc k) (ban_page serve (ban_revision d) n) entry_key None)
      = {ban_entry (scan_ban r) | r. r \<in> set (bans d) \<and> bn_delisted r = None}
    \<and> sorted_wrt (<) (map entry_key (walk (Suc k) (ban_page serve (ban_revision d) n) entry_key None))"
proof -
  let ?s = "(d, ban_revision d)"
  have ok: "list_state_ok ?s" using assms(1) by (simp add: list_state_ok_def)
  have page: "ban_page serve (ban_revision d) n = entry_page ?s n"
    using ban_page_entry [OF assms(1,2) refl] assms(4) by (metis ext)
  have "length (listed_entries ?s) \<le> k"
    using assms(3) le_trans [OF length_filter_le] by (simp add: listed_entries_def list_at_def)
  then have w: "walk (Suc k) (ban_page serve (ban_revision d) n) entry_key None = listed_entries ?s"
    unfolding page by (rule ban_pages.walk_all [OF ok assms(2)])
  have span: "on_at (ban_revision d) r \<longleftrightarrow> bn_delisted r = None" if "r \<in> set (bans d)" for r
    using assms(1) that by (fastforce simp: ban_inv_def history_ok_def span_ok_def on_at_def split: option.splits)
  have "set (listed_entries ?s) = {ban_entry (scan_ban r) | r. r \<in> set (bans d) \<and> bn_delisted r = None}"
    using span by (auto simp: listed_entries_def list_at_def)
  moreover have "sorted_wrt (<) (map entry_key (listed_entries ?s))"
    using sorted_wrt_less_sort_key [OF entry_keys_distinct [OF ok]]
    by (simp add: listed_entries_def sorted_wrt_map)
  ultimately show ?thesis unfolding w by blast
qed

text \<open>
  Placing a ban: it is refused exactly when an active ban of the identity has not expired, naming
  that ban; otherwise the list at the new revision is what stood and has not expired together with
  the new ban, and the history below the new revision is untouched.
\<close>

lemma create_ban_exact:
  assumes "ban_inv d" and "ban_room d" and "wb_platform q \<noteq> ''''"
  shows "case create_ban body_caps draw d q limit now of
      Inl (ErrBanActive bid) \<Rightarrow>
        \<exists>r \<in> set (bans d). bn_id r = bid \<and> ban_key r = (wb_platform q, wb_player q)
          \<and> bn_delisted r = None \<and> \<not> ban_expired (format_time now) r
    | Inl _ \<Rightarrow> True
    | Inr (c, d') \<Rightarrow>
        bc_revision c = ban_revision d' \<and> ban_revision d < ban_revision d'
        \<and> set (list_at (bans d') (ban_revision d')) =
            (\<lambda>r. ban_entry (scan_ban r)) ` {r \<in> set (bans d). bn_delisted r = None \<and> \<not> ban_expired (format_time now) r}
            \<union> {ban_entry (scan_ban (ban_row_of q now (ban_revision d')))}
        \<and> (\<forall>R < ban_revision d'. list_at (bans d') R = list_at (bans d) R)"
proof (cases "create_ban body_caps draw d q limit now")
  let ?n = "next_ban_revision (ban_revision d) now"
  note above = ban_next [OF assms(1,2), of now]
  case (Inl err)
  show ?thesis
  proof (cases "\<exists>bid. err = ErrBanActive bid")
    case False
    with Inl show ?thesis by (cases err) auto
  next
    case True
    then obtain bid where err: "err = ErrBanActive bid" by blast
    obtain m d1 where d1: "delist_expired d ?n now = (m, d1)" by fastforce
    have nb: "commit_revision body_caps draw x ?n limit now y \<noteq> Inl (ErrBanActive bid)" for x y
      by (rule commit_not_active)
    from Inl err d1 nb obtain r where r: "active_ban d1 (wb_platform q) (wb_player q) = Some r" "bn_id r = bid"
      by (auto simp: create_ban_def Let_def split: option.splits if_splits)
    from r(1) have "r \<in> set (bans d1)" "ban_key r = (wb_platform q, wb_player q)" "bn_delisted r = None"
      by (auto simp: active_ban_def ban_key_def dest: find_Some_in)
    moreover from this have "r \<in> set (bans d) \<and> \<not> ban_expired (format_time now) r"
      using delist_expiredD [OF d1] by (auto simp: set_update_where delist_def split: if_splits)
    ultimately show ?thesis using Inl err r(2) by auto
  qed
next
  let ?n = "next_ban_revision (ban_revision d) now"
  note above = ban_next [OF assms(1,2), of now]
  case (Inr res)
  obtain c d' where res: "res = (c, d')" by fastforce
  from Inr res obtain m d1 b where d1: "delist_expired d ?n now = (m, d1)"
    and cm: "commit_revision body_caps draw (d1\<lparr>bans := bans d1 @ [ban_row_of q now ?n]\<rparr>) ?n limit now b = Inr (c, d')"
    by (auto elim: create_ban_cases)
  note E = delist_expiredD [OF d1] and C = commit_revisionD [OF cm]
  have stands: "(\<exists>y \<in> set (bans d). x = (if ban_expired (format_time now) y then delist ?n y else y)) \<and> on_at ?n x
      \<longleftrightarrow> x \<in> set (bans d) \<and> bn_delisted x = None \<and> \<not> ban_expired (format_time now) x" for x
    using assms(1) above
    by (fastforce simp: ban_inv_def history_ok_def span_ok_def on_at_def delist_def split: option.splits if_splits)
  have now: "set (filter (on_at ?n) (bans d1)) = {r \<in> set (bans d). bn_delisted r = None \<and> \<not> ban_expired (format_time now) r}"
  proof (intro set_eqI)
    fix x
    have "x \<in> set (bans d1) \<longleftrightarrow> (\<exists>y \<in> set (bans d). x = (if ban_expired (format_time now) y then delist ?n y else y))"
    proof -
      have "bans d1 = update_where (ban_expired (format_time now)) (delist ?n) (bans d)" using E by blast
      then show ?thesis by (simp only: set_update_where image_iff)
    qed
    with stands [of x] show "x \<in> set (filter (on_at ?n) (bans d1))
        \<longleftrightarrow> x \<in> {r \<in> set (bans d). bn_delisted r = None \<and> \<not> ban_expired (format_time now) r}"
      by (simp only: set_filter mem_Collect_eq)
  qed
  have "on_at ?n (ban_row_of q now ?n)" by (simp add: on_at_def ban_row_of_def)
  then have "set (list_at (bans d') ?n) =
      (\<lambda>r. ban_entry (scan_ban r)) ` set (filter (on_at ?n) (bans d1)) \<union> {ban_entry (scan_ban (ban_row_of q now ?n))}"
    using C by (simp add: list_at_def del: set_filter)
  moreover have "list_at (bans d') R = list_at (bans d) R" if "R < ?n" for R
    using C delist_history(2) [OF assms(1) above d1 that] list_at_join [of R "ban_row_of q now ?n"] that
    by (simp add: ban_row_of_def)
  ultimately show ?thesis
    unfolding now using C above Inr res by simp
qed

subsection \<open>A lift is final\<close>

text \<open>A ban that has left the list keeps its row for good.\<close>

lemma left_rows_stay:
  assumes "leaves revision p f" and "r \<in> set rows" and "bn_delisted r \<noteq> None"
  shows "r \<in> set (update_where p f rows)"
proof -
  have "\<not> p r" using assms by (auto simp: leaves_def)
  with assms(2) show ?thesis by (force simp: set_update_where)
qed

lemma left_row_after_delist:
  "delist_expired d revision now = (n, d1) \<Longrightarrow> r \<in> set (bans d) \<Longrightarrow> bn_delisted r \<noteq> None \<Longrightarrow> r \<in> set (bans d1)"
  using left_rows_stay [OF leaves_delist] delist_expiredD by metis

lemma lift_ban_outcome:
  assumes "lift_ban body_caps draw d bid ti tn limit now = Inr (c, d')"
  obtains n d1 r where "delist_expired d (next_ban_revision (ban_revision d) now) now = (n, d1)"
    and "find (\<lambda>r. bn_id r = bid) (bans d1) = Some r"
    and "bn_delisted r = None \<longrightarrow> bc_changed c \<and> bans d' =
       update_where (\<lambda>x. bn_id x = bid \<and> bn_delisted x = None)
         (lift_row now ti tn (next_ban_revision (ban_revision d) now)) (bans d1)
       \<and> bc_ban c = Some (scan_ban (lift_row now ti tn (next_ban_revision (ban_revision d) now) r))"
    and "bn_delisted r \<noteq> None \<longrightarrow> \<not> bc_changed c \<and> bans d' = bans d1 \<and> bc_ban c = Some (scan_ban r)"
proof -
  let ?n = "next_ban_revision (ban_revision d) now"
  obtain n d1 where d1: "delist_expired d ?n now = (n, d1)" by fastforce
  with assms obtain r where r: "find (\<lambda>r. bn_id r = bid) (bans d1) = Some r"
    by (auto simp: lift_ban_def Let_def split: option.splits)
  have on: "on_list (scan_ban r) \<longleftrightarrow> bn_delisted r = None" by (simp add: on_list_def scan_ban_def)
  show ?thesis
  proof (cases "bn_delisted r = None")
    case True
    let ?d = "d1\<lparr>bans := update_where (\<lambda>x. bn_id x = bid \<and> bn_delisted x = None) (lift_row now ti tn ?n) (bans d1)\<rparr>"
    let ?b = "(scan_ban r)\<lparr>ba_lifted := Some (truncate_milli now), ba_lifted_token_id := ti,
                          ba_lifted_token_name := tn, ba_delisted := Some ?n\<rparr>"
    have cm: "commit_revision body_caps draw ?d ?n limit now (Some ?b) = Inr (c, d')"
      using assms d1 r True on by (simp add: lift_ban_def Let_def)
    have "?b = scan_ban (lift_row now ti tn ?n r)"
      by (simp add: scan_ban_def lift_row_def scan_time_def truncate_milli_def)
    with commit_revisionD [OF cm] True show ?thesis by (intro that [OF d1 r]) simp_all
  next
    case False
    have "\<not> bc_changed c \<and> bans d' = bans d1 \<and> bc_ban c = Some (scan_ban r)"
    proof (cases "n > 0")
      case True
      with assms d1 r False on obtain c' where
        "commit_revision body_caps draw d1 ?n limit now (Some (scan_ban r)) = Inr (c', d')"
        "c = c'\<lparr>bc_changed := False\<rparr>"
        by (auto simp: lift_ban_def Let_def split: sum.splits)
      with commit_revisionD [OF this(1)] show ?thesis by simp
    next
      case none: False
      with assms d1 r False on show ?thesis by (auto simp: lift_ban_def Let_def)
    qed
    with False show ?thesis by (intro that [OF d1 r]) simp_all
  qed
qed

lemma sweep_bans_rows:
  assumes "sweep_expired_bans body_caps draw seen d limit now = Inr (c, k, d')"
  shows "bans d' = bans d \<or>
    bans d' = bans (snd (delist_expired d (next_ban_revision (ban_revision d) now) now))"
proof (cases "affected (ban_expired (format_time now)) (bans seen) = 0")
  case True
  with assms show ?thesis by (simp add: sweep_expired_bans_def)
next
  case False
  obtain n d1 where d1: "delist_expired d (next_ban_revision (ban_revision d) now) now = (n, d1)" by fastforce
  show ?thesis
  proof (cases "n > 0")
    case True
    with assms d1 False obtain c' where
      "commit_revision body_caps draw d1 (next_ban_revision (ban_revision d) now) limit now None = Inr (c', d')"
      by (auto simp: sweep_expired_bans_def Let_def split: sum.splits)
    with commit_revisionD [OF this] d1 show ?thesis by simp
  next
    case none: False
    with assms d1 False show ?thesis by (simp add: sweep_expired_bans_def Let_def)
  qed
qed

lemma ban_step_left:
  assumes "ban_step d d'" and r: "r \<in> set (bans d)" "bn_delisted r \<noteq> None"
  shows "r \<in> set (bans d')"
  using assms(1)
proof cases
  case (create q body_caps draw limit now c)
  then obtain n d1 b where d1: "delist_expired d (next_ban_revision (ban_revision d) now) now = (n, d1)"
    and c: "commit_revision body_caps draw
      (d1\<lparr>bans := bans d1 @ [ban_row_of q now (next_ban_revision (ban_revision d) now)]\<rparr>)
      (next_ban_revision (ban_revision d) now) limit now b = Inr (c, d')"
    by (elim create_ban_cases) blast
  with commit_revisionD [OF c] left_row_after_delist [OF d1 r] show ?thesis by simp
next
  case (lift body_caps draw bid ti tn limit now c)
  then obtain n d1 x where d1: "delist_expired d (next_ban_revision (ban_revision d) now) now = (n, d1)"
    and out: "bans d' = update_where (\<lambda>x. bn_id x = bid \<and> bn_delisted x = None)
         (lift_row now ti tn (next_ban_revision (ban_revision d) now)) (bans d1) \<or> bans d' = bans d1"
    by (elim lift_ban_outcome) blast
  with left_rows_stay [OF leaves_lift left_row_after_delist [OF d1 r] r(2)] left_row_after_delist [OF d1 r]
  show ?thesis by fastforce
next
  case (sweep body_caps draw seen limit now c k)
  with sweep_bans_rows [OF this] left_row_after_delist [OF _ r] r(1) show ?thesis
    by (metis prod.collapse)
next
  case elsewhere
  with r(1) show ?thesis by (simp add: same_bans_def)
qed

lemma ban_reach_left:
  "ban_reach d d' \<Longrightarrow> r \<in> set (bans d) \<Longrightarrow> bn_delisted r \<noteq> None \<Longrightarrow> r \<in> set (bans d')"
  by (induction rule: ban_reach.induct) (auto dest: ban_step_left)

lemma lift_ban_leaves:
  assumes inv: "ban_inv d" and room: "ban_room d"
    and run: "lift_ban body_caps draw d bid ti tn limit now = Inr (c, d')"
  obtains r where "r \<in> set (bans d')" and "bn_id r = bid" and "bn_delisted r \<noteq> None"
    and "bc_ban c = Some (scan_ban r)"
proof -
  let ?n = "next_ban_revision (ban_revision d) now"
  from run obtain n d1 x where d1: "delist_expired d ?n now = (n, d1)"
    and x: "find (\<lambda>r. bn_id r = bid) (bans d1) = Some x"
    and on: "bn_delisted x = None \<longrightarrow> bc_changed c \<and> bans d' =
       update_where (\<lambda>x. bn_id x = bid \<and> bn_delisted x = None) (lift_row now ti tn ?n) (bans d1)
       \<and> bc_ban c = Some (scan_ban (lift_row now ti tn ?n x))"
    and off: "bn_delisted x \<noteq> None \<longrightarrow> \<not> bc_changed c \<and> bans d' = bans d1 \<and> bc_ban c = Some (scan_ban x)"
    by (rule lift_ban_outcome)
  from find_Some_in [OF x] have x: "x \<in> set (bans d1)" "bn_id x = bid" by auto
  show ?thesis
  proof (cases "bn_delisted x = None")
    case True
    with on x have "lift_row now ti tn ?n x \<in> set (bans d')"
      by (force simp: set_update_where)
    with on True x show ?thesis by (intro that) (simp_all add: lift_row_def)
  next
    case False
    with off x show ?thesis by (intro that) simp_all
  qed
qed

text \<open>
  A lift is final: once a ban has been lifted (or answered as already off the list), every later
  lift of it, by anyone and after any other changes, reports that nothing changed and answers the
  ban exactly as it was recorded then.
\<close>

lemma lift_ban_final:
  assumes "ban_inv d" and "ban_room d"
    and "lift_ban body_caps draw d bid ti tn limit now = Inr (c, d')"
    and "ban_reach d' e"
    and "lift_ban body_caps draw' e bid ti' tn' limit later = Inr (c', e')"
  shows "\<not> bc_changed c' \<and> bc_ban c' = bc_ban c"
proof -
  from lift_ban_leaves [OF assms(1-3)] obtain r where r: "r \<in> set (bans d')" "bn_id r = bid"
    "bn_delisted r \<noteq> None" "bc_ban c = Some (scan_ban r)" by blast
  have "ban_inv d'" using lift_ban_advance [OF assms(1-3)] by (simp add: ban_advance_def)
  with ban_reach_advance [OF assms(4)] have inv: "ban_inv e" by (simp add: ban_advance_def)
  from assms(5) obtain n d1 x where d1: "delist_expired e (next_ban_revision (ban_revision e) later) later = (n, d1)"
    and x: "find (\<lambda>r. bn_id r = bid) (bans d1) = Some x"
    and off: "bn_delisted x \<noteq> None \<longrightarrow> \<not> bc_changed c' \<and> bans e' = bans d1 \<and> bc_ban c' = Some (scan_ban x)"
    by (rule lift_ban_outcome)
  have r1: "r \<in> set (bans d1)"
    using left_row_after_delist [OF d1 ban_reach_left [OF assms(4) r(1,3)] r(3)] .
  have "map bn_id (bans d1) = map bn_id (bans e)"
    using delist_expiredD [OF d1] by (simp add: map_update_where delist_def)
  then have "distinct (map bn_id (bans d1))" using inv by (simp add: ban_inv_def history_ok_def)
  from find_unique [OF this r1] x r(2) have "x = r" by simp
  with off r show ?thesis by simp
qed

subsection \<open>The notices of a change\<close>

definition notices :: "string \<Rightarrow> db \<Rightarrow> envelope_row list" where
  "notices server d = filter (unsent_notice server) (outbound d)"

text \<open>Every notice waiting for a server carries the revision, and there is one.\<close>

definition told :: "int \<Rightarrow> db \<Rightarrow> string \<Rightarrow> bool" where
  "told revision d server =
     (notices server d \<noteq> [] \<and> list_all (\<lambda>e. en_body e = revision_body revision) (notices server d))"

definition not_notice :: "envelope_row \<Rightarrow> bool" where
  "not_notice e = (\<not> unsent_notice (en_server e) e)"

lemma unsent_notice_body [simp]: "unsent_notice t (e\<lparr>en_body := b\<rparr>) = unsent_notice t e"
  by (simp add: unsent_notice_def)

lemma notice_cases:
  assumes "notice_ban_revision d t revision limit eid now = Inr (b, d')"
  obtains (refreshed) "b" "notices t d \<noteq> []"
      "d' = d\<lparr>outbound := update_where (unsent_notice t) (\<lambda>e. e\<lparr>en_body := revision_body revision\<rparr>) (outbound d)\<rparr>"
    | (queued) "b" "notices t d = []"
      "insert_outbound d t (new_outbound eid t ban_changed_type (revision_body revision) now) limit = Inr d'"
    | (dropped) "\<not> b" "notices t d = []" "d' = d" "0 < limit" "limit \<le> pending_envelope_count d t"
  using assms
  by (cases "affected (unsent_notice t) (outbound d) > 0")
    (auto simp: notice_ban_revision_def queue_outbound_def insert_outbound_def Let_def notices_def
      pending_envelope_count_def affected_def split: if_splits sum.splits)

lemma notices_refresh:
  "notices u (d\<lparr>outbound := update_where (unsent_notice t) (\<lambda>e. e\<lparr>en_body := b\<rparr>) (outbound d)\<rparr>) =
     (if u = t then map (\<lambda>e. e\<lparr>en_body := b\<rparr>) (notices t d) else notices u d)"
  by (auto simp: notices_def filter_update_where_same unsent_notice_def intro!: filter_update_where_other)

lemma notice_effect:
  assumes "notice_ban_revision d t revision limit eid now = Inr (b, d')"
  shows "(b \<longrightarrow> told revision d' t)
    \<and> (\<not> b \<longrightarrow> notices t d' = [] \<and> 0 < limit \<and> limit \<le> pending_envelope_count d' t)
    \<and> length (notices t d') \<le> max 1 (length (notices t d))
    \<and> filter not_notice (outbound d') = filter not_notice (outbound d)
    \<and> servers d' = servers d
    \<and> (\<forall>u. u \<noteq> t \<longrightarrow> notices u d' = notices u d \<and> pending_envelope_count d' u = pending_envelope_count d u)"
  using assms
proof (cases rule: notice_cases)
  case refreshed
  have "affected (pending u) (update_where (unsent_notice t) (\<lambda>e. e\<lparr>en_body := revision_body revision\<rparr>) es)
      = affected (pending u) es" for u es
    by (induction es) (auto simp: affected_def pending_def)
  moreover have "filter not_notice (outbound d') = filter not_notice (outbound d)"
    unfolding refreshed(3)
    by (simp, rule filter_update_where_other) (auto simp: not_notice_def unsent_notice_def)
  ultimately show ?thesis
    using refreshed notices_refresh [where d = d and t = t and b = "revision_body revision"]
    by (simp add: told_def pending_envelope_count_def list_all_iff)
next
  case queued
  then have d': "d' = d\<lparr>outbound := outbound d @ [new_outbound eid t ban_changed_type (revision_body revision) now]\<rparr>"
    by (simp add: insert_outbound_def split: if_splits)
  with queued show ?thesis
    by (simp add: told_def notices_def unsent_notice_def new_outbound_def not_notice_def
        pending_envelope_count_def affected_def pending_def)
next
  case dropped
  then show ?thesis by simp
qed

lemma notice_each_effect:
  assumes "notice_each draw revision limit ts d = Inr (ns, ds, d')" and "distinct ts"
  shows "set ns \<union> set ds = {t \<in> set ts. lock_server d t} \<and> set ns \<inter> set ds = {}
    \<and> (\<forall>t \<in> set ns. told revision d' t)
    \<and> (\<forall>t \<in> set ds. notices t d' = [] \<and> 0 < limit \<and> limit \<le> pending_envelope_count d' t)
    \<and> (\<forall>t. length (notices t d') \<le> max 1 (length (notices t d)))
    \<and> filter not_notice (outbound d') = filter not_notice (outbound d)
    \<and> (\<forall>u. u \<notin> set ts \<longrightarrow> notices u d' = notices u d \<and> pending_envelope_count d' u = pending_envelope_count d u)"
  using assms
proof (induction ts arbitrary: d ns ds)
  case Nil
  then show ?case by simp
next
  case (Cons t ts)
  show ?case
  proof (cases "lock_server d t")
    case False
    with Cons.prems have "notice_each draw revision limit ts d = Inr (ns, ds, d')" "distinct ts" by simp_all
    from Cons.IH [OF this] False show ?thesis by auto
  next
    case True
    with Cons.prems obtain b d1 ns1 ds1 where
      n: "notice_ban_revision d t revision limit (fst (draw t)) (snd (draw t)) = Inr (b, d1)"
      and r: "notice_each draw revision limit ts d1 = Inr (ns1, ds1, d')"
      and out: "ns = (if b then t # ns1 else ns1)" "ds = (if b then ds1 else t # ds1)"
      by (auto split: sum.splits if_splits)
    note E = notice_effect [OF n] and I = Cons.IH [OF r]
    have fresh: "t \<notin> set ts" "distinct ts" using Cons.prems(2) by auto
    have lock: "lock_server d1 u = lock_server d u" for u using E by (simp add: lock_server_def)
    have keep: "told revision d' u = told revision d1 u" "notices u d' = notices u d1"
      "pending_envelope_count d' u = pending_envelope_count d1 u" if "u \<notin> set ts" for u
      using I fresh(2) that by (simp_all add: told_def)
    have len: "length (notices u d') \<le> max 1 (length (notices u d))" for u
    proof (cases "u = t")
      case True
      with E keep(2) [OF fresh(1)] show ?thesis by simp
    next
      case False
      with E I fresh(2) show ?thesis by metis
    qed
    have sets: "set ns1 \<union> set ds1 = {u \<in> set ts. lock_server d u}" "set ns1 \<inter> set ds1 = {}"
      using I fresh(2) lock by auto
    show ?thesis
    proof (intro conjI ballI allI impI)
      show "set ns \<union> set ds = {u \<in> set (t # ts). lock_server d u}" using sets(1) True out by auto
      show "set ns \<inter> set ds = {}" using sets fresh(1) out by auto
      show "filter not_notice (outbound d') = filter not_notice (outbound d)" using E I fresh(2) by simp
      show "told revision d' u" if "u \<in> set ns" for u
        using that out E I fresh keep(1) [OF fresh(1)] by (auto split: if_splits)
      show "notices u d' = []" "0 < limit" "limit \<le> pending_envelope_count d' u" if "u \<in> set ds" for u
        using that out E I fresh keep [OF fresh(1)] by (auto split: if_splits)
      show "notices u d' = notices u d" "pending_envelope_count d' u = pending_envelope_count d u"
        if "u \<notin> set (t # ts)" for u
        using that E keep by auto
    qed (rule len)
  qed
qed

lemma distinct_ban_targets:
  assumes "distinct (map sv_id (servers d))" and "distinct (map mf_server (manifests d))"
  shows "distinct (ban_targets body_caps d)"
proof -
  have one: "length (filter (\<lambda>m. mf_server m = x \<and> p m) ms) \<le> 1"
    if "distinct (map mf_server ms)" for x p and ms :: "manifest_row list"
    using that
  proof (induction ms)
    case (Cons m ms)
    show ?case
    proof (cases "mf_server m = x")
      case True
      with Cons.prems have "\<forall>y \<in> set ms. mf_server y \<noteq> x" by (metis distinct.simps(2) imageI list.set_map list.simps(9))
      then have "filter (\<lambda>m. mf_server m = x \<and> p m) ms = []" by (simp add: filter_empty_conv)
      then show ?thesis by simp
    qed (use Cons in simp)
  qed simp
  let ?ms = "\<lambda>s. filter (\<lambda>m. mf_server m = sv_id s \<and> sv_secret s \<noteq> '''' \<and> sv_revoked s = None
     \<and> has_capability (decode_capabilities body_caps (mf_capabilities m) (mf_body m)) capability_bans) (manifests d)"
  have short: "length (?ms s) \<le> 1" for s using one [OF assms(2)] .
  have "distinct (map (\<lambda>_. sv_id s) (?ms s))" for s
    using short [of s] by (cases "?ms s") (auto simp: Suc_le_eq)
  note single = this
  have "distinct (concat (map (\<lambda>s. map (\<lambda>_. sv_id s) (?ms s)) ss))"
    if "distinct (map sv_id ss)" for ss
    using that
  proof (induction ss)
    case (Cons s ss)
    with single [of s] show ?case by (auto simp del: set_filter)
  qed simp
  with assms(1) show ?thesis by (simp add: ban_targets_def)
qed

lemma ban_target_known: "t \<in> set (ban_targets body_caps d) \<Longrightarrow> lock_server d t"
  by (auto simp: ban_targets_def lock_server_def exists_row_def)

text \<open>
  A change is told, and cheaply: after it, every enforcing server either has exactly one notice
  waiting, carrying the new revision whatever notices were waiting before, or had no room for one and
  is reported; no other envelope and no other server's queue is touched.
\<close>

lemma ban_notices_coalesce:
  assumes "distinct (map sv_id (servers d))" and "distinct (map mf_server (manifests d))"
    and "\<forall>t. length (notices t d) \<le> 1"
    and "queue_ban_notices body_caps draw d revision limit = Inr (ns, ds, d')"
  shows "set ns \<union> set ds = set (ban_targets body_caps d) \<and> set ns \<inter> set ds = {}
    \<and> (\<forall>t \<in> set ns. map en_body (notices t d') = [revision_body revision])
    \<and> (\<forall>t \<in> set ds. notices t d' = [] \<and> 0 < limit \<and> limit \<le> pending_envelope_count d' t)
    \<and> (\<forall>t. t \<notin> set (ban_targets body_caps d) \<longrightarrow> notices t d' = notices t d)
    \<and> filter not_notice (outbound d') = filter not_notice (outbound d)"
proof -
  from assms(4) have run: "notice_each draw revision limit (ban_targets body_caps d) d = Inr (ns, ds, d')"
    by (simp add: queue_ban_notices_def)
  note E = notice_each_effect [OF run distinct_ban_targets [OF assms(1,2)]]
  have "map en_body (notices t d') = [revision_body revision]" if "t \<in> set ns" for t
  proof -
    have "told revision d' t" using E that by blast
    moreover have "length (notices t d') \<le> 1" using E assms(3) by (metis max.absorb1)
    ultimately show ?thesis by (cases "notices t d'") (auto simp: told_def)
  qed
  with E show ?thesis using ban_target_known by auto
qed

lemma chan_inv_body:
  assumes "chan_inv ss es"
  shows "chan_inv ss (update_where p (\<lambda>e. e\<lparr>en_body := b\<rparr>) es)"
proof -
  note D = chan_invD [OF assms]
  let ?f = "\<lambda>e. if p e then e\<lparr>en_body := b\<rparr> else e"
  have place: "same_place e (?f e)" for e by (simp add: same_place_def)
  have "row_ok ss (?f e) = row_ok ss e" for e by (cases "en_session e") (simp_all add: row_ok_def)
  then have rows: "\<forall>e \<in> set (map ?f es). row_ok ss e" unfolding set_map ball_simps using D(7) by blast
  have ids: "map en_id (map ?f es) = map en_id es" by simp
  have "no_gaps (map id ss) (map ?f es)" by (rule no_gaps_update [OF D(5) place]) simp
  with D(1-3,6) unique_update [OF D(4) place] ids rows show ?thesis
    unfolding chan_inv_def ids_distinct_def update_where_def by (simp only: list.map_id)
qed

lemma notice_outbound_inv:
  assumes "notice_ban_revision d t revision limit eid now = Inr (b, d')" and "outbound_inv d"
  shows "outbound_inv d'"
  using assms(1)
proof (cases rule: notice_cases)
  case refreshed
  with assms(2) chan_inv_body show ?thesis by (simp add: outbound_inv_def)
next
  case queued
  with assms(2) insert_outbound_chan show ?thesis by blast
next
  case dropped
  with assms(2) show ?thesis by simp
qed

lemma notice_each_outbound_inv:
  "notice_each draw revision limit ts d = Inr (ns, ds, d') \<Longrightarrow> outbound_inv d \<Longrightarrow> outbound_inv d'"
proof (induction ts arbitrary: d ns ds)
  case (Cons t ts)
  show ?case
  proof (cases "lock_server d t")
    case False
    with Cons show ?thesis by simp
  next
    case True
    with Cons.prems(1) obtain b d1 ns1 ds1 where
      n: "notice_ban_revision d t revision limit (fst (draw t)) (snd (draw t)) = Inr (b, d1)"
      and r: "notice_each draw revision limit ts d1 = Inr (ns1, ds1, d')"
      by (auto split: sum.splits if_splits)
    from Cons.IH [OF r notice_outbound_inv [OF n Cons.prems(2)]] show ?thesis .
  qed
qed simp

subsection \<open>The properties at a concrete list\<close>

definition sample_ban :: "string \<Rightarrow> string \<Rightarrow> int \<Rightarrow> int option \<Rightarrow> ban_row" where
  "sample_ban bid player listed delisted =
     \<lparr>bn_id = bid, bn_platform = ''steam'', bn_player = player, bn_reason = ''r'', bn_name = '''',
      bn_server = '''', bn_created = 0, bn_token_id = '''', bn_token_name = '''', bn_expires = None,
      bn_lifted = None, bn_lifted_token_id = '''', bn_lifted_token_name = '''',
      bn_listed = listed, bn_delisted = delisted\<rparr>"

lemma sample_ban_simps [simp]:
  "bn_id (sample_ban i p l u) = i" "bn_platform (sample_ban i p l u) = ''steam''"
  "bn_player (sample_ban i p l u) = p" "bn_listed (sample_ban i p l u) = l"
  "bn_delisted (sample_ban i p l u) = u" "bn_expires (sample_ban i p l u) = None"
  by (simp_all add: sample_ban_def)

definition sample_list :: db where
  "sample_list = empty_db\<lparr>bans := [sample_ban ''b1'' ''p1'' 1 None, sample_ban ''b2'' ''p2'' 2 None,
     sample_ban ''b0'' ''p2'' 1 (Some 2)], ban_revision := 2, ban_revisions := [(1, 0), (2, 0)]\<rparr>"

lemma sample_list_inv [simp]: "ban_inv sample_list" "ban_room sample_list"
  by (simp_all add: ban_inv_def history_ok_def span_ok_def register_ok_def sample_list_def ban_key_def
      apart_def ban_room_def)

lemma sample_lift:
  obtains c e where "lift_ban (\<lambda>_. []) (\<lambda>_. ('''', 0)) sample_list ''b2'' ''t'' ''n'' 10 0 = Inr (c, e)"
proof -
  have "\<exists>c e. lift_ban (\<lambda>_. []) (\<lambda>_. ('''', 0)) sample_list ''b2'' ''t'' ''n'' 10 0 = Inr (c, e)"
    by (simp add: lift_ban_def sample_list_def delist_expired_def ban_expired_def affected_def
        next_ban_revision_def wrap64_def format_time_def nanos_per_milli_def on_list_def scan_ban_def
        commit_revision_def set_ban_revision_def queue_ban_notices_def ban_targets_def)
  with that show ?thesis by blast
qed

text \<open>A lift of the second ban between the first page and the rest of the walk.\<close>

lemma ban_walk_snapshot_witness:
  "\<exists>c e. lift_ban (\<lambda>_. []) (\<lambda>_. ('''', 0)) sample_list ''b2'' ''t'' ''n'' 10 0 = Inr (c, e)
     \<and> ban_entry (scan_ban (sample_ban ''b2'' ''p2'' 2 None))
       \<in> set (walk 4 (ban_page (\<lambda>p. if p = None then (sample_list, sample_list, sample_list) else (e, e, e)) 2 1)
           entry_key None)"
proof -
  obtain c e where e: "lift_ban (\<lambda>_. []) (\<lambda>_. ('''', 0)) sample_list ''b2'' ''t'' ''n'' 10 0 = Inr (c, e)"
    by (rule sample_lift)
  let ?serve = "\<lambda>p :: (string \<times> string) option.
    if p = None then (sample_list, sample_list, sample_list) else (e, e, e)"
  have later: "ban_reach sample_list e"
    by (rule ban_reach.further [OF ban_reach.here _ ban_step.lift [OF e]]) simp
  have "\<exists>d1 d2 d3. ?serve p = (d1, d2, d3) \<and> ban_reach sample_list d1 \<and> ban_reach sample_list d2
    \<and> ban_reach sample_list d3" for p
    using later ban_reach.here [of sample_list] by simp
  from ban_walk_snapshot [where serve = ?serve and k = 3 and n = 1, OF sample_list_inv(1) _ _ this]
  have "ban_entry (scan_ban (sample_ban ''b2'' ''p2'' 2 None))
      \<in> set (walk 4 (ban_page ?serve (ban_revision sample_list) 1) entry_key None)"
    by (auto simp: sample_list_def eval_nat_numeral simp del: walk.simps)
  with e show ?thesis by (auto simp: sample_list_def simp del: walk.simps)
qed

lemma lift_ban_final_witness:
  "\<exists>c e c' e'. lift_ban (\<lambda>_. []) (\<lambda>_. ('''', 0)) sample_list ''b2'' ''t'' ''n'' 10 0 = Inr (c, e)
     \<and> lift_ban (\<lambda>_. []) (\<lambda>_. ('''', 0)) e ''b2'' ''u'' ''m'' 10 5000000 = Inr (c', e')
     \<and> \<not> bc_changed c' \<and> bc_ban c' = bc_ban c"
proof -
  obtain c e where e: "lift_ban (\<lambda>_. []) (\<lambda>_. ('''', 0)) sample_list ''b2'' ''t'' ''n'' 10 0 = Inr (c, e)"
    by (rule sample_lift)
  have "e = sample_list\<lparr>bans := [sample_ban ''b1'' ''p1'' 1 None,
       (sample_ban ''b2'' ''p2'' 2 None)\<lparr>bn_lifted := Some 0, bn_lifted_token_id := ''t'', bn_lifted_token_name := ''n'',
          bn_delisted := Some 3\<rparr>, sample_ban ''b0'' ''p2'' 1 (Some 2)],
       ban_revision := 3, ban_revisions := [(1, 0), (2, 0), (3, 0)]\<rparr>"
    using e by (simp add: lift_ban_def sample_list_def delist_expired_def ban_expired_def affected_def lift_row_def
        next_ban_revision_def wrap64_def format_time_def nanos_per_milli_def on_list_def scan_ban_def
        commit_revision_def set_ban_revision_def queue_ban_notices_def ban_targets_def)
  then have "\<exists>c' e'. lift_ban (\<lambda>_. []) (\<lambda>_. ('''', 0)) e ''b2'' ''u'' ''m'' 10 5000000 = Inr (c', e')"
    by (simp add: lift_ban_def sample_list_def delist_expired_def ban_expired_def affected_def
        next_ban_revision_def wrap64_def format_time_def nanos_per_milli_def on_list_def scan_ban_def)
  then obtain c' e' where e': "lift_ban (\<lambda>_. []) (\<lambda>_. ('''', 0)) e ''b2'' ''u'' ''m'' 10 5000000 = Inr (c', e')"
    by blast
  from lift_ban_final [OF sample_list_inv e ban_reach.here e'] e e' show ?thesis by blast
qed

definition sample_new_ban :: "string \<Rightarrow> new_ban" where
  "sample_new_ban player = \<lparr>wb_id = ''b9'', wb_platform = ''steam'', wb_player = player, wb_reason = ''r'',
     wb_name = '''', wb_server = '''', wb_token_id = '''', wb_token_name = '''', wb_duration = 0\<rparr>"

lemma create_ban_exact_witness:
  "\<exists>c d'. create_ban (\<lambda>_. []) (\<lambda>_. ('''', 0)) sample_list (sample_new_ban ''p9'') 10 0 = Inr (c, d')
     \<and> list_at (bans d') 2 = list_at (bans sample_list) 2 \<and> ban_revision d' = 3"
proof -
  have "\<exists>c d'. create_ban (\<lambda>_. []) (\<lambda>_. ('''', 0)) sample_list (sample_new_ban ''p9'') 10 0 = Inr (c, d')
      \<and> ban_revision d' = 3"
    by (simp add: create_ban_def sample_list_def delist_expired_def ban_expired_def sample_new_ban_def
        next_ban_revision_def wrap64_def format_time_def nanos_per_milli_def active_ban_def exists_row_def
        commit_revision_def set_ban_revision_def queue_ban_notices_def ban_targets_def)
  then obtain c d' where run: "create_ban (\<lambda>_. []) (\<lambda>_. ('''', 0)) sample_list (sample_new_ban ''p9'') 10 0 = Inr (c, d')"
    "ban_revision d' = 3" by blast
  with create_ban_exact [OF sample_list_inv, where q = "sample_new_ban ''p9''" and body_caps = "\<lambda>_. []"
      and draw = "\<lambda>_. ('''', 0)" and limit = 10 and now = 0]
  show ?thesis by (simp add: sample_new_ban_def)
qed

definition sample_enforcer :: db where
  "sample_enforcer = empty_db\<lparr>servers := [sample_server\<lparr>sv_id := ''s1'', sv_secret := ''h'', sv_revoked := None\<rparr>],
     manifests := [\<lparr>mf_server = ''s1'', mf_revision = 1, mf_body = ''{}'', mf_published = 0,
                    mf_capabilities = Some [''bans'']\<rparr>],
     outbound := [new_outbound ''e1'' ''s1'' ban_changed_type (revision_body 4) 0]\<rparr>"

lemma ban_notices_coalesce_witness:
  "\<exists>d'. queue_ban_notices (\<lambda>_. []) (\<lambda>_. (''e2'', 0)) sample_enforcer 5 1 = Inr ([''s1''], [], d')
     \<and> map en_body (notices ''s1'' d') = [revision_body 5]"
proof -
  have n: "\<forall>t. length (notices t sample_enforcer) \<le> 1"
    by (simp add: notices_def sample_enforcer_def)
  have "\<exists>d'. queue_ban_notices (\<lambda>_. []) (\<lambda>_. (''e2'', 0)) sample_enforcer 5 1 = Inr ([''s1''], [], d')"
    by (simp add: queue_ban_notices_def ban_targets_def sample_enforcer_def decode_capabilities_def capability_bans_def
        lock_server_def exists_row_def notice_ban_revision_def affected_def unsent_notice_def new_outbound_def)
  then obtain d' where d': "queue_ban_notices (\<lambda>_. []) (\<lambda>_. (''e2'', 0)) sample_enforcer 5 1 = Inr ([''s1''], [], d')"
    by blast
  from ban_notices_coalesce [OF _ _ n d'] d' show ?thesis by (simp add: sample_enforcer_def)
qed

end
