(* ===== verification/Snapshots.thy ===== *)
theory Snapshots
  imports Events
begin

text \<open>
  State snapshots (hub/store/state.go): ingest with the envelope dedup, the depth trim, the latest
  snapshot of a kind, its history, and the retention pass.  The caller holds the server's row, so the
  foreign key cannot fail.  The trim runs once per type in the iteration order of a Go map, which is
  the argument \<open>shuffle\<close>.
\<close>

subsection \<open>Ingest\<close>

record snapshot =
  sp_server :: string
  sp_type :: string
  sp_captured :: time
  sp_received :: time
  sp_body :: string

record new_snapshot =
  np_envelope :: string
  np_type :: string
  np_captured :: "time option"
  np_body :: string
  np_retention :: int
  np_depth :: int

definition dedup_id :: "dedup_row \<Rightarrow> string \<times> string" where
  "dedup_id r = (dd_server r, dd_envelope r)"

definition snapshot_id :: "snapshot_row \<Rightarrow> string \<times> string" where
  "snapshot_id r = (sn_server r, sn_envelope r)"

definition snapshot_row_of :: "string \<Rightarrow> time \<Rightarrow> int \<Rightarrow> new_snapshot \<Rightarrow> snapshot_row" where
  "snapshot_row_of server now seq s =
     \<lparr>sn_seq = seq, sn_server = server, sn_envelope = np_envelope s, sn_type = np_type s,
      sn_captured = format_time (case np_captured s of None \<Rightarrow> now | Some t \<Rightarrow> t),
      sn_received = format_time now, sn_expires = format_time (now + np_retention s),
      sn_body = np_body s\<rparr>"

text \<open>The claim and the insert of one snapshot; whether the claim was fresh, and the rows inserted.\<close>

definition insert_snapshot :: "db \<Rightarrow> string \<Rightarrow> new_snapshot \<Rightarrow> time \<Rightarrow> bool \<times> int \<times> db" where
  "insert_snapshot d server s now =
     (if (server, np_envelope s) \<in> dedup_id ` set (snapshot_dedup d) then (False, 0, d)
      else
        let d1 = d\<lparr>snapshot_dedup := snapshot_dedup d @
               [\<lparr>dd_server = server, dd_envelope = np_envelope s, dd_expires = format_time (now + np_retention s)\<rparr>]\<rparr>
        in if (server, np_envelope s) \<in> snapshot_id ` set (snapshots d1) then (True, 0, d1)
           else (True, 1, d1\<lparr>snapshots := snapshots d1 @ [snapshot_row_of server now (snapshot_counter d1 + 1) s],
                              snapshot_counter := snapshot_counter d1 + 1\<rparr>))"

definition depth_of :: "(string \<times> int) list \<Rightarrow> string \<Rightarrow> int" where
  "depth_of ds ty = (case map_of ds ty of None \<Rightarrow> 0 | Some n \<Rightarrow> n)"

definition raise_depth :: "string \<Rightarrow> int \<Rightarrow> (string \<times> int) list \<Rightarrow> (string \<times> int) list" where
  "raise_depth ty n ds = (if n > depth_of ds ty then (ty, n) # filter (\<lambda>p. fst p \<noteq> ty) ds else ds)"

fun insert_snapshot_rows ::
  "db \<Rightarrow> string \<Rightarrow> new_snapshot list \<Rightarrow> time \<Rightarrow> (string \<times> int) list \<Rightarrow> int \<times> (string \<times> int) list \<times> db" where
  "insert_snapshot_rows d server [] now ds = (0, ds, d)"
| "insert_snapshot_rows d server (s # ss) now ds =
     (case insert_snapshot d server s now of
        (fresh, n, d') \<Rightarrow>
          (case insert_snapshot_rows d' server ss now
                  (if fresh then raise_depth (np_type s) (np_depth s) ds else ds) of
             (m, ds', d'') \<Rightarrow> (n + m, ds', d'')))"

definition of_kind :: "string \<Rightarrow> string \<Rightarrow> snapshot_row \<Rightarrow> bool" where
  "of_kind server ty r = (sn_server r = server \<and> sn_type r = ty)"

definition newest_first :: "string \<Rightarrow> string \<Rightarrow> snapshot_row list \<Rightarrow> snapshot_row list" where
  "newest_first server ty t = rev (sort_key sn_seq (filter (of_kind server ty) t))"

definition trim_history :: "string \<Rightarrow> string \<times> int \<Rightarrow> snapshot_row list \<Rightarrow> snapshot_row list" where
  "trim_history server p t =
     delete_where (\<lambda>r. of_kind server (fst p) r
        \<and> sn_seq r \<notin> sn_seq ` set (sql_limit (snd p) (newest_first server (fst p) t))) t"

definition insert_snapshots ::
  "((string \<times> int) list \<Rightarrow> (string \<times> int) list) \<Rightarrow> db \<Rightarrow> string \<Rightarrow> new_snapshot list \<Rightarrow> time \<Rightarrow> int \<times> db" where
  "insert_snapshots shuffle d server ss now =
     (if ss = [] then (0, d)
      else case insert_snapshot_rows d server ss now [] of
             (n, ds, d') \<Rightarrow> (n, d'\<lparr>snapshots := foldl (\<lambda>t p. trim_history server p t) (snapshots d') (shuffle ds)\<rparr>))"

subsection \<open>Reading and retention\<close>

definition scan_snapshot :: "snapshot_row \<Rightarrow> snapshot" where
  "scan_snapshot r =
     \<lparr>sp_server = sn_server r, sp_type = sn_type r, sp_captured = parse_time (sn_captured r),
      sp_received = parse_time (sn_received r), sp_body = sn_body r\<rparr>"

definition latest_snapshot :: "db \<Rightarrow> string \<Rightarrow> string \<Rightarrow> store_error + snapshot" where
  "latest_snapshot d server ty =
     (case sql_limit 1 (newest_first server ty (snapshots d)) of
        [] \<Rightarrow> Inl ErrNotFound
      | r # _ \<Rightarrow> Inr (scan_snapshot r))"

definition snapshot_history :: "db \<Rightarrow> string \<Rightarrow> string \<Rightarrow> int \<Rightarrow> snapshot list" where
  "snapshot_history d server ty limit =
     map scan_snapshot (sql_limit limit (newest_first server ty (snapshots d)))"

text \<open>A stale row: past its retention, and not the newest of its server and type.\<close>

definition snapshot_stale :: "snapshot_row list \<Rightarrow> stamp \<Rightarrow> snapshot_row \<Rightarrow> bool" where
  "snapshot_stale t now r =
     (sn_expires r \<le> now \<and> exists_row (\<lambda>x. of_kind (sn_server r) (sn_type r) x \<and> sn_seq r < sn_seq x) t)"

definition marker_expired :: "stamp \<Rightarrow> dedup_row \<Rightarrow> bool" where
  "marker_expired now r = (dd_expires r \<le> now)"

definition prune_snapshots ::
  "(int \<Rightarrow> snapshot_row list \<Rightarrow> snapshot_row list) \<Rightarrow> (int \<Rightarrow> dedup_row list \<Rightarrow> dedup_row list)
    \<Rightarrow> db \<Rightarrow> int \<Rightarrow> time \<Rightarrow> int \<times> db" where
  "prune_snapshots pick pick_markers d limit now =
     (let n = (if limit \<le> 0 then default_prune_batch else limit);
          old = pick n (filter (snapshot_stale (snapshots d) (format_time now)) (snapshots d));
          d1 = d\<lparr>snapshots := delete_ids sn_seq old (snapshots d)\<rparr>;
          total = int (length old)
      in if total < n then
           let swept = pick_markers (n - total) (filter (marker_expired (format_time now)) (snapshot_dedup d1))
           in (total + int (length swept), d1\<lparr>snapshot_dedup := delete_ids dedup_id swept (snapshot_dedup d1)\<rparr>)
         else (total, d1))"

subsection \<open>Invariant\<close>

text \<open>
  Rows stand in acceptance order, below the counter, and an envelope has at most one row and one
  marker.
\<close>

definition snap_inv :: "db \<Rightarrow> bool" where
  "snap_inv d =
     (sorted_wrt (<) (map sn_seq (snapshots d)) \<and> (\<forall>r \<in> set (snapshots d). sn_seq r \<le> snapshot_counter d)
      \<and> distinct (map snapshot_id (snapshots d)) \<and> distinct (map dedup_id (snapshot_dedup d)))"

text \<open>The newest row of a kind, read off the acceptance order.\<close>

definition newest :: "snapshot_row list \<Rightarrow> string \<Rightarrow> string \<Rightarrow> snapshot_row option" where
  "newest t server ty =
     (case filter (of_kind server ty) t of [] \<Rightarrow> None | rs \<Rightarrow> Some (last rs))"

definition in_order :: "snapshot_row list \<Rightarrow> bool" where
  "in_order t = sorted_wrt (<) (map sn_seq t)"

lemma sorted_wrt_filter_map: "sorted_wrt (<) (map k xs) \<Longrightarrow> sorted_wrt (<) (map k (filter p xs))"
  by (simp add: sorted_wrt_map sorted_wrt_filter)

lemma newest_first_rev:
  assumes "in_order t"
  shows "newest_first server ty t = rev (filter (of_kind server ty) t)"
proof -
  have "sorted_wrt (<) (map sn_seq (filter (of_kind server ty) t))"
    using assms sorted_wrt_filter_map unfolding in_order_def by blast
  then have "sorted (map sn_seq (filter (of_kind server ty) t))" by (simp add: strict_sorted_iff)
  then show ?thesis by (simp add: newest_first_def sort_key_id_if_sorted)
qed

lemma snap_in_order: "snap_inv d \<Longrightarrow> in_order (snapshots d)"
  by (simp add: snap_inv_def in_order_def)

lemma in_order_filter: "in_order t \<Longrightarrow> in_order (filter p t)"
  by (simp add: in_order_def sorted_wrt_filter_map)

lemma latest_newest:
  assumes "snap_inv d"
  shows "latest_snapshot d server ty =
    (case newest (snapshots d) server ty of None \<Rightarrow> Inl ErrNotFound | Some r \<Rightarrow> Inr (scan_snapshot r))"
  unfolding latest_snapshot_def newest_first_rev [OF snap_in_order [OF assms]] newest_def
  by (cases "filter (of_kind server ty) (snapshots d)" rule: rev_cases)
    (auto simp: sql_limit_def split: list.split, metis last.simps last_snoc)

lemma snap_inv_delete:
  assumes "snap_inv d" and "snapshots d' = filter p (snapshots d)" and "snapshot_counter d' = snapshot_counter d"
    and "snapshot_dedup d' = filter q (snapshot_dedup d)"
  shows "snap_inv d'"
  using assms sorted_wrt_filter_map by (auto simp: snap_inv_def distinct_map_filter)

lemma insert_snapshot_inv:
  assumes "snap_inv d" and "insert_snapshot d server s now = (b, n, d')"
  shows "snap_inv d'"
  using assms
  by (fastforce simp: insert_snapshot_def snap_inv_def Let_def sorted_wrt_append snapshot_row_of_def
      snapshot_id_def dedup_id_def image_iff split: if_splits)

lemma insert_snapshot_rows_inv:
  "snap_inv d \<Longrightarrow> insert_snapshot_rows d server ss now ds = (n, ds', d') \<Longrightarrow> snap_inv d'"
proof (induction ss arbitrary: d ds n)
  case (Cons s ss)
  obtain b m d1 where i: "insert_snapshot d server s now = (b, m, d1)" by (metis prod_cases3)
  with Cons.prems(2) obtain n' where
    "insert_snapshot_rows d1 server ss now (if b then raise_depth (np_type s) (np_depth s) ds else ds) = (n', ds', d')"
    by (auto split: prod.splits)
  from Cons.IH [OF insert_snapshot_inv [OF Cons.prems(1) i] this] show ?case .
qed simp

lemma trim_is_filter: "\<exists>p. foldl (\<lambda>t p. trim_history server p t) t ds = filter p t"
proof (induction ds arbitrary: t)
  case Nil
  show ?case by (rule exI [of _ "\<lambda>_. True"]) simp
next
  case (Cons p ds)
  from Cons.IH [of "trim_history server p t"] show ?case
    by (auto simp: trim_history_def delete_where_def)
qed

lemma insert_snapshots_inv:
  assumes "snap_inv d" and "insert_snapshots shuffle d server ss now = (n, d')"
  shows "snap_inv d'"
proof (cases "ss = []")
  case True
  with assms show ?thesis by (simp add: insert_snapshots_def)
next
  case False
  obtain m ds d1 where r: "insert_snapshot_rows d server ss now [] = (m, ds, d1)" by (metis prod_cases3)
  obtain p where "foldl (\<lambda>t p. trim_history server p t) (snapshots d1) (shuffle ds) = filter p (snapshots d1)"
    using trim_is_filter by blast
  with assms(2) r False have "snapshots d' = filter p (snapshots d1)" "snapshot_counter d' = snapshot_counter d1"
    "snapshot_dedup d' = filter (\<lambda>_. True) (snapshot_dedup d1)"
    by (auto simp: insert_snapshots_def)
  with snap_inv_delete insert_snapshot_rows_inv [OF assms(1) r] show ?thesis by blast
qed

lemma prune_snapshots_inv:
  assumes "snap_inv d"
  shows "snap_inv (snd (prune_snapshots pick pick_markers d limit now))"
proof -
  let ?d = "snd (prune_snapshots pick pick_markers d limit now)"
  have "\<exists>p. snapshots ?d = filter p (snapshots d)"
    by (auto simp: prune_snapshots_def Let_def delete_ids_def delete_where_def)
  moreover have "\<exists>q. snapshot_dedup ?d = filter q (snapshot_dedup d)"
  proof -
    have "\<exists>q. snapshot_dedup d = filter q (snapshot_dedup d)" by (rule exI [of _ "\<lambda>_. True"]) simp
    then show ?thesis
      by (auto simp: prune_snapshots_def Let_def delete_ids_def delete_where_def)
  qed
  moreover have "snapshot_counter ?d = snapshot_counter d"
    by (simp add: prune_snapshots_def Let_def)
  ultimately show ?thesis using snap_inv_delete [OF assms] by blast
qed

subsection \<open>The newest row of a kind\<close>

lemma newest_NoneD: "newest t server ty = None \<longleftrightarrow> (\<forall>r \<in> set t. \<not> of_kind server ty r)"
  unfolding newest_def filter_empty_conv [symmetric] by (simp split: list.split)

lemma newest_SomeD: "newest t server ty = Some r \<Longrightarrow> r \<in> set t \<and> of_kind server ty r"
proof -
  assume "newest t server ty = Some r"
  then have "filter (of_kind server ty) t \<noteq> []" "r = last (filter (of_kind server ty) t)"
    by (auto simp: newest_def split: list.splits if_splits)
  then have "r \<in> set (filter (of_kind server ty) t)" using last_in_set by blast
  then show ?thesis by simp
qed

lemma newest_last: "newest t server ty = Some r \<longleftrightarrow> (\<exists>rs. filter (of_kind server ty) t = rs @ [r])"
  by (cases "filter (of_kind server ty) t" rule: rev_cases)
    (auto simp: newest_def split: list.split, (metis last.simps last_snoc)+)

lemma newest_max:
  assumes "in_order t" and "newest t server ty = Some r" and "x \<in> set t" and "of_kind server ty x"
  shows "sn_seq x \<le> sn_seq r"
proof -
  from assms(2) obtain rs where rs: "filter (of_kind server ty) t = rs @ [r]" by (auto simp: newest_last)
  have "in_order (rs @ [r])" using in_order_filter [OF assms(1)] rs by metis
  moreover have "x \<in> set (filter (of_kind server ty) t)" using assms(3,4) by simp
  then have "x \<in> set (rs @ [r])" unfolding rs .
  ultimately show ?thesis by (auto simp: in_order_def sorted_wrt_append)
qed

lemma newest_keep:
  assumes "\<And>r. newest t server ty = Some r \<Longrightarrow> p r"
  shows "newest (filter p t) server ty = newest t server ty"
proof (cases "newest t server ty")
  case None
  then have "newest (filter p t) server ty = None" by (simp add: newest_NoneD)
  with None show ?thesis by simp
next
  case (Some r)
  then obtain rs where rs: "filter (of_kind server ty) t = rs @ [r]" by (auto simp: newest_last)
  have "filter (of_kind server ty) (filter p t) = filter p (filter (of_kind server ty) t)"
    by (simp add: conj_commute)
  also have "\<dots> = filter p rs @ [r]" using assms [OF Some] by (simp add: rs)
  finally have "newest (filter p t) server ty = Some r" using newest_last by blast
  with Some show ?thesis by simp
qed

lemma trim_keeps_newest:
  assumes "in_order t" and "0 < snd p"
  shows "newest (trim_history server p t) server' ty = newest t server' ty"
  unfolding trim_history_def delete_where_def
proof (rule newest_keep)
  fix r assume r: "newest t server' ty = Some r"
  show "\<not> (of_kind server (fst p) r
      \<and> sn_seq r \<notin> sn_seq ` set (sql_limit (snd p) (newest_first server (fst p) t)))"
  proof
    assume bad: "of_kind server (fst p) r \<and> sn_seq r \<notin> sn_seq ` set (sql_limit (snd p) (newest_first server (fst p) t))"
    with newest_SomeD [OF r] have "server' = server" "ty = fst p" by (auto simp: of_kind_def)
    with r obtain rs where "filter (of_kind server (fst p)) t = rs @ [r]" by (auto simp: newest_last)
    then have "newest_first server (fst p) t = r # rev rs" by (simp add: newest_first_rev [OF assms(1)])
    then have "r \<in> set (sql_limit (snd p) (newest_first server (fst p) t))"
      using assms(2) by (cases "nat (snd p)") (auto simp: sql_limit_def)
    with bad show False by blast
  qed
qed

lemma trim_in_order: "in_order t \<Longrightarrow> in_order (trim_history server q t)"
  by (simp add: trim_history_def delete_where_def in_order_filter)

lemma trims_keep_newest:
  assumes "in_order t" and "\<forall>p \<in> set ds. 0 < snd p"
  shows "newest (foldl (\<lambda>t p. trim_history server p t) t ds) server' ty = newest t server' ty"
  using assms
proof (induction ds arbitrary: t)
  case (Cons p ds)
  have "in_order (trim_history server p t)" using trim_in_order [OF Cons.prems(1)] .
  with Cons.IH [of "trim_history server p t"] Cons.prems trim_keeps_newest [of t p server] show ?case by simp
qed simp

lemma length_of_kind_filter: "length (filter (of_kind s ty) (filter p t)) \<le> length (filter (of_kind s ty) t)"
proof -
  have "filter (of_kind s ty) (filter p t) = filter p (filter (of_kind s ty) t)" by (simp add: conj_commute)
  then show ?thesis by (metis length_filter_le)
qed

lemma trim_bounds:
  assumes "in_order t" and "0 \<le> snd p"
  shows "int (length (filter (of_kind server (fst p)) (trim_history server p t))) \<le> snd p"
proof -
  let ?k = "filter (of_kind server (fst p)) t"
  let ?top = "sql_limit (snd p) (newest_first server (fst p) t)"
  have ord: "in_order ?k" using in_order_filter [OF assms(1)] .
  let ?h = "filter (\<lambda>r. sn_seq r \<in> sn_seq ` set ?top) ?k"
  have eq: "filter (of_kind server (fst p)) (trim_history server p t) = ?h"
    by (auto simp: trim_history_def delete_where_def intro: filter_cong)
  have "in_order ?h" using in_order_filter [OF ord] .
  then have "distinct (map sn_seq ?h)" by (simp add: in_order_def strict_sorted_iff)
  then have "length ?h = card (set (map sn_seq ?h))" using distinct_card by fastforce
  moreover have "card (set (map sn_seq ?h)) \<le> card (sn_seq ` set ?top)" by (rule card_mono) auto
  moreover have "card (sn_seq ` set ?top) \<le> length ?top" by (meson card_image_le card_length finite_set le_trans)
  ultimately show ?thesis unfolding eq using length_sql_limit [OF assms(2), of "newest_first server (fst p) t"] by linarith
qed

lemma trims_bound:
  assumes "in_order t" and "(ty, n) \<in> set ds" and "0 \<le> n"
  shows "int (length (filter (of_kind server ty) (foldl (\<lambda>t p. trim_history server p t) t ds))) \<le> n"
  using assms
proof (induction ds arbitrary: t)
  case (Cons p ds)
  have ord: "in_order (trim_history server p t)" using trim_in_order [OF Cons.prems(1)] .
  show ?case
  proof (cases "(ty, n) \<in> set ds")
    case True
    with Cons.IH [OF ord] Cons.prems(3) show ?thesis by simp
  next
    case False
    with Cons.prems(2) have p: "p = (ty, n)" by simp
    obtain q where "foldl (\<lambda>t p. trim_history server p t) (trim_history server p t) ds = filter q (trim_history server p t)"
      using trim_is_filter by blast
    with length_of_kind_filter [of server ty q "trim_history server p t"] trim_bounds [OF Cons.prems(1), of p server]
      Cons.prems(3) p show ?thesis by simp
  qed
qed simp

subsection \<open>What a batch stores\<close>

text \<open>The snapshots of a batch whose envelope is neither claimed nor stored yet, each once.\<close>

fun fresh_snapshots :: "string set \<Rightarrow> new_snapshot list \<Rightarrow> new_snapshot list" where
  "fresh_snapshots seen [] = []"
| "fresh_snapshots seen (s # ss) =
     (if np_envelope s \<in> seen then fresh_snapshots seen ss
      else s # fresh_snapshots (insert (np_envelope s) seen) ss)"

definition seen_envelopes :: "db \<Rightarrow> string \<Rightarrow> string set" where
  "seen_envelopes d server =
     {e. (server, e) \<in> dedup_id ` set (snapshot_dedup d) \<or> (server, e) \<in> snapshot_id ` set (snapshots d)}"

definition row_for :: "string \<Rightarrow> time \<Rightarrow> snapshot_row \<Rightarrow> new_snapshot \<Rightarrow> bool" where
  "row_for server now r s = (\<exists>q. r = snapshot_row_of server now q s)"

lemma snapshot_ids [simp]:
  "snapshot_id (snapshot_row_of server now q s) = (server, np_envelope s)"
  "dedup_id \<lparr>dd_server = server, dd_envelope = e, dd_expires = x\<rparr> = (server, e)"
  by (simp_all add: snapshot_id_def snapshot_row_of_def dedup_id_def)

lemma insert_snapshot_cases:
  assumes "insert_snapshot d server s now = (b, n, d')"
  shows "seen_envelopes d' server = insert (np_envelope s) (seen_envelopes d server)
    \<and> (if np_envelope s \<in> seen_envelopes d server then n = 0 \<and> snapshots d' = snapshots d
       else b \<and> n = 1 \<and> (\<exists>r. row_for server now r s \<and> snapshots d' = snapshots d @ [r]))"
  using assms
  by (auto simp: insert_snapshot_def Let_def seen_envelopes_def row_for_def split: if_splits)

lemma insert_snapshot_rows_effect:
  assumes "insert_snapshot_rows d server ss now ds = (n, ds', d')"
  shows "n = int (length (fresh_snapshots (seen_envelopes d server) ss))
    \<and> (\<exists>rows. snapshots d' = snapshots d @ rows
          \<and> list_all2 (row_for server now) rows (fresh_snapshots (seen_envelopes d server) ss))"
  using assms
proof (induction ss arbitrary: d ds n)
  case Nil
  then show ?case by simp
next
  case (Cons s ss)
  obtain b m d1 where i: "insert_snapshot d server s now = (b, m, d1)" by (metis prod_cases3)
  note I = insert_snapshot_cases [OF i]
  from i Cons.prems obtain n' where n: "n = m + n'" and
    r: "insert_snapshot_rows d1 server ss now (if b then raise_depth (np_type s) (np_depth s) ds else ds) = (n', ds', d')"
    by (auto split: prod.splits)
  from Cons.IH [OF r] obtain rows where rows: "snapshots d' = snapshots d1 @ rows"
    "list_all2 (row_for server now) rows (fresh_snapshots (seen_envelopes d1 server) ss)"
    "n' = int (length (fresh_snapshots (seen_envelopes d1 server) ss))" by blast
  show ?case
  proof (cases "np_envelope s \<in> seen_envelopes d server")
    case True
    with I have "m = 0" "snapshots d1 = snapshots d" "seen_envelopes d1 server = seen_envelopes d server"
      by (simp_all add: insert_absorb)
    with rows n True show ?thesis by simp
  next
    case False
    with I obtain x where "m = 1" "row_for server now x s" "snapshots d1 = snapshots d @ [x]"
      "seen_envelopes d1 server = insert (np_envelope s) (seen_envelopes d server)" by auto
    with rows n False show ?thesis by (auto intro!: exI [of _ "x # rows"])
  qed
qed

definition depths_ok :: "(string \<times> int) list \<Rightarrow> bool" where
  "depths_ok ds = (distinct (map fst ds) \<and> (\<forall>p \<in> set ds. 0 < snd p))"

lemma depth_of_pos: "depths_ok ds \<Longrightarrow> 0 \<le> depth_of ds ty"
  by (auto simp: depth_of_def depths_ok_def split: option.split dest!: map_of_SomeD)

lemma raise_depth_ok: "depths_ok ds \<Longrightarrow> depths_ok (raise_depth ty n ds)"
  using depth_of_pos [of ds ty] by (auto simp: raise_depth_def depths_ok_def distinct_map_filter)

lemma map_of_filter_ne: "map_of (filter (\<lambda>p. fst p \<noteq> k) ds) j = (if j = k then None else map_of ds j)"
  by (induction ds) auto

lemma depth_of_raise: "depth_of (raise_depth ty n ds) ty' = (if ty' = ty then max n (depth_of ds ty) else depth_of ds ty')"
  by (auto simp: raise_depth_def depth_of_def map_of_filter_ne)

lemma insert_depths_mono:
  assumes "insert_snapshot_rows d server ss now ds = (n, ds', d')" and "depths_ok ds"
  shows "depth_of ds ty \<le> depth_of ds' ty"
  using assms
proof (induction ss arbitrary: d ds n)
  case (Cons s ss)
  obtain b m d1 where i: "insert_snapshot d server s now = (b, m, d1)" by (metis prod_cases3)
  let ?ds = "if b then raise_depth (np_type s) (np_depth s) ds else ds"
  from i Cons.prems(1) obtain n' where "insert_snapshot_rows d1 server ss now ?ds = (n', ds', d')"
    by (auto split: prod.splits)
  moreover have "depths_ok ?ds" using Cons.prems(2) raise_depth_ok by simp
  moreover have "depth_of ds ty \<le> depth_of ?ds ty" by (simp add: depth_of_raise)
  ultimately show ?case using Cons.IH by (meson order_trans)
qed simp

lemma insert_snapshot_rows_depths:
  assumes "insert_snapshot_rows d server ss now ds = (n, ds', d')" and "depths_ok ds"
  shows "depths_ok ds' \<and> depth_of ds ty \<le> depth_of ds' ty
    \<and> (\<forall>s \<in> set (fresh_snapshots (seen_envelopes d server) ss). np_depth s \<le> depth_of ds' (np_type s))
    \<and> (\<forall>N. depth_of ds ty \<le> N \<longrightarrow> (\<forall>s \<in> set ss. np_type s = ty \<longrightarrow> np_depth s \<le> N) \<longrightarrow> depth_of ds' ty \<le> N)"
  using assms
proof (induction ss arbitrary: d ds n)
  case Nil
  then show ?case by simp
next
  case (Cons s ss)
  obtain b m d1 where i: "insert_snapshot d server s now = (b, m, d1)" by (metis prod_cases3)
  note I = insert_snapshot_cases [OF i]
  let ?ds = "if b then raise_depth (np_type s) (np_depth s) ds else ds"
  from i Cons.prems(1) obtain n' where r: "insert_snapshot_rows d1 server ss now ?ds = (n', ds', d')"
    by (auto split: prod.splits)
  have ok: "depths_ok ?ds" using Cons.prems(2) raise_depth_ok by simp
  note IH = Cons.IH [OF r ok]
  have up: "depth_of ds x \<le> depth_of ?ds x" for x by (simp add: depth_of_raise)
  have this_one: "np_depth s \<le> depth_of ds' (np_type s)" if "np_envelope s \<notin> seen_envelopes d server"
  proof -
    have "np_depth s \<le> depth_of ?ds (np_type s)" using I that by (simp add: depth_of_raise)
    also have "\<dots> \<le> depth_of ds' (np_type s)" by (rule insert_depths_mono [OF r ok])
    finally show ?thesis .
  qed
  show ?case
  proof (intro conjI ballI allI impI)
    show "depths_ok ds'" using IH by blast
    show "depth_of ds ty \<le> depth_of ds' ty" using IH up [of ty] by linarith
    fix x assume "x \<in> set (fresh_snapshots (seen_envelopes d server) (s # ss))"
    then show "np_depth x \<le> depth_of ds' (np_type x)"
      using IH I this_one by (auto simp: insert_absorb split: if_splits)
  next
    fix N assume "depth_of ds ty \<le> N" and all: "\<forall>x \<in> set (s # ss). np_type x = ty \<longrightarrow> np_depth x \<le> N"
    then have "depth_of ?ds ty \<le> N" by (auto simp: depth_of_raise)
    with IH all show "depth_of ds' ty \<le> N" by simp
  qed
qed

subsection \<open>The properties of ingest\<close>

lemma insert_snapshots_split:
  assumes "\<And>xs. set (shuffle xs) = set xs" and "insert_snapshots shuffle d server ss now = (n, d')"
  obtains ds d1 where "insert_snapshot_rows d server ss now [] = (n, ds, d1)"
    and "snapshots d' = foldl (\<lambda>t p. trim_history server p t) (snapshots d1) (shuffle ds)"
    and "snapshot_counter d' = snapshot_counter d1" and "snapshot_dedup d' = snapshot_dedup d1"
    and "depths_ok ds"
proof (cases "ss = []")
  case True
  moreover have "shuffle [] = []" using assms(1) [of "[]"] by simp
  ultimately show ?thesis using assms(2) that [of "[]" d] by (simp add: insert_snapshots_def depths_ok_def)
next
  case False
  obtain m ds d1 where r: "insert_snapshot_rows d server ss now [] = (m, ds, d1)" by (metis prod_cases3)
  have "depths_ok []" by (simp add: depths_ok_def)
  with insert_snapshot_rows_depths [OF r] have "depths_ok ds" by blast
  with r False assms(2) that show ?thesis by (auto simp: insert_snapshots_def)
qed

lemma newest_append: "newest (t @ rows) server ty =
    (case newest rows server ty of None \<Rightarrow> newest t server ty | Some r \<Rightarrow> Some r)"
proof (cases "newest rows server ty")
  case None
  then have "filter (of_kind server ty) rows = []" by (simp add: newest_NoneD filter_empty_conv)
  then show ?thesis using None by (simp add: newest_def)
next
  case (Some r)
  then obtain rs where "filter (of_kind server ty) rows = rs @ [r]" by (auto simp: newest_last)
  then have "filter (of_kind server ty) (t @ rows) = (filter (of_kind server ty) t @ rs) @ [r]" by simp
  then have "newest (t @ rows) server ty = Some r" using newest_last by blast
  with Some show ?thesis by simp
qed

lemma newest_rows_for:
  assumes "list_all2 (row_for server now) rows acc"
  shows "newest rows server' ty =
    (if server' = server then
       (case filter (\<lambda>s. np_type s = ty) acc of [] \<Rightarrow> None
        | x # xs \<Rightarrow> newest rows server ty)
     else None)"
    and "filter (\<lambda>s. np_type s = ty) acc \<noteq> [] \<Longrightarrow>
      \<exists>r. newest rows server ty = Some r \<and> row_for server now r (last (filter (\<lambda>s. np_type s = ty) acc))"
proof -
  have kinds: "of_kind server ty r \<longleftrightarrow> np_type s = ty" "server' \<noteq> server \<Longrightarrow> \<not> of_kind server' ty r"
    if "row_for server now r s" for r s
    using that by (auto simp: row_for_def of_kind_def snapshot_row_of_def)
  have sel: "list_all2 (row_for server now) (filter (of_kind server ty) rows) (filter (\<lambda>s. np_type s = ty) acc)"
    using assms kinds(1) by (induction rule: list_all2_induct) auto
  then have empty: "filter (of_kind server ty) rows = [] \<longleftrightarrow> filter (\<lambda>s. np_type s = ty) acc = []"
    by (auto dest: list_all2_lengthD)
  have other: "server' \<noteq> server \<Longrightarrow> filter (of_kind server' ty) rows = []"
    using assms kinds(2) by (induction rule: list_all2_induct) auto
  show "newest rows server' ty =
    (if server' = server then
       (case filter (\<lambda>s. np_type s = ty) acc of [] \<Rightarrow> None | x # xs \<Rightarrow> newest rows server ty)
     else None)"
    using empty other by (auto simp: newest_def split: list.split)
  assume ne: "filter (\<lambda>s. np_type s = ty) acc \<noteq> []"
  then obtain xs x where xs: "filter (\<lambda>s. np_type s = ty) acc = xs @ [x]" by (metis rev_exhaust)
  then obtain rs r where "filter (of_kind server ty) rows = rs @ [r]" "row_for server now r x"
    using sel by (auto simp: list_all2_append2 list_all2_Cons2)
  then have "newest rows server ty = Some r" using newest_last by blast
  with xs \<open>row_for server now r x\<close> show "\<exists>r. newest rows server ty = Some r
      \<and> row_for server now r (last (filter (\<lambda>s. np_type s = ty) acc))" by simp
qed

text \<open>
  The latest snapshot of a kind is the one accepted last: after a batch it is the last one of that
  kind in the batch that had not been stored before, whatever the capture times say and whatever the
  trim removes; replayed envelopes and other kinds and servers change nothing, and the batch reports
  exactly the snapshots it stored.
\<close>

lemma latest_is_last_accepted:
  assumes "snap_inv d" and "\<And>xs. set (shuffle xs) = set xs"
    and "insert_snapshots shuffle d server ss now = (n, d')"
    and "acc = fresh_snapshots (seen_envelopes d server) ss"
  shows "n = int (length acc)
    \<and> (\<forall>ty. latest_snapshot d' server ty =
        (case filter (\<lambda>s. np_type s = ty) acc of
           [] \<Rightarrow> latest_snapshot d server ty
         | x # xs \<Rightarrow> Inr (scan_snapshot (snapshot_row_of server now 0 (last (x # xs))))))
    \<and> (\<forall>s ty. s \<noteq> server \<longrightarrow> latest_snapshot d' s ty = latest_snapshot d s ty)"
proof -
  from assms(2,3) obtain ds d1 where r: "insert_snapshot_rows d server ss now [] = (n, ds, d1)"
    and d': "snapshots d' = foldl (\<lambda>t p. trim_history server p t) (snapshots d1) (shuffle ds)" and ds: "depths_ok ds"
    by (rule insert_snapshots_split)
  from insert_snapshot_rows_effect [OF r] obtain rows where n: "n = int (length acc)"
    and rows: "snapshots d1 = snapshots d @ rows" "list_all2 (row_for server now) rows acc"
    unfolding assms(4) by blast
  have inv: "snap_inv d1" "snap_inv d'"
    using insert_snapshot_rows_inv [OF assms(1) r] insert_snapshots_inv [OF assms(1,3)] by auto
  have "newest (snapshots d') s ty = newest (snapshots d1) s ty" for s ty
    unfolding d' using ds assms(2) by (intro trims_keep_newest snap_in_order [OF inv(1)]) (auto simp: depths_ok_def)
  then have new: "newest (snapshots d') s ty =
      (case newest rows s ty of None \<Rightarrow> newest (snapshots d) s ty | Some r \<Rightarrow> Some r)" for s ty
    by (simp add: rows(1) newest_append)
  have scan: "scan_snapshot x = scan_snapshot (snapshot_row_of server now 0 s)" if "row_for server now x s" for x s
    using that by (auto simp: row_for_def scan_snapshot_def snapshot_row_of_def)
  have "latest_snapshot d' s ty = latest_snapshot d s ty" if "s \<noteq> server" for s ty
    using newest_rows_for(1) [OF rows(2), of s ty] new that
    by (simp add: latest_newest [OF inv(2)] latest_newest [OF assms(1)])
  moreover have "latest_snapshot d' server ty =
        (case filter (\<lambda>s. np_type s = ty) acc of
           [] \<Rightarrow> latest_snapshot d server ty
         | x # xs \<Rightarrow> Inr (scan_snapshot (snapshot_row_of server now 0 (last (x # xs)))))" for ty
  proof (cases "filter (\<lambda>s. np_type s = ty) acc")
    case Nil
    with newest_rows_for(1) [OF rows(2), of server ty] new show ?thesis
      by (simp add: latest_newest [OF inv(2)] latest_newest [OF assms(1)])
  next
    case (Cons x xs)
    with newest_rows_for(2) [OF rows(2), of ty] obtain r where "newest rows server ty = Some r"
      "row_for server now r (last (x # xs))" by auto
    with Cons new scan show ?thesis by (simp add: latest_newest [OF inv(2)])
  qed
  ultimately show ?thesis using n by blast
qed

text \<open>
  History is bounded where it grows: after a batch that stores a snapshot of a kind, at most the
  configured depth of that kind remains, however many were pushed.
\<close>

lemma history_depth_bounded:
  assumes "snap_inv d" and "\<And>xs. set (shuffle xs) = set xs"
    and "insert_snapshots shuffle d server ss now = (n, d')"
    and "s \<in> set (fresh_snapshots (seen_envelopes d server) ss)" and "np_type s = ty"
    and "0 < N" and "\<forall>x \<in> set ss. np_type x = ty \<longrightarrow> np_depth x \<le> N" and "np_depth s = N"
  shows "int (length (snapshot_history d' server ty limit)) \<le> N"
proof -
  from assms(2,3) obtain ds d1 where r: "insert_snapshot_rows d server ss now [] = (n, ds, d1)"
    and d': "snapshots d' = foldl (\<lambda>t p. trim_history server p t) (snapshots d1) (shuffle ds)"
    by (rule insert_snapshots_split)
  have ok0: "depths_ok []" "depth_of [] ty = 0" by (simp_all add: depths_ok_def depth_of_def)
  from insert_snapshot_rows_depths [OF r ok0(1), of ty] assms(4-8) ok0(2)
  have "depth_of ds ty = N" by (metis dual_order.antisym less_imp_le)
  then have "(ty, N) \<in> set ds" using assms(6) by (auto simp: depth_of_def split: option.splits dest: map_of_SomeD)
  then have "(ty, N) \<in> set (shuffle ds)" by (simp add: assms(2))
  from trims_bound [OF snap_in_order [OF insert_snapshot_rows_inv [OF assms(1) r]] this, of server] assms(6)
  have "int (length (filter (of_kind server ty) (snapshots d'))) \<le> N" by (simp add: d')
  moreover have "length (snapshot_history d' server ty limit) \<le> length (filter (of_kind server ty) (snapshots d'))"
    by (simp add: snapshot_history_def sql_limit_def newest_first_def)
  ultimately show ?thesis by linarith
qed

subsection \<open>Runs of ingests and retention passes\<close>

datatype snapshot_event =
    Push string "new_snapshot list" time
  | PruneSnapshots int time

fun snapshot_step ::
  "((string \<times> int) list \<Rightarrow> (string \<times> int) list) \<Rightarrow> (int \<Rightarrow> snapshot_row list \<Rightarrow> snapshot_row list)
    \<Rightarrow> (int \<Rightarrow> dedup_row list \<Rightarrow> dedup_row list) \<Rightarrow> db \<Rightarrow> snapshot_event \<Rightarrow> db" where
  "snapshot_step shuffle pick pick_markers d (Push server ss now) = snd (insert_snapshots shuffle d server ss now)"
| "snapshot_step shuffle pick pick_markers d (PruneSnapshots limit now) =
     snd (prune_snapshots pick pick_markers d limit now)"

lemma snapshot_step_inv: "snap_inv d \<Longrightarrow> snap_inv (snapshot_step shuffle pick pick_markers d e)"
  by (cases e) (auto simp: prune_snapshots_inv intro: insert_snapshots_inv prod.collapse [symmetric])

text \<open>Retention leaves the newest row of every kind standing.\<close>

lemma prune_keeps_newest:
  assumes "\<And>n t. set (pick n t) \<subseteq> set t" and "snap_inv d"
  shows "newest (snapshots (snd (prune_snapshots pick pick_markers d limit now))) server ty
    = newest (snapshots d) server ty"
proof -
  let ?n = "if limit \<le> 0 then default_prune_batch else limit"
  let ?old = "pick ?n (filter (snapshot_stale (snapshots d) (format_time now)) (snapshots d))"
  have ord: "in_order (snapshots d)" using snap_in_order [OF assms(2)] .
  then have keys: "distinct (map sn_seq (snapshots d))" by (simp add: in_order_def strict_sorted_iff)
  have "sn_seq r \<notin> sn_seq ` set ?old" if r: "newest (snapshots d) server ty = Some r" for r
  proof
    assume "sn_seq r \<in> sn_seq ` set ?old"
    then obtain x where x: "x \<in> set ?old" "sn_seq x = sn_seq r" by auto
    then have x': "x \<in> set (snapshots d)" "snapshot_stale (snapshots d) (format_time now) x"
      using assms(1) by fastforce+
    with key_unique [OF keys x'(1)] newest_SomeD [OF r] x(2) have "x = r" by blast
    with x'(2) newest_SomeD [OF r] obtain y where "y \<in> set (snapshots d)" "of_kind server ty y" "sn_seq r < sn_seq y"
      by (auto simp: snapshot_stale_def exists_row_def of_kind_def)
    with newest_max [OF ord r] show False by fastforce
  qed
  then have "newest (filter (\<lambda>r. sn_seq r \<notin> sn_seq ` set ?old) (snapshots d)) server ty = newest (snapshots d) server ty"
    by (rule newest_keep)
  then show ?thesis by (simp add: prune_snapshots_def Let_def delete_ids_def delete_where_def)
qed

definition latest_le :: "db \<Rightarrow> db \<Rightarrow> bool" where
  "latest_le d d' = (\<forall>server ty r. newest (snapshots d) server ty = Some r \<longrightarrow>
     (\<exists>r'. newest (snapshots d') server ty = Some r' \<and> sn_seq r \<le> sn_seq r'))"

lemma push_latest_le:
  assumes "snap_inv d" and "\<And>xs. set (shuffle xs) = set xs"
  shows "latest_le d (snd (insert_snapshots shuffle d server ss now))"
  unfolding latest_le_def
proof (intro allI impI)
  fix s ty r
  assume old: "newest (snapshots d) s ty = Some r"
  obtain n d' where run: "insert_snapshots shuffle d server ss now = (n, d')" by fastforce
  from assms(2) run obtain ds d1 where r: "insert_snapshot_rows d server ss now [] = (n, ds, d1)"
    and d': "snapshots d' = foldl (\<lambda>t p. trim_history server p t) (snapshots d1) (shuffle ds)" and ds: "depths_ok ds"
    by (rule insert_snapshots_split)
  from insert_snapshot_rows_effect [OF r] obtain rows where rows: "snapshots d1 = snapshots d @ rows" by blast
  have inv: "snap_inv d1" using insert_snapshot_rows_inv [OF assms(1) r] .
  have "newest (snapshots d') s ty = newest (snapshots d1) s ty"
    unfolding d' using ds assms(2) by (intro trims_keep_newest snap_in_order [OF inv]) (auto simp: depths_ok_def)
  moreover have "\<exists>r'. newest (snapshots d1) s ty = Some r'"
    using old by (simp add: rows newest_append split: option.split)
  moreover have "r \<in> set (snapshots d1)" "of_kind s ty r" using newest_SomeD [OF old] by (simp_all add: rows)
  ultimately show "\<exists>r'. newest (snapshots (snd (insert_snapshots shuffle d server ss now))) s ty = Some r' \<and> sn_seq r \<le> sn_seq r'"
    using newest_max [OF snap_in_order [OF inv]] run by auto
qed

text \<open>
  The store's own step, with its iteration orders and the rows its LIMIT clauses pick fixed to
  arbitrary admissible choices, is a monotone machine.
\<close>



locale snapshot_choices =
  fixes shuffle :: "(string \<times> int) list \<Rightarrow> (string \<times> int) list"
    and pick :: "int \<Rightarrow> snapshot_row list \<Rightarrow> snapshot_row list"
    and pick_markers :: "int \<Rightarrow> dedup_row list \<Rightarrow> dedup_row list"
  assumes shuffle_set: "set (shuffle xs) = set xs"
    and pick_rows: "set (pick n t) \<subseteq> set t"
    and pick_marker_rows: "set (pick_markers n m) \<subseteq> set m"

sublocale snapshot_choices \<subseteq> machine: monotone_machine "snapshot_step shuffle pick pick_markers" snap_inv latest_le
proof
  fix d d' d'' e
  show "snap_inv d \<Longrightarrow> snap_inv (snapshot_step shuffle pick pick_markers d e)" by (rule snapshot_step_inv)
  show "latest_le d d" by (simp add: latest_le_def)
  show "latest_le d d' \<Longrightarrow> latest_le d' d'' \<Longrightarrow> latest_le d d''" unfolding latest_le_def by (meson order_trans)
  show "snap_inv d \<Longrightarrow> latest_le d (snapshot_step shuffle pick pick_markers d e)"
    using push_latest_le [OF _ shuffle_set, of d] prune_keeps_newest [OF pick_rows, of d]
    by (cases e) (auto simp: latest_le_def)
qed

text \<open>A pass before a marker's expiry leaves it.\<close>

definition marked_until :: "stamp \<Rightarrow> db \<Rightarrow> string \<times> string \<Rightarrow> bool" where
  "marked_until X d k = (distinct (map dedup_id (snapshot_dedup d))
     \<and> (\<exists>m \<in> set (snapshot_dedup d). dedup_id m = k \<and> dd_expires m = X))"

definition before :: "stamp \<Rightarrow> snapshot_event \<Rightarrow> bool" where
  "before X e = (case e of Push _ _ _ \<Rightarrow> True | PruneSnapshots _ now \<Rightarrow> format_time now < X)"

lemma insert_rows_marked:
  "insert_snapshot_rows d server ss now ds = (n, ds', d') \<Longrightarrow> marked_until X d k \<Longrightarrow> marked_until X d' k"
proof (induction ss arbitrary: d ds n)
  case (Cons s ss)
  obtain b m d1 where i: "insert_snapshot d server s now = (b, m, d1)" by (metis prod_cases3)
  with Cons.prems(1) obtain n' where
    r: "insert_snapshot_rows d1 server ss now (if b then raise_depth (np_type s) (np_depth s) ds else ds) = (n', ds', d')"
    by (auto split: prod.splits)
  have "marked_until X d1 k"
    using i Cons.prems(2) by (fastforce simp: insert_snapshot_def Let_def marked_until_def split: if_splits)
  from Cons.IH [OF r this] show ?case .
qed simp

context snapshot_choices
begin

lemma run_latest: "snap_inv d \<Longrightarrow> latest_le d (run_steps (snapshot_step shuffle pick pick_markers) d es)"
  by (rule machine.run_rel)

lemma run_snap_inv: "snap_inv d \<Longrightarrow> snap_inv (run_steps (snapshot_step shuffle pick pick_markers) d es)"
  by (rule machine.run_inv)

lemma prune_marked:
  assumes "marked_until X d k" and "format_time now < X"
  shows "marked_until X (snd (prune_snapshots pick pick_markers d limit now)) k"
proof -
  from assms(1) obtain m where m: "m \<in> set (snapshot_dedup d)" "dedup_id m = k" "dd_expires m = X"
    and dist: "distinct (map dedup_id (snapshot_dedup d))" by (auto simp: marked_until_def)
  have "dedup_id m \<notin> dedup_id ` set (pick_markers n (filter (marker_expired (format_time now)) (snapshot_dedup d)))" for n
  proof
    assume "dedup_id m \<in> dedup_id ` set (pick_markers n (filter (marker_expired (format_time now)) (snapshot_dedup d)))"
    then obtain y where y: "y \<in> set (snapshot_dedup d)" "marker_expired (format_time now) y" "dedup_id y = dedup_id m"
      using pick_marker_rows by fastforce
    with key_unique [OF dist y(1) m(1)] m(3) assms(2) show False by (simp add: marker_expired_def)
  qed
  with m dist show ?thesis
    by (auto simp: marked_until_def prune_snapshots_def Let_def delete_ids_def)
qed

lemma run_marked:
  "marked_until X d k \<Longrightarrow> list_all (before X) es
    \<Longrightarrow> marked_until X (run_steps (snapshot_step shuffle pick pick_markers) d es) k"
proof (induction es arbitrary: d)
  case (Cons e es)
  have "marked_until X (snapshot_step shuffle pick pick_markers d e) k"
  proof (cases e)
    case (Push server ss now)
    obtain n d' where run: "insert_snapshots shuffle d server ss now = (n, d')" by fastforce
    from shuffle_set run obtain ds d1 where "insert_snapshot_rows d server ss now [] = (n, ds, d1)"
      "snapshot_dedup d' = snapshot_dedup d1" by (rule insert_snapshots_split)
    with insert_rows_marked [OF this(1) Cons.prems(1)] Push run show ?thesis by (simp add: marked_until_def)
  next
    case (PruneSnapshots limit now)
    with Cons.prems prune_marked show ?thesis by (simp add: before_def)
  qed
  with Cons show ?case by simp
qed simp

end

interpretation engine: snapshot_choices id sql_limit sql_limit
  by unfold_locales (auto dest: subsetD [OF set_sql_limit])

interpretation snapshot_log: dedup_log
  "\<lambda>d k. k \<in> dedup_id ` set (snapshot_dedup d)"
  "\<lambda>d k x. (Inr (insert_snapshots id d (fst k) [(snd x)\<lparr>np_envelope := snd k\<rparr>] (fst x)) :: store_error + int \<times> db)"
proof
  fix d d' :: db and k j :: "string \<times> string" and x :: "time \<times> new_snapshot" and n :: int
  let ?s = "(snd x)\<lparr>np_envelope := snd k\<rparr>"
  obtain b m d1 where i: "insert_snapshot d (fst k) ?s (fst x) = (b, m, d1)" by (metis prod_cases3)
  show "(Inr (insert_snapshots id d (fst k) [?s] (fst x)) :: store_error + int \<times> db) = Inr (0, d)"
    if "k \<in> dedup_id ` set (snapshot_dedup d)"
    using that by (simp add: insert_snapshots_def insert_snapshot_def)
  assume run: "(Inr (insert_snapshots id d (fst k) [?s] (fst x)) :: store_error + int \<times> db) = Inr (n, d')"
  have marks: "dedup_id ` set (snapshot_dedup d1) = insert k (dedup_id ` set (snapshot_dedup d))"
    using i by (auto simp: insert_snapshot_def Let_def insert_absorb split: if_splits)
  have "snapshot_dedup d' = snapshot_dedup d1"
    using run i by (auto simp: insert_snapshots_def split: prod.splits)
  with marks show "0 < n \<Longrightarrow> k \<in> dedup_id ` set (snapshot_dedup d')"
    and "j \<in> dedup_id ` set (snapshot_dedup d) \<Longrightarrow> j \<in> dedup_id ` set (snapshot_dedup d')" by auto
qed

text \<open>
  A server's last known state is never lost and never steps back: whatever is pushed and whatever
  the retention pass and the trims remove, in any order and at any times, a kind that had a latest
  snapshot has one, accepted no earlier.
\<close>

lemma latest_never_regresses:
  assumes "snap_inv d" and "\<And>xs. set (shuffle xs) = set xs"
    and "\<And>n t. set (pick n t) \<subseteq> set t" and "\<And>n m. set (pick_markers n m) \<subseteq> set m"
    and "newest (snapshots d) server ty = Some r"
    and "d' = run_steps (snapshot_step shuffle pick pick_markers) d es"
  shows "\<exists>r'. latest_snapshot d' server ty = Inr (scan_snapshot r') \<and> r' \<in> set (snapshots d')
    \<and> of_kind server ty r' \<and> sn_seq r \<le> sn_seq r'"
proof -
  have "snapshot_choices shuffle pick pick_markers" using assms(2-4) by unfold_locales
  from snapshot_choices.run_latest [OF this assms(1), of es] snapshot_choices.run_snap_inv [OF this assms(1), of es]
  obtain r' where "newest (snapshots d') server ty = Some r'" "sn_seq r \<le> sn_seq r'" "snap_inv d'"
    using assms(5,6) unfolding latest_le_def by blast
  with newest_SomeD [OF this(1)] show ?thesis by (auto simp: latest_newest)
qed

text \<open>
  A replay cannot regress the latest snapshot: within the history window of an accepted envelope,
  that is as long as no retention pass ran at or after its expiry, sending the envelope again, with
  any content and after any other traffic, stores nothing and changes nothing.
\<close>

lemma snapshot_replay_harmless:
  assumes "snap_inv d" and "\<And>xs. set (shuffle xs) = set xs"
    and "\<And>n t. set (pick n t) \<subseteq> set t" and "\<And>n m. set (pick_markers n m) \<subseteq> set m"
    and "insert_snapshots shuffle d server [s] now = (1, d1)"
    and "list_all (before (format_time (now + np_retention s))) es"
    and "d2 = run_steps (snapshot_step shuffle pick pick_markers) d1 es"
    and "np_envelope s' = np_envelope s"
  shows "insert_snapshots shuffle d2 server [s'] later = (0, d2)"
proof -
  let ?X = "format_time (now + np_retention s)"
  have ch: "snapshot_choices shuffle pick pick_markers" using assms(2-4) by unfold_locales
  from assms(2,5) obtain ds e where r: "insert_snapshot_rows d server [s] now [] = (1, ds, e)"
    and d1: "snapshot_dedup d1 = snapshot_dedup e" by (rule insert_snapshots_split)
  from r have "(server, np_envelope s) \<notin> dedup_id ` set (snapshot_dedup d)"
    by (auto simp: insert_snapshot_def split: if_splits)
  with r have "snapshot_dedup e = snapshot_dedup d @
      [\<lparr>dd_server = server, dd_envelope = np_envelope s, dd_expires = ?X\<rparr>]"
    by (auto simp: insert_snapshot_def Let_def split: if_splits)
  with \<open>(server, np_envelope s) \<notin> dedup_id ` set (snapshot_dedup d)\<close> assms(1)
  have "marked_until ?X d1 (server, np_envelope s)"
    by (auto simp: marked_until_def snap_inv_def d1)
  from snapshot_choices.run_marked [OF ch this assms(6)]
  have "(server, np_envelope s') \<in> dedup_id ` set (snapshot_dedup d2)"
    unfolding assms(7,8) marked_until_def by force
  moreover have "shuffle [] = []" using assms(2) [of "[]"] by simp
  ultimately show ?thesis by (simp add: insert_snapshots_def insert_snapshot_def)
qed

subsection \<open>The properties at a concrete server\<close>

definition sample_snapshot :: "string \<Rightarrow> new_snapshot" where
  "sample_snapshot e = \<lparr>np_envelope = e, np_type = ''players'', np_captured = None, np_body = ''{}'',
     np_retention = 86400000000000, np_depth = 1\<rparr>"

lemma sample_snapshot_simps [simp]:
  "np_envelope (sample_snapshot e) = e" "np_type (sample_snapshot e) = ''players''"
  "np_depth (sample_snapshot e) = 1" "np_retention (sample_snapshot e) = 86400000000000"
  by (simp_all add: sample_snapshot_def)

lemma empty_snap_inv [simp]: "snap_inv empty_db"
  by (simp add: snap_inv_def)

lemma sample_push:
  "insert_snapshots id empty_db ''s1'' [sample_snapshot ''m1''] 0 =
     (1, empty_db\<lparr>snapshot_dedup := [\<lparr>dd_server = ''s1'', dd_envelope = ''m1'', dd_expires = 86400000\<rparr>],
            snapshots := [snapshot_row_of ''s1'' 0 1 (sample_snapshot ''m1'')], snapshot_counter := 1\<rparr>)"
  by (simp add: insert_snapshots_def insert_snapshot_def Let_def raise_depth_def depth_of_def trim_history_def
      newest_first_def of_kind_def snapshot_row_of_def sql_limit_def format_time_def nanos_per_milli_def)

lemma latest_is_last_accepted_witness:
  "let d' = snd (insert_snapshots id empty_db ''s1'' [sample_snapshot ''m1'', sample_snapshot ''m2'', sample_snapshot ''m1''] 0)
   in latest_snapshot d' ''s1'' ''players'' = Inr (scan_snapshot (snapshot_row_of ''s1'' 0 0 (sample_snapshot ''m2'')))"
proof -
  obtain n d' where run: "insert_snapshots id empty_db ''s1'' [sample_snapshot ''m1'', sample_snapshot ''m2'', sample_snapshot ''m1''] 0 = (n, d')"
    by fastforce
  from latest_is_last_accepted [OF empty_snap_inv _ this refl] run show ?thesis
    by (simp add: seen_envelopes_def Let_def)
qed

lemma history_depth_bounded_witness:
  "let d' = snd (insert_snapshots id empty_db ''s1'' [sample_snapshot ''m1'', sample_snapshot ''m2''] 0)
   in int (length (snapshot_history d' ''s1'' ''players'' 50)) \<le> 1"
proof -
  obtain n d' where run: "insert_snapshots id empty_db ''s1'' [sample_snapshot ''m1'', sample_snapshot ''m2''] 0 = (n, d')"
    by fastforce
  from history_depth_bounded [OF empty_snap_inv _ this, of "sample_snapshot ''m1''" "''players''" 1 50] run show ?thesis
    by (simp add: seen_envelopes_def Let_def)
qed

lemma latest_never_regresses_witness:
  "let d = snd (insert_snapshots id empty_db ''s1'' [sample_snapshot ''m1''] 0);
       d' = run_steps (snapshot_step id sql_limit sql_limit) d [PruneSnapshots 10 99999999999999999]
   in \<exists>r'. latest_snapshot d' ''s1'' ''players'' = Inr (scan_snapshot r')"
proof -
  let ?d = "snd (insert_snapshots id empty_db ''s1'' [sample_snapshot ''m1''] 0)"
  have inv: "snap_inv ?d" by (rule insert_snapshots_inv [OF empty_snap_inv prod.collapse [symmetric]])
  have "newest (snapshots ?d) ''s1'' ''players'' = Some (snapshot_row_of ''s1'' 0 1 (sample_snapshot ''m1''))"
    by (simp add: sample_push newest_def of_kind_def snapshot_row_of_def)
  with inv set_sql_limit set_sql_limit
  have "\<exists>r'. latest_snapshot (run_steps (snapshot_step id sql_limit sql_limit) ?d [PruneSnapshots 10 99999999999999999])
      ''s1'' ''players'' = Inr (scan_snapshot r')"
    using latest_never_regresses [where shuffle = id and pick = sql_limit and pick_markers = sql_limit and d = ?d
        and es = "[PruneSnapshots 10 99999999999999999]", OF _ _ _ _ _ refl] by (metis id_apply)
  then show ?thesis by (simp add: Let_def)
qed

lemma snapshot_replay_harmless_witness:
  "let d1 = snd (insert_snapshots id empty_db ''s1'' [sample_snapshot ''m1''] 0);
       d2 = run_steps (snapshot_step id sql_limit sql_limit) d1 [Push ''s1'' [sample_snapshot ''m2''] 5, PruneSnapshots 10 7]
   in insert_snapshots id d2 ''s1'' [sample_snapshot ''m1''] 9 = (0, d2)"
proof -
  let ?es = "[Push ''s1'' [sample_snapshot ''m2''] 5, PruneSnapshots 10 7]"
  have "list_all (before (format_time (0 + np_retention (sample_snapshot ''m1'')))) ?es"
    by (simp add: before_def format_time_def nanos_per_milli_def)
  from snapshot_replay_harmless [where pick = sql_limit and pick_markers = sql_limit and later = 9
      and s' = "sample_snapshot ''m1''", OF empty_snap_inv _ set_sql_limit set_sql_limit sample_push this refl]
  show ?thesis by (simp add: Let_def sample_push del: run_steps.simps)
qed

end
