(* ===== verification/Tokens.thy ===== *)
theory Tokens
  imports Events
begin

text \<open>
  Scoped Admin API tokens and the audit log (hub/store/tokens.go).  The digest of a presented secret,
  the identifiers and the clock readings are arguments.  Fanning the audit outbox out to webhooks is in
  theory \<open>Webhooks\<close>.
\<close>

subsection \<open>Tokens\<close>

record admin_token =
  at_id :: string
  at_name :: string
  at_scopes :: "string list"
  at_servers :: "string list"
  at_created :: time
  at_created_by :: string
  at_expires :: "time option"
  at_revoked :: "time option"

definition token_live :: "admin_token \<Rightarrow> time \<Rightarrow> bool" where
  "token_live t now =
     (at_revoked t = None \<and> (case at_expires t of None \<Rightarrow> True | Some e \<Rightarrow> e > now))"

record new_admin_token =
  wt_name :: string
  wt_hash :: string
  wt_scopes :: "string list"
  wt_servers :: "string list"
  wt_created_by :: string
  wt_ttl :: int

definition scan_admin_token :: "token_row \<Rightarrow> admin_token" where
  "scan_admin_token r =
     \<lparr>at_id = tk_id r, at_name = tk_name r, at_scopes = tk_scopes r, at_servers = tk_servers r,
      at_created = parse_time (tk_created r), at_created_by = tk_created_by r,
      at_expires = scan_time (tk_expires r), at_revoked = scan_time (tk_revoked r)\<rparr>"

definition create_admin_token ::
  "db \<Rightarrow> new_admin_token \<Rightarrow> string \<Rightarrow> time \<Rightarrow> store_error + (admin_token \<times> db)" where
  "create_admin_token d q tid now =
     (let expiry = (if wt_ttl q > 0 then Some (truncate_milli (now + wt_ttl q)) else None);
          stored = \<lparr>at_id = tid, at_name = wt_name q, at_scopes = wt_scopes q, at_servers = wt_servers q,
                    at_created = truncate_milli now, at_created_by = wt_created_by q,
                    at_expires = expiry, at_revoked = None\<rparr>
      in if exists_row (\<lambda>r. tk_id r = tid \<or> tk_hash r = wt_hash q) (admin_tokens d)
         then Inl (ErrConstraint ''admin_tokens'')
         else Inr (stored, d\<lparr>admin_tokens := admin_tokens d @
           [\<lparr>tk_id = tid, tk_hash = wt_hash q, tk_name = wt_name q, tk_scopes = wt_scopes q,
             tk_servers = wt_servers q, tk_created = format_time now, tk_created_by = wt_created_by q,
             tk_expires = map_option format_time expiry, tk_revoked = None\<rparr>]\<rparr>))"

definition admin_token_by_hash :: "db \<Rightarrow> string \<Rightarrow> time \<Rightarrow> store_error + admin_token" where
  "admin_token_by_hash d hash now =
     (case find (\<lambda>r. tk_hash r = hash) (admin_tokens d) of
        None \<Rightarrow> Inl ErrNotFound
      | Some r \<Rightarrow> if \<not> token_live (scan_admin_token r) now then Inl ErrTokenRevoked
                  else Inr (scan_admin_token r))"

definition token_key :: "token_row \<Rightarrow> stamp \<times> string" where
  "token_key r = (tk_created r, tk_id r)"

definition list_admin_tokens :: "db \<Rightarrow> admin_token list" where
  "list_admin_tokens d = map scan_admin_token (rev (sort_key token_key (admin_tokens d)))"

definition admin_token_by_id :: "db \<Rightarrow> string \<Rightarrow> store_error + admin_token" where
  "admin_token_by_id d tid =
     (case find (\<lambda>r. tk_id r = tid) (admin_tokens d) of
        None \<Rightarrow> Inl ErrNotFound
      | Some r \<Rightarrow> Inr (scan_admin_token r))"

definition revoke_row :: "time \<Rightarrow> token_row \<Rightarrow> token_row" where
  "revoke_row now r =
     r\<lparr>tk_revoked := (case tk_revoked r of None \<Rightarrow> Some (format_time now) | Some t \<Rightarrow> Some t)\<rparr>"

definition revoke_admin_token :: "db \<Rightarrow> string \<Rightarrow> time \<Rightarrow> store_error + db" where
  "revoke_admin_token d tid now =
     (if affected (\<lambda>r. tk_id r = tid) (admin_tokens d) = 0 then Inl ErrNotFound
      else Inr (d\<lparr>admin_tokens := update_where (\<lambda>r. tk_id r = tid) (revoke_row now) (admin_tokens d)\<rparr>))"

definition live_admin_tokens :: "db \<Rightarrow> time \<Rightarrow> admin_token list" where
  "live_admin_tokens d now =
     map scan_admin_token (rev (sort_key token_key
       (filter (\<lambda>r. tk_revoked r = None \<and> (case tk_expires r of None \<Rightarrow> True | Some e \<Rightarrow> e > format_time now))
          (admin_tokens d))))"

subsection \<open>The audit log\<close>

record audit_record =
  ad_id :: string
  ad_at :: time
  ad_name :: string
  ad_token_id :: string
  ad_method :: string
  ad_path :: string
  ad_status :: int
  ad_source :: string
  ad_digest :: string
  ad_server :: string
  ad_detail :: string

record new_audit_record =
  wa_token_id :: string
  wa_token_name :: string
  wa_method :: string
  wa_path :: string
  wa_status :: int
  wa_source :: string
  wa_digest :: string
  wa_server :: string
  wa_detail :: string
  wa_retention :: int

definition year_nanos :: int where
  "year_nanos = 365 * 24 * 3600 * 1000000000"

definition record_audit :: "db \<Rightarrow> new_audit_record \<Rightarrow> string \<Rightarrow> time \<Rightarrow> store_error + (audit_record \<times> db)" where
  "record_audit d q aid now =
     (let detail = (if wa_detail q = '''' then ''{}'' else wa_detail q);
          retention = (if wa_retention q \<le> 0 then year_nanos else wa_retention q)
      in if exists_row (\<lambda>r. au_id r = aid) (audit_records d) then Inl (ErrConstraint ''audit_records'')
         else if aid \<in> set (audit_notifications d) then Inl (ErrConstraint ''audit_notifications'')
         else Inr (\<lparr>ad_id = aid, ad_at = truncate_milli now, ad_name = wa_token_name q,
                    ad_token_id = wa_token_id q, ad_method = wa_method q, ad_path = wa_path q,
                    ad_status = wa_status q, ad_source = wa_source q, ad_digest = wa_digest q,
                    ad_server = wa_server q, ad_detail = detail\<rparr>,
              d\<lparr>audit_records := audit_records d @
                  [\<lparr>au_id = aid, au_at = format_time now, au_token_id = wa_token_id q,
                    au_token_name = wa_token_name q, au_method = wa_method q, au_path = wa_path q,
                    au_status = wa_status q, au_source = wa_source q, au_digest = wa_digest q,
                    au_server = wa_server q, au_detail = detail, au_expires = format_time (now + retention)\<rparr>],
                audit_notifications := audit_notifications d @ [aid]\<rparr>))"

definition scan_audit_record :: "audit_row \<Rightarrow> audit_record" where
  "scan_audit_record r =
     \<lparr>ad_id = au_id r, ad_at = parse_time (au_at r), ad_name = au_token_name r,
      ad_token_id = au_token_id r, ad_method = au_method r, ad_path = au_path r,
      ad_status = au_status r, ad_source = au_source r, ad_digest = au_digest r,
      ad_server = au_server r, ad_detail = au_detail r\<rparr>"

text \<open>The zero instant of a bound that narrows nothing is \<open>None\<close>.\<close>

record audit_query =
  aq_token :: string
  aq_server :: string
  aq_since :: "time option"
  aq_until :: "time option"
  aq_limit :: int
  aq_after :: "time \<times> string"

definition audit_selected :: "audit_query \<Rightarrow> audit_row \<Rightarrow> bool" where
  "audit_selected q r =
     ((aq_token q \<noteq> '''' \<longrightarrow> au_token_id r = aq_token q)
      \<and> (aq_server q \<noteq> '''' \<longrightarrow> au_server r = aq_server q)
      \<and> (case aq_since q of None \<Rightarrow> True | Some t \<Rightarrow> au_at r \<ge> format_time (ceil_millisecond t))
      \<and> (case aq_until q of None \<Rightarrow> True | Some t \<Rightarrow> au_at r < format_time (ceil_millisecond t)))"

definition audit_key :: "audit_row \<Rightarrow> stamp \<times> string" where
  "audit_key r = (au_at r, au_id r)"

definition query_audit :: "db \<Rightarrow> audit_query \<Rightarrow> audit_record list" where
  "query_audit d q =
     map scan_audit_record (sql_limit (aq_limit q) (rev (sort_key audit_key
       (filter (\<lambda>r. audit_selected q r \<and> after_cursor (aq_after q) (audit_key r)) (audit_records d)))))"

definition audit_expired :: "time \<Rightarrow> audit_row \<Rightarrow> bool" where
  "audit_expired now r = (au_expires r \<le> format_time now)"

text \<open>The outbox row of a deleted record goes with it (ON DELETE CASCADE).\<close>

definition prune_audit :: "(int \<Rightarrow> audit_row list \<Rightarrow> audit_row list) \<Rightarrow> db \<Rightarrow> int \<Rightarrow> time \<Rightarrow> int \<times> db" where
  "prune_audit pick d limit now =
     (let n = (if limit \<le> 0 then default_prune_batch else limit);
          gone = pick n (filter (audit_expired now) (audit_records d))
      in (int (length (audit_records d)) - int (length (delete_ids au_id gone (audit_records d))),
          d\<lparr>audit_records := delete_ids au_id gone (audit_records d),
            audit_notifications := filter (\<lambda>i. i \<notin> au_id ` set gone) (audit_notifications d)\<rparr>))"

subsection \<open>A token that stopped working never works again\<close>

definition tokens_inv :: "db \<Rightarrow> bool" where
  "tokens_inv d = (distinct (map tk_id (admin_tokens d)) \<and> distinct (map tk_hash (admin_tokens d)))"

datatype token_event =
    MintToken new_admin_token string time
  | RevokeToken string time

fun token_step :: "db \<Rightarrow> token_event \<Rightarrow> db" where
  "token_step d (MintToken q tid now) =
     (case create_admin_token d q tid now of Inl err \<Rightarrow> d | Inr (t, d') \<Rightarrow> d')"
| "token_step d (RevokeToken tid now) =
     (case revoke_admin_token d tid now of Inl err \<Rightarrow> d | Inr d' \<Rightarrow> d')"

text \<open>The same credentials, at most revoked meanwhile.\<close>

definition tokens_le :: "db \<Rightarrow> db \<Rightarrow> bool" where
  "tokens_le d d' = (\<forall>r \<in> set (admin_tokens d). \<exists>r' \<in> set (admin_tokens d').
     tk_hash r' = tk_hash r \<and> tk_id r' = tk_id r \<and> tk_scopes r' = tk_scopes r \<and> tk_servers r' = tk_servers r
     \<and> tk_expires r' = tk_expires r \<and> (tk_revoked r \<noteq> None \<longrightarrow> tk_revoked r' = tk_revoked r))"

lemma revoke_row_simps [simp]:
  "tk_hash (revoke_row now r) = tk_hash r" "tk_id (revoke_row now r) = tk_id r"
  "tk_scopes (revoke_row now r) = tk_scopes r" "tk_servers (revoke_row now r) = tk_servers r"
  "tk_expires (revoke_row now r) = tk_expires r"
  "tk_revoked r \<noteq> None \<Longrightarrow> tk_revoked (revoke_row now r) = tk_revoked r"
  "tk_revoked (revoke_row now r) \<noteq> None"
  by (auto simp: revoke_row_def split: option.split)

interpretation token_machine: monotone_machine token_step tokens_inv tokens_le
proof
  fix d d' d'' e
  show "tokens_inv d \<Longrightarrow> tokens_inv (token_step d e)"
    by (cases e) (auto simp: tokens_inv_def create_admin_token_def revoke_admin_token_def exists_row_def Let_def
        map_update_where split: sum.split)
  show "tokens_le d d" by (auto simp: tokens_le_def)
  show "tokens_le d d' \<Longrightarrow> tokens_le d' d'' \<Longrightarrow> tokens_le d d''" unfolding tokens_le_def by metis
  show "tokens_le d (token_step d e)"
  proof (cases e)
    case (MintToken q tid now)
    then show ?thesis by (auto simp: tokens_le_def create_admin_token_def Let_def split: sum.split)
  next
    case (RevokeToken tid now)
    have "\<exists>r' \<in> set (update_where (\<lambda>r. tk_id r = tid) (revoke_row now) (admin_tokens d)).
        tk_hash r' = tk_hash r \<and> tk_id r' = tk_id r \<and> tk_scopes r' = tk_scopes r \<and> tk_servers r' = tk_servers r
        \<and> tk_expires r' = tk_expires r \<and> (tk_revoked r \<noteq> None \<longrightarrow> tk_revoked r' = tk_revoked r)"
      if "r \<in> set (admin_tokens d)" for r
      using that by (intro bexI [of _ "if tk_id r = tid then revoke_row now r else r"])
        (auto simp: set_update_where simp del: revoke_row_simps(7))
    then show ?thesis using RevokeToken
      by (auto simp: tokens_le_def revoke_admin_token_def split: sum.split)
  qed
qed

lemma token_live_row:
  "token_live (scan_admin_token r) now \<longleftrightarrow>
     tk_revoked r = None \<and> (case tk_expires r of None \<Rightarrow> True | Some e \<Rightarrow> e > format_time now)"
  by (auto simp: token_live_def scan_admin_token_def scan_time_def less_parse_iff split: option.split)

text \<open>
  C11. A token that stopped working never works again: once its secret is refused as revoked or expired, it
  is refused at every later moment, whatever tokens are minted and revoked meanwhile.
\<close>

theorem dead_token_stays_dead:
  assumes "tokens_inv d" and "admin_token_by_hash d hash now = Inl ErrTokenRevoked" and "now \<le> later"
  shows "admin_token_by_hash (run_steps token_step d es) hash later = Inl ErrTokenRevoked"
proof -
  let ?d = "run_steps token_step d es"
  from assms(2) obtain r where r: "find (\<lambda>r. tk_hash r = hash) (admin_tokens d) = Some r"
    and dead: "\<not> token_live (scan_admin_token r) now"
    by (auto simp: admin_token_by_hash_def split: option.splits if_splits)
  from find_Some_in [OF r] have r: "r \<in> set (admin_tokens d)" "tk_hash r = hash" by auto
  with token_machine.run_rel [OF assms(1), of es] obtain r' where r': "r' \<in> set (admin_tokens ?d)"
    "tk_hash r' = hash" "tk_expires r' = tk_expires r" "tk_revoked r \<noteq> None \<longrightarrow> tk_revoked r' = tk_revoked r"
    unfolding tokens_le_def by metis
  have "distinct (map tk_hash (admin_tokens ?d))"
    using token_machine.run_inv [OF assms(1)] by (simp add: tokens_inv_def)
  from find_unique [OF this r'(1)] r'(2) have "find (\<lambda>r. tk_hash r = hash) (admin_tokens ?d) = Some r'" by simp
  moreover have "\<not> token_live (scan_admin_token r') later"
    using dead r'(3,4) format_time_mono [OF assms(3)] by (force simp: token_live_row split: option.splits)
  ultimately show ?thesis by (simp add: admin_token_by_hash_def)
qed

definition sample_admin_token :: new_admin_token where
  "sample_admin_token = \<lparr>wt_name = ''ops'', wt_hash = ''h'', wt_scopes = [''kv:rw''], wt_servers = [], wt_created_by = '''',
     wt_ttl = 1000000000\<rparr>"

theorem dead_token_stays_dead_witness:
  "let d = run_steps token_step empty_db [MintToken sample_admin_token ''k1'' 0, RevokeToken ''k1'' 5]
   in admin_token_by_hash (run_steps token_step d [MintToken (sample_admin_token\<lparr>wt_hash := ''g''\<rparr>) ''k2'' 6,
        MintToken sample_admin_token ''k3'' 7]) ''h'' 8 = Inl ErrTokenRevoked"
proof -
  let ?d = "run_steps token_step empty_db [MintToken sample_admin_token ''k1'' 0, RevokeToken ''k1'' 5]"
  have "tokens_inv empty_db" by (simp add: tokens_inv_def)
  then have inv: "tokens_inv ?d" by (rule token_machine.run_inv)
  have "admin_token_by_hash ?d ''h'' 6 = Inl ErrTokenRevoked"
    by (simp add: create_admin_token_def sample_admin_token_def Let_def exists_row_def revoke_admin_token_def affected_def
        admin_token_by_hash_def token_live_row revoke_row_def)
  then show ?thesis unfolding Let_def by (rule dead_token_stays_dead [OF inv]) simp
qed

text \<open>
  Boot and authentication agree on who is live: the tokens boot counts as live are exactly those whose
  secrets authenticate at that moment, although one check is SQL text on stored milliseconds and the
  other Go code on instants.
\<close>

lemma live_tokens_authenticate:
  assumes "tokens_inv d"
  shows "set (live_admin_tokens d now) = {t. \<exists>hash. admin_token_by_hash d hash now = Inr t}"
proof -
  have dist: "distinct (map tk_hash (admin_tokens d))" using assms by (simp add: tokens_inv_def)
  have "(\<exists>hash. admin_token_by_hash d hash now = Inr t) \<longleftrightarrow>
      (\<exists>r \<in> set (admin_tokens d). token_live (scan_admin_token r) now \<and> t = scan_admin_token r)" for t
  proof
    assume "\<exists>hash. admin_token_by_hash d hash now = Inr t"
    then show "\<exists>r \<in> set (admin_tokens d). token_live (scan_admin_token r) now \<and> t = scan_admin_token r"
      by (auto simp: admin_token_by_hash_def split: option.splits if_splits dest!: find_Some_in)
  next
    assume "\<exists>r \<in> set (admin_tokens d). token_live (scan_admin_token r) now \<and> t = scan_admin_token r"
    then obtain r where r: "r \<in> set (admin_tokens d)" "token_live (scan_admin_token r) now" "t = scan_admin_token r"
      by blast
    from find_unique [OF dist r(1)] r(2,3) have "admin_token_by_hash d (tk_hash r) now = Inr t"
      by (simp add: admin_token_by_hash_def)
    then show "\<exists>hash. admin_token_by_hash d hash now = Inr t" ..
  qed
  then show ?thesis by (auto simp: live_admin_tokens_def token_live_row)
qed

lemma live_tokens_authenticate_witness:
  "set (live_admin_tokens (token_step empty_db (MintToken sample_admin_token ''k1'' 0)) 5)
     = {t. \<exists>hash. admin_token_by_hash (token_step empty_db (MintToken sample_admin_token ''k1'' 0)) hash 5 = Inr t}"
proof -
  have "tokens_inv empty_db" by (simp add: tokens_inv_def)
  from live_tokens_authenticate [OF token_machine.step_inv [OF this]] show ?thesis .
qed

subsection \<open>Reading the audit log\<close>

definition audit_ok :: "db \<times> audit_query \<Rightarrow> bool" where
  "audit_ok s = (distinct (map au_id (audit_records (fst s))) \<and> (\<forall>r \<in> set (audit_records (fst s)). au_id r \<noteq> ''''))"

definition audit_rows :: "db \<times> audit_query \<Rightarrow> audit_row list" where
  "audit_rows s = filter (audit_selected (snd s)) (audit_records (fst s))"

interpretation audit_pages: newest_first_feed audit_ok audit_rows audit_key
proof
  fix s r
  assume ok: "audit_ok s"
  then have "distinct (map au_id (audit_rows s))" by (simp add: audit_ok_def audit_rows_def distinct_map_filter)
  then show "distinct (map audit_key (audit_rows s))"
    by (auto simp: distinct_map inj_on_def audit_key_def)
  show "r \<in> set (audit_rows s) \<Longrightarrow> snd (audit_key r) \<noteq> ''''"
    using ok by (simp add: audit_ok_def audit_rows_def audit_key_def)
qed

definition audit_page :: "db \<times> audit_query \<Rightarrow> nat \<Rightarrow> (time \<times> string) option \<Rightarrow> audit_record list" where
  "audit_page s n c = query_audit (fst s)
     ((snd s)\<lparr>aq_limit := int n, aq_after := (case c of None \<Rightarrow> (0, '''') | Some x \<Rightarrow> x)\<rparr>)"

definition audit_cursor :: "audit_record \<Rightarrow> time \<times> string" where
  "audit_cursor a = (ad_at a, ad_id a)"

lemma audit_selected_page [simp]: "audit_selected (q\<lparr>aq_limit := n, aq_after := c\<rparr>) = audit_selected q"
  by (rule ext) (simp add: audit_selected_def)

lemma audit_page_newest:
  "audit_page s n c = map scan_audit_record
     (newest_page audit_key (int n) (case c of None \<Rightarrow> (0, '''') | Some x \<Rightarrow> x) (audit_rows s))"
  by (simp add: audit_page_def query_audit_def newest_page_def audit_rows_def conj_commute)

text \<open>
  Reading the audit log page by page, with any narrowing and any page size, visits every record that
  the query selects exactly once, newest first, also among records of one millisecond.
\<close>

lemma audit_walk_complete:
  assumes "audit_ok (d, q)" and "0 < n" and "length (audit_records d) \<le> k"
  shows "map ad_id (walk (Suc k) (audit_page (d, q) n) audit_cursor None) = map au_id (rev (sort_key audit_key (audit_rows (d, q))))
    \<and> set (walk (Suc k) (audit_page (d, q) n) audit_cursor None)
        = scan_audit_record ` {r \<in> set (audit_records d). audit_selected q r}
    \<and> distinct (map ad_id (walk (Suc k) (audit_page (d, q) n) audit_cursor None))"
proof -
  have "length (audit_rows (d, q)) \<le> k"
    using assms(3) le_trans [OF length_filter_le] by (simp add: audit_rows_def)
  note w = audit_pages.walk_feed [OF assms(1,2) this]
  have cur: "(\<lambda>r. audit_cursor (scan_audit_record r)) = row_cursor audit_key"
    by (simp add: fun_eq_iff audit_cursor_def scan_audit_record_def row_cursor_def audit_key_def)
  have all: "walk (Suc k) (audit_page (d, q) n) audit_cursor None
      = map scan_audit_record (rev (sort_key audit_key (audit_rows (d, q))))"
    using walk_map [of "Suc k" scan_audit_record _ audit_cursor None] w
    unfolding audit_page_newest cur by (simp only:)
  have ids: "map ad_id (map scan_audit_record rs) = map au_id rs" for rs
    by (simp add: scan_audit_record_def)
  have "distinct (map au_id (audit_rows (d, q)))"
    using assms(1) by (simp add: audit_ok_def audit_rows_def distinct_map_filter)
  then have "distinct (map au_id (rev (sort_key audit_key (audit_rows (d, q)))))"
    by (simp add: rev_map [symmetric] distinct_map)
  then show ?thesis unfolding all ids by (auto simp: audit_rows_def)
qed

definition sample_audit_row :: "string \<Rightarrow> audit_row" where
  "sample_audit_row i = \<lparr>au_id = i, au_at = 0, au_token_id = '''', au_token_name = ''boot'', au_method = ''POST'',
     au_path = ''/'', au_status = 200, au_source = '''', au_digest = '''', au_server = '''', au_detail = ''{}'',
     au_expires = 9\<rparr>"

definition sample_audit_log :: db where
  "sample_audit_log = empty_db\<lparr>audit_records := [sample_audit_row ''a1'', sample_audit_row ''a2'']\<rparr>"

definition sample_audit_query :: audit_query where
  "sample_audit_query = \<lparr>aq_token = '''', aq_server = '''', aq_since = None, aq_until = None,
     aq_limit = 0, aq_after = (0, '''')\<rparr>"

lemma audit_walk_complete_witness:
  "map ad_id (walk 3 (audit_page (sample_audit_log, sample_audit_query) 1) audit_cursor None) = [''a2'', ''a1'']"
proof -
  have ok: "audit_ok (sample_audit_log, sample_audit_query)" "length (audit_records sample_audit_log) \<le> 2"
    by (simp_all add: audit_ok_def sample_audit_log_def sample_audit_row_def)
  have "map au_id (rev (sort_key audit_key (audit_rows (sample_audit_log, sample_audit_query)))) = [''a2'', ''a1'']"
    by (simp add: audit_rows_def sample_audit_log_def sample_audit_query_def audit_selected_def sample_audit_row_def audit_key_def)
  with audit_walk_complete [OF ok(1) _ ok(2), of 1] show ?thesis by (simp only: numeral_3_eq_3 numeral_2_eq_2)
qed

end
