(* ===== verification/Redact.thy ===== *)
theory Redact
  imports Prelude
begin

text \<open>
  hub/internal/webhook/redact.go: the redaction paths of a webhook, applied to the data of one
  notification before its body is rendered.

  Data is the parse tree of the raw JSON: an object keeps its members in textual order, repeated
  names included, because what a repeated name does is part of the behaviour.  Numbers and literals
  are their text.
\<close>

datatype json =
    JLiteral string
  | JString string
  | JArray "json list"
  | JObject "(string \<times> json) list"

subsection \<open>Decoding and encoding one level\<close>

text \<open>\<open>json.Unmarshal\<close> into a Go map keeps the last of a repeated member; \<open>Encode\<close> writes names in order.\<close>

definition last_member :: "(string \<times> json) list \<Rightarrow> string \<Rightarrow> json option" where
  "last_member ms = map_of (rev ms)"

definition encode_redacted :: "string list \<Rightarrow> (string \<Rightarrow> json option) \<Rightarrow> json" where
  "encode_redacted names object =
     JObject (map (\<lambda>k. (k, the (object k))) (filter (\<lambda>k. object k \<noteq> None) (sort (remdups names))))"

fun is_object :: "json \<Rightarrow> bool" where
  "is_object (JObject ms) = True"
| "is_object v = False"

text \<open>\<open>strings.Split(path, ".")\<close>: never empty.\<close>

fun split_dot :: "string \<Rightarrow> string list" where
  "split_dot [] = [[]]"
| "split_dot (c # cs) =
     (if c = CHR ''.'' then [] # split_dot cs
      else case split_dot cs of [] \<Rightarrow> [[c]] | h # t \<Rightarrow> (c # h) # t)"

subsection \<open>Redaction\<close>

function redact_value :: "json \<Rightarrow> string list \<Rightarrow> json \<times> bool" where
  "redact_value (JObject ms) (p # ps) =
     (case last_member ms p of
        None \<Rightarrow> (JObject ms, False)
      | Some child \<Rightarrow>
          if ps = [] then (encode_redacted (map fst ms) ((last_member ms)(p := None)), True)
          else (encode_redacted (map fst ms) ((last_member ms)(p := Some (fst (redact_value child ps)))), True))"
| "redact_value (JArray vs) (p # ps) =
     (let rs = map (\<lambda>v. if is_object v then redact_value v (p # ps) else (v, False)) vs in
      if list_ex snd rs then (JArray (map (\<lambda>(v, r). if snd r then fst r else v) (zip vs rs)), True)
      else (JArray vs, False))"
| "redact_value (JLiteral s) path = (JLiteral s, False)"
| "redact_value (JString s) path = (JString s, False)"
| "redact_value (JObject ms) [] = (JObject ms, False)"
| "redact_value (JArray vs) [] = (JArray vs, False)"
  by pat_completeness auto
termination
  by (relation "measures [\<lambda>(v, p). length p, \<lambda>(v, p). size v]")
    (auto simp: less_Suc_eq_le size_list_estimation')

definition redact_data :: "json \<Rightarrow> string list \<Rightarrow> json" where
  "redact_data v paths =
     fold (\<lambda>path v. (let r = redact_value v (split_dot path) in if snd r then fst r else v)) paths v"

subsection \<open>What a path names is gone\<close>

text \<open>
  \<open>has_path v path\<close>: some copy of some member along the path is in the value, whichever copy a
  reader would take.
\<close>

function has_path :: "json \<Rightarrow> string list \<Rightarrow> bool" where
  "has_path (JObject ms) (p # ps) = (\<exists>m \<in> set ms. fst m = p \<and> (ps = [] \<or> has_path (snd m) ps))"
| "has_path (JArray vs) (p # ps) = (\<exists>v \<in> set vs. is_object v \<and> has_path v (p # ps))"
| "has_path (JLiteral s) path = False"
| "has_path (JString s) path = False"
| "has_path (JObject ms) [] = False"
| "has_path (JArray vs) [] = False"
  by pat_completeness auto
termination
  by (relation "measures [\<lambda>(v, p). length p, \<lambda>(v, p). size v]")
    (auto simp: less_Suc_eq_le size_list_estimation')

lemma last_member_in: "last_member ms p = Some c \<Longrightarrow> (p, c) \<in> set ms"
  unfolding last_member_def by (metis map_of_SomeD set_rev)

lemma last_member_None: "last_member ms p = None \<longleftrightarrow> p \<notin> fst ` set ms"
  by (simp add: last_member_def map_of_eq_None_iff)

lemma has_path_member:
  "(r, w) \<in> set ms \<Longrightarrow> rs = [] \<or> has_path w rs \<Longrightarrow> has_path (JObject ms) (r # rs)"
  by force

lemma has_path_encoded:
  "has_path (encode_redacted names object) (p # ps) \<longleftrightarrow>
     (\<exists>v. p \<in> set names \<and> object p = Some v \<and> (ps = [] \<or> has_path v ps))"
  by (auto simp: encode_redacted_def)

lemma split_dot_nonempty [simp]: "split_dot s \<noteq> []"
  by (cases s) (auto split: list.split)

lemma redact_unchanged: "\<not> snd (redact_value v path) \<Longrightarrow> fst (redact_value v path) = v"
  by (cases "(v, path)" rule: redact_value.cases) (auto simp: Let_def split: option.splits if_splits)

lemma redact_array:
  "fst (redact_value (JArray vs) (p # ps)) = JArray (map (\<lambda>v. if is_object v then fst (redact_value v (p # ps)) else v) vs)"
proof -
  let ?r = "\<lambda>v. if is_object v then redact_value v (p # ps) else (v, False)"
  have "map (\<lambda>(v, r). if snd r then fst r else v) (zip vs (map ?r vs)) = map (\<lambda>v. fst (?r v)) vs"
    using redact_unchanged by (induction vs) auto
  moreover have "map (\<lambda>v. fst (?r v)) vs = vs" if "\<not> list_ex snd (map ?r vs)"
    using that redact_unchanged by (induction vs) auto
  moreover have "(\<lambda>v. fst (?r v)) = (\<lambda>v. if is_object v then fst (redact_value v (p # ps)) else v)"
    by auto
  ultimately show ?thesis by (auto simp: Let_def)
qed

text \<open>The value that \<open>redactData\<close> goes on with.\<close>

lemma redact_step: "(let r = redact_value v path in if snd r then fst r else v) = fst (redact_value v path)"
  using redact_unchanged by (simp add: Let_def)

lemma redact_is_object [simp]: "is_object (fst (redact_value v path)) = is_object v"
  by (cases "(v, path)" rule: redact_value.cases)
    (auto simp: Let_def encode_redacted_def split: option.splits)

lemma redact_value_strips: "path \<noteq> [] \<Longrightarrow> \<not> has_path (fst (redact_value v path)) path"
proof (induction v path rule: redact_value.induct)
  case (1 ms p ps)
  show ?case
  proof (cases "last_member ms p")
    case None
    then have "p \<notin> fst ` set ms" by (simp add: last_member_None)
    with None show ?thesis by auto
  next
    case (Some child)
    with 1 show ?thesis by (cases ps) (auto simp: has_path_encoded)
  qed
next
  case (2 vs p ps)
  show ?case unfolding redact_array using "2.IH" by auto
qed simp_all

text \<open>Redaction adds nothing.\<close>

lemma redact_value_adds_nothing: "has_path (fst (redact_value v path)) q \<Longrightarrow> has_path v q"
proof (induction v path arbitrary: q rule: redact_value.induct)
  case (1 ms p ps)
  show ?case
  proof (cases "last_member ms p")
    case None
    with "1.prems" show ?thesis by simp
  next
    case (Some child)
    note in_ms = last_member_in [OF Some]
    show ?thesis
    proof (cases q)
      case Nil
      with "1.prems" Some show ?thesis by (auto simp: encode_redacted_def split: if_splits)
    next
      case (Cons r rs)
      show ?thesis
      proof (cases "ps = []")
        case True
        with "1.prems" Some Cons obtain w where "last_member ms r = Some w" "rs = [] \<or> has_path w rs"
          by (auto simp: has_path_encoded split: if_splits)
        with has_path_member [OF last_member_in [OF this(1)]] Cons show ?thesis by simp
      next
        case False
        with "1.prems" Some Cons obtain w where w: "((last_member ms)(p := Some (fst (redact_value child ps)))) r = Some w"
          "rs = [] \<or> has_path w rs"
          by (auto simp: has_path_encoded)
        then show ?thesis
        proof (cases "r = p")
          case True
          then have "rs = [] \<or> has_path child rs" using "1.IH" [OF Some False] w by auto
          with has_path_member [OF in_ms] Cons True show ?thesis by simp
        next
          case other: False
          then have "(r, w) \<in> set ms" using w(1) last_member_in by simp
          with has_path_member w(2) Cons show ?thesis by simp
        qed
      qed
    qed
  qed
next
  case (2 vs p ps)
  from "2.prems" obtain r rs where q: "q = r # rs" unfolding redact_array by (cases q) auto
  with "2.prems" obtain v where v: "v \<in> set vs" "is_object (if is_object v then fst (redact_value v (p # ps)) else v)"
    "has_path (if is_object v then fst (redact_value v (p # ps)) else v) (r # rs)"
    unfolding redact_array by auto
  then have o: "is_object v" by (simp split: if_splits)
  with v "2.IH" [OF v(1) o] have "has_path v (r # rs)" by simp
  with v(1) o q show ?case by auto
qed simp_all

text \<open>
  C26. A redacted member never leaves the hub: after redaction no copy of a member that any of the paths names
  is left anywhere the path reaches, in no object, no element of an array and no repeated member.
\<close>

theorem redacted_never_leaves:
  assumes "path \<in> set paths"
  shows "\<not> has_path (redact_data v paths) (split_dot path)"
proof -
  have keep: "\<not> has_path (redact_data v ps) q" if "\<not> has_path v q" for v ps q
    using that
  proof (induction ps arbitrary: v)
    case (Cons a ps)
    then have "\<not> has_path (fst (redact_value v (split_dot a))) q" using redact_value_adds_nothing by blast
    from Cons.IH [OF this] show ?case by (simp add: redact_data_def redact_step)
  qed (simp add: redact_data_def)
  from assms show ?thesis
  proof (induction paths arbitrary: v)
    case (Cons a ps)
    have step: "redact_data v (a # ps) = redact_data (fst (redact_value v (split_dot a))) ps"
      by (simp add: redact_data_def redact_step)
    show ?case
    proof (cases "path = a")
      case True
      then show ?thesis unfolding step by (intro keep) (simp add: redact_value_strips)
    next
      case False
      with Cons.prems Cons.IH show ?thesis unfolding step by simp
    qed
  qed simp
qed

subsection \<open>Everything else stays\<close>

fun member_at :: "json \<Rightarrow> string list \<Rightarrow> json option" where
  "member_at v [] = Some v"
| "member_at (JObject ms) (p # ps) = (case last_member ms p of None \<Rightarrow> None | Some c \<Rightarrow> member_at c ps)"
| "member_at v (p # ps) = None"

lemma last_member_encoded:
  "encode_redacted names object = JObject ms \<Longrightarrow> last_member ms k = (if k \<in> set names then object k else None)"
proof -
  assume e: "encode_redacted names object = JObject ms"
  let ?ks = "filter (\<lambda>k. object k \<noteq> None) (sort (remdups names))"
  have ms: "ms = map (\<lambda>k. (k, the (object k))) ?ks" using e by (simp add: encode_redacted_def)
  have "distinct (map fst ms)" unfolding ms by (simp add: comp_def)
  then have "map_of (rev ms) = map_of ms"
    using map_of_inject_set [of "rev ms" ms] by (simp add: rev_map [symmetric])
  moreover have "map_of (map (\<lambda>k. (k, the (object k))) ks) k = (if k \<in> set ks then Some (the (object k)) else None)" for ks
    by (induction ks) auto
  ultimately show ?thesis by (auto simp: last_member_def ms)
qed

lemma member_at_encoded:
  "member_at (encode_redacted names object) (r # rs) =
     (case (if r \<in> set names then object r else None) of None \<Rightarrow> None | Some c \<Rightarrow> member_at c rs)"
proof -
  obtain ms where "encode_redacted names object = JObject ms" by (auto simp: encode_redacted_def)
  with last_member_encoded [OF this] show ?thesis by simp
qed

lemma last_member_outside: "r \<notin> fst ` set ms \<Longrightarrow> last_member ms r = None"
  by (simp add: last_member_None)

lemma redact_value_keeps:
  "\<not> prefix path q \<Longrightarrow> \<not> prefix q path \<Longrightarrow> member_at (fst (redact_value v path)) q = member_at v q"
proof (induction v path arbitrary: q rule: redact_value.induct)
  case (1 ms p ps)
  from "1.prems"(2) obtain r rs where q: "q = r # rs" by (cases q) auto
  show ?case
  proof (cases "last_member ms p")
    case (Some child)
    show ?thesis
    proof (cases "r = p")
      case True
      then have "ps \<noteq> []" using "1.prems"(1) q by auto
      moreover have "p \<in> fst ` set ms" using last_member_in [OF Some] by force
      ultimately show ?thesis
        using Some True q "1.IH" [OF Some, of rs] "1.prems" by (simp add: member_at_encoded)
    next
      case False
      then show ?thesis
        using Some q last_member_outside [of r ms] by (cases "ps = []") (auto simp: member_at_encoded)
    qed
  qed simp
next
  case (2 vs p ps)
  then show ?case unfolding redact_array by (cases q) auto
qed simp_all

text \<open>
  Redaction strips nothing else: a member that no path names, on no path to one and under none, reads
  after redaction as it read before, to the value a JSON reader takes.
\<close>

lemma redaction_keeps_rest:
  assumes "list_all (\<lambda>path. \<not> prefix (split_dot path) q \<and> \<not> prefix q (split_dot path)) paths"
  shows "member_at (redact_data v paths) q = member_at v q"
  using assms
proof (induction paths arbitrary: v)
  case (Cons a ps)
  have "redact_data v (a # ps) = redact_data (fst (redact_value v (split_dot a))) ps"
    by (simp add: redact_data_def redact_step)
  with Cons redact_value_keeps [of "split_dot a" q v] show ?case by simp
qed (simp add: redact_data_def)

definition sample_data :: json where
  "sample_data = JObject [(''player'', JObject [(''id'', JString ''7''), (''ip'', JString ''10.0.0.1'')]),
     (''player'', JObject [(''id'', JString ''8''), (''ip'', JString ''10.0.0.2'')])]"

theorem redacted_never_leaves_witness:
  "redact_data sample_data [''player.ip''] = JObject [(''player'', JObject [(''id'', JString ''8'')])]
   \<and> \<not> has_path (redact_data sample_data [''player.ip'']) [''player'', ''ip'']"
proof -
  have "split_dot ''player.ip'' = [''player'', ''ip'']" by simp
  moreover have "redact_data sample_data [''player.ip''] = JObject [(''player'', JObject [(''id'', JString ''8'')])]"
    by (simp add: redact_data_def sample_data_def last_member_def encode_redacted_def Let_def)
  moreover have "\<not> has_path (redact_data sample_data [''player.ip'']) (split_dot ''player.ip'')"
    by (rule redacted_never_leaves) simp
  ultimately show ?thesis by simp
qed

lemma redaction_keeps_rest_witness:
  "member_at (redact_data sample_data [''player.ip'']) [''player'', ''id''] = Some (JString ''8'')"
proof -
  have "member_at (redact_data sample_data [''player.ip'']) [''player'', ''id''] = member_at sample_data [''player'', ''id'']"
    by (rule redaction_keeps_rest) simp
  then show ?thesis by (simp add: sample_data_def last_member_def)
qed

end
