(* ===== verification/Gate.thy ===== *)
theory Gate
  imports Tokens Scope Sessions Redact
begin

text \<open>
  The gate every Admin API route stands behind (hub/auth.go) and the request decoding that the
  handlers share (hub/errors.go).  A handler is a function of the caller, the body and the database;
  the gate decides whether it runs and writes the audit record of a mutation.

  Digests, the JSON library and the address parser are the record \<open>gate_env\<close>, with the
  configuration and the draws of one request.
\<close>

subsection \<open>Answers\<close>

datatype refusal = Refusal int string string

datatype 'v reply = Failure refusal | Success int 'v

fun refusal_status :: "refusal \<Rightarrow> int" where
  "refusal_status (Refusal status code message) = status"

fun reply_status :: "'v reply \<Rightarrow> int" where
  "reply_status (Failure r) = refusal_status r"
| "reply_status (Success status v) = status"

definition bad_request :: "string \<Rightarrow> refusal" where
  "bad_request message = Refusal 400 ''bad_request'' message"

definition not_found :: "string \<Rightarrow> refusal" where
  "not_found message = Refusal 404 ''not_found'' message"

definition forbidden :: "string \<Rightarrow> refusal" where
  "forbidden message = Refusal 403 ''forbidden'' message"

definition internal_error :: refusal where
  "internal_error = Refusal 500 ''internal'' ''the hub failed to handle this request''"

fun back_to_rune :: "string \<Rightarrow> nat \<Rightarrow> nat" where
  "back_to_rune s 0 = 0"
| "back_to_rune s (Suc n) = (if rune_start (s ! Suc n) then Suc n else back_to_rune s n)"

definition truncate_utf8 :: "string \<Rightarrow> nat \<Rightarrow> string" where
  "truncate_utf8 s limit = (if length s \<le> limit then s else take (back_to_rune s limit) s)"

subsection \<open>Request bodies\<close>

definition max_request_body :: nat where "max_request_body = 1048576"

text \<open>What the JSON decoder, reading through the size cap, makes of a body.\<close>

datatype 'q decoded = Decoded 'q | TooLarge | NothingThere | Malformed string | TrailingData

definition decode_body :: "bool \<Rightarrow> 'q option \<Rightarrow> 'q decoded \<Rightarrow> refusal + 'q" where
  "decode_body json_type when_empty r =
     (if \<not> json_type then Inl (Refusal 415 ''unsupported_media_type'' ''request body must be application/json'')
      else case r of
        Decoded q \<Rightarrow> Inr q
      | TooLarge \<Rightarrow> Inl (Refusal 413 ''payload_too_large'' (''request body exceeds '' @ show_int (int max_request_body) @ '' bytes''))
      | NothingThere \<Rightarrow> (case when_empty of Some q \<Rightarrow> Inr q | None \<Rightarrow> Inl (bad_request ''request body is empty''))
      | Malformed why \<Rightarrow> Inl (bad_request (''request body is not valid JSON: '' @ why))
      | TrailingData \<Rightarrow> Inl (bad_request ''request body must be a single JSON value''))"

subsection \<open>Requests\<close>

text \<open>A body that breaks off while it is read is \<open>Broken\<close>.\<close>

datatype request_body = NoBody | Broken string | Whole string

record request =
  rq_method :: string
  rq_path :: string
  rq_authorization :: string
  rq_remote :: string
  rq_server :: string
  rq_body :: request_body

record audit_entry =
  ae_digest :: string
  ae_server :: string
  ae_detail :: "(string \<times> json) list"

record gate_env =
  ge_hash :: "string \<Rightarrow> string"
  ge_digest :: "string \<Rightarrow> string"
  ge_detail :: "(string \<times> json) list \<Rightarrow> string"
  ge_host :: "string \<Rightarrow> string option"
  ge_bootstrap :: string
  ge_retention :: int
  ge_now :: time
  ge_audit_id :: string
  ge_audit_now :: time

definition empty_entry :: audit_entry where
  "empty_entry = \<lparr>ae_digest = '''', ae_server = '''', ae_detail = []\<rparr>"

text \<open>\<open>strings.EqualFold(scheme, "Bearer")\<close>: no letter of the word folds outside ASCII.\<close>

definition lower :: "char \<Rightarrow> char" where
  "lower c = (if CHR ''A'' \<le> c \<and> c \<le> CHR ''Z'' then char_of (of_char c + (32 :: nat)) else c)"

definition bearer_token :: "request \<Rightarrow> string" where
  "bearer_token r =
     (let h = rq_authorization r; scheme = takeWhile (\<lambda>c. c \<noteq> CHR '' '') h; rest = dropWhile (\<lambda>c. c \<noteq> CHR '' '') h in
      if rest = '''' \<or> map lower scheme \<noteq> ''bearer'' then '''' else trim_space (tl rest))"

definition bootstrap_principal :: principal where
  "bootstrap_principal =
     \<lparr>pr_token_id = '''', pr_name = ''bootstrap'',
      pr_scopes = [\<lparr>sc_resource = ''admin'', sc_verb = '''', sc_pattern = ''''\<rparr>], pr_servers = []\<rparr>"

text \<open>A stored scope that does not parse is dropped.\<close>

definition parsed_scopes :: "string list \<Rightarrow> scope list" where
  "parsed_scopes texts = concat (map (\<lambda>t. case parse_scope t of Inl _ \<Rightarrow> [] | Inr s \<Rightarrow> [s]) texts)"

definition token_principal :: "admin_token \<Rightarrow> principal" where
  "token_principal t =
     \<lparr>pr_token_id = at_id t, pr_name = at_name t, pr_scopes = parsed_scopes (at_scopes t), pr_servers = at_servers t\<rparr>"

definition unauthorized :: refusal where
  "unauthorized = Refusal 401 ''unauthorized'' ''a valid admin token is required''"

definition authenticate :: "gate_env \<Rightarrow> db \<Rightarrow> request \<Rightarrow> refusal + principal" where
  "authenticate env d r =
     (let presented = bearer_token r; hash = ge_hash env presented in
      if presented = '''' then Inl unauthorized
      else if ge_bootstrap env \<noteq> '''' \<and> token_equal (ge_bootstrap env) hash then Inr bootstrap_principal
      else case admin_token_by_hash d hash (ge_now env) of
             Inl err \<Rightarrow> Inl (if err = ErrNotFound \<or> err = ErrTokenRevoked then unauthorized else internal_error)
           | Inr stored \<Rightarrow> Inr (token_principal stored))"

subsection \<open>The audit record of a mutation\<close>

definition source_ip :: "gate_env \<Rightarrow> request \<Rightarrow> string" where
  "source_ip env r = (case ge_host env (rq_remote r) of None \<Rightarrow> rq_remote r | Some h \<Rightarrow> h)"

definition audit_request :: "gate_env \<Rightarrow> request \<Rightarrow> principal \<Rightarrow> audit_entry \<Rightarrow> int \<Rightarrow> new_audit_record" where
  "audit_request env r caller e status =
     \<lparr>wa_token_id = pr_token_id caller, wa_token_name = pr_name caller, wa_method = rq_method r,
      wa_path = rq_path r, wa_status = status, wa_source = source_ip env r, wa_digest = ae_digest e,
      wa_server = (if rq_server r = '''' then ae_server e else rq_server r),
      wa_detail = ge_detail env (ae_detail e), wa_retention = ge_retention env\<rparr>"

text \<open>The change already happened: a record that cannot be written is only logged.\<close>

definition record_mutation :: "gate_env \<Rightarrow> request \<Rightarrow> principal \<Rightarrow> audit_entry \<Rightarrow> int \<Rightarrow> db \<Rightarrow> db" where
  "record_mutation env r caller e status d =
     (case record_audit d (audit_request env r caller e status) (ge_audit_id env) (ge_audit_now env) of
        Inl err \<Rightarrow> d
      | Inr (rec, d') \<Rightarrow> d')"

definition audit_detail :: "string \<Rightarrow> json \<Rightarrow> audit_entry \<Rightarrow> audit_entry" where
  "audit_detail key v e = e\<lparr>ae_detail := (key, v) # filter (\<lambda>p. fst p \<noteq> key) (ae_detail e)\<rparr>"

definition json_strings :: "string list \<Rightarrow> json" where
  "json_strings xs = JArray (map JString xs)"

definition capture_body :: "gate_env \<Rightarrow> request \<Rightarrow> audit_entry \<Rightarrow> (refusal \<times> audit_entry) + (string \<times> audit_entry)" where
  "capture_body env r e =
     (case rq_body r of
        NoBody \<Rightarrow> Inr ('''', e)
      | Broken part \<Rightarrow> Inl (bad_request
          ''request body was not received whole: the connection failed or delivered it too slowly'', e)
      | Whole b \<Rightarrow>
          let buffered = take (Suc max_request_body) b in
          if buffered = '''' then Inr ('''', e)
          else if length buffered > max_request_body then Inr (buffered, audit_detail ''payloadOversized'' (JLiteral ''true'') e)
          else Inr (buffered, e\<lparr>ae_digest := ge_digest env buffered\<rparr>))"

subsection \<open>The gate\<close>

type_synonym 'v handler = "principal \<Rightarrow> string \<Rightarrow> audit_entry \<Rightarrow> db \<Rightarrow> 'v reply \<times> audit_entry \<times> db"

definition is_mutation :: "request \<Rightarrow> bool" where
  "is_mutation r = (rq_method r \<noteq> ''GET'' \<and> rq_method r \<noteq> ''HEAD'')"

definition read_body :: "request \<Rightarrow> string" where
  "read_body r = (case rq_body r of NoBody \<Rightarrow> '''' | Broken part \<Rightarrow> part | Whole b \<Rightarrow> b)"

definition scope_refusal :: "scope \<Rightarrow> refusal" where
  "scope_refusal s =
     forbidden (''this token does not carry the '' @ scope_string (s\<lparr>sc_pattern := truncate_utf8 (sc_pattern s) 64\<rparr>) @ '' scope'')"

text \<open>Why the gate refuses a caller, all of it known at the headers.\<close>

definition gate_refusal :: "principal \<Rightarrow> string \<Rightarrow> string \<Rightarrow> (request \<Rightarrow> string) option \<Rightarrow> request \<Rightarrow> refusal option" where
  "gate_refusal caller resource verb path_value r =
     (if \<not> allows_any caller resource verb
      then Some (scope_refusal \<lparr>sc_resource = resource, sc_verb = verb, sc_pattern = ''''\<rparr>)
      else case path_value of
        Some f \<Rightarrow>
          if \<not> allows caller resource verb (f r)
          then Some (scope_refusal \<lparr>sc_resource = resource, sc_verb = verb, sc_pattern = f r\<rparr>)
          else if bound caller \<and> rq_server r \<noteq> '''' \<and> \<not> bound_to caller (rq_server r)
          then Some (forbidden (''this token is bound to other servers than '' @ truncate_utf8 (rq_server r) 64))
          else None
      | None \<Rightarrow>
          if bound caller \<and> rq_server r \<noteq> '''' \<and> \<not> bound_to caller (rq_server r)
          then Some (forbidden (''this token is bound to other servers than '' @ truncate_utf8 (rq_server r) 64))
          else None)"

definition admin_gate ::
  "gate_env \<Rightarrow> string \<Rightarrow> string \<Rightarrow> (request \<Rightarrow> string) option \<Rightarrow> 'v handler \<Rightarrow> db \<Rightarrow> request \<Rightarrow> 'v reply \<times> db" where
  "admin_gate env resource verb path_value handler d r =
     (case authenticate env d r of
        Inl refused \<Rightarrow> (Failure refused, d)
      | Inr caller \<Rightarrow>
          (case gate_refusal caller resource verb path_value r of
             Some refused \<Rightarrow>
               (Failure refused,
                if is_mutation r then record_mutation env r caller empty_entry (refusal_status refused) d else d)
           | None \<Rightarrow>
               if \<not> is_mutation r then
                 (let (reply, e, d') = handler caller (read_body r) empty_entry d in (reply, d'))
               else case capture_body env r empty_entry of
                 Inl (refused, e) \<Rightarrow> (Failure refused, record_mutation env r caller e (refusal_status refused) d)
               | Inr (body, e) \<Rightarrow>
                   (let (reply, e', d') = handler caller body e d
                    in (reply, record_mutation env r caller e' (reply_status reply) d'))))"

subsection \<open>Who gets past the gate\<close>

definition admitted :: "gate_env \<Rightarrow> db \<Rightarrow> request \<Rightarrow> string \<Rightarrow> string \<Rightarrow> (request \<Rightarrow> string) option \<Rightarrow> principal \<Rightarrow> bool" where
  "admitted env d r resource verb path_value caller =
     (authenticate env d r = Inr caller
      \<and> allows_any caller resource verb
      \<and> (case path_value of None \<Rightarrow> True | Some f \<Rightarrow> allows caller resource verb (f r))
      \<and> (rq_server r = '''' \<or> bound_to caller (rq_server r)))"

definition same_but_audit :: "db \<Rightarrow> db \<Rightarrow> bool" where
  "same_but_audit d d' =
     (d'\<lparr>audit_records := [], audit_notifications := []\<rparr> = d\<lparr>audit_records := [], audit_notifications := []\<rparr>)"

lemma same_but_audit_refl [simp]: "same_but_audit d d"
  by (simp add: same_but_audit_def)

lemma record_mutation_same [simp]: "same_but_audit d (record_mutation env r caller e status d)"
  by (auto simp: record_mutation_def record_audit_def Let_def same_but_audit_def split: sum.split)

lemma authenticate_reply:
  "authenticate env d r = Inl refused \<Longrightarrow> refusal_status refused = 401"
  by (auto simp: authenticate_def Let_def unauthorized_def admin_token_by_hash_def split: if_splits sum.splits option.splits)

lemma gate_refusal_status: "gate_refusal caller resource verb path_value r = Some refused \<Longrightarrow> refusal_status refused = 403"
  by (auto simp: gate_refusal_def scope_refusal_def forbidden_def split: if_splits option.splits)

lemma gate_refusal_None:
  "gate_refusal caller resource verb path_value r = None \<longleftrightarrow>
     allows_any caller resource verb
     \<and> (case path_value of None \<Rightarrow> True | Some f \<Rightarrow> allows caller resource verb (f r))
     \<and> (rq_server r = '''' \<or> bound_to caller (rq_server r))"
  by (auto simp: gate_refusal_def bound_to_def split: option.split)

text \<open>
  Who an admitted caller can be: the holder of the bootstrap credential, or of a stored token that is
  neither revoked nor expired at the moment of the request.
\<close>

lemma authenticated_live:
  assumes "authenticate env d r = Inr caller"
  shows "(caller = bootstrap_principal \<and> ge_bootstrap env = ge_hash env (bearer_token r))
    \<or> (\<exists>t \<in> set (admin_tokens d). tk_hash t = ge_hash env (bearer_token r)
         \<and> token_live (scan_admin_token t) (ge_now env) \<and> caller = token_principal (scan_admin_token t))"
proof -
  have find: "\<exists>t \<in> set (admin_tokens d). tk_hash t = h \<and> token_live (scan_admin_token t) (ge_now env) \<and> st = scan_admin_token t"
    if "admin_token_by_hash d h (ge_now env) = Inr st" for h st
    using that find_Some_in by (fastforce simp: admin_token_by_hash_def split: option.splits if_splits)
  from assms show ?thesis
    using find by (fastforce simp: authenticate_def Let_def token_equal_def split: if_splits sum.splits)
qed


text \<open>
  C33. Every mutation is on record: whatever an authenticated caller's request to change something comes to, a
  refusal at the headers, a body that breaks off, an error or a success, exactly one audit record is written
  after it, with the caller, the route, the peer and the status that was answered, and queued for
  notification.
\<close>

theorem every_mutation_audited:
  assumes "authenticate env d r = Inr caller" and "is_mutation r"
    and "admin_gate env resource verb path_value handler d r = ((reply :: 'v reply), d')"
    and "\<And>c b e s. audit_records (snd (snd (handler c b e s))) = audit_records s
          \<and> audit_notifications (snd (snd (handler c b e s))) = audit_notifications s"
    and "\<not> exists_row (\<lambda>x. au_id x = ge_audit_id env) (audit_records d)"
    and "ge_audit_id env \<notin> set (audit_notifications d)"
  shows "\<exists>row. audit_records d' = audit_records d @ [row]
    \<and> audit_notifications d' = audit_notifications d @ [ge_audit_id env]
    \<and> au_id row = ge_audit_id env \<and> au_token_id row = pr_token_id caller \<and> au_token_name row = pr_name caller
    \<and> au_method row = rq_method r \<and> au_path row = rq_path r \<and> au_status row = reply_status reply
    \<and> au_source row = source_ip env r"
proof -
  have rec: "\<exists>row. audit_records (record_mutation env r caller e status s) = audit_records d @ [row]
    \<and> audit_notifications (record_mutation env r caller e status s) = audit_notifications d @ [ge_audit_id env]
    \<and> au_id row = ge_audit_id env \<and> au_token_id row = pr_token_id caller \<and> au_token_name row = pr_name caller
    \<and> au_method row = rq_method r \<and> au_path row = rq_path r \<and> au_status row = status
    \<and> au_source row = source_ip env r"
    if "audit_records s = audit_records d" "audit_notifications s = audit_notifications d" for s e status
    using that assms(5,6) by (simp add: record_mutation_def record_audit_def audit_request_def Let_def)
  show ?thesis
  proof (cases "gate_refusal caller resource verb path_value r ")
    case (Some rep)
    with assms(1-3) rec [of d empty_entry "refusal_status rep"] show ?thesis by (auto simp: admin_gate_def)
  next
    case None
    show ?thesis
    proof (cases "capture_body env r empty_entry")
      case (Inl p)
      with assms(1-3) None rec [of d "snd p" "refusal_status (fst p)"] show ?thesis
        by (auto simp: admin_gate_def split: prod.splits)
    next
      case (Inr p)
      obtain rep e' s where h: "handler caller (fst p) (snd p) d = (rep, e', s)" by (metis prod_cases3)
      with assms(4) [of caller "fst p" "snd p" d] have "audit_records s = audit_records d"
        "audit_notifications s = audit_notifications d" by simp_all
      from rec [OF this, of e' "reply_status rep"] assms(1-3) None Inr h show ?thesis
        by (auto simp: admin_gate_def split: prod.splits)
    qed
  qed
qed

subsection \<open>Witnesses\<close>

definition sample_gate :: gate_env where
  "sample_gate = \<lparr>ge_hash = (\<lambda>s. ''h'' @ s), ge_digest = (\<lambda>s. ''sum''), ge_detail = (\<lambda>d. ''{}''),
     ge_host = (\<lambda>r. Some ''10.0.0.1''), ge_bootstrap = ''hroot'', ge_retention = 0, ge_now = 5,
     ge_audit_id = ''r1'', ge_audit_now = 6\<rparr>"

definition sample_request :: "string \<Rightarrow> request" where
  "sample_request bearer = \<lparr>rq_method = ''POST'', rq_path = ''/api/v1/tokens'', rq_authorization = ''Bearer '' @ bearer,
     rq_remote = ''10.0.0.1:9'', rq_server = '''', rq_body = Whole ''{}''\<rparr>"

definition sample_handler :: "unit handler" where
  "sample_handler caller body e d = (Success 204 (), e, d)"

lemma lower_bearer: "map lower ''Bearer'' = ''bearer''"
  by code_simp

lemma sample_bearer: "bearer_token (sample_request ''root'') = ''root''" "bearer_token (sample_request ''other'') = ''other''"
proof -
  have "\<forall>c \<in> set ''root''. visible c" "\<forall>c \<in> set ''other''. visible c" by (simp_all add: visible_def)
  then show "bearer_token (sample_request ''root'') = ''root''" "bearer_token (sample_request ''other'') = ''other''"
    using lower_bearer by (simp_all add: bearer_token_def sample_request_def Let_def trim_space_visible)
qed


theorem every_mutation_audited_witness:
  "\<exists>reply d' row. admin_gate sample_gate ''admin'' '''' None sample_handler empty_db (sample_request ''root'') = (reply, d')
     \<and> audit_records d' = [row] \<and> au_path row = ''/api/v1/tokens'' \<and> au_status row = reply_status reply"
proof -
  obtain reply d' where g:
    "admin_gate sample_gate ''admin'' '''' None sample_handler empty_db (sample_request ''root'') = (reply, d')"
    by fastforce
  have "authenticate sample_gate empty_db (sample_request ''root'') = Inr bootstrap_principal"
    by (simp add: authenticate_def sample_bearer Let_def sample_gate_def token_equal_def)
  moreover have "is_mutation (sample_request ''root'')" by (simp add: is_mutation_def sample_request_def)
  moreover have "audit_records (snd (snd (sample_handler c b e s))) = audit_records s
      \<and> audit_notifications (snd (snd (sample_handler c b e s))) = audit_notifications s" for c b e s
    by (simp add: sample_handler_def)
  moreover have "\<not> exists_row (\<lambda>x. au_id x = ge_audit_id sample_gate) (audit_records empty_db)"
    "ge_audit_id sample_gate \<notin> set (audit_notifications empty_db)" by (simp_all add: exists_row_def)
  ultimately show ?thesis
    using every_mutation_audited [OF _ _ g] g by (fastforce simp: sample_request_def)
qed

end
