(* ===== verification/TokenApi.thy ===== *)
theory TokenApi
  imports Gate
begin

text \<open>
  The token routes of the Admin API (hub/tokens.go): minting with the checks of its scopes and its
  server binding, listing and revocation.  The JSON decoder, the digest, the text of a scope error
  and the drawn secret and identifier are the record \<open>token_env\<close>.
\<close>

record create_token_request =
  ct_name :: string
  ct_scopes :: "string list"
  ct_servers :: "string list"
  ct_expires_in :: int

record token_env =
  te_decode :: "string \<Rightarrow> bool \<times> create_token_request decoded"
  te_error :: "scope_error \<Rightarrow> string"
  te_hash :: "string \<Rightarrow> string"
  te_secret :: string
  te_id :: string
  te_now :: time

definition max_token_name_length :: nat where "max_token_name_length = 200"
definition max_scopes_per_token :: nat where "max_scopes_per_token = 32"
definition max_token_servers :: nat where "max_token_servers = 50"

definition second_nanos :: int where "second_nanos = 1000000000"
definition min_token_ttl :: int where "min_token_ttl = 60 * second_nanos"
definition max_token_ttl :: int where "max_token_ttl = 100 * 365 * 24 * 3600 * second_nanos"

definition clamp_token_ttl :: "int \<Rightarrow> int" where
  "clamp_token_ttl seconds =
     (if seconds \<le> 0 then 0
      else if seconds > max_token_ttl div second_nanos then max_token_ttl
      else max (wrap64 (seconds * second_nanos)) min_token_ttl)"

text \<open>The scopes of a mint, in canonical form and in request order; \<open>acc\<close> holds those seen.\<close>

fun scopes_loop :: "(scope_error \<Rightarrow> string) \<Rightarrow> principal \<Rightarrow> string list \<Rightarrow> string list \<Rightarrow> refusal + string list" where
  "scopes_loop text minter [] acc = Inr acc"
| "scopes_loop text minter (t # ts) acc =
     (case parse_scope t of
        Inl err \<Rightarrow> Inl (bad_request (text err))
      | Inr s \<Rightarrow>
          if scope_string s \<in> set acc then scopes_loop text minter ts acc
          else if \<not> covers minter (sc_resource s) (sc_verb s) (sc_pattern s)
          then Inl (forbidden (''this token cannot grant '' @ scope_string s @ '', which it does not itself hold''))
          else scopes_loop text minter ts (acc @ [scope_string s]))"

definition parse_requested_scopes :: "(scope_error \<Rightarrow> string) \<Rightarrow> principal \<Rightarrow> string list \<Rightarrow> refusal + string list" where
  "parse_requested_scopes text minter requested =
     (if requested = [] then Inl (bad_request ''scopes is required; a token with no scopes could do nothing'')
      else if length requested > max_scopes_per_token
      then Inl (bad_request (''a token carries at most '' @ show_int (int max_scopes_per_token) @ '' scopes''))
      else scopes_loop text minter requested [])"

text \<open>A grant that has no server dimension cannot be bound.\<close>

definition unbindable :: "string \<Rightarrow> bool" where
  "unbindable text =
     (case parse_scope text of
        Inl err \<Rightarrow> False
      | Inr s \<Rightarrow> sc_resource s = ''admin'' \<or> sc_resource s = ''webhooks''
                 \<or> (sc_resource s = ''bans'' \<and> sc_verb s = ''manage''))"

fun binding_loop :: "db \<Rightarrow> string list \<Rightarrow> string list \<Rightarrow> refusal + string list" where
  "binding_loop d [] acc = Inr acc"
| "binding_loop d (sid # sids) acc =
     (if sid = '''' \<or> length sid > max_scope_pattern \<or> CHR ''*'' \<in> set sid \<or> \<not> valid_scope_pattern sid
      then Inl (bad_request (''servers must be exact server ids: '' @ truncate_utf8 sid 64 @ '' is not one''))
      else if sid \<in> set acc then binding_loop d sids acc
      else case find_server d sid of
        Inl err \<Rightarrow> Inl (if err = ErrNotFound
            then not_found (''servers names '' @ sid @ '', which is not a server this hub knows'') else internal_error)
      | Inr s \<Rightarrow> binding_loop d sids (acc @ [sid]))"

definition parse_requested_binding :: "db \<Rightarrow> string list \<Rightarrow> string list \<Rightarrow> refusal + string list" where
  "parse_requested_binding d requested scopes =
     (if requested = [] then Inr []
      else if length requested > max_token_servers
      then Inl (bad_request (''a token is bound to at most '' @ show_int (int max_token_servers)
                  @ '' servers; leave servers empty for a token that applies to every server''))
      else case find unbindable scopes of
        Some t \<Rightarrow> Inl (bad_request (''a token bound to servers cannot carry '' @ t
                         @ '': that grant has no server dimension (spec section 10.1)''))
      | None \<Rightarrow> binding_loop d requested [])"

record token_created =
  tc_token :: admin_token
  tc_secret :: string

definition handle_create_token :: "token_env \<Rightarrow> token_created handler" where
  "handle_create_token env caller body e d =
     (case decode_body (fst (te_decode env body)) None (snd (te_decode env body)) of
        Inl refused \<Rightarrow> (Failure refused, e, d)
      | Inr q \<Rightarrow>
          let name = trim_space (ct_name q) in
          if name = '''' then (Failure (bad_request ''name is required''), e, d)
          else if length name > max_token_name_length then (Failure (bad_request ''name is too long''), e, d)
          else if ct_expires_in q < 0
          then (Failure (bad_request ''expiresInSeconds cannot be negative; omit it for a token that does not expire''), e, d)
          else case parse_requested_scopes (te_error env) caller (ct_scopes q) of
            Inl refused \<Rightarrow> (Failure refused, e, d)
          | Inr scopes \<Rightarrow>
          (case parse_requested_binding d (ct_servers q) scopes of
            Inl refused \<Rightarrow> (Failure refused, e, d)
          | Inr bound_servers \<Rightarrow>
          (case create_admin_token d
                  \<lparr>wt_name = name, wt_hash = te_hash env (te_secret env), wt_scopes = scopes,
                   wt_servers = bound_servers, wt_created_by = pr_token_id caller,
                   wt_ttl = (if ct_expires_in q > 0 then clamp_token_ttl (ct_expires_in q) else 0)\<rparr>
                  (te_id env) (te_now env) of
            Inl err \<Rightarrow> (Failure internal_error, e, d)
          | Inr (stored, d') \<Rightarrow>
              (Success 201 \<lparr>tc_token = stored, tc_secret = te_secret env\<rparr>,
               audit_detail ''servers'' (json_strings bound_servers)
                 (audit_detail ''scopes'' (json_strings scopes)
                   (audit_detail ''tokenName'' (JString (at_name stored)) (audit_detail ''tokenId'' (JString (at_id stored)) e))),
               d'))))"

definition handle_list_tokens :: "admin_token list handler" where
  "handle_list_tokens caller body e d = (Success 200 (list_admin_tokens d), e, d)"

definition handle_revoke_token :: "string \<Rightarrow> time \<Rightarrow> unit handler" where
  "handle_revoke_token tid now caller body e d =
     (let e' = audit_detail ''tokenId'' (JString tid) e in
      case revoke_admin_token d tid now of
        Inl err \<Rightarrow> (Failure (if err = ErrNotFound then not_found ''no such token'' else internal_error), e', d)
      | Inr d' \<Rightarrow> (Success 204 (), e', d'))"

subsection \<open>What a mint can grant\<close>

lemma clamp_token_ttl_bounds:
  "clamp_token_ttl seconds = 0 \<or> min_token_ttl \<le> clamp_token_ttl seconds \<and> clamp_token_ttl seconds \<le> max_token_ttl"
proof (cases "seconds \<le> 0 \<or> seconds > max_token_ttl div second_nanos")
  case True
  then show ?thesis
    by (auto simp: clamp_token_ttl_def min_token_ttl_def max_token_ttl_def second_nanos_def)
next
  case False
  then have s: "0 < seconds" "seconds \<le> 3153600000" by (simp_all add: max_token_ttl_def second_nanos_def)
  then have "wrap64 (seconds * second_nanos) = seconds * second_nanos"
    by (simp add: wrap64_def second_nanos_def)
  with s False show ?thesis
    by (simp add: clamp_token_ttl_def min_token_ttl_def max_token_ttl_def second_nanos_def)
qed

lemma scopes_loop_held:
  "scopes_loop text minter ts acc = Inr out \<Longrightarrow>
   list_all (\<lambda>t. \<exists>s. parse_scope t = Inr s \<and> covers minter (sc_resource s) (sc_verb s) (sc_pattern s)) acc \<Longrightarrow>
   list_all (\<lambda>t. \<exists>s. parse_scope t = Inr s \<and> covers minter (sc_resource s) (sc_verb s) (sc_pattern s)) out"
proof (induction ts arbitrary: acc)
  case (Cons t ts)
  then obtain s where s: "parse_scope t = Inr s" by (auto split: sum.splits)
  show ?case
  proof (cases "scope_string s \<in> set acc")
    case True
    with Cons s show ?thesis by simp
  next
    case False
    with Cons.prems s have c: "covers minter (sc_resource s) (sc_verb s) (sc_pattern s)"
      and rest: "scopes_loop text minter ts (acc @ [scope_string s]) = Inr out"
      by (auto split: if_splits)
    have "list_all (\<lambda>t. \<exists>s. parse_scope t = Inr s \<and> covers minter (sc_resource s) (sc_verb s) (sc_pattern s))
        (acc @ [scope_string s])"
      using Cons.prems(2) parse_scope_canonical [OF s] c by auto
    from Cons.IH [OF rest this] show ?thesis .
  qed
qed simp

lemma binding_loop_known:
  "binding_loop d sids acc = Inr out \<Longrightarrow> set out = set acc \<union> set sids
     \<and> (\<forall>sid \<in> set sids. sid \<in> set acc \<or> (\<exists>s. find_server d sid = Inr s))"
proof (induction sids arbitrary: acc)
  case (Cons sid sids)
  show ?case
  proof (cases "sid \<in> set acc")
    case True
    with Cons show ?thesis by (auto split: if_splits)
  next
    case False
    with Cons.prems obtain s where "find_server d sid = Inr s" "binding_loop d sids (acc @ [sid]) = Inr out"
      by (auto split: if_splits sum.splits)
    with Cons.IH [of "acc @ [sid]"] show ?thesis by auto
  qed
qed simp

lemma parsed_scope_in: "s \<in> set (parsed_scopes texts) \<Longrightarrow> \<exists>t \<in> set texts. parse_scope t = Inr s"
  by (auto simp: parsed_scopes_def split: sum.splits)

text \<open>Everything the handler decided when it minted a token.\<close>

lemma create_token_success:
  assumes "handle_create_token env caller body e d = (Success n v, e', d')"
  obtains q scopes bound_servers where "decode_body (fst (te_decode env body)) None (snd (te_decode env body)) = Inr q"
    and "parse_requested_scopes (te_error env) caller (ct_scopes q) = Inr scopes"
    and "parse_requested_binding d (ct_servers q) scopes = Inr bound_servers"
    and "at_scopes (tc_token v) = scopes" and "at_servers (tc_token v) = bound_servers"
    and "\<exists>r. admin_tokens d' = admin_tokens d @ [r] \<and> tk_hash r = te_hash env (te_secret env)
        \<and> tk_scopes r = scopes \<and> tk_servers r = bound_servers \<and> tk_revoked r = None"
  using assms
  by (auto simp: handle_create_token_def bad_request_def internal_error_def create_admin_token_def Let_def
      split: sum.splits if_splits)


definition sample_mint :: create_token_request where
  "sample_mint = \<lparr>ct_name = ''panel'', ct_scopes = [''events:read''], ct_servers = [''s1''], ct_expires_in = 60\<rparr>"

definition sample_token_env :: token_env where
  "sample_token_env = \<lparr>te_decode = (\<lambda>b. (True, Decoded sample_mint)), te_error = (\<lambda>e. ''scope''),
     te_hash = (\<lambda>s. ''h'' @ s), te_secret = ''vya_1'', te_id = ''t1'', te_now = 5\<rparr>"

definition sample_fleet :: db where
  "sample_fleet = empty_db\<lparr>servers := [\<lparr>sv_id = ''s1'', sv_name = ''one'', sv_game = ''dayz'', sv_created = 0,
      sv_secret = ''h'', sv_enrolled = Some 0, sv_revoked = None, sv_plugin_name = '''', sv_plugin_version = '''',
      sv_transports = '''', sv_last_seen = Some 0, sv_link_state = ''up'', sv_bans_revision = None, sv_bans_at = None\<rparr>]\<rparr>"


end
