(* ===== verification/Webhooks.thy ===== *)
theory Webhooks
  imports Tokens
begin

text \<open>
  The webhook tables (hub/store/webhooks.go, and \<open>NotifyAudit\<close> of hub/store/tokens.go):
  registrations and their edits, the notification outboxes, the delivery queue with its attempts,
  outcomes and replays, retention, and the link state of the servers.

  What the hub package decides is an argument: \<open>build\<close> turns what landed into deliveries,
  \<open>authorize\<close> is the coverage decision of an edit, the identifiers and clock readings are drawn
  by the caller.
\<close>

subsection \<open>Registrations\<close>

record webhook =
  wk_id :: string
  wk_url :: string
  wk_secret :: string
  wk_template :: string
  wk_events :: "string list"
  wk_servers :: "string list"
  wk_redact :: "string list"
  wk_audit :: bool
  wk_created :: time
  wk_paused :: "time option"

definition scan_webhook :: "webhook_row \<Rightarrow> webhook" where
  "scan_webhook r =
     \<lparr>wk_id = wh_id r, wk_url = wh_url r, wk_secret = wh_secret r, wk_template = wh_template r,
      wk_events = wh_events r, wk_servers = wh_servers r, wk_redact = wh_redact r, wk_audit = wh_audit r,
      wk_created = parse_time (wh_created r), wk_paused = scan_time (wh_paused r)\<rparr>"

definition create_webhook :: "db \<Rightarrow> webhook \<Rightarrow> time \<Rightarrow> store_error + (webhook \<times> db)" where
  "create_webhook d w now =
     (if exists_row (\<lambda>r. wh_id r = wk_id w) (webhooks d) then Inl (ErrConstraint ''webhooks'')
      else Inr (w\<lparr>wk_created := now\<rparr>, d\<lparr>webhooks := webhooks d @
        [\<lparr>wh_id = wk_id w, wh_url = wk_url w, wh_secret = wk_secret w, wh_template = wk_template w,
          wh_events = wk_events w, wh_servers = wk_servers w, wh_redact = wk_redact w,
          wh_audit = wk_audit w, wh_created = format_time now, wh_paused = None\<rparr>]\<rparr>))"

definition webhook_key :: "webhook_row \<Rightarrow> stamp \<times> string" where
  "webhook_key r = (wh_created r, wh_id r)"

text \<open>Newest first; the order every transaction locks them in.\<close>

definition webhooks_all :: "db \<Rightarrow> webhook list" where
  "webhooks_all d = map scan_webhook (rev (sort_key webhook_key (webhooks d)))"

definition webhook_by_id :: "db \<Rightarrow> string \<Rightarrow> store_error + webhook" where
  "webhook_by_id d wid =
     (case find (\<lambda>r. wh_id r = wid) (webhooks d) of None \<Rightarrow> Inl ErrNotFound | Some r \<Rightarrow> Inr (scan_webhook r))"

record webhook_update =
  wu_url :: "string option"
  wu_template :: "string option"
  wu_events :: "string list option"
  wu_servers :: "string list option"
  wu_redact :: "string list option"
  wu_paused :: "bool option"
  wu_audit :: "(webhook \<Rightarrow> bool) option"

definition update_is_empty :: "webhook_update \<Rightarrow> bool" where
  "update_is_empty u =
     (wu_url u = None \<and> wu_template u = None \<and> wu_events u = None \<and> wu_servers u = None
      \<and> wu_redact u = None \<and> wu_paused u = None \<and> (case wu_audit u of None \<Rightarrow> True | Some _ \<Rightarrow> False))"

definition assign_to :: "'a option \<Rightarrow> 'a \<Rightarrow> 'a" where
  "assign_to v old = (case v of None \<Rightarrow> old | Some x \<Rightarrow> x)"

definition edit_row :: "webhook_update \<Rightarrow> time \<Rightarrow> webhook_row \<Rightarrow> webhook_row" where
  "edit_row u now r =
     r\<lparr>wh_url := assign_to (wu_url u) (wh_url r),
       wh_template := assign_to (wu_template u) (wh_template r),
       wh_events := assign_to (wu_events u) (wh_events r),
       wh_servers := assign_to (wu_servers u) (wh_servers r),
       wh_redact := assign_to (wu_redact u) (wh_redact r),
       wh_paused := (case wu_paused u of
           None \<Rightarrow> wh_paused r
         | Some True \<Rightarrow> (case wh_paused r of None \<Rightarrow> Some (format_time now) | Some t \<Rightarrow> Some t)
         | Some False \<Rightarrow> None),
       wh_audit := (case wu_audit u of None \<Rightarrow> wh_audit r | Some grant \<Rightarrow> grant (scan_webhook r))\<rparr>"

definition pending_delivery_types :: "db \<Rightarrow> string \<Rightarrow> string list" where
  "pending_delivery_types d wid =
     sort (remdups (map dl_type (filter (\<lambda>x. dl_webhook x = wid \<and> dl_state x = DeliveryPending) (deliveries d))))"

definition update_webhook ::
  "db \<Rightarrow> string \<Rightarrow> webhook_update \<Rightarrow> (webhook \<Rightarrow> string list \<Rightarrow> string option) option \<Rightarrow> time
    \<Rightarrow> store_error + (webhook \<times> db)" where
  "update_webhook d wid u authorize now =
     (if update_is_empty u then
        (case webhook_by_id d wid of Inl err \<Rightarrow> Inl err | Inr w \<Rightarrow> Inr (w, d))
      else case find (\<lambda>r. wh_id r = wid) (webhooks d) of
        None \<Rightarrow> Inl ErrNotFound
      | Some r \<Rightarrow>
          let existing = scan_webhook r;
              types = (if wu_url u \<noteq> None \<and> the (wu_url u) \<noteq> wk_url existing
                       then pending_delivery_types d wid else []);
              refusal = (case authorize of None \<Rightarrow> None | Some f \<Rightarrow> f existing types);
              d' = d\<lparr>webhooks := update_where (\<lambda>x. wh_id x = wid) (edit_row u now) (webhooks d)\<rparr>
          in case refusal of
               Some why \<Rightarrow> Inl (ErrRefused why)
             | None \<Rightarrow> (case webhook_by_id d' wid of Inl err \<Rightarrow> Inl err | Inr w \<Rightarrow> Inr (w, d')))"

text \<open>The deliveries of a deleted webhook go with it (ON DELETE CASCADE).\<close>

definition delete_webhook :: "db \<Rightarrow> string \<Rightarrow> store_error + db" where
  "delete_webhook d wid =
     (if affected (\<lambda>r. wh_id r = wid) (webhooks d) = 0 then Inl ErrNotFound
      else Inr (d\<lparr>webhooks := delete_where (\<lambda>r. wh_id r = wid) (webhooks d),
                  deliveries := delete_where (\<lambda>x. dl_webhook x = wid) (deliveries d)\<rparr>))"

subsection \<open>Enqueueing\<close>

record new_delivery =
  nd_id :: string
  nd_webhook :: string
  nd_type :: string
  nd_server :: string
  nd_body :: string

definition webhook_pending :: "string \<Rightarrow> delivery_row \<Rightarrow> bool" where
  "webhook_pending wid x = (dl_webhook x = wid \<and> dl_state x = DeliveryPending)"

definition dead_on_arrival :: "int \<Rightarrow> string" where
  "dead_on_arrival n =
     ''dead on arrival: this webhook already has '' @ show_int n @ '' pending deliveries''"

definition new_delivery_row :: "new_delivery \<Rightarrow> stamp \<Rightarrow> int \<Rightarrow> int \<Rightarrow> delivery_row" where
  "new_delivery_row n at owed quota =
     (let dead = owed \<ge> quota in
      \<lparr>dl_id = nd_id n, dl_webhook = nd_webhook n, dl_type = nd_type n, dl_server = nd_server n,
       dl_body = nd_body n, dl_state = (if dead then DeliveryDead else DeliveryPending), dl_attempts = 0,
       dl_next = at, dl_status = None, dl_error = (if dead then Some (dead_on_arrival owed) else None),
       dl_created = at, dl_finished = (if dead then Some at else None), dl_delivered = None,
       dl_generation = 0\<rparr>)"

text \<open>
  The count of a webhook's owed rows is read once and then carried: \<open>counted\<close> is the Go map
  \<open>pendingByWebhook\<close>.
\<close>

fun insert_each :: "(string \<times> int) list \<Rightarrow> db \<Rightarrow> new_delivery list \<Rightarrow> int \<Rightarrow> stamp \<Rightarrow> store_error + db" where
  "insert_each counted d [] quota at = Inr d"
| "insert_each counted d (n # ns) quota at =
     (let owed = (case map_of counted (nd_webhook n) of
                       Some k \<Rightarrow> k
                     | None \<Rightarrow> affected (webhook_pending (nd_webhook n)) (deliveries d));
          row = new_delivery_row n at owed quota;
          counted' = (nd_webhook n, if owed \<ge> quota then owed else owed + 1) # counted
      in if exists_row (\<lambda>x. dl_id x = nd_id n) (deliveries d)
            \<or> \<not> exists_row (\<lambda>w. wh_id w = nd_webhook n) (webhooks d)
         then Inl (ErrConstraint ''webhook_deliveries'')
         else insert_each counted' (d\<lparr>deliveries := deliveries d @ [row]\<rparr>) ns quota at)"

definition insert_deliveries :: "db \<Rightarrow> new_delivery list \<Rightarrow> int \<Rightarrow> time \<Rightarrow> store_error + db" where
  "insert_deliveries d ns quota now = insert_each [] d ns quota (format_time now)"

definition server_names :: "db \<Rightarrow> string \<Rightarrow> string" where
  "server_names d sid = (case find (\<lambda>s. sv_id s = sid) (servers d) of None \<Rightarrow> '''' | Some s \<Rightarrow> sv_name s)"

subsection \<open>The outboxes\<close>

definition unnotified_events :: "db \<Rightarrow> event_row list" where
  "unnotified_events d = sort_key ev_id (filter (\<lambda>e. \<not> ev_notified e) (events d))"

definition notify_events ::
  "db \<Rightarrow> int \<Rightarrow> (event_row list \<Rightarrow> webhook list \<Rightarrow> (string \<Rightarrow> string) \<Rightarrow> new_delivery list) \<Rightarrow> int \<Rightarrow> time
    \<Rightarrow> store_error + (int \<times> db)" where
  "notify_events d limit build quota now =
     (let es = sql_limit limit (unnotified_events d) in
      if es = [] then Inr (0, d)
      else case insert_deliveries d (build es (webhooks_all d) (server_names d)) quota now of
             Inl err \<Rightarrow> Inl err
           | Inr d' \<Rightarrow> Inr (int (length es),
               d'\<lparr>events := update_where (\<lambda>e. ev_id e \<in> ev_id ` set es) (\<lambda>e. e\<lparr>ev_notified := True\<rparr>) (events d')\<rparr>))"

definition unnotified_actions :: "db \<Rightarrow> action_row list" where
  "unnotified_actions d = sort_key ac_id (filter (\<lambda>a. \<not> ac_notified a \<and> ac_finished a \<noteq> None) (actions d))"

definition notify_finished_actions ::
  "db \<Rightarrow> int \<Rightarrow> (action_row list \<Rightarrow> webhook list \<Rightarrow> (string \<Rightarrow> string) \<Rightarrow> new_delivery list) \<Rightarrow> int \<Rightarrow> time
    \<Rightarrow> store_error + (int \<times> db)" where
  "notify_finished_actions d limit build quota now =
     (let as = sql_limit limit (unnotified_actions d) in
      if as = [] then Inr (0, d)
      else case insert_deliveries d (build as (webhooks_all d) (server_names d)) quota now of
             Inl err \<Rightarrow> Inl err
           | Inr d' \<Rightarrow> Inr (int (length as),
               d'\<lparr>actions := update_where (\<lambda>a. ac_id a \<in> ac_id ` set as) (\<lambda>a. a\<lparr>ac_notified := True\<rparr>) (actions d')\<rparr>))"

definition queued_audit :: "db \<Rightarrow> audit_row list" where
  "queued_audit d = sort_key au_id (concat (map (\<lambda>i. filter (\<lambda>r. au_id r = i) (audit_records d)) (audit_notifications d)))"

definition notify_audit ::
  "db \<Rightarrow> int \<Rightarrow> (audit_record list \<Rightarrow> webhook list \<Rightarrow> (string \<Rightarrow> string) \<Rightarrow> new_delivery list) \<Rightarrow> int \<Rightarrow> time
    \<Rightarrow> store_error + (int \<times> db)" where
  "notify_audit d limit build quota now =
     (let rs = sql_limit limit (queued_audit d) in
      if rs = [] then Inr (0, d)
      else case insert_deliveries d (build (map scan_audit_record rs) (webhooks_all d) (server_names d)) quota now of
             Inl err \<Rightarrow> Inl err
           | Inr d' \<Rightarrow> Inr (int (length rs),
               d'\<lparr>audit_notifications := filter (\<lambda>i. i \<notin> au_id ` set rs) (audit_notifications d')\<rparr>))"

subsection \<open>Attempts and outcomes\<close>

definition due_order :: "delivery_row \<times> webhook_row \<Rightarrow> stamp \<times> string" where
  "due_order p = (dl_next (fst p), dl_id (fst p))"

definition due_webhook_deliveries :: "db \<Rightarrow> time \<Rightarrow> int \<Rightarrow> (delivery_row \<times> string \<times> string) list" where
  "due_webhook_deliveries d now limit =
     map (\<lambda>(x, w). (x, wh_url w, wh_secret w)) (sql_limit limit (sort_key due_order
       (concat (map (\<lambda>x. map (\<lambda>w. (x, w)) (filter (\<lambda>w. wh_id w = dl_webhook x \<and> dl_state x = DeliveryPending
            \<and> dl_next x \<le> format_time now \<and> wh_paused w = None) (webhooks d))) (deliveries d)))))"

record delivery_attempt =
  da_attempt :: int
  da_url :: string
  da_secret :: string

definition booked_under :: "string \<Rightarrow> int \<Rightarrow> delivery_row \<Rightarrow> bool" where
  "booked_under did gen x = (dl_id x = did \<and> dl_state x = DeliveryPending \<and> dl_generation x = gen)"

definition begin_delivery_attempt :: "db \<Rightarrow> string \<Rightarrow> int \<Rightarrow> store_error + (delivery_attempt \<times> db)" where
  "begin_delivery_attempt d did gen =
     (case find (booked_under did gen) (deliveries d) of
        None \<Rightarrow> Inl ErrStaleAttempt
      | Some x \<Rightarrow>
          (case find (\<lambda>w. wh_id w = dl_webhook x) (webhooks d) of
             None \<Rightarrow> Inl ErrStaleAttempt
           | Some w \<Rightarrow>
               if wh_paused w \<noteq> None then Inl ErrWebhookPaused
               else if affected (booked_under did gen) (deliveries d) = 0 then Inl ErrStaleAttempt
               else
                 let d' = d\<lparr>deliveries := update_where (booked_under did gen)
                              (\<lambda>x. x\<lparr>dl_attempts := dl_attempts x + 1\<rparr>) (deliveries d)\<rparr>
                 in case find (\<lambda>x. dl_id x = did) (deliveries d') of
                      None \<Rightarrow> Inl ErrStaleAttempt
                    | Some y \<Rightarrow> Inr (\<lparr>da_attempt = dl_attempts y, da_url = wh_url w, da_secret = wh_secret w\<rparr>, d')))"

definition booked_or_stale :: "(delivery_row \<Rightarrow> bool) \<Rightarrow> (delivery_row \<Rightarrow> delivery_row) \<Rightarrow> db \<Rightarrow> store_error + db" where
  "booked_or_stale p f d =
     (if affected p (deliveries d) = 0 then Inl ErrStaleAttempt
      else Inr (d\<lparr>deliveries := update_where p f (deliveries d)\<rparr>))"

definition record_delivery_success :: "db \<Rightarrow> string \<Rightarrow> int \<Rightarrow> int \<Rightarrow> time \<Rightarrow> store_error + db" where
  "record_delivery_success d did gen status now =
     booked_or_stale (booked_under did gen)
       (\<lambda>x. x\<lparr>dl_state := DeliveryDelivered, dl_status := Some status, dl_error := None,
              dl_delivered := Some (format_time now), dl_finished := Some (format_time now)\<rparr>) d"

definition record_delivery_failure ::
  "db \<Rightarrow> string \<Rightarrow> int \<Rightarrow> int option \<Rightarrow> string \<Rightarrow> time option \<Rightarrow> time \<Rightarrow> store_error + db" where
  "record_delivery_failure d did gen status message next_at now =
     (case next_at of
        Some t \<Rightarrow> booked_or_stale (booked_under did gen)
          (\<lambda>x. x\<lparr>dl_status := status, dl_error := Some message, dl_next := format_time t\<rparr>) d
      | None \<Rightarrow> booked_or_stale (booked_under did gen)
          (\<lambda>x. x\<lparr>dl_state := DeliveryDead, dl_status := status, dl_error := Some message,
                 dl_finished := Some (format_time now)\<rparr>) d)"

record webhook_delivery =
  wd_id :: string
  wd_webhook :: string
  wd_type :: string
  wd_server :: string
  wd_body :: string
  wd_state :: delivery_state
  wd_attempts :: int
  wd_next :: time
  wd_status :: "int option"
  wd_error :: string
  wd_created :: time
  wd_delivered :: "time option"
  wd_generation :: int

definition scan_webhook_delivery :: "delivery_row \<Rightarrow> webhook_delivery" where
  "scan_webhook_delivery x =
     \<lparr>wd_id = dl_id x, wd_webhook = dl_webhook x, wd_type = dl_type x, wd_server = dl_server x,
      wd_body = dl_body x, wd_state = dl_state x, wd_attempts = dl_attempts x,
      wd_next = parse_time (dl_next x), wd_status = dl_status x,
      wd_error = (case dl_error x of None \<Rightarrow> '''' | Some m \<Rightarrow> m), wd_created = parse_time (dl_created x),
      wd_delivered = scan_time (dl_delivered x), wd_generation = dl_generation x\<rparr>"

definition webhook_deliveries :: "db \<Rightarrow> string \<Rightarrow> int \<Rightarrow> webhook_delivery list" where
  "webhook_deliveries d wid limit =
     map scan_webhook_delivery (sql_limit limit (rev (sort_key (\<lambda>x. (dl_created x, dl_id x))
       (filter (\<lambda>x. dl_webhook x = wid) (deliveries d)))))"

definition webhook_delivery_by_id :: "db \<Rightarrow> string \<Rightarrow> string \<Rightarrow> store_error + webhook_delivery" where
  "webhook_delivery_by_id d wid did =
     (case find (\<lambda>x. dl_id x = did \<and> dl_webhook x = wid) (deliveries d) of
        None \<Rightarrow> Inl ErrNotFound
      | Some x \<Rightarrow> Inr (scan_webhook_delivery x))"

definition rearm :: "time \<Rightarrow> delivery_row \<Rightarrow> delivery_row" where
  "rearm now x = x\<lparr>dl_state := DeliveryPending, dl_next := format_time now, dl_finished := None,
     dl_delivered := None, dl_generation := dl_generation x + 1\<rparr>"

definition replay_webhook_delivery :: "db \<Rightarrow> string \<Rightarrow> string \<Rightarrow> time \<Rightarrow> store_error + (webhook_delivery \<times> db)" where
  "replay_webhook_delivery d wid did now =
     (if \<not> exists_row (\<lambda>w. wh_id w = wid) (webhooks d) then Inl ErrNotFound
      else if affected (\<lambda>x. dl_id x = did \<and> dl_webhook x = wid) (deliveries d) = 0 then Inl ErrNotFound
      else let d' = d\<lparr>deliveries := update_where (\<lambda>x. dl_id x = did \<and> dl_webhook x = wid) (rearm now) (deliveries d)\<rparr>
           in case find (\<lambda>x. dl_id x = did) (deliveries d') of
                None \<Rightarrow> Inl ErrNotFound
              | Some x \<Rightarrow> Inr (scan_webhook_delivery x, d'))"

definition delivery_prunable :: "time \<Rightarrow> delivery_row \<Rightarrow> bool" where
  "delivery_prunable cutoff x =
     (dl_state x \<noteq> DeliveryPending \<and> (case dl_finished x of None \<Rightarrow> False | Some t \<Rightarrow> t \<le> format_time cutoff))"

text \<open>
  The batch is chosen without a lock, on the rows as they are then (\<open>seen\<close>); the delete runs after
  the parents are locked and checks eligibility again.
\<close>

definition prune_webhook_deliveries :: "db \<Rightarrow> db \<Rightarrow> time \<Rightarrow> int \<Rightarrow> int \<times> db" where
  "prune_webhook_deliveries seen d cutoff limit =
     (let n = min (if limit \<le> 0 then default_prune_batch else limit) 32764;
          batch = sql_limit n (sort_key (\<lambda>x. (the (dl_finished x), dl_id x))
                     (filter (delivery_prunable cutoff) (deliveries seen)));
          gone = (\<lambda>x. dl_id x \<in> dl_id ` set batch \<and> delivery_prunable cutoff x)
      in if batch = [] then (0, d)
         else (affected gone (deliveries d), d\<lparr>deliveries := delete_where gone (deliveries d)\<rparr>))"

subsection \<open>Links\<close>

record link_candidate =
  lc_server :: string
  lc_state :: string
  lc_last_seen :: "time option"
  lc_poll_timeout :: "int option"

definition link_up :: string where "link_up = ''up''"
definition link_down :: string where "link_down = ''down''"

text \<open>The live sessions of a server; the unique index keeps them to one.\<close>

definition server_live :: "string \<Rightarrow> time \<Rightarrow> session_row \<Rightarrow> bool" where
  "server_live sid now s = (ss_server s = sid \<and> ss_ended s = None \<and> ss_expires s > format_time now)"

definition link_candidates :: "db \<Rightarrow> time \<Rightarrow> link_candidate list" where
  "link_candidates d now =
     concat (map (\<lambda>v. case filter (server_live (sv_id v) now) (sessions d) of
          [] \<Rightarrow> [\<lparr>lc_server = sv_id v, lc_state = sv_link_state v, lc_last_seen = scan_time (sv_last_seen v),
                  lc_poll_timeout = None\<rparr>]
        | ss \<Rightarrow> map (\<lambda>s. \<lparr>lc_server = sv_id v, lc_state = sv_link_state v,
                            lc_last_seen = scan_time (sv_last_seen v), lc_poll_timeout = Some (ss_poll_timeout s)\<rparr>) ss)
       (servers d))"

definition link_guard :: "db \<Rightarrow> string \<Rightarrow> string \<Rightarrow> string \<Rightarrow> time option \<Rightarrow> time \<Rightarrow> server_row \<Rightarrow> bool" where
  "link_guard d sid old new observed now v =
     (sv_id v = sid \<and> sv_link_state v = old \<and> sv_last_seen v = map_option format_time observed
      \<and> (new = link_up \<longrightarrow> exists_row (server_live sid now) (sessions d)))"

definition apply_link_transition ::
  "db \<Rightarrow> string \<Rightarrow> string \<Rightarrow> string \<Rightarrow> time option \<Rightarrow> (webhook list \<Rightarrow> (string \<Rightarrow> string) \<Rightarrow> new_delivery list) option
    \<Rightarrow> int \<Rightarrow> time \<Rightarrow> time \<Rightarrow> store_error + (bool \<times> db)" where
  "apply_link_transition d sid old new observed build quota now insert_now =
     (if \<not> lock_server d sid then Inr (False, d)
      else if affected (link_guard d sid old new observed now) (servers d) = 0 then Inr (False, d)
      else
        let d' = d\<lparr>servers := update_where (link_guard d sid old new observed now)
                     (\<lambda>v. v\<lparr>sv_link_state := new\<rparr>) (servers d)\<rparr>
        in case build of
             None \<Rightarrow> Inr (True, d')
           | Some f \<Rightarrow>
               (case insert_deliveries d' (f (webhooks_all d') (server_names d')) quota insert_now of
                  Inl err \<Rightarrow> Inl err
                | Inr d'' \<Rightarrow> Inr (True, d'')))"

subsection \<open>Enqueueing keeps the evidence and the bound\<close>

definition pending_of :: "db \<Rightarrow> string \<Rightarrow> int" where
  "pending_of d wid = affected (webhook_pending wid) (deliveries d)"

text \<open>A row that carries a delivery: its bytes, no attempt made, pending or dead with a reason.\<close>

definition carries :: "stamp \<Rightarrow> delivery_row \<Rightarrow> new_delivery \<Rightarrow> bool" where
  "carries at x n =
     (dl_id x = nd_id n \<and> dl_webhook x = nd_webhook n \<and> dl_type x = nd_type n \<and> dl_server x = nd_server n
      \<and> dl_body x = nd_body n \<and> dl_attempts x = 0 \<and> dl_generation x = 0 \<and> dl_next x = at
      \<and> (dl_state x = DeliveryPending \<and> dl_error x = None
         \<or> dl_state x = DeliveryDead \<and> dl_error x \<noteq> None \<and> dl_finished x = Some at))"

lemma carries_new: "carries at (new_delivery_row n at owed quota) n"
  by (simp add: carries_def new_delivery_row_def Let_def)

definition counts_right :: "(string \<times> int) list \<Rightarrow> db \<Rightarrow> bool" where
  "counts_right counted d = (\<forall>w k. map_of counted w = Some k \<longrightarrow> k = pending_of d w)"

lemma pending_after_insert:
  "pending_of (d\<lparr>deliveries := deliveries d @ [new_delivery_row n at (pending_of d (nd_webhook n)) quota]\<rparr>) w
   = (if w = nd_webhook n \<and> pending_of d w < quota then pending_of d w + 1 else pending_of d w)"
  by (auto simp: pending_of_def affected_def new_delivery_row_def webhook_pending_def Let_def)

lemma insert_each_effect:
  assumes "insert_each counted d ns quota at = Inr d'" and "counts_right counted d"
  shows "\<exists>rows. d' = d\<lparr>deliveries := deliveries d @ rows\<rparr> \<and> list_all2 (carries at) rows ns
    \<and> (\<forall>w. pending_of d' w = (if quota \<le> pending_of d w then pending_of d w
          else min quota (pending_of d w + int (length (filter (\<lambda>n. nd_webhook n = w) ns)))))"
  using assms
proof (induction ns arbitrary: counted d)
  case Nil
  then show ?case by (auto intro!: exI [of _ "[]"])
next
  case (Cons n ns)
  let ?w = "nd_webhook n"
  let ?owed = "case map_of counted ?w of Some k \<Rightarrow> k | None \<Rightarrow> affected (webhook_pending ?w) (deliveries d)"
  have owed: "?owed = pending_of d ?w"
    using Cons.prems(2) by (auto simp: counts_right_def pending_of_def split: option.split)
  let ?row = "new_delivery_row n at (pending_of d ?w) quota"
  let ?d = "d\<lparr>deliveries := deliveries d @ [?row]\<rparr>"
  let ?counted = "(?w, if pending_of d ?w \<ge> quota then pending_of d ?w else pending_of d ?w + 1) # counted"
  have step: "insert_each ?counted ?d ns quota at = Inr d'"
    using Cons.prems(1) by (simp add: owed Let_def del: fun_upd_apply split: if_splits)
  have right: "counts_right ?counted ?d"
    using Cons.prems(2) by (auto simp: counts_right_def pending_after_insert)
  from Cons.IH [OF step right] obtain rows where rows: "d' = ?d\<lparr>deliveries := deliveries ?d @ rows\<rparr>"
    "list_all2 (carries at) rows ns"
    and count: "\<And>w. pending_of d' w = (if quota \<le> pending_of ?d w then pending_of ?d w
          else min quota (pending_of ?d w + int (length (filter (\<lambda>n. nd_webhook n = w) ns))))" by blast
  have "pending_of d' w = (if quota \<le> pending_of d w then pending_of d w
          else min quota (pending_of d w + int (length (filter (\<lambda>n. nd_webhook n = w) (n # ns)))))" for w
    unfolding count [of w] pending_after_insert by auto
  with rows show ?case by (auto intro!: exI [of _ "?row # rows"] simp: carries_new)
qed

lemma insert_deliveries_effect:
  assumes "insert_deliveries d ns quota now = Inr d'"
  obtains rows where "d' = d\<lparr>deliveries := deliveries d @ rows\<rparr>" and "list_all2 (carries (format_time now)) rows ns"
    and "\<And>w. pending_of d' w = (if quota \<le> pending_of d w then pending_of d w
          else min quota (pending_of d w + int (length (filter (\<lambda>n. nd_webhook n = w) ns))))"
  using insert_each_effect [of "[]" d ns quota "format_time now" d'] assms
  by (auto simp: insert_deliveries_def counts_right_def)

text \<open>
  Nothing is dropped silently and no queue grows past its bound: every delivery handed to the store
  becomes a row with its bytes, dead with a reason when its webhook's queue is full and pending
  otherwise, and the pending rows of each webhook grow by exactly what fits below the bound.
\<close>

lemma enqueue_bounded_never_drops:
  assumes "insert_deliveries d ns quota now = Inr d'"
  shows "\<exists>rows. deliveries d' = deliveries d @ rows \<and> list_all2 (carries (format_time now)) rows ns
    \<and> (\<forall>w. pending_of d' w = (if quota \<le> pending_of d w then pending_of d w
          else min quota (pending_of d w + int (length (filter (\<lambda>n. nd_webhook n = w) ns)))))"
  using assms by (elim insert_deliveries_effect) auto

definition sample_webhook :: webhook_row where
  "sample_webhook = \<lparr>wh_id = ''w1'', wh_url = ''https://a'', wh_secret = ''k'', wh_template = ''generic-json'',
     wh_events = [], wh_servers = [], wh_redact = [], wh_audit = False, wh_created = 0, wh_paused = None\<rparr>"

definition sample_delivery :: "string \<Rightarrow> new_delivery" where
  "sample_delivery i = \<lparr>nd_id = i, nd_webhook = ''w1'', nd_type = ''core.x'', nd_server = ''s1'', nd_body = ''{}''\<rparr>"

definition sample_hub :: db where
  "sample_hub = empty_db\<lparr>webhooks := [sample_webhook]\<rparr>"

lemma sample_enqueue:
  obtains d' where "insert_deliveries sample_hub [sample_delivery ''x1'', sample_delivery ''x2''] 1 0 = Inr d'"
    and "map dl_state (deliveries d') = [DeliveryPending, DeliveryDead]" and "webhooks d' = [sample_webhook]"
    and "map dl_id (deliveries d') = [''x1'', ''x2'']"
  by (simp add: insert_deliveries_def sample_hub_def sample_delivery_def Let_def exists_row_def sample_webhook_def
      affected_def webhook_pending_def new_delivery_row_def)

lemma enqueue_bounded_never_drops_witness:
  "\<exists>d'. insert_deliveries sample_hub [sample_delivery ''x1'', sample_delivery ''x2''] 1 0 = Inr d'
     \<and> pending_of d' ''w1'' = 1 \<and> length (deliveries d') = 2"
proof -
  obtain d' where d': "insert_deliveries sample_hub [sample_delivery ''x1'', sample_delivery ''x2''] 1 0 = Inr d'"
    by (rule sample_enqueue)
  let ?ns = "[sample_delivery ''x1'', sample_delivery ''x2'']"
  from enqueue_bounded_never_drops [OF d'] obtain rows where rows: "deliveries d' = deliveries sample_hub @ rows"
    "list_all2 (carries (format_time 0)) rows ?ns"
    and count: "pending_of d' ''w1'' = (if 1 \<le> pending_of sample_hub ''w1'' then pending_of sample_hub ''w1''
          else min 1 (pending_of sample_hub ''w1'' + int (length (filter (\<lambda>n. nd_webhook n = ''w1'') ?ns))))"
    by blast
  have "pending_of sample_hub ''w1'' = 0" by (simp add: pending_of_def affected_def sample_hub_def)
  with count have "pending_of d' ''w1'' = 1" by (simp add: sample_delivery_def)
  moreover have "length (deliveries d') = 2"
    using list_all2_lengthD [OF rows(2)] rows(1) by (simp add: sample_hub_def)
  ultimately show ?thesis using d' by blast
qed

subsection \<open>An attempt's outcome counts once\<close>

text \<open>
  The steps that touch deliveries, each a whole transaction; a refused one changes nothing.
\<close>

datatype delivery_event =
    Enqueue "new_delivery list" int time
  | BeginAttempt string int
  | Succeeded string int int time
  | AttemptFailed string int "int option" string "time option" time
  | Replay string string time
  | PruneFinished db time int
  | DropWebhook string

fun delivery_step :: "db \<Rightarrow> delivery_event \<Rightarrow> db" where
  "delivery_step d (Enqueue ns quota now) =
     (case insert_deliveries d ns quota now of Inl err \<Rightarrow> d | Inr d' \<Rightarrow> d')"
| "delivery_step d (BeginAttempt did gen) =
     (case begin_delivery_attempt d did gen of Inl err \<Rightarrow> d | Inr (a, d') \<Rightarrow> d')"
| "delivery_step d (Succeeded did gen status now) =
     (case record_delivery_success d did gen status now of Inl err \<Rightarrow> d | Inr d' \<Rightarrow> d')"
| "delivery_step d (AttemptFailed did gen status m at now) =
     (case record_delivery_failure d did gen status m at now of Inl err \<Rightarrow> d | Inr d' \<Rightarrow> d')"
| "delivery_step d (Replay wid did now) =
     (case replay_webhook_delivery d wid did now of Inl err \<Rightarrow> d | Inr (w, d') \<Rightarrow> d')"
| "delivery_step d (PruneFinished seen cutoff limit) = snd (prune_webhook_deliveries seen d cutoff limit)"
| "delivery_step d (DropWebhook wid) = (case delete_webhook d wid of Inl err \<Rightarrow> d | Inr d' \<Rightarrow> d')"

text \<open>Identifiers are never drawn twice; the runs below say so of the one they are about.\<close>

definition draws_other :: "string \<Rightarrow> delivery_event \<Rightarrow> bool" where
  "draws_other did e = (case e of Enqueue ns _ _ \<Rightarrow> did \<notin> nd_id ` set ns | _ \<Rightarrow> True)"

lemma list_all2_ids: "list_all2 (carries at) rows ns \<Longrightarrow> dl_id ` set rows = nd_id ` set ns"
  by (induction rule: list_all2_induct) (auto simp: carries_def)

text \<open>Every step either drops rows, adds rows of drawn ids, or rewrites rows in one of four ways.\<close>

lemma delivery_step_rows:
  assumes "x \<in> set (deliveries (delivery_step d e))" and "draws_other (dl_id x) e"
  obtains (same) "x \<in> set (deliveries d)"
    | (attempt) y where "y \<in> set (deliveries d)" "dl_state y = DeliveryPending"
        "x = y\<lparr>dl_attempts := dl_attempts y + 1\<rparr>"
    | (outcome) y where "y \<in> set (deliveries d)" "dl_state y = DeliveryPending" "dl_id x = dl_id y"
        "dl_generation x = dl_generation y" "dl_attempts x = dl_attempts y" "dl_body x = dl_body y"
        "dl_webhook x = dl_webhook y" "dl_type x = dl_type y"
    | (again) y now where "y \<in> set (deliveries d)" "x = rearm now y"
proof (cases e)
  case (Enqueue ns quota now)
  show ?thesis
  proof (cases "insert_deliveries d ns quota now")
    case (Inl err)
    with assms(1) Enqueue same show ?thesis by simp
  next
    case (Inr d')
    from insert_deliveries_effect [OF Inr] obtain rows where rows: "d' = d\<lparr>deliveries := deliveries d @ rows\<rparr>"
      "list_all2 (carries (format_time now)) rows ns" by blast
    have "x \<notin> set rows" using list_all2_ids [OF rows(2)] assms(2) Enqueue by (auto simp: draws_other_def)
    with assms(1) Enqueue Inr rows(1) same show ?thesis by simp
  qed
next
  case (BeginAttempt did gen)
  show ?thesis
  proof (cases "begin_delivery_attempt d did gen")
    case (Inl err)
    with assms(1) BeginAttempt same show ?thesis by simp
  next
    case (Inr p)
    then have "deliveries (snd p) = update_where (booked_under did gen) (\<lambda>x. x\<lparr>dl_attempts := dl_attempts x + 1\<rparr>) (deliveries d)"
      by (auto simp: begin_delivery_attempt_def Let_def split: option.splits if_splits)
    with assms(1) BeginAttempt Inr have
      "x \<in> set (update_where (booked_under did gen) (\<lambda>x. x\<lparr>dl_attempts := dl_attempts x + 1\<rparr>) (deliveries d))"
      by (auto split: prod.splits)
    then show ?thesis by (cases rule: update_whereE) (auto simp: booked_under_def intro: same attempt)
  qed
next
  case (Succeeded did gen status now)
  let ?f = "\<lambda>x. x\<lparr>dl_state := DeliveryDelivered, dl_status := Some status, dl_error := None,
              dl_delivered := Some (format_time now), dl_finished := Some (format_time now)\<rparr>"
  have "x \<in> set (deliveries d) \<or> x \<in> set (update_where (booked_under did gen) ?f (deliveries d))"
    using assms(1) Succeeded by (auto simp: record_delivery_success_def booked_or_stale_def split: if_splits)
  then show ?thesis
  proof
    assume "x \<in> set (update_where (booked_under did gen) ?f (deliveries d))"
    then show ?thesis
    proof (cases rule: update_whereE)
      case (2 y)
      then show ?thesis by (intro outcome [of y]) (simp_all add: booked_under_def)
    qed (rule same)
  qed (rule same)
next
  case (AttemptFailed did gen status m at now)
  let ?f = "\<lambda>x. case at of Some t \<Rightarrow> x\<lparr>dl_status := status, dl_error := Some m, dl_next := format_time t\<rparr>
     | None \<Rightarrow> x\<lparr>dl_state := DeliveryDead, dl_status := status, dl_error := Some m, dl_finished := Some (format_time now)\<rparr>"
  have "x \<in> set (deliveries d) \<or> x \<in> set (update_where (booked_under did gen) ?f (deliveries d))"
    using assms(1) AttemptFailed
    by (auto simp: record_delivery_failure_def booked_or_stale_def split: if_splits option.splits)
  then show ?thesis
  proof
    assume "x \<in> set (update_where (booked_under did gen) ?f (deliveries d))"
    then show ?thesis
    proof (cases rule: update_whereE)
      case (2 y)
      then show ?thesis by (intro outcome [of y]) (simp_all add: booked_under_def split: option.split)
    qed (rule same)
  qed (rule same)
next
  case (Replay wid did now)
  have "x \<in> set (deliveries d) \<or> x \<in> set (update_where (\<lambda>x. dl_id x = did \<and> dl_webhook x = wid) (rearm now) (deliveries d))"
    using assms(1) Replay by (auto simp: replay_webhook_delivery_def Let_def split: if_splits option.splits)
  then show ?thesis
  proof
    assume "x \<in> set (update_where (\<lambda>x. dl_id x = did \<and> dl_webhook x = wid) (rearm now) (deliveries d))"
    then show ?thesis by (cases rule: update_whereE) (auto intro: same again)
  qed (rule same)
next
  case (PruneFinished seen cutoff limit)
  with assms(1) same show ?thesis by (auto simp: prune_webhook_deliveries_def Let_def split: if_splits)
next
  case (DropWebhook wid)
  with assms(1) same show ?thesis by (auto simp: delete_webhook_def split: if_splits)
qed

text \<open>No attempt of generation \<open>g\<close> of this delivery can still be made or booked.\<close>

definition closed_at :: "string \<Rightarrow> int \<Rightarrow> db \<Rightarrow> bool" where
  "closed_at did g d = (\<forall>x \<in> set (deliveries d). dl_id x = did \<longrightarrow>
     g < dl_generation x \<or> dl_generation x = g \<and> dl_state x \<noteq> DeliveryPending)"

lemma closed_at_step:
  assumes "closed_at did g d" and "draws_other did e"
  shows "closed_at did g (delivery_step d e)"
  unfolding closed_at_def
proof (intro ballI impI)
  fix x assume x: "x \<in> set (deliveries (delivery_step d e))" "dl_id x = did"
  from x(1) have "draws_other (dl_id x) e" using assms(2) x(2) by simp
  with x(1) show "g < dl_generation x \<or> dl_generation x = g \<and> dl_state x \<noteq> DeliveryPending"
  proof (cases rule: delivery_step_rows)
    case same
    with assms(1) x(2) show ?thesis by (simp add: closed_at_def)
  next
    case (attempt y)
    with assms(1) x(2) show ?thesis by (auto simp: closed_at_def)
  next
    case (outcome y)
    with assms(1) x(2) show ?thesis by (auto simp: closed_at_def)
  next
    case (again y now)
    with assms(1) x(2) show ?thesis by (auto simp: closed_at_def rearm_def)
  qed
qed

lemma closed_at_run:
  "closed_at did g d \<Longrightarrow> list_all (draws_other did) es \<Longrightarrow> closed_at did g (run_steps delivery_step d es)"
  by (induction es arbitrary: d) (auto intro: closed_at_step)

lemma closed_at_stale:
  assumes "closed_at did g d"
  shows "begin_delivery_attempt d did g = Inl ErrStaleAttempt"
    and "record_delivery_success d did g status now = Inl ErrStaleAttempt"
    and "record_delivery_failure d did g st m at now = Inl ErrStaleAttempt"
proof -
  have none: "\<forall>x \<in> set (deliveries d). \<not> booked_under did g x"
    using assms by (auto simp: closed_at_def booked_under_def)
  then have "find (booked_under did g) (deliveries d) = None" by (simp add: find_None_iff')
  then show "begin_delivery_attempt d did g = Inl ErrStaleAttempt" by (simp add: begin_delivery_attempt_def)
  have "affected (booked_under did g) (deliveries d) = 0" using none by (simp add: affected_zero_iff)
  then show "record_delivery_success d did g status now = Inl ErrStaleAttempt"
    "record_delivery_failure d did g st m at now = Inl ErrStaleAttempt"
    by (simp_all add: record_delivery_success_def record_delivery_failure_def booked_or_stale_def split: option.split)
qed

text \<open>What ends a generation: a success, the failure that exhausts the schedule, or a replay.\<close>

definition settles :: "db \<Rightarrow> string \<Rightarrow> int \<Rightarrow> db \<Rightarrow> bool" where
  "settles d did g d' =
     ((\<exists>status now. record_delivery_success d did g status now = Inr d')
      \<or> (\<exists>status m now. record_delivery_failure d did g status m None now = Inr d')
      \<or> (\<exists>wid now w. replay_webhook_delivery d wid did now = Inr (w, d') \<and> g < wd_generation w))"

lemma booked_closed:
  assumes "distinct (map dl_id (deliveries d))" and "booked_or_stale (booked_under did g) f d = Inr d'"
    and "\<And>x. dl_id (f x) = dl_id x" and "\<And>x. dl_generation (f x) = dl_generation x"
    and "\<And>x. dl_state (f x) \<noteq> DeliveryPending"
  shows "closed_at did g d'"
proof -
  from assms(2) have rows: "deliveries d' = update_where (booked_under did g) f (deliveries d)"
    and "affected (booked_under did g) (deliveries d) \<noteq> 0"
    by (auto simp: booked_or_stale_def split: if_splits)
  then obtain z where z: "z \<in> set (deliveries d)" "booked_under did g z" by (auto simp: affected_zero_iff)
  show ?thesis
    unfolding closed_at_def
  proof (intro ballI impI)
    fix x assume "x \<in> set (deliveries d')" and id: "dl_id x = did"
    then have "x \<in> set (update_where (booked_under did g) f (deliveries d))" by (simp add: rows)
    then show "g < dl_generation x \<or> dl_generation x = g \<and> dl_state x \<noteq> DeliveryPending"
    proof (cases rule: update_whereE)
      case 1
      have "x = z" using key_unique [OF assms(1) 1(1) z(1)] id z(2) by (simp add: booked_under_def)
      with 1(2) z(2) show ?thesis by simp
    next
      case (2 y)
      then show ?thesis using assms(4,5) by (simp add: booked_under_def)
    qed
  qed
qed

lemma settles_closed:
  assumes "distinct (map dl_id (deliveries d))" and "settles d did g d'"
  shows "closed_at did g d'"
proof -
  from assms(2) consider (ok) status now where "record_delivery_success d did g status now = Inr d'"
    | (dead) status m now where "record_delivery_failure d did g status m None now = Inr d'"
    | (replay) wid now w where "replay_webhook_delivery d wid did now = Inr (w, d')" "g < wd_generation w"
    unfolding settles_def by blast
  then show ?thesis
  proof cases
    case ok
    then show ?thesis unfolding record_delivery_success_def by (rule booked_closed [OF assms(1)]) simp_all
  next
    case dead
    then show ?thesis unfolding record_delivery_failure_def option.case
      by (rule booked_closed [OF assms(1)]) simp_all
  next
    case replay
    let ?t = "update_where (\<lambda>x. dl_id x = did \<and> dl_webhook x = wid) (rearm now) (deliveries d)"
    from replay(1) obtain x where rows: "deliveries d' = ?t" and x: "find (\<lambda>x. dl_id x = did) ?t = Some x"
      and w: "w = scan_webhook_delivery x"
      by (auto simp: replay_webhook_delivery_def Let_def split: if_splits option.splits)
    have "map dl_id ?t = map dl_id (deliveries d)" by (simp add: map_update_where rearm_def)
    then have dist: "distinct (map dl_id ?t)" using assms(1) by simp
    have "g < dl_generation x" using replay(2) w by (simp add: scan_webhook_delivery_def)
    from find_Some_in [OF x] have x: "x \<in> set ?t" "dl_id x = did" by auto
    show ?thesis
      unfolding closed_at_def rows
    proof (intro ballI impI disjI1)
      fix y assume "y \<in> set ?t" "dl_id y = did"
      with key_unique [OF dist _ x(1)] x(2) have "y = x" by blast
      with \<open>g < dl_generation x\<close> show "g < dl_generation y" by simp
    qed
  qed
qed

text \<open>
  C12. An outcome counts once: after a delivery's generation was settled, by a success, by the last
  scheduled failure or by a replay, no attempt under it begins and no outcome under it is booked, ever,
  whatever else happens to the queue; an attempt that was in flight across a replay cannot consume the
  attempt the replay promised.
\<close>

theorem outcome_counts_once:
  assumes "distinct (map dl_id (deliveries d))" and "settles d did g d1"
    and "list_all (draws_other did) es" and "d2 = run_steps delivery_step d1 es"
  shows "begin_delivery_attempt d2 did g = Inl ErrStaleAttempt
    \<and> record_delivery_success d2 did g status now = Inl ErrStaleAttempt
    \<and> record_delivery_failure d2 did g st m at now = Inl ErrStaleAttempt"
  using closed_at_stale [OF closed_at_run [OF settles_closed [OF assms(1,2)] assms(3)]] assms(4) by blast

definition continues :: "delivery_row \<Rightarrow> delivery_row \<Rightarrow> bool" where
  "continues x y =
     (dl_id y = dl_id x \<and> dl_body y = dl_body x \<and> dl_webhook y = dl_webhook x \<and> dl_type y = dl_type x
      \<and> dl_attempts x \<le> dl_attempts y \<and> dl_generation x \<le> dl_generation y)"

lemma continues_refl [simp]: "continues x x"
  by (simp add: continues_def)

lemma continues_trans: "continues x y \<Longrightarrow> continues y z \<Longrightarrow> continues x z"
  by (simp add: continues_def)

lemma delivery_step_continues:
  assumes "y \<in> set (deliveries (delivery_step d e))" and "draws_other (dl_id y) e"
  shows "\<exists>x \<in> set (deliveries d). continues x y"
  using assms
proof (cases rule: delivery_step_rows)
  case same
  then show ?thesis using continues_refl by blast
next
  case (attempt z)
  then show ?thesis by (intro bexI [of _ z]) (simp_all add: continues_def)
next
  case (outcome z)
  then show ?thesis by (intro bexI [of _ z]) (simp_all add: continues_def)
next
  case (again z now)
  then show ?thesis by (intro bexI [of _ z]) (simp_all add: continues_def rearm_def)
qed

lemma delivery_run_continues:
  "list_all (draws_other (dl_id y)) es \<Longrightarrow> y \<in> set (deliveries (run_steps delivery_step d es))
    \<Longrightarrow> \<exists>x \<in> set (deliveries d). continues x y"
proof (induction es arbitrary: d)
  case Nil
  then have "y \<in> set (deliveries d)" by simp
  then show ?case using continues_refl by blast
next
  case (Cons e es)
  then obtain z where z: "z \<in> set (deliveries (delivery_step d e))" "continues z y" by auto
  then have "draws_other (dl_id z) e" using Cons.prems(1) by (simp add: continues_def)
  from delivery_step_continues [OF z(1) this] z(2) continues_trans show ?case by blast
qed

text \<open>
  What is sent never changes: through every attempt, outcome and replay a delivery keeps its webhook,
  its type and its stored bytes, and its attempt and replay counts only grow.
\<close>

lemma delivery_bytes_fixed:
  assumes "distinct (map dl_id (deliveries d))" and "x \<in> set (deliveries d)"
    and "list_all (draws_other (dl_id x)) es"
    and "y \<in> set (deliveries (run_steps delivery_step d es))" and "dl_id y = dl_id x"
  shows "dl_body y = dl_body x \<and> dl_webhook y = dl_webhook x \<and> dl_type y = dl_type x
    \<and> dl_attempts x \<le> dl_attempts y \<and> dl_generation x \<le> dl_generation y"
proof -
  have "list_all (draws_other (dl_id y)) es" using assms(3,5) by simp
  from delivery_run_continues [OF this assms(4)] obtain z where z: "z \<in> set (deliveries d)" "continues z y" by blast
  moreover from this assms(5) have "dl_id z = dl_id x" by (simp add: continues_def)
  ultimately have "z = x" using key_unique [OF assms(1) _ assms(2)] by blast
  with z(2) show ?thesis by (simp add: continues_def)
qed

lemma sample_settled:
  obtains d d1 w where "insert_deliveries sample_hub [sample_delivery ''x1''] 1 0 = Inr d"
    and "replay_webhook_delivery d ''w1'' ''x1'' 0 = Inr (w, d1)" and "wd_generation w = 1"
    and "map dl_id (deliveries d) = [''x1'']" and "map dl_id (deliveries d1) = [''x1'']"
  by (simp add: insert_deliveries_def sample_hub_def sample_delivery_def Let_def exists_row_def sample_webhook_def
      affected_def webhook_pending_def new_delivery_row_def replay_webhook_delivery_def rearm_def
      scan_webhook_delivery_def)

theorem outcome_counts_once_witness:
  "\<exists>d d1 w. insert_deliveries sample_hub [sample_delivery ''x1''] 1 0 = Inr d
     \<and> replay_webhook_delivery d ''w1'' ''x1'' 0 = Inr (w, d1)
     \<and> record_delivery_success (run_steps delivery_step d1 [BeginAttempt ''x1'' 1]) ''x1'' 0 200 5 = Inl ErrStaleAttempt"
proof -
  obtain d d1 w where s: "insert_deliveries sample_hub [sample_delivery ''x1''] 1 0 = Inr d"
    "replay_webhook_delivery d ''w1'' ''x1'' 0 = Inr (w, d1)" "wd_generation w = 1"
    "map dl_id (deliveries d) = [''x1'']" by (rule sample_settled)
  have "settles d ''x1'' 0 d1" unfolding settles_def using s(2,3) zero_less_one by metis
  moreover have "list_all (draws_other ''x1'') [BeginAttempt ''x1'' 1]" by (simp add: draws_other_def)
  moreover have "distinct (map dl_id (deliveries d))" using s(4) by simp
  ultimately show ?thesis using outcome_counts_once [OF _ _ _ refl] s(1,2) by blast
qed

lemma delivery_bytes_fixed_witness:
  "\<exists>d d1 w x y. insert_deliveries sample_hub [sample_delivery ''x1''] 1 0 = Inr d
     \<and> d1 = run_steps delivery_step d [Replay ''w1'' ''x1'' 0]
     \<and> deliveries d = [x] \<and> deliveries d1 = [y] \<and> dl_body y = dl_body x"
proof -
  obtain d d1 w where s: "insert_deliveries sample_hub [sample_delivery ''x1''] 1 0 = Inr d"
    "replay_webhook_delivery d ''w1'' ''x1'' 0 = Inr (w, d1)"
    "map dl_id (deliveries d) = [''x1'']" "map dl_id (deliveries d1) = [''x1'']" by (rule sample_settled)
  from s(3,4) obtain x y where xy: "deliveries d = [x]" "deliveries d1 = [y]" "dl_id x = ''x1''" "dl_id y = ''x1''"
    by auto
  have run: "run_steps delivery_step d [Replay ''w1'' ''x1'' 0] = d1" using s(2) by simp
  have "list_all (draws_other (dl_id x)) [Replay ''w1'' ''x1'' 0]" by (simp add: draws_other_def)
  from delivery_bytes_fixed [OF _ _ this, of d y] run xy have "dl_body y = dl_body x" by simp
  with s(1) run xy show ?thesis by blast
qed

end
