(* ===== verification/Outbox.thy ===== *)
theory Outbox
  imports Webhooks Dispatch
begin

text \<open>
  The notification outboxes of hub/store/webhooks.go and hub/store/tokens.go: \<open>NotifyEvents\<close>,
  \<open>NotifyFinishedActions\<close> and \<open>NotifyAudit\<close> share one contract, the locale \<open>outbox\<close>.
  A pass hands over the oldest owed items and marks them in the same transaction; an item handed
  once is never handed again, and passes that succeed drain the outbox.
\<close>

subsection \<open>The contract of an outbox\<close>

text \<open>A sequence of transactions in which every one commits.\<close>

fun run_all :: "('s \<Rightarrow> 'a \<Rightarrow> 'e + ('r \<times> 's)) \<Rightarrow> 's \<Rightarrow> 'a list \<Rightarrow> 's option" where
  "run_all f s [] = Some s"
| "run_all f s (a # as) = (case f s a of Inl _ \<Rightarrow> None | Inr (r, s') \<Rightarrow> run_all f s' as)"

text \<open>A failed pass is rolled back and hands nothing over.\<close>

definition outbox_step ::
  "('s \<Rightarrow> 'a \<Rightarrow> 'e + (int \<times> 's)) \<Rightarrow> ('s \<Rightarrow> 'b \<Rightarrow> 's) \<Rightarrow> 's \<Rightarrow> 'a + 'b \<Rightarrow> 's" where
  "outbox_step pass other s e =
     (case e of Inl a \<Rightarrow> (case pass s a of Inl _ \<Rightarrow> s | Inr (n, s') \<Rightarrow> s') | Inr b \<Rightarrow> other s b)"

definition draws_not :: "('b \<Rightarrow> 'k set) \<Rightarrow> 'k \<Rightarrow> 'a + 'b \<Rightarrow> bool" where
  "draws_not drawn k e = (case e of Inl _ \<Rightarrow> True | Inr b \<Rightarrow> k \<notin> drawn b)"

text \<open>
  \<open>other\<close> are the steps that are no pass; \<open>draws\<close> says which identifiers such a step creates.
\<close>

locale outbox =
  fixes ok :: "'s \<Rightarrow> bool"
    and owed :: "'s \<Rightarrow> 'k list"
    and told :: "'s \<Rightarrow> 'k \<Rightarrow> bool"
    and pass :: "'s \<Rightarrow> 'a \<Rightarrow> 'e + (int \<times> 's)"
    and bound :: "'a \<Rightarrow> int"
    and other :: "'s \<Rightarrow> 'b \<Rightarrow> 's"
    and draws :: "'b \<Rightarrow> 'k set"
  assumes owed_distinct: "ok s \<Longrightarrow> distinct (owed s)"
    and told_not_owed: "told s k \<Longrightarrow> k \<notin> set (owed s)"
    and pass_hands: "ok s \<Longrightarrow> pass s a = Inr (n, s') \<Longrightarrow>
      ok s' \<and> owed s = sql_limit (bound a) (owed s) @ owed s' \<and> n = int (length (sql_limit (bound a) (owed s)))"
    and pass_tells: "ok s \<Longrightarrow> pass s a = Inr (n, s') \<Longrightarrow>
      told s k \<or> k \<in> set (sql_limit (bound a) (owed s)) \<Longrightarrow> told s' k"
    and other_ok: "ok s \<Longrightarrow> ok (other s b)"
    and other_told: "told s k \<Longrightarrow> k \<notin> draws b \<Longrightarrow> told (other s b) k"
begin

lemma step_ok: "ok s \<Longrightarrow> ok (outbox_step pass other s e)"
  using pass_hands other_ok by (auto simp: outbox_step_def split: sum.splits)

lemma step_told:
  "ok s \<Longrightarrow> told s k \<Longrightarrow> (\<And>b. e = Inr b \<Longrightarrow> k \<notin> draws b) \<Longrightarrow> told (outbox_step pass other s e) k"
  using pass_tells other_told by (auto simp: outbox_step_def split: sum.splits)

lemma run_told:
  "ok s \<Longrightarrow> told s k \<Longrightarrow> list_all (draws_not draws k) es
    \<Longrightarrow> told (run_steps (outbox_step pass other) s es) k"
proof (induction es arbitrary: s)
  case (Cons e es)
  have "told (outbox_step pass other s e) k" using Cons.prems by (intro step_told) (auto simp: draws_not_def)
  with Cons.prems Cons.IH [OF step_ok] show ?case by simp
qed simp

text \<open>What a pass handed over is not owed again, whatever happens in between.\<close>

lemma handed_once:
  assumes "ok s" and "pass s a = Inr (n, s')" and "k \<in> set (sql_limit (bound a) (owed s))"
    and "list_all (draws_not draws k) es"
  shows "k \<notin> set (owed (run_steps (outbox_step pass other) s' es))"
  using assms pass_hands pass_tells run_told told_not_owed by blast

text \<open>Passes in a row hand over the owed items in order, each once, until none is left.\<close>

lemma pass_drops:
  assumes "ok s" and "pass s a = Inr (n, s')" and "0 < bound a"
  shows "owed s' = drop (nat (bound a)) (owed s)"
proof -
  have "owed s = take (nat (bound a)) (owed s) @ owed s'"
    using pass_hands [OF assms(1,2)] assms(3) by (simp add: sql_limit_def)
  then show ?thesis by (metis append_take_drop_id same_append_eq)
qed

lemma passes_drain:
  "ok s \<Longrightarrow> run_all pass s as = Some s' \<Longrightarrow> list_all (\<lambda>a. bound a = n) as \<Longrightarrow> 0 < n
    \<Longrightarrow> owed s' = drop (length as * nat n) (owed s)"
proof (induction as arbitrary: s)
  case (Cons a as)
  from Cons.prems(2) obtain k t where p: "pass s a = Inr (k, t)" and r: "run_all pass t as = Some s'"
    by (auto split: sum.splits)
  have "ok t" using pass_hands [OF Cons.prems(1) p] by blast
  from Cons.IH [OF this r] Cons.prems(3,4) pass_drops [OF Cons.prems(1) p]
  show ?case by (simp add: add.commute)
qed simp

end

subsection \<open>Marking by a flag\<close>

lemma pass_splits:
  assumes "distinct (map k xs)"
  shows "xs = sql_limit n xs @ filter (\<lambda>x. k x \<notin> k ` set (sql_limit n xs)) xs"
proof -
  let ?m = "if n < 0 then length xs else nat n"
  have lim: "sql_limit n xs = take ?m xs" by (simp add: sql_limit_def)
  have "distinct (map k (take ?m xs @ drop ?m xs))" using assms by simp
  then have "k ` set (take ?m xs) \<inter> k ` set (drop ?m xs) = {}"
    by (simp only: map_append distinct_append set_map)
  then have "\<forall>x \<in> set (drop ?m xs). k x \<notin> k ` set (take ?m xs)" by blast
  then have "filter (\<lambda>x. k x \<notin> k ` set (take ?m xs)) (drop ?m xs) = drop ?m xs" by (rule filter_True)
  moreover have "filter (\<lambda>x. k x \<notin> k ` set (take ?m xs)) (take ?m xs) = []" by (simp add: filter_empty_conv)
  ultimately have "filter (\<lambda>x. k x \<notin> k ` set (take ?m xs)) (take ?m xs @ drop ?m xs) = drop ?m xs"
    unfolding filter_append by simp
  then show ?thesis unfolding lim by simp
qed

lemma mark_drops:
  assumes "\<And>e. \<not> q (mark e)"
  shows "sort_key k (filter q (update_where (\<lambda>e. k e \<in> I) mark t)) = filter (\<lambda>e. k e \<notin> I) (sort_key k (filter q t))"
proof -
  have "filter q (update_where (\<lambda>e. k e \<in> I) mark t) = filter (\<lambda>e. k e \<notin> I) (filter q t)"
    using assms by (induction t) auto
  then show ?thesis by (simp add: filter_sort)
qed

lemma mark_hands:
  assumes "distinct (map k t)" and "\<And>e. \<not> q (mark e)"
    and "es = sql_limit n (sort_key k (filter q t))"
    and "t' = update_where (\<lambda>e. k e \<in> k ` set es) mark t"
  shows "map k (sort_key k (filter q t)) = sql_limit n (map k (sort_key k (filter q t))) @ map k (sort_key k (filter q t'))"
proof -
  have "distinct (map k (filter q t))" using assms(1) by (simp add: distinct_map inj_on_def)
  then have "distinct (map k (sort_key k (filter q t)))" by (simp add: distinct_map)
  from pass_splits [OF this, of n] have "sort_key k (filter q t) = es @ sort_key k (filter q t')"
    using mark_drops [of q mark k "k ` set es" t, OF assms(2)] assms(3,4) by metis
  then have "map k (sort_key k (filter q t)) = map k es @ map k (sort_key k (filter q t'))" by (metis map_append)
  moreover have "map k es = sql_limit n (map k (sort_key k (filter q t)))"
    using assms(3) by (simp add: sql_limit_def take_map)
  ultimately show ?thesis by simp
qed

lemma map_sql_limit: "map f (sql_limit n xs) = sql_limit n (map f xs)"
  by (simp add: sql_limit_def take_map)

lemma insert_deliveries_keeps:
  assumes "insert_deliveries d ns quota now = Inr d'"
  shows "events d' = events d" and "actions d' = actions d" and "audit_records d' = audit_records d"
    and "audit_notifications d' = audit_notifications d" and "webhooks d' = webhooks d" and "servers d' = servers d"
    and "sessions d' = sessions d"
  using assms by (auto elim!: insert_deliveries_effect)

subsection \<open>Telemetry\<close>

definition outbox_events_ok :: "db \<Rightarrow> bool" where
  "outbox_events_ok d = distinct (map ev_id (events d))"

definition owed_events :: "db \<Rightarrow> string list" where
  "owed_events d = map ev_id (unnotified_events d)"

definition event_told :: "db \<Rightarrow> string \<Rightarrow> bool" where
  "event_told d k = (\<forall>e \<in> set (events d). ev_id e = k \<longrightarrow> ev_notified e)"

definition events_pass ::
  "db \<Rightarrow> int \<times> (event_row list \<Rightarrow> webhook list \<Rightarrow> (string \<Rightarrow> string) \<Rightarrow> new_delivery list) \<times> int \<times> time
    \<Rightarrow> store_error + (int \<times> db)" where
  "events_pass d a = (case a of (limit, build, quota, now) \<Rightarrow> notify_events d limit build quota now)"

lemma notify_events_split:
  assumes "notify_events d limit build quota now = Inr (n, d')"
  defines "es \<equiv> sql_limit limit (unnotified_events d)"
  obtains "es = []" "n = 0" "d' = d"
    | d1 where "es \<noteq> []" "insert_deliveries d (build es (webhooks_all d) (server_names d)) quota now = Inr d1"
      "n = int (length es)"
      "d' = d1\<lparr>events := update_where (\<lambda>e. ev_id e \<in> ev_id ` set es) (\<lambda>e. e\<lparr>ev_notified := True\<rparr>) (events d1)\<rparr>"
  using assms by (auto simp: notify_events_def Let_def split: if_splits sum.splits)

lemma notify_events_hands:
  assumes "outbox_events_ok d" and "notify_events d limit build quota now = Inr (n, d')"
  shows "outbox_events_ok d' \<and> owed_events d = sql_limit limit (owed_events d) @ owed_events d'
    \<and> n = int (length (sql_limit limit (owed_events d)))"
  using assms(2)
proof (cases rule: notify_events_split)
  case 1
  with assms(1) map_sql_limit [of ev_id limit "unnotified_events d"] show ?thesis by (simp add: owed_events_def)
next
  case (2 d1)
  let ?es = "sql_limit limit (unnotified_events d)"
  have rows: "events d' = update_where (\<lambda>e. ev_id e \<in> ev_id ` set ?es) (\<lambda>e. e\<lparr>ev_notified := True\<rparr>) (events d)"
    using 2(4) insert_deliveries_keeps(1) [OF 2(2)] by simp
  have "owed_events d = sql_limit limit (owed_events d) @ owed_events d'"
    unfolding owed_events_def unnotified_events_def
    by (rule mark_hands [OF _ _ refl, of ev_id _ _ "\<lambda>e. e\<lparr>ev_notified := True\<rparr>"])
      (use assms(1) rows in \<open>simp_all add: outbox_events_ok_def unnotified_events_def\<close>)
  moreover have "outbox_events_ok d'" using assms(1) by (simp add: outbox_events_ok_def rows map_update_where)
  moreover have "n = int (length (sql_limit limit (owed_events d)))"
    using 2(3) by (simp add: owed_events_def flip: map_sql_limit)
  ultimately show ?thesis by simp
qed

lemma notify_events_tells:
  assumes "notify_events d limit build quota now = Inr (n, d')"
    and "event_told d k \<or> k \<in> set (sql_limit limit (owed_events d))"
  shows "event_told d' k"
  using assms(1)
proof (cases rule: notify_events_split)
  case 1
  with assms(2) show ?thesis by (auto simp: owed_events_def sql_limit_def take_map split: if_splits)
next
  case (2 d1)
  have "k \<in> ev_id ` set (sql_limit limit (unnotified_events d))" if "k \<in> set (sql_limit limit (owed_events d))"
    using that by (auto simp: owed_events_def sql_limit_def take_map split: if_splits)
  with assms(2) 2(4) insert_deliveries_keeps(1) [OF 2(2)] show ?thesis
    by (auto simp: event_told_def elim!: update_whereE)
qed

lemma insert_event_batches_appends:
  "insert_event_batches d server bs now = Inr (n, d') \<Longrightarrow>
    \<exists>rows. events d' = events d @ rows \<and> ev_id ` set rows \<subseteq> draws (Ingest server bs now)
      \<and> (outbox_events_ok d \<longrightarrow> outbox_events_ok d')"
proof (induction bs arbitrary: d n)
  case Nil
  then show ?case by simp
next
  case (Cons b bs)
  show ?case
  proof (cases "nb_events b = [] \<or> batch_claimed d server (nb_envelope b)")
    case True
    with Cons.prems have "insert_event_batches d server bs now = Inr (n, d')"
      by (cases "nb_events b = []") simp_all
    from Cons.IH [OF this] obtain rows where rows: "events d' = events d @ rows"
      "ev_id ` set rows \<subseteq> draws (Ingest server bs now)" "outbox_events_ok d \<longrightarrow> outbox_events_ok d'" by blast
    have "draws (Ingest server bs now) \<subseteq> draws (Ingest server (b # bs) now)" by auto
    with rows show ?thesis by (intro exI [of _ rows]) (simp only: subset_trans simp_thms)
  next
    case False
    let ?d = "d\<lparr>event_batches := event_batches d @ [\<lparr>eb_server = server, eb_envelope = nb_envelope b,
        eb_expires = format_time (now + batch_horizon (nb_events b))\<rparr>]\<rparr>"
    from False Cons.prems obtain d1 m where d1: "insert_events ?d server (nb_events b) now = Inr d1"
      and run: "insert_event_batches d1 server bs now = Inr (m, d')"
      by (auto split: sum.splits)
    let ?new = "map (event_row_of server now) (nb_events b)"
    from conjunct1 [OF insert_events_append [OF d1]] have ev1: "events d1 = events d @ ?new" by simp
    from conjunct2 [OF insert_events_append [OF d1]] have ev2: "outbox_events_ok d \<longrightarrow> outbox_events_ok d1"
      by (simp add: outbox_events_ok_def)
    from Cons.IH [OF run] obtain rows where rows: "events d' = events d1 @ rows"
      "ev_id ` set rows \<subseteq> draws (Ingest server bs now)" "outbox_events_ok d1 \<longrightarrow> outbox_events_ok d'" by blast
    have "draws (Ingest server bs now) \<subseteq> draws (Ingest server (b # bs) now)" by auto
    with rows(2) have "ev_id ` set rows \<subseteq> draws (Ingest server (b # bs) now)" by (rule subset_trans)
    then have "ev_id ` set (?new @ rows) \<subseteq> draws (Ingest server (b # bs) now)"
      by (simp add: image_Un image_image image_mono)
    with rows ev1 ev2 show ?thesis by (intro exI [of _ "?new @ rows"]) simp
  qed
qed

lemma feed_step_ok: "outbox_events_ok d \<Longrightarrow> outbox_events_ok (feed_step pick pick_batches d b)"
proof (cases b)
  case (Ingest server bs now)
  assume "outbox_events_ok d"
  with Ingest insert_event_batches_appends [of d server bs now] show ?thesis by (fastforce split: sum.split)
next
  case (PruneFeed limit now)
  assume "outbox_events_ok d"
  with PruneFeed show ?thesis by (auto simp: prune_events_def Let_def outbox_events_ok_def delete_ids_def)
qed

lemma feed_step_told:
  "event_told d k \<Longrightarrow> k \<notin> draws b \<Longrightarrow> event_told (feed_step pick pick_batches d b) k"
proof (cases b)
  case (Ingest server bs now)
  assume told: "event_told d k" and k: "k \<notin> draws b"
  show ?thesis
  proof (cases "insert_event_batches d server bs now")
    case (Inr p)
    then obtain rows where "events (snd p) = events d @ rows" "ev_id ` set rows \<subseteq> draws b"
      using insert_event_batches_appends [of d server bs now "fst p" "snd p"] Ingest by auto
    moreover from this(2) have "k \<notin> ev_id ` set rows" using k by blast
    ultimately show ?thesis using told Ingest Inr by (auto simp: event_told_def split: prod.split)
  qed (use told Ingest in simp)
next
  case (PruneFeed limit now)
  assume "event_told d k"
  with PruneFeed show ?thesis by (auto simp: prune_events_def Let_def event_told_def)
qed

interpretation event_outbox: outbox outbox_events_ok owed_events event_told events_pass fst
  "feed_step pick pick_batches" draws
proof
  fix d d' :: db and a n k b
  show "distinct (owed_events d)" if "outbox_events_ok d"
    using that by (simp add: owed_events_def unnotified_events_def outbox_events_ok_def distinct_map inj_on_def)
  show "k \<notin> set (owed_events d)" if "event_told d k"
    using that by (auto simp: event_told_def owed_events_def unnotified_events_def)
  show "outbox_events_ok d' \<and> owed_events d = sql_limit (fst a) (owed_events d) @ owed_events d'
      \<and> n = int (length (sql_limit (fst a) (owed_events d)))"
    if "outbox_events_ok d" "events_pass d a = Inr (n, d')"
    using that notify_events_hands by (cases a) (auto simp: events_pass_def)
  show "event_told d' k"
    if "events_pass d a = Inr (n, d')" "event_told d k \<or> k \<in> set (sql_limit (fst a) (owed_events d))"
    using that notify_events_tells by (cases a) (auto simp: events_pass_def)
qed (rule feed_step_ok, assumption, rule feed_step_told, assumption)

subsection \<open>Finished actions\<close>

definition actions_ok :: "db \<Rightarrow> bool" where
  "actions_ok d = distinct (map ac_id (actions d))"

definition owed_actions :: "db \<Rightarrow> string list" where
  "owed_actions d = map ac_id (unnotified_actions d)"

definition action_told :: "db \<Rightarrow> string \<Rightarrow> bool" where
  "action_told d k = (\<forall>a \<in> set (actions d). ac_id a = k \<longrightarrow> ac_notified a)"

definition actions_pass ::
  "db \<Rightarrow> int \<times> (action_row list \<Rightarrow> webhook list \<Rightarrow> (string \<Rightarrow> string) \<Rightarrow> new_delivery list) \<times> int \<times> time
    \<Rightarrow> store_error + (int \<times> db)" where
  "actions_pass d a = (case a of (limit, build, quota, now) \<Rightarrow> notify_finished_actions d limit build quota now)"

text \<open>The steps that create actions and move them on.\<close>

datatype action_event =
    Dispatched new_action string time time time time
  | Moved lifecycle_event

fun action_step :: "db \<Rightarrow> action_event \<Rightarrow> db" where
  "action_step d (Dispatched q eid now framed stamp_now read_now) =
     (case dispatch_action d q eid now framed stamp_now read_now of Inl _ \<Rightarrow> d | Inr (a, b, d') \<Rightarrow> d')"
| "action_step d (Moved e) = lifecycle_step d e"

fun action_draws :: "action_event \<Rightarrow> string set" where
  "action_draws (Dispatched q _ _ _ _ _) = {na_id q}"
| "action_draws (Moved _) = {}"

lemma update_keeps_ids:
  "(\<And>a. ac_id (f a) = ac_id a \<and> ac_notified (f a) = ac_notified a) \<Longrightarrow>
    \<exists>g. update_where p f t = map g t \<and> (\<forall>a. ac_id (g a) = ac_id a \<and> ac_notified (g a) = ac_notified a)"
  by (intro exI [of _ "\<lambda>a. if p a then f a else a"]) (simp add: update_where_def)

lemma lifecycle_step_ids:
  "\<exists>f. actions (lifecycle_step d e) = map f (actions d) \<and> (\<forall>a. ac_id (f a) = ac_id a \<and> ac_notified (f a) = ac_notified a)"
  by (cases e)
    (simp_all add: mark_delivered_def apply_action_ack_def apply_action_result_def action_by_id_def expire_actions_def
      with_actions_def Let_def mark_delivered_row_def ack_row_def result_row_def expire_row_def update_keeps_ids)

lemma action_step_rows:
  obtains f new where "actions (action_step d e) = map f (actions d @ new)" and "ac_id ` set new \<subseteq> action_draws e"
    and "\<forall>a. ac_id (f a) = ac_id a \<and> ac_notified (f a) = ac_notified a"
    and "actions_ok d \<longrightarrow> distinct (map ac_id (actions d @ new))"
proof (cases e)
  case (Moved m)
  from lifecycle_step_ids [of d m] obtain f where "actions (lifecycle_step d m) = map f (actions d)"
    "\<forall>a. ac_id (f a) = ac_id a \<and> ac_notified (f a) = ac_notified a" by blast
  with Moved show ?thesis by (intro that [of f "[]"]) (simp_all add: actions_ok_def)
next
  case (Dispatched q eid now framed st rd)
  show ?thesis
  proof (cases "action_step d e = d")
    case True
    then show ?thesis by (intro that [of id "[]"]) (simp_all add: actions_ok_def)
  next
    case False
    with Dispatched obtain a b d' where r: "dispatch_action d q eid now framed st rd = Inr (a, b, d')" and d': "action_step d e = d'"
      by (auto split: sum.splits)
    let ?row = "action_row_of q eid now"
    from r False d' obtain d1 where fresh: "\<not> exists_row (\<lambda>a. ac_id a = na_id q) (actions d)"
      and ins: "insert_outbound (d\<lparr>actions := actions d @ [?row]\<rparr>) (na_server q)
          (new_outbound eid (na_server q) (na_envelope_type q) (na_envelope_body q) framed) (na_limit q) = Inr d1"
      and rd: "action_by_id d1 (na_id q) st rd = (Inr a, d')"
      by (auto simp: dispatch_action_def Let_def split: if_splits option.splits sum.splits prod.splits)
    have "actions d1 = actions d @ [?row]"
      using ins by (auto simp: insert_outbound_def Let_def split: if_splits)
    moreover from lifecycle_step_ids [of d1 "ReadAction (na_id q) st rd"] rd obtain f
      where f: "actions d' = map f (actions d1)" "\<forall>a. ac_id (f a) = ac_id a \<and> ac_notified (f a) = ac_notified a" by auto
    ultimately have "actions d' = map f (actions d @ [?row])" by simp
    then show ?thesis
    proof (rule that [of f "[?row]", unfolded d'])
      show "ac_id ` set [?row] \<subseteq> action_draws e" using Dispatched by (simp add: action_row_of_def)
      show "\<forall>a. ac_id (f a) = ac_id a \<and> ac_notified (f a) = ac_notified a" by (rule f(2))
      show "actions_ok d \<longrightarrow> distinct (map ac_id (actions d @ [?row]))"
        using fresh by (auto simp: actions_ok_def exists_row_def action_row_of_def)
    qed
  qed
qed

lemma action_step_ok: "actions_ok d \<Longrightarrow> actions_ok (action_step d e)"
proof -
  assume ok: "actions_ok d"
  obtain f new where f: "actions (action_step d e) = map f (actions d @ new)"
    "\<forall>a. ac_id (f a) = ac_id a \<and> ac_notified (f a) = ac_notified a"
    "actions_ok d \<longrightarrow> distinct (map ac_id (actions d @ new))" by (rule action_step_rows [of d e])
  have "map ac_id (actions (action_step d e)) = map ac_id (actions d @ new)" using f(1,2) by simp
  with f(3) ok show ?thesis by (simp only: actions_ok_def)
qed

lemma action_step_told:
  assumes "action_told d k" and "k \<notin> action_draws e"
  shows "action_told (action_step d e) k"
proof -
  obtain f new where f: "actions (action_step d e) = map f (actions d @ new)" "ac_id ` set new \<subseteq> action_draws e"
    "\<forall>a. ac_id (f a) = ac_id a \<and> ac_notified (f a) = ac_notified a" by (rule action_step_rows [of d e])
  have "k \<notin> ac_id ` set new" using f(2) assms(2) by blast
  with f(1,3) assms(1) show ?thesis by (auto simp: action_told_def)
qed

lemma notify_finished_split:
  assumes "notify_finished_actions d limit build quota now = Inr (n, d')"
  defines "as \<equiv> sql_limit limit (unnotified_actions d)"
  obtains "as = []" "n = 0" "d' = d"
    | d1 where "as \<noteq> []" "insert_deliveries d (build as (webhooks_all d) (server_names d)) quota now = Inr d1"
      "n = int (length as)"
      "d' = d1\<lparr>actions := update_where (\<lambda>a. ac_id a \<in> ac_id ` set as) (\<lambda>a. a\<lparr>ac_notified := True\<rparr>) (actions d1)\<rparr>"
  using assms by (auto simp: notify_finished_actions_def Let_def split: if_splits sum.splits)

lemma notify_finished_hands:
  assumes "actions_ok d" and "notify_finished_actions d limit build quota now = Inr (n, d')"
  shows "actions_ok d' \<and> owed_actions d = sql_limit limit (owed_actions d) @ owed_actions d'
    \<and> n = int (length (sql_limit limit (owed_actions d)))"
  using assms(2)
proof (cases rule: notify_finished_split)
  case 1
  with assms(1) map_sql_limit [of ac_id limit "unnotified_actions d"] show ?thesis by (simp add: owed_actions_def)
next
  case (2 d1)
  let ?as = "sql_limit limit (unnotified_actions d)"
  have rows: "actions d' = update_where (\<lambda>a. ac_id a \<in> ac_id ` set ?as) (\<lambda>a. a\<lparr>ac_notified := True\<rparr>) (actions d)"
    using 2(4) insert_deliveries_keeps(2) [OF 2(2)] by simp
  have "owed_actions d = sql_limit limit (owed_actions d) @ owed_actions d'"
    unfolding owed_actions_def unnotified_actions_def
    by (rule mark_hands [OF _ _ refl, of ac_id _ _ "\<lambda>a. a\<lparr>ac_notified := True\<rparr>"])
      (use assms(1) rows in \<open>simp_all add: actions_ok_def unnotified_actions_def\<close>)
  moreover have "actions_ok d'" using assms(1) by (simp add: actions_ok_def rows map_update_where)
  moreover have "n = int (length (sql_limit limit (owed_actions d)))"
    using 2(3) by (simp add: owed_actions_def flip: map_sql_limit)
  ultimately show ?thesis by simp
qed

lemma notify_finished_tells:
  assumes "notify_finished_actions d limit build quota now = Inr (n, d')"
    and "action_told d k \<or> k \<in> set (sql_limit limit (owed_actions d))"
  shows "action_told d' k"
  using assms(1)
proof (cases rule: notify_finished_split)
  case 1
  with assms(2) show ?thesis by (auto simp: owed_actions_def simp flip: map_sql_limit)
next
  case (2 d1)
  have "k \<in> ac_id ` set (sql_limit limit (unnotified_actions d))" if "k \<in> set (sql_limit limit (owed_actions d))"
    using that by (simp add: owed_actions_def flip: map_sql_limit)
  with assms(2) 2(4) insert_deliveries_keeps(2) [OF 2(2)] show ?thesis
    by (auto simp: action_told_def elim!: update_whereE)
qed

interpretation action_outbox: outbox actions_ok owed_actions action_told actions_pass fst action_step action_draws
proof
  fix d d' :: db and a n k b
  show "distinct (owed_actions d)" if "actions_ok d"
    using that by (simp add: owed_actions_def unnotified_actions_def actions_ok_def distinct_map inj_on_def)
  show "k \<notin> set (owed_actions d)" if "action_told d k"
    using that by (auto simp: action_told_def owed_actions_def unnotified_actions_def)
  show "actions_ok d' \<and> owed_actions d = sql_limit (fst a) (owed_actions d) @ owed_actions d'
      \<and> n = int (length (sql_limit (fst a) (owed_actions d)))"
    if "actions_ok d" "actions_pass d a = Inr (n, d')"
    using that notify_finished_hands by (cases a) (auto simp: actions_pass_def)
  show "action_told d' k"
    if "actions_pass d a = Inr (n, d')" "action_told d k \<or> k \<in> set (sql_limit (fst a) (owed_actions d))"
    using that notify_finished_tells by (cases a) (auto simp: actions_pass_def)
qed (rule action_step_ok, assumption, rule action_step_told, assumption)

subsection \<open>Audit records\<close>

definition audit_log_ok :: "db \<Rightarrow> bool" where
  "audit_log_ok d =
     (distinct (map au_id (audit_records d)) \<and> distinct (audit_notifications d)
      \<and> set (audit_notifications d) \<subseteq> au_id ` set (audit_records d))"

definition owed_audit :: "db \<Rightarrow> string list" where
  "owed_audit d = map au_id (queued_audit d)"

definition audit_told :: "db \<Rightarrow> string \<Rightarrow> bool" where
  "audit_told d k = (k \<notin> set (audit_notifications d))"

definition audit_pass ::
  "db \<Rightarrow> int \<times> (audit_record list \<Rightarrow> webhook list \<Rightarrow> (string \<Rightarrow> string) \<Rightarrow> new_delivery list) \<times> int \<times> time
    \<Rightarrow> store_error + (int \<times> db)" where
  "audit_pass d a = (case a of (limit, build, quota, now) \<Rightarrow> notify_audit d limit build quota now)"

datatype audit_event = Recorded new_audit_record string time | PruneAuditLog int time

fun audit_step :: "(int \<Rightarrow> audit_row list \<Rightarrow> audit_row list) \<Rightarrow> db \<Rightarrow> audit_event \<Rightarrow> db" where
  "audit_step pick d (Recorded q aid now) = (case record_audit d q aid now of Inl _ \<Rightarrow> d | Inr (r, d') \<Rightarrow> d')"
| "audit_step pick d (PruneAuditLog limit now) = snd (prune_audit pick d limit now)"

fun audit_draws :: "audit_event \<Rightarrow> string set" where
  "audit_draws (Recorded q aid now) = {aid}"
| "audit_draws (PruneAuditLog limit now) = {}"

lemma map_insort_key: "map f (insort_key f x xs) = insort (f x) (map f xs)"
  by (induction xs) simp_all

lemma map_sort_key: "map f (sort_key f xs) = sort (map f xs)"
  by (induction xs) (simp_all add: map_insort_key)

lemma filter_key_single:
  "distinct (map k t) \<Longrightarrow> r \<in> set t \<Longrightarrow> filter (\<lambda>x. k x = k r) t = [r]"
  by (induction t) (auto simp: filter_empty_conv image_iff)

lemma owed_audit_sorted:
  assumes "audit_log_ok d"
  shows "owed_audit d = sort (audit_notifications d)"
proof -
  have "map au_id (concat (map (\<lambda>i. filter (\<lambda>r. au_id r = i) (audit_records d)) is)) = is"
    if "set is \<subseteq> au_id ` set (audit_records d)" for "is"
    using that
  proof (induction "is")
    case (Cons i "is")
    then obtain r where "r \<in> set (audit_records d)" "i = au_id r" by auto
    with Cons filter_key_single [of au_id "audit_records d" r] assms show ?case
      by (simp add: audit_log_ok_def)
  qed simp
  with assms show ?thesis by (simp add: owed_audit_def queued_audit_def map_sort_key audit_log_ok_def)
qed

lemma notify_audit_effect:
  assumes "notify_audit d limit build quota now = Inr (n, d')"
  shows "audit_notifications d' = filter (\<lambda>i. i \<notin> set (sql_limit limit (owed_audit d))) (audit_notifications d)
    \<and> audit_records d' = audit_records d \<and> n = int (length (sql_limit limit (owed_audit d)))"
proof -
  have ids: "set (sql_limit limit (owed_audit d)) = au_id ` set (sql_limit limit (queued_audit d))"
    by (simp add: owed_audit_def flip: map_sql_limit)
  have len: "length (sql_limit limit (owed_audit d)) = length (sql_limit limit (queued_audit d))"
    by (simp add: owed_audit_def flip: map_sql_limit)
  have "i \<notin> set (sql_limit limit (owed_audit d))" if "sql_limit limit (queued_audit d) = []" for i
    using ids that by simp
  with assms ids len show ?thesis
    using insert_deliveries_keeps(3,4) by (fastforce simp: notify_audit_def Let_def split: if_splits sum.splits)
qed

lemma notify_audit_hands:
  assumes "audit_log_ok d" and "notify_audit d limit build quota now = Inr (n, d')"
  shows "audit_log_ok d' \<and> owed_audit d = sql_limit limit (owed_audit d) @ owed_audit d'
    \<and> n = int (length (sql_limit limit (owed_audit d)))"
proof -
  note eff = notify_audit_effect [OF assms(2)]
  have ok: "audit_log_ok d'" using assms(1) eff by (auto simp: audit_log_ok_def)
  let ?s = "sort (audit_notifications d)"
  have "distinct (map id ?s)" using assms(1) by (simp add: audit_log_ok_def)
  from pass_splits [OF this, of limit] have "?s = sql_limit limit ?s @ filter (\<lambda>x. x \<notin> set (sql_limit limit ?s)) ?s"
    by simp
  then have "owed_audit d = sql_limit limit (owed_audit d) @ owed_audit d'"
    using eff by (simp add: owed_audit_sorted [OF ok] owed_audit_sorted [OF assms(1)] filter_sort)
  with ok eff show ?thesis by blast
qed

lemma audit_step_ok: "audit_log_ok d \<Longrightarrow> audit_log_ok (audit_step pick d e)"
  by (cases e)
    (auto simp: record_audit_def prune_audit_def Let_def audit_log_ok_def exists_row_def delete_ids_def
      distinct_map_delete_where split: if_splits)

lemma audit_step_told: "audit_told d k \<Longrightarrow> k \<notin> audit_draws e \<Longrightarrow> audit_told (audit_step pick d e) k"
  by (cases e) (auto simp: record_audit_def prune_audit_def Let_def audit_told_def split: if_splits)

interpretation audit_outbox: outbox audit_log_ok owed_audit audit_told audit_pass fst "audit_step pick" audit_draws
proof
  fix d d' :: db and a n k b
  show "distinct (owed_audit d)" if "audit_log_ok d"
    using that by (simp add: owed_audit_sorted) (simp add: audit_log_ok_def)
  show "k \<notin> set (owed_audit d)" if "audit_told d k"
    using that by (auto simp: audit_told_def owed_audit_def queued_audit_def)
  show "audit_log_ok d' \<and> owed_audit d = sql_limit (fst a) (owed_audit d) @ owed_audit d'
      \<and> n = int (length (sql_limit (fst a) (owed_audit d)))"
    if "audit_log_ok d" "audit_pass d a = Inr (n, d')"
    using that notify_audit_hands by (cases a) (auto simp: audit_pass_def)
  show "audit_told d' k"
    if "audit_pass d a = Inr (n, d')" "audit_told d k \<or> k \<in> set (sql_limit (fst a) (owed_audit d))"
    using that notify_audit_effect by (cases a) (auto simp: audit_pass_def audit_told_def)
qed (rule audit_step_ok, assumption, rule audit_step_told, assumption)

subsection \<open>Told once, and told\<close>

text \<open>
  C23. An event is fanned out once: after a pass that committed has handed it over, no later pass has it in
  its batch, whatever is ingested, pruned or passed in between and whichever passes fail, as long as
  no other event is given its identifier.
\<close>

theorem event_told_once:
  assumes "outbox_events_ok d" and "notify_events d limit build quota now = Inr (n, d1)"
    and "k \<in> set (sql_limit limit (owed_events d))"
    and "list_all (draws_not draws k) es"
  shows "k \<notin> set (owed_events (run_steps (outbox_step events_pass (feed_step pick pick_batches)) d1 es))"
  using event_outbox.handed_once [of d "(limit, build, quota, now)" n d1 k es] assms by (simp add: events_pass_def)


lemma action_told_once:
  assumes "actions_ok d" and "notify_finished_actions d limit build quota now = Inr (n, d1)"
    and "k \<in> set (sql_limit limit (owed_actions d))"
    and "list_all (draws_not action_draws k) es"
  shows "k \<notin> set (owed_actions (run_steps (outbox_step actions_pass action_step) d1 es))"
  using action_outbox.handed_once [of d "(limit, build, quota, now)" n d1 k es] assms by (simp add: actions_pass_def)

lemma action_passes_drain:
  assumes "actions_ok d" and "run_all actions_pass d as = Some d'"
    and "list_all (\<lambda>a. fst a = limit) as" and "0 < limit"
  shows "owed_actions d' = drop (length as * nat limit) (owed_actions d)"
  by (rule action_outbox.passes_drain [OF assms])

lemma audit_told_once:
  assumes "audit_log_ok d" and "notify_audit d limit build quota now = Inr (n, d1)"
    and "k \<in> set (sql_limit limit (owed_audit d))"
    and "list_all (draws_not audit_draws k) es"
  shows "k \<notin> set (owed_audit (run_steps (outbox_step audit_pass (audit_step pick)) d1 es))"
  using audit_outbox.handed_once [of d "(limit, build, quota, now)" n d1 k es] assms by (simp add: audit_pass_def)

lemma audit_passes_drain:
  assumes "audit_log_ok d" and "run_all audit_pass d as = Some d'"
    and "list_all (\<lambda>a. fst a = limit) as" and "0 < limit"
  shows "owed_audit d' = drop (length as * nat limit) (owed_audit d)"
  by (rule audit_outbox.passes_drain [OF assms])

definition sample_feed_row :: "string \<Rightarrow> event_row" where
  "sample_feed_row i = \<lparr>ev_id = i, ev_server = ''s1'', ev_type = ''core.x'', ev_occurred = 0, ev_received = 0,
     ev_expires = 9, ev_data = ''{}'', ev_notified = False\<rparr>"

definition sample_outbox :: db where
  "sample_outbox = empty_db\<lparr>events := [sample_feed_row ''v2'', sample_feed_row ''v1'']\<rparr>"

lemma sample_outbox_facts:
  "outbox_events_ok sample_outbox" "owed_events sample_outbox = [''v1'', ''v2'']"
  by (simp_all add: outbox_events_ok_def sample_outbox_def sample_feed_row_def owed_events_def unnotified_events_def)

lemma sample_outbox_pass:
  obtains d1 where "notify_events sample_outbox 1 (\<lambda>es ws names. []) 1000 0 = Inr (1, d1)"
  by (simp add: notify_events_def unnotified_events_def sample_outbox_def sample_feed_row_def sql_limit_def
      insert_deliveries_def)

theorem event_told_once_witness:
  "\<exists>d1. notify_events sample_outbox 1 (\<lambda>es ws names. []) 1000 0 = Inr (1, d1)
     \<and> ''v1'' \<notin> set (owed_events (run_steps (outbox_step events_pass (feed_step sql_limit sql_limit)) d1
         [Inr (PruneFeed 5 0), Inl (1, \<lambda>es ws names. [], 1000, 0)]))"
proof -
  obtain d1 where d1: "notify_events sample_outbox 1 (\<lambda>es ws names. []) 1000 0 = Inr (1, d1)"
    by (rule sample_outbox_pass)
  have "''v1'' \<in> set (sql_limit 1 (owed_events sample_outbox))"
    by (simp add: sample_outbox_facts sql_limit_def)
  from event_told_once [OF sample_outbox_facts(1) d1 this,
      of "[Inr (PruneFeed 5 0), Inl (1, \<lambda>es ws names. [], 1000, 0)]" sql_limit sql_limit] d1
  show ?thesis by (simp add: draws_not_def)
qed


end
