(* ===== verification/Subscriptions.thy ===== *)
theory Subscriptions
  imports Outbox
begin

text \<open>
  The webhook tables as a whole: every operation of hub/store/webhooks.go keeps them well formed,
  and an edit that moves a webhook's URL is decided on what the deliveries still owed would carry
  there.
\<close>

subsection \<open>Well-formed tables\<close>

text \<open>
  A delivery has finished exactly when it is not pending, was delivered exactly when it says so, and a
  dead one says why.
\<close>

definition delivery_wf :: "delivery_row \<Rightarrow> bool" where
  "delivery_wf x =
     ((dl_state x = DeliveryPending \<longleftrightarrow> dl_finished x = None)
      \<and> (dl_state x = DeliveryDelivered \<longleftrightarrow> dl_delivered x \<noteq> None)
      \<and> (dl_state x = DeliveryDead \<longrightarrow> dl_error x \<noteq> None)
      \<and> 0 \<le> dl_attempts x \<and> 0 \<le> dl_generation x)"

definition webhooks_wf :: "db \<Rightarrow> bool" where
  "webhooks_wf d =
     (distinct (map wh_id (webhooks d)) \<and> distinct (map dl_id (deliveries d))
      \<and> list_all (\<lambda>x. dl_webhook x \<in> wh_id ` set (webhooks d) \<and> delivery_wf x) (deliveries d))"

datatype webhook_event =
    Registered webhook time
  | Edited string webhook_update "(webhook \<Rightarrow> string list \<Rightarrow> string option) option" time
  | Queued_step delivery_event
  | EventsPass int "event_row list \<Rightarrow> webhook list \<Rightarrow> (string \<Rightarrow> string) \<Rightarrow> new_delivery list" int time
  | ActionsPass int "action_row list \<Rightarrow> webhook list \<Rightarrow> (string \<Rightarrow> string) \<Rightarrow> new_delivery list" int time
  | AuditPass int "audit_record list \<Rightarrow> webhook list \<Rightarrow> (string \<Rightarrow> string) \<Rightarrow> new_delivery list" int time
  | LinkMoved string string string "time option"
      "(webhook list \<Rightarrow> (string \<Rightarrow> string) \<Rightarrow> new_delivery list) option" int time time

fun webhook_step :: "db \<Rightarrow> webhook_event \<Rightarrow> db" where
  "webhook_step d (Registered w now) = (case create_webhook d w now of Inl _ \<Rightarrow> d | Inr (v, d') \<Rightarrow> d')"
| "webhook_step d (Edited wid u f now) = (case update_webhook d wid u f now of Inl _ \<Rightarrow> d | Inr (v, d') \<Rightarrow> d')"
| "webhook_step d (Queued_step e) = delivery_step d e"
| "webhook_step d (EventsPass n build quota now) =
     (case notify_events d n build quota now of Inl _ \<Rightarrow> d | Inr (k, d') \<Rightarrow> d')"
| "webhook_step d (ActionsPass n build quota now) =
     (case notify_finished_actions d n build quota now of Inl _ \<Rightarrow> d | Inr (k, d') \<Rightarrow> d')"
| "webhook_step d (AuditPass n build quota now) =
     (case notify_audit d n build quota now of Inl _ \<Rightarrow> d | Inr (k, d') \<Rightarrow> d')"
| "webhook_step d (LinkMoved sid old new obs build quota now at) =
     (case apply_link_transition d sid old new obs build quota now at of Inl _ \<Rightarrow> d | Inr (b, d') \<Rightarrow> d')"

lemma webhooks_wf_cong:
  "webhooks_wf d \<Longrightarrow> webhooks d' = webhooks d \<Longrightarrow> deliveries d' = deliveries d \<Longrightarrow> webhooks_wf d'"
  by (simp add: webhooks_wf_def)

lemma insert_each_wf:
  "insert_each counted d ns quota at = Inr d' \<Longrightarrow> webhooks_wf d \<Longrightarrow> webhooks_wf d'"
proof (induction ns arbitrary: counted d)
  case (Cons n ns)
  let ?owed = "case map_of counted (nd_webhook n) of Some k \<Rightarrow> k
     | None \<Rightarrow> affected (webhook_pending (nd_webhook n)) (deliveries d)"
  let ?row = "new_delivery_row n at ?owed quota"
  let ?d = "d\<lparr>deliveries := deliveries d @ [?row]\<rparr>"
  from Cons.prems(1) have fresh: "\<not> exists_row (\<lambda>x. dl_id x = nd_id n) (deliveries d)"
    and "exists_row (\<lambda>w. wh_id w = nd_webhook n) (webhooks d)"
    and rest: "insert_each ((nd_webhook n, if ?owed \<ge> quota then ?owed else ?owed + 1) # counted) ?d ns quota at = Inr d'"
    by (auto simp: Let_def split: if_splits)
  then have known: "nd_webhook n \<in> wh_id ` set (webhooks d)" by (force simp: exists_row_def)
  have row: "dl_id ?row = nd_id n" "dl_webhook ?row = nd_webhook n" "delivery_wf ?row"
    by (simp_all add: new_delivery_row_def Let_def delivery_wf_def)
  have "webhooks_wf ?d"
    using Cons.prems(2) fresh known row by (auto simp: webhooks_wf_def exists_row_def list_all_iff)
  with Cons.IH [OF rest] show ?case by blast
qed simp

lemma insert_deliveries_wf:
  "insert_deliveries d ns quota now = Inr d' \<Longrightarrow> webhooks_wf d \<Longrightarrow> webhooks_wf d'"
  unfolding insert_deliveries_def by (rule insert_each_wf)

lemma update_deliveries_wf:
  assumes "webhooks_wf d" and "deliveries d' = update_where p f (deliveries d)" and "webhooks d' = webhooks d"
    and "\<And>x. dl_id (f x) = dl_id x \<and> dl_webhook (f x) = dl_webhook x"
    and "\<And>x. p x \<Longrightarrow> delivery_wf x \<Longrightarrow> delivery_wf (f x)"
  shows "webhooks_wf d'"
proof -
  have "map dl_id (deliveries d') = map dl_id (deliveries d)" using assms(2,4) by (simp add: map_update_where)
  moreover have "dl_webhook x \<in> wh_id ` set (webhooks d') \<and> delivery_wf x" if "x \<in> set (deliveries d')" for x
    using that unfolding assms(2)
    by (cases rule: update_whereE) (use assms(1,3,4,5) in \<open>auto simp: webhooks_wf_def list_all_iff\<close>)
  ultimately show ?thesis using assms(1,3) by (simp add: webhooks_wf_def list_all_iff)
qed

lemma booked_or_stale_wf:
  assumes "booked_or_stale p f d = Inr d'" and "webhooks_wf d"
    and "\<And>x. dl_id (f x) = dl_id x \<and> dl_webhook (f x) = dl_webhook x"
    and "\<And>x. p x \<Longrightarrow> delivery_wf x \<Longrightarrow> delivery_wf (f x)"
  shows "webhooks_wf d'"
  using assms(1) by (intro update_deliveries_wf [OF assms(2) _ _ assms(3,4)]) (auto simp: booked_or_stale_def split: if_splits)

lemma delete_deliveries_wf:
  "webhooks_wf d \<Longrightarrow> deliveries d' = delete_where p (deliveries d) \<Longrightarrow> webhooks d' = webhooks d \<Longrightarrow> webhooks_wf d'"
  by (auto simp: webhooks_wf_def list_all_iff)

lemma delivery_step_wf:
  assumes "webhooks_wf d"
  shows "webhooks_wf (delivery_step d e)"
proof (cases e)
  case (Enqueue ns quota now)
  with assms show ?thesis using insert_deliveries_wf by (auto split: sum.split)
next
  case (BeginAttempt did gen)
  show ?thesis
  proof (cases "begin_delivery_attempt d did gen")
    case (Inl err)
    with assms BeginAttempt show ?thesis by simp
  next
    case (Inr p)
    then have "deliveries (snd p) = update_where (booked_under did gen) (\<lambda>x. x\<lparr>dl_attempts := dl_attempts x + 1\<rparr>) (deliveries d)"
      and "webhooks (snd p) = webhooks d"
      by (auto simp: begin_delivery_attempt_def Let_def split: option.splits if_splits)
    with assms have "webhooks_wf (snd p)" by (rule update_deliveries_wf) (simp_all add: delivery_wf_def)
    with BeginAttempt Inr show ?thesis by (cases p) simp
  qed
next
  case (Succeeded did gen status now)
  have "webhooks_wf d'" if "record_delivery_success d did gen status now = Inr d'" for d'
    using that unfolding record_delivery_success_def
    by (rule booked_or_stale_wf [OF _ assms]) (simp_all add: delivery_wf_def booked_under_def)
  with assms Succeeded show ?thesis by (auto split: sum.split)
next
  case (AttemptFailed did gen status m at now)
  have "webhooks_wf d'" if "record_delivery_failure d did gen status m at now = Inr d'" for d'
  proof (cases at)
    case None
    from that show ?thesis unfolding record_delivery_failure_def None option.case
      by (rule booked_or_stale_wf [OF _ assms]) (auto simp: delivery_wf_def booked_under_def)
  next
    case (Some t)
    from that show ?thesis unfolding record_delivery_failure_def Some option.case
      by (rule booked_or_stale_wf [OF _ assms]) (auto simp: delivery_wf_def)
  qed
  with assms AttemptFailed show ?thesis by (auto split: sum.split)
next
  case (Replay wid did now)
  have "webhooks_wf d'" if "replay_webhook_delivery d wid did now = Inr (w, d')" for w d'
  proof -
    from that have "deliveries d' = update_where (\<lambda>x. dl_id x = did \<and> dl_webhook x = wid) (rearm now) (deliveries d)"
      and "webhooks d' = webhooks d"
      by (auto simp: replay_webhook_delivery_def Let_def split: if_splits option.splits)
    with assms show ?thesis by (rule update_deliveries_wf) (auto simp: rearm_def delivery_wf_def)
  qed
  with assms Replay show ?thesis by (auto split: sum.split)
next
  case (PruneFinished seen cutoff limit)
  with assms show ?thesis
    by (auto simp: prune_webhook_deliveries_def Let_def intro: delete_deliveries_wf [OF assms])
next
  case (DropWebhook wid)
  have "webhooks_wf d'" if "delete_webhook d wid = Inr d'" for d'
  proof -
    from that have t: "webhooks d' = delete_where (\<lambda>r. wh_id r = wid) (webhooks d)"
      "deliveries d' = delete_where (\<lambda>x. dl_webhook x = wid) (deliveries d)"
      by (auto simp: delete_webhook_def split: if_splits)
    show ?thesis using assms by (force simp: webhooks_wf_def t list_all_iff)
  qed
  with assms DropWebhook show ?thesis by (auto split: sum.split)
qed

lemma update_webhook_rows:
  assumes "update_webhook d wid u f now = Inr (w, d')"
  shows "map wh_id (webhooks d') = map wh_id (webhooks d)" and "deliveries d' = deliveries d"
  using assms
  by (auto simp: update_webhook_def Let_def map_update_where edit_row_def split: if_splits sum.splits option.splits)

lemma webhook_step_wf:
  assumes "webhooks_wf d"
  shows "webhooks_wf (webhook_step d e)"
proof (cases e)
  case (Registered w now)
  with assms show ?thesis
    by (auto simp: create_webhook_def exists_row_def webhooks_wf_def list_all_iff)
next
  case (Edited wid u f now)
  have "webhooks_wf d'" if "update_webhook d wid u f now = Inr (w, d')" for w d'
    using assms update_webhook_rows [OF that] unfolding webhooks_wf_def by (metis set_map)
  with assms Edited show ?thesis by (auto split: sum.split)
next
  case (Queued_step q)
  with delivery_step_wf [OF assms] show ?thesis by simp
next
  case (EventsPass n build quota now)
  have "webhooks_wf d'" if "notify_events d n build quota now = Inr (k, d')" for k d'
    using that
  proof (cases rule: notify_events_split)
    case (2 d1)
    from insert_deliveries_wf [OF 2(2) assms] show ?thesis by (rule webhooks_wf_cong) (simp_all add: 2(4))
  qed (use assms in simp)
  with assms EventsPass show ?thesis by (auto split: sum.split)
next
  case (ActionsPass n build quota now)
  have "webhooks_wf d'" if "notify_finished_actions d n build quota now = Inr (k, d')" for k d'
    using that
  proof (cases rule: notify_finished_split)
    case (2 d1)
    from insert_deliveries_wf [OF 2(2) assms] show ?thesis by (rule webhooks_wf_cong) (simp_all add: 2(4))
  qed (use assms in simp)
  with assms ActionsPass show ?thesis by (auto split: sum.split)
next
  case (AuditPass n build quota now)
  have "webhooks_wf d'" if r: "notify_audit d n build quota now = Inr (k, d')" for k d'
  proof (cases "d' = d")
    case False
    with r obtain d1 ns where "insert_deliveries d ns quota now = Inr d1"
      and "webhooks d' = webhooks d1" "deliveries d' = deliveries d1"
      by (auto simp: notify_audit_def Let_def split: if_splits sum.splits)
    with insert_deliveries_wf assms webhooks_wf_cong show ?thesis by blast
  qed (use assms in simp)
  with assms AuditPass show ?thesis by (auto split: sum.split)
next
  case (LinkMoved sid old new obs build quota now at)
  let ?d = "d\<lparr>servers := update_where (link_guard d sid old new obs now) (\<lambda>v. v\<lparr>sv_link_state := new\<rparr>) (servers d)\<rparr>"
  have "webhooks_wf ?d" by (rule webhooks_wf_cong [OF assms]) simp_all
  then have "webhooks_wf d'" if "apply_link_transition d sid old new obs build quota now at = Inr (b, d')" for b d'
    using that insert_deliveries_wf assms
    by (auto simp: apply_link_transition_def Let_def split: if_splits option.splits sum.splits)
  with assms LinkMoved show ?thesis by (auto split: sum.split)
qed

interpretation webhook_tables: invariant_machine webhook_step webhooks_wf
  by unfold_locales (rule webhook_step_wf)

text \<open>
  C25. The webhook tables stay well formed under every operation in any order: identifiers are unique, every
  delivery belongs to a registered webhook, a delivery has an end exactly when it is not pending and a
  delivery instant exactly when it was delivered, and a dead one names its reason.
\<close>

theorem webhook_tables_wf: "webhooks_wf (run_steps webhook_step empty_db es)"
  by (rule webhook_tables.run_inv) (simp add: webhooks_wf_def)

end
