(* ===== verification/Dispatcher.thy ===== *)
theory Dispatcher
  imports Subscriptions Redact Pattern
begin

text \<open>
  The webhook delivery engine (hub/internal/webhook/dispatch.go): the fan-out of what landed to the
  webhooks whose filter admits it, one delivery attempt with its outcome, the retry schedule, the
  link monitor and one pass over all of them.

  The JSON library, the clock's text form, the audit view that the hub hands in and the Discord
  embed are the record \<open>codec\<close>.  What happens elsewhere while an attempt is in flight is the
  argument \<open>meanwhile\<close>.
\<close>

subsection \<open>Notifications\<close>

record notification =
  no_type :: string
  no_server :: string
  no_event :: string
  no_occurred :: time
  no_landed :: time
  no_data :: json

record codec =
  cd_parse :: "string \<Rightarrow> json"
  cd_text :: "json \<Rightarrow> string"
  cd_stamp :: "time \<Rightarrow> string"
  cd_audit :: "audit_record \<Rightarrow> json"
  cd_discord :: "notification \<Rightarrow> string \<Rightarrow> string"

definition notify_batch :: int where "notify_batch = 500"
definition deliver_batch :: int where "deliver_batch = 50"
definition link_check_interval :: int where "link_check_interval = 5 * 1000000000"
definition link_grace :: int where "link_grace = 10 * 1000000000"
definition pending_delivery_bound :: int where "pending_delivery_bound = 1000"

definition action_completed :: string where "action_completed = ''action.completed''"
definition link_lost :: string where "link_lost = ''server.link.lost''"
definition link_restored :: string where "link_restored = ''server.link.restored''"

definition template_discord :: string where "template_discord = ''discord''"

text \<open>\<open>webhookPayload\<close>: a member tagged omitempty is left out when it is empty.\<close>

definition unless_empty :: "string \<Rightarrow> string \<Rightarrow> (string \<times> json) list" where
  "unless_empty name v = (if v = '''' then [] else [(name, JString v)])"

definition webhook_payload :: "codec \<Rightarrow> webhook \<Rightarrow> notification \<Rightarrow> string \<Rightarrow> json" where
  "webhook_payload cd w n did =
     JObject ([(''deliveryId'', JString did), (''webhookId'', JString (wk_id w)), (''type'', JString (no_type n))]
       @ unless_empty ''serverId'' (no_server n) @ unless_empty ''eventId'' (no_event n)
       @ [(''occurredAt'', JString (cd_stamp cd (no_occurred n))), (''data'', no_data n)])"

definition render_delivery_body :: "codec \<Rightarrow> webhook \<Rightarrow> notification \<Rightarrow> string \<Rightarrow> string \<Rightarrow> string" where
  "render_delivery_body cd w n did server_name =
     (if wk_template w = template_discord then cd_discord cd n server_name
      else cd_text cd (webhook_payload cd w n did))"

subsection \<open>Fan-out\<close>

definition filter_of :: "webhook \<Rightarrow> webhook_filter" where
  "filter_of w = \<lparr>wf_server_ids = wk_servers w, wf_events = wk_events w, wf_audit_granted = wk_audit w\<rparr>"

definition redacted_for :: "webhook \<Rightarrow> notification \<Rightarrow> notification" where
  "redacted_for w n = n\<lparr>no_data := redact_data (no_data n) (wk_redact w)\<rparr>"

text \<open>\<open>mint k\<close> is the \<open>k\<close>-th identifier the fan-out draws.\<close>

fun fan_each :: "codec \<Rightarrow> (string \<Rightarrow> string) \<Rightarrow> (nat \<Rightarrow> string) \<Rightarrow> nat \<Rightarrow> (notification \<times> webhook) list \<Rightarrow> new_delivery list" where
  "fan_each cd names mint k [] = []"
| "fan_each cd names mint k ((n, w) # ps) =
     (if no_landed n < wk_created w then fan_each cd names mint k ps
      else if \<not> webhook_matches (filter_of w) (no_type n) (no_server n) then fan_each cd names mint k ps
      else \<lparr>nd_id = mint k, nd_webhook = wk_id w, nd_type = no_type n, nd_server = no_server n,
             nd_body = render_delivery_body cd w (redacted_for w n) (mint k) (names (no_server n))\<rparr>
           # fan_each cd names mint (Suc k) ps)"

definition fan_out ::
  "codec \<Rightarrow> (nat \<Rightarrow> string) \<Rightarrow> webhook list \<Rightarrow> notification list \<Rightarrow> (string \<Rightarrow> string) \<Rightarrow> new_delivery list" where
  "fan_out cd mint ws ns names = fan_each cd names mint 0 (concat (map (\<lambda>n. map (\<lambda>w. (n, w)) ws) ns))"

definition event_notification :: "codec \<Rightarrow> event_row \<Rightarrow> notification" where
  "event_notification cd e =
     \<lparr>no_type = ev_type e, no_server = ev_server e, no_event = ev_id e, no_occurred = parse_time (ev_occurred e),
      no_landed = parse_time (ev_received e), no_data = cd_parse cd (ev_data e)\<rparr>"

definition finished_at :: "action_row \<Rightarrow> time" where
  "finished_at a = (case scan_time (ac_finished a) of Some t \<Rightarrow> t | None \<Rightarrow> parse_time (ac_expires a))"

fun state_name :: "action_state \<Rightarrow> string" where
  "state_name Queued = ''queued''"
| "state_name Delivered = ''delivered''"
| "state_name Running = ''running''"
| "state_name Completed = ''completed''"
| "state_name Failed = ''failed''"
| "state_name Expired = ''expired''"

definition json_bool :: "bool option \<Rightarrow> json" where
  "json_bool b = JLiteral (case b of None \<Rightarrow> ''null'' | Some True \<Rightarrow> ''true'' | Some False \<Rightarrow> ''false'')"

text \<open>A Go map is encoded in the order of its keys.\<close>

definition action_notification_data :: "codec \<Rightarrow> action_row \<Rightarrow> json" where
  "action_notification_data cd a =
     JObject ([(''actionId'', JString (ac_id a)), (''code'', JString (ac_code a)),
               (''createdAt'', JString (cd_stamp cd (parse_time (ac_created a))))]
       @ (case ac_duration a of None \<Rightarrow> [] | Some ms \<Rightarrow> [(''durationMs'', JLiteral (show_int ms))])
       @ (case ac_error a of None \<Rightarrow> [] | Some m \<Rightarrow> unless_empty ''error'' m)
       @ [(''finishedAt'', JString (cd_stamp cd (finished_at a))), (''ok'', json_bool (ac_ok a)),
          (''state'', JString (state_name (ac_state a)))])"

definition action_notification :: "codec \<Rightarrow> action_row \<Rightarrow> notification" where
  "action_notification cd a =
     \<lparr>no_type = action_completed, no_server = ac_server a, no_event = '''', no_occurred = finished_at a,
      no_landed = finished_at a, no_data = action_notification_data cd a\<rparr>"

definition audit_notification :: "codec \<Rightarrow> audit_record \<Rightarrow> notification" where
  "audit_notification cd r =
     \<lparr>no_type = audit_recorded, no_server = ad_server r, no_event = '''', no_occurred = ad_at r,
      no_landed = ad_at r, no_data = cd_audit cd r\<rparr>"

definition fan_events where
  "fan_events cd mint es ws names = fan_out cd mint ws (map (event_notification cd) es) names"

definition fan_actions where
  "fan_actions cd mint as ws names = fan_out cd mint ws (map (action_notification cd) as) names"

definition fan_audit where
  "fan_audit cd mint rs ws names = fan_out cd mint ws (map (audit_notification cd) rs) names"

subsection \<open>One attempt\<close>

text \<open>
  What the HTTP client answers to a booked attempt; \<open>ShutDown\<close> is a request the dispatcher itself
  aborted.
\<close>

datatype answer = ShutDown | Unbuildable string | TransportFailed string | Status int

text \<open>Attempt \<open>n\<close> failing consumes the \<open>n\<close>-th delay.\<close>

definition next_attempt_at :: "int list \<Rightarrow> int \<Rightarrow> time \<Rightarrow> time option" where
  "next_attempt_at delays attempt now =
     (if attempt - 1 < int (length delays) then Some (now + delays ! nat (attempt - 1)) else None)"

definition record_failure ::
  "int list \<Rightarrow> db \<Rightarrow> delivery_row \<Rightarrow> int \<Rightarrow> int option \<Rightarrow> string \<Rightarrow> time \<Rightarrow> db" where
  "record_failure delays d due attempt status message now =
     (case record_delivery_failure d (dl_id due) (dl_generation due) status message
             (next_attempt_at delays attempt now) now of
        Inl err \<Rightarrow> d
      | Inr d' \<Rightarrow> d')"

definition status_message :: "int \<Rightarrow> string" where
  "status_message s =
     ''status '' @ show_int s @ (if 300 \<le> s \<and> s < 400 then '' (redirects are not followed)'' else '''')"

definition book_outcome :: "int list \<Rightarrow> db \<Rightarrow> delivery_row \<Rightarrow> int \<Rightarrow> answer \<Rightarrow> time \<Rightarrow> db" where
  "book_outcome delays d due attempt ans now =
     (case ans of
        ShutDown \<Rightarrow> d
      | Unbuildable m \<Rightarrow> record_failure delays d due attempt None (''request could not be built: '' @ m) now
      | TransportFailed m \<Rightarrow> record_failure delays d due attempt None (''delivery failed: '' @ m) now
      | Status s \<Rightarrow>
          if 200 \<le> s \<and> s < 300
          then (case record_delivery_success d (dl_id due) (dl_generation due) s now of Inl err \<Rightarrow> d | Inr d' \<Rightarrow> d')
          else record_failure delays d due attempt (Some s) (status_message s) now)"

definition attempt_delivery ::
  "int list \<Rightarrow> db \<Rightarrow> delivery_row \<Rightarrow> (delivery_attempt \<Rightarrow> answer) \<Rightarrow> (db \<Rightarrow> db) \<Rightarrow> time \<Rightarrow> db" where
  "attempt_delivery delays d due ask meanwhile now =
     (case begin_delivery_attempt d (dl_id due) (dl_generation due) of
        Inl err \<Rightarrow> d
      | Inr (a, d1) \<Rightarrow> book_outcome delays (meanwhile d1) due (da_attempt a) (ask a) now)"

text \<open>
  The workers take deliveries off one list; \<open>feed\<close> is the order they take them in, cut short by a
  shutdown.
\<close>

record network =
  nw_feed :: "delivery_row list \<Rightarrow> delivery_row list"
  nw_ask :: "delivery_row \<Rightarrow> delivery_attempt \<Rightarrow> answer"
  nw_meanwhile :: "delivery_row \<Rightarrow> db \<Rightarrow> db"
  nw_clock :: "delivery_row \<Rightarrow> time"

definition deliver_due :: "int list \<Rightarrow> network \<Rightarrow> db \<Rightarrow> time \<Rightarrow> int \<times> db" where
  "deliver_due delays nw d now =
     (let due = map fst (due_webhook_deliveries d now deliver_batch) in
      (int (length due),
       fold (\<lambda>x s. attempt_delivery delays s x (nw_ask nw x) (nw_meanwhile nw x) (nw_clock nw x))
         (nw_feed nw due) d))"

subsection \<open>Links\<close>

definition link_notification :: "codec \<Rightarrow> string \<Rightarrow> link_candidate \<Rightarrow> time \<Rightarrow> notification" where
  "link_notification cd ty c now =
     \<lparr>no_type = ty, no_server = lc_server c, no_event = '''', no_occurred = now, no_landed = now,
      no_data = JObject [(''lastSeenAt'',
        case lc_last_seen c of None \<Rightarrow> JLiteral ''null'' | Some t \<Rightarrow> JString (cd_stamp cd t))]\<rparr>"

definition reachable :: "link_candidate \<Rightarrow> time \<Rightarrow> bool" where
  "reachable c now =
     (case (lc_poll_timeout c, lc_last_seen c) of
        (Some seconds, Some seen) \<Rightarrow> now - seen \<le> 2 * (seconds * 1000000000) + link_grace
      | _ \<Rightarrow> False)"

definition link_target :: "link_candidate \<Rightarrow> time \<Rightarrow> string" where
  "link_target c now = (if reachable c now then link_up else link_down)"

text \<open>The notification an edge fires; a first classification fires none.\<close>

definition edge_type :: "string \<Rightarrow> string \<Rightarrow> string option" where
  "edge_type old new =
     (if old = link_down \<and> new = link_up then Some link_restored
      else if old = link_up \<and> new = link_down then Some link_lost
      else None)"

definition check_link ::
  "codec \<Rightarrow> (nat \<Rightarrow> string) \<Rightarrow> time \<Rightarrow> time \<times> time \<Rightarrow> db \<Rightarrow> link_candidate \<Rightarrow> bool \<times> db" where
  "check_link cd mint now clocks d c =
     (if lc_state c = link_unknown \<and> lc_last_seen c = None then (False, d)
      else let target = link_target c now in
        if target = lc_state c then (False, d)
        else case apply_link_transition d (lc_server c) (lc_state c) target (lc_last_seen c)
               (map_option (\<lambda>ty ws names. fan_out cd mint ws [link_notification cd ty c now] names)
                 (edge_type (lc_state c) target)) pending_delivery_bound (fst clocks) (snd clocks) of
               Inl err \<Rightarrow> (False, d)
             | Inr r \<Rightarrow> r)"

text \<open>\<open>now\<close> is read once after the candidates; each transition's clocks are its own.\<close>

definition check_links ::
  "codec \<Rightarrow> (string \<Rightarrow> nat \<Rightarrow> string) \<Rightarrow> time \<Rightarrow> time \<Rightarrow> (string \<Rightarrow> time \<times> time) \<Rightarrow> db \<Rightarrow> db" where
  "check_links cd mint read_now now clocks d =
     fold (\<lambda>c s. snd (check_link cd (mint (lc_server c)) now (clocks (lc_server c)) s c)) (link_candidates d read_now) d"

subsection \<open>One pass\<close>

record pass_input =
  pi_mint :: "nat \<Rightarrow> nat \<Rightarrow> string"
  pi_clock :: "nat \<Rightarrow> time"
  pi_link_mint :: "string \<Rightarrow> nat \<Rightarrow> string"
  pi_link_clocks :: "string \<Rightarrow> time \<times> time"
  pi_network :: network

text \<open>A stage that fails ends the pass with what the stages before it committed.\<close>

definition dispatch_pass :: "codec \<Rightarrow> int list \<Rightarrow> pass_input \<Rightarrow> db \<Rightarrow> time \<Rightarrow> bool \<times> time \<times> db" where
  "dispatch_pass cd delays pin d last_link_check =
     (case notify_events d notify_batch (fan_events cd (pi_mint pin 0)) pending_delivery_bound (pi_clock pin 0) of
        Inl err \<Rightarrow> (False, last_link_check, d)
      | Inr (events_marked, d1) \<Rightarrow>
     (case notify_finished_actions d1 notify_batch (fan_actions cd (pi_mint pin 1)) pending_delivery_bound (pi_clock pin 1) of
        Inl err \<Rightarrow> (False, last_link_check, d1)
      | Inr (actions_marked, d2) \<Rightarrow>
     (case notify_audit d2 notify_batch (fan_audit cd (pi_mint pin 2)) pending_delivery_bound (pi_clock pin 2) of
        Inl err \<Rightarrow> (False, last_link_check, d2)
      | Inr (audit_marked, d3) \<Rightarrow>
          let due_check = pi_clock pin 3 - last_link_check \<ge> link_check_interval;
              checked = (if due_check then pi_clock pin 4 else last_link_check);
              d4 = (if due_check then check_links cd (pi_link_mint pin) (pi_clock pin 5) (pi_clock pin 6) (pi_link_clocks pin) d3
                    else d3);
              (attempted, d5) = deliver_due delays (pi_network pin) d4 (pi_clock pin 7)
          in (events_marked = notify_batch \<or> actions_marked = notify_batch \<or> audit_marked = notify_batch
                \<or> attempted = deliver_batch, checked, d5))))"

subsection \<open>The fan-out reaches every match and nothing else\<close>

definition delivers :: "webhook \<Rightarrow> notification \<Rightarrow> bool" where
  "delivers w n = (wk_created w \<le> no_landed n \<and> webhook_matches (filter_of w) (no_type n) (no_server n))"

text \<open>A row that carries a notification to a webhook: rendered for it, after its redaction.\<close>

definition carries_to :: "codec \<Rightarrow> (string \<Rightarrow> string) \<Rightarrow> new_delivery \<Rightarrow> notification \<times> webhook \<Rightarrow> bool" where
  "carries_to cd names x p =
     (nd_webhook x = wk_id (snd p) \<and> nd_type x = no_type (fst p) \<and> nd_server x = no_server (fst p)
      \<and> nd_body x = render_delivery_body cd (snd p) (redacted_for (snd p) (fst p)) (nd_id x) (names (no_server (fst p))))"

lemma fan_each_exact:
  "list_all2 (carries_to cd names) (fan_each cd names mint k ps) (filter (\<lambda>p. delivers (snd p) (fst p)) ps)"
proof (induction ps arbitrary: k)
  case (Cons p ps)
  obtain n w where p: "p = (n, w)" by fastforce
  show ?case using Cons [of k] Cons [of "Suc k"] by (auto simp: p delivers_def carries_to_def)
qed simp

lemma fan_each_ids: "map nd_id (fan_each cd names mint k ps) = map mint [k ..< k + length (fan_each cd names mint k ps)]"
proof (induction ps arbitrary: k)
  case (Cons p ps)
  obtain n w where p: "p = (n, w)" by fastforce
  show ?case using Cons [of k] Cons [of "Suc k"] by (simp add: p upt_conv_Cons del: upt_Suc)
qed simp

text \<open>A stored row that carries one event to one webhook.\<close>

definition tells :: "codec \<Rightarrow> db \<Rightarrow> delivery_row \<Rightarrow> event_row \<times> webhook \<Rightarrow> bool" where
  "tells cd d x p =
     (dl_webhook x = wk_id (snd p) \<and> dl_type x = ev_type (fst p) \<and> dl_server x = ev_server (fst p)
      \<and> dl_body x = render_delivery_body cd (snd p) (redacted_for (snd p) (event_notification cd (fst p))) (dl_id x)
           (server_names d (ev_server (fst p)))
      \<and> (dl_state x = DeliveryPending \<or> dl_state x = DeliveryDead \<and> dl_error x \<noteq> None))"

lemma filter_pairs:
  "filter (\<lambda>p. delivers (snd p) (fst p)) (concat (map (\<lambda>n. map (\<lambda>w. (n, w)) ws) (map f es)))
   = map (\<lambda>p. (f (fst p), snd p)) (filter (\<lambda>p. delivers (snd p) (f (fst p))) (concat (map (\<lambda>e. map (\<lambda>w. (e, w)) ws) es)))"
  by (induction es) (simp_all add: filter_map comp_def)


subsection \<open>Retries end\<close>

fun failing :: "answer \<Rightarrow> bool" where
  "failing ShutDown = False"
| "failing (Unbuildable m) = True"
| "failing (TransportFailed m) = True"
| "failing (Status s) = (\<not> (200 \<le> s \<and> s < 300))"

text \<open>A delivery that is owed and that the dispatcher may attempt.\<close>

definition attemptable :: "db \<Rightarrow> delivery_row \<Rightarrow> delivery_row \<Rightarrow> bool" where
  "attemptable d due x =
     (distinct (map dl_id (deliveries d)) \<and> x \<in> set (deliveries d) \<and> booked_under (dl_id due) (dl_generation due) x
      \<and> (\<exists>w. find (\<lambda>w. wh_id w = dl_webhook x) (webhooks d) = Some w \<and> wh_paused w = None))"

lemma booked_find:
  assumes "distinct (map dl_id t)" and "x \<in> set t" and "booked_under did gen x"
  shows "find (booked_under did gen) t = Some x"
proof -
  obtain y where y: "find (booked_under did gen) t = Some y"
    using assms(2,3) by (cases "find (booked_under did gen) t") (auto simp: find_None_iff)
  from find_Some_in [OF y] key_unique [OF assms(1) _ assms(2)] assms(3) have "y = x"
    by (auto simp: booked_under_def)
  with y show ?thesis by simp
qed

lemma begin_attemptable:
  assumes "attemptable d due x"
  obtains a d1 where "begin_delivery_attempt d (dl_id due) (dl_generation due) = Inr (a, d1)"
    and "da_attempt a = dl_attempts x + 1" and "webhooks d1 = webhooks d"
    and "attemptable d1 due (x\<lparr>dl_attempts := dl_attempts x + 1\<rparr>)"
proof -
  let ?p = "booked_under (dl_id due) (dl_generation due)"
  let ?t = "update_where ?p (\<lambda>x. x\<lparr>dl_attempts := dl_attempts x + 1\<rparr>) (deliveries d)"
  let ?x = "x\<lparr>dl_attempts := dl_attempts x + 1\<rparr>"
  from assms obtain w where w: "find (\<lambda>w. wh_id w = dl_webhook x) (webhooks d) = Some w" "wh_paused w = None"
    and x: "distinct (map dl_id (deliveries d))" "x \<in> set (deliveries d)" "?p x"
    unfolding attemptable_def by blast
  have "affected ?p (deliveries d) \<noteq> 0" using x(2,3) by (auto simp: affected_zero_iff)
  moreover have dist: "distinct (map dl_id ?t)" using x(1) by (simp add: map_update_where)
  moreover have in_t: "?x \<in> set ?t" using x(2,3) by (force simp: set_update_where)
  moreover have id: "dl_id ?x = dl_id due" using x(3) by (simp add: booked_under_def)
  ultimately have "find (\<lambda>y. dl_id y = dl_id due) ?t = Some ?x" using find_unique [of dl_id ?t ?x] by simp
  then have b: "begin_delivery_attempt d (dl_id due) (dl_generation due)
      = Inr (\<lparr>da_attempt = dl_attempts x + 1, da_url = wh_url w, da_secret = wh_secret w\<rparr>, d\<lparr>deliveries := ?t\<rparr>)"
    using booked_find [OF x] w \<open>affected ?p (deliveries d) \<noteq> 0\<close>
    by (simp add: begin_delivery_attempt_def Let_def)
  have "attemptable (d\<lparr>deliveries := ?t\<rparr>) due ?x"
    using dist in_t w x(3) by (simp add: attemptable_def booked_under_def)
  then show ?thesis by (intro that [OF b]) simp_all
qed

definition failed_row :: "int list \<Rightarrow> delivery_row \<Rightarrow> time \<Rightarrow> delivery_row \<Rightarrow> bool" where
  "failed_row delays x now y =
     (dl_id y = dl_id x \<and> dl_attempts y = dl_attempts x + 1
      \<and> dl_state y = (if dl_attempts x < int (length delays) then DeliveryPending else DeliveryDead)
      \<and> (dl_attempts x < int (length delays) \<longrightarrow> dl_next y = format_time (now + delays ! nat (dl_attempts x))))"

lemma record_failure_row:
  assumes "attemptable d due x" and "attempt = dl_attempts x"
    and d'_def: "d' = record_failure delays d due attempt status m now"
  shows "\<exists>y. y \<in> set (deliveries d') \<and> dl_id y = dl_id x \<and> dl_attempts y = dl_attempts x
     \<and> dl_state y = (if attempt - 1 < int (length delays) then DeliveryPending else DeliveryDead)
     \<and> (attempt - 1 < int (length delays) \<longrightarrow> dl_next y = format_time (now + delays ! nat (attempt - 1)) \<and> attemptable d' due y)
     \<and> distinct (map dl_id (deliveries d'))"
proof -
  let ?p = "booked_under (dl_id due) (dl_generation due)"
  let ?live = "attempt - 1 < int (length delays)"
  let ?f = "\<lambda>x. if ?live then x\<lparr>dl_status := status, dl_error := Some m,
        dl_next := format_time (now + delays ! nat (attempt - 1))\<rparr>
      else x\<lparr>dl_state := DeliveryDead, dl_status := status, dl_error := Some m, dl_finished := Some (format_time now)\<rparr>"
  from assms(1) obtain w where w: "find (\<lambda>w. wh_id w = dl_webhook x) (webhooks d) = Some w" "wh_paused w = None"
    and x: "distinct (map dl_id (deliveries d))" "x \<in> set (deliveries d)" "?p x"
    unfolding attemptable_def by blast
  have "affected ?p (deliveries d) \<noteq> 0" using x(2,3) by (auto simp: affected_zero_iff)
  then have d': "d' = d\<lparr>deliveries := update_where ?p ?f (deliveries d)\<rparr>"
    by (auto simp: d'_def record_failure_def next_attempt_at_def record_delivery_failure_def booked_or_stale_def)
  have "?f x \<in> set (deliveries d')" using x(2,3) by (force simp: d' set_update_where)
  moreover have "distinct (map dl_id (deliveries d'))" using x(1) by (simp add: d' map_update_where)
  ultimately show ?thesis
    using w x(3)
    by (intro exI [of _ "?f x"]; cases "attempt - 1 < int (length delays)") (simp_all add: d' attemptable_def booked_under_def)
qed

lemma failing_attempt:
  assumes "attemptable d due x" and "failing ans"
    and d'_def: "d' = attempt_delivery delays d due (\<lambda>_. ans) id now"
  shows "\<exists>y. y \<in> set (deliveries d') \<and> failed_row delays x now y \<and> distinct (map dl_id (deliveries d'))
    \<and> (dl_state y = DeliveryPending \<longrightarrow> attemptable d' due y)"
proof -
  obtain a d1 where b: "begin_delivery_attempt d (dl_id due) (dl_generation due) = Inr (a, d1)"
    "da_attempt a = dl_attempts x + 1" "attemptable d1 due (x\<lparr>dl_attempts := dl_attempts x + 1\<rparr>)"
    by (rule begin_attemptable [OF assms(1)])
  obtain status m where d': "d' = record_failure delays d1 due (dl_attempts x + 1) status m now"
    using assms(2) b by (cases ans) (auto simp: d'_def attempt_delivery_def book_outcome_def)
  show ?thesis
    unfolding d' using record_failure_row [OF b(3) _ refl, of "dl_attempts x + 1" delays status m now]
    by (auto simp: failed_row_def split: if_splits)
qed

lemma finished_attempt_stale:
  assumes "distinct (map dl_id (deliveries d))" and "y \<in> set (deliveries d)" and "dl_id y = dl_id due"
    and "dl_state y \<noteq> DeliveryPending"
  shows "attempt_delivery delays d due ask meanwhile now = d"
proof -
  have "\<not> booked_under (dl_id due) (dl_generation due) z" if "z \<in> set (deliveries d)" for z
    using key_unique [OF assms(1) that assms(2)] assms(3,4) by (auto simp: booked_under_def)
  then have "find (booked_under (dl_id due) (dl_generation due)) (deliveries d) = None"
    by (simp add: find_None_iff)
  then show ?thesis by (simp add: attempt_delivery_def begin_delivery_attempt_def)
qed

definition try_all :: "int list \<Rightarrow> delivery_row \<Rightarrow> (answer \<times> time) list \<Rightarrow> db \<Rightarrow> db" where
  "try_all delays due tries d = fold (\<lambda>t s. attempt_delivery delays s due (\<lambda>_. fst t) id (snd t)) tries d"

text \<open>How many attempts a delivery with \<open>a\<close> attempts behind it has left; a replayed one has one at least.\<close>

definition attempts_left :: "int list \<Rightarrow> int \<Rightarrow> nat" where
  "attempts_left delays a = max 1 (Suc (length delays) - nat a)"

lemma tries_after_end:
  assumes "distinct (map dl_id (deliveries d))" and "y \<in> set (deliveries d)" and "dl_id y = dl_id due"
    and "dl_state y \<noteq> DeliveryPending"
  shows "try_all delays due tries d = d"
  by (induction tries) (simp_all add: try_all_def finished_attempt_stale [OF assms])

lemma retries_end_aux:
  assumes "attemptable d due x" and "0 \<le> dl_attempts x" and "list_all (\<lambda>t. failing (fst t)) tries"
  shows "\<exists>y \<in> set (deliveries (try_all delays due tries d)). dl_id y = dl_id x
     \<and> dl_attempts y = dl_attempts x + int (min (length tries) (attempts_left delays (dl_attempts x)))
     \<and> dl_state y = (if length tries < attempts_left delays (dl_attempts x) then DeliveryPending else DeliveryDead)"
  using assms
proof (induction tries arbitrary: d x)
  case Nil
  then have "x \<in> set (deliveries d)" "dl_state x = DeliveryPending" by (auto simp: attemptable_def booked_under_def)
  then show ?case by (intro bexI [of _ x]) (simp_all add: try_all_def attempts_left_def)
next
  case (Cons t tries)
  let ?d = "attempt_delivery delays d due (\<lambda>_. fst t) id (snd t)"
  from failing_attempt [OF Cons.prems(1) _ refl, of "fst t" delays "snd t"] Cons.prems(3) obtain y where
    y: "y \<in> set (deliveries ?d)" "failed_row delays x (snd t) y" "distinct (map dl_id (deliveries ?d))"
      "dl_state y = DeliveryPending \<longrightarrow> attemptable ?d due y" by auto
  have step: "try_all delays due (t # tries) d = try_all delays due tries ?d" by (simp add: try_all_def)
  have due: "dl_id x = dl_id due" using Cons.prems(1) by (simp add: attemptable_def booked_under_def)
  show ?case
  proof (cases "dl_attempts x < int (length delays)")
    case True
    then have "attemptable ?d due y" and a: "dl_attempts y = dl_attempts x + 1" "dl_id y = dl_id x"
      using y(2,4) by (auto simp: failed_row_def)
    moreover have left: "attempts_left delays (dl_attempts x) = Suc (attempts_left delays (dl_attempts y))"
      using True Cons.prems(2) by (simp add: attempts_left_def a nat_add_distrib)
    ultimately show ?thesis
      using Cons.IH [of ?d y] Cons.prems(2,3) unfolding step by (auto simp: left a(2))
  next
    case False
    then have dead: "dl_state y = DeliveryDead" "dl_attempts y = dl_attempts x + 1" "dl_id y = dl_id x"
      using y(2) by (auto simp: failed_row_def)
    have "attempts_left delays (dl_attempts x) = 1" using False by (simp add: attempts_left_def)
    moreover have "try_all delays due tries ?d = ?d"
      by (rule tries_after_end [OF y(3,1)]) (simp_all add: dead due)
    ultimately show ?thesis using y(1) dead unfolding step by (intro bexI [of _ y]) auto
  qed
qed

text \<open>
  C22. Retrying ends: whatever a receiver that keeps failing answers, and however often the dispatcher comes
  back, a delivery is attempted exactly as often as its schedule has delays and once more (a replayed
  one at least once), stays pending until the last of these attempts and is dead after it.
\<close>

theorem retries_end:
  assumes "attemptable d due x" and "0 \<le> dl_attempts x" and "list_all (\<lambda>t. failing (fst t)) tries"
  shows "\<exists>y \<in> set (deliveries (try_all delays due tries d)). dl_id y = dl_id x
     \<and> dl_attempts y = dl_attempts x + int (min (length tries) (attempts_left delays (dl_attempts x)))
     \<and> dl_state y = (if length tries < attempts_left delays (dl_attempts x) then DeliveryPending else DeliveryDead)"
  by (rule retries_end_aux [OF assms])

subsection \<open>Link notifications alternate\<close>

definition link_of :: "db \<Rightarrow> string \<Rightarrow> string option" where
  "link_of d sid = map_option sv_link_state (find (\<lambda>v. sv_id v = sid) (servers d))"

definition servers_keyed :: "db \<Rightarrow> bool" where
  "servers_keyed d = distinct (map sv_id (servers d))"

lemma link_names [simp]:
  "link_up \<noteq> link_down" "link_down \<noteq> link_up" "link_lost \<noteq> link_restored" "link_restored \<noteq> link_lost"
  "link_up \<noteq> link_unknown" "link_down \<noteq> link_unknown"
  by (simp_all add: link_up_def link_down_def link_lost_def link_restored_def link_unknown_def)

lemma find_key_update:
  assumes "distinct (map k t)" and "\<And>v. k (f v) = k v" and "v \<in> set t" and "p v" and "\<And>x. p x \<Longrightarrow> k x = k v"
  shows "find (\<lambda>x. k x = k v) (update_where p f t) = Some (f v)"
  using find_update_where [of "\<lambda>x. k x = k v" f p t] find_unique [OF assms(1,3)] assms(2,4) by simp

lemma transition_applied:
  assumes "servers_keyed d" and "apply_link_transition d sid old new obs build quota now at = Inr (True, d')"
  shows "link_of d sid = Some old \<and> link_of d' sid = Some new \<and> servers_keyed d'
    \<and> (\<forall>s. s \<noteq> sid \<longrightarrow> link_of d' s = link_of d s)"
proof -
  let ?g = "link_guard d sid old new obs now"
  let ?t = "update_where ?g (\<lambda>v. v\<lparr>sv_link_state := new\<rparr>) (servers d)"
  from assms(2) have "affected ?g (servers d) \<noteq> 0" and t: "servers d' = ?t"
    using insert_deliveries_keeps(6)
    by (fastforce simp: apply_link_transition_def Let_def split: if_splits option.splits sum.splits)+
  then obtain v where v: "v \<in> set (servers d)" "?g v" by (auto simp: affected_zero_iff)
  have id: "sv_id v = sid" "sv_link_state v = old" using v(2) by (simp_all add: link_guard_def)
  have dist: "distinct (map sv_id (servers d))" using assms(1) by (simp add: servers_keyed_def)
  have "link_of d sid = Some old"
    using find_unique [OF dist v(1)] id by (simp add: link_of_def)
  moreover have "find (\<lambda>x. sv_id x = sv_id v) ?t = Some (v\<lparr>sv_link_state := new\<rparr>)"
    by (rule find_key_update [where p = ?g]) (use dist v in \<open>simp_all add: link_guard_def id\<close>)
  then have "link_of d' sid = Some new" using id by (simp add: link_of_def t)
  moreover have "link_of d' s = link_of d s" if "s \<noteq> sid" for s
  proof -
    have "find (\<lambda>x. sv_id x = s) (update_where ?g (\<lambda>v. v\<lparr>sv_link_state := new\<rparr>) vs) = find (\<lambda>x. sv_id x = s) vs" for vs
      using that by (induction vs) (auto simp: link_guard_def)
    then show ?thesis by (simp add: link_of_def t)
  qed
  moreover have "servers_keyed d'" using dist by (simp add: servers_keyed_def t map_update_where)
  ultimately show ?thesis by blast
qed

lemma check_link_effect:
  assumes "servers_keyed d" and "check_link cd mint now clocks d c = (b, d')"
  shows "servers_keyed d'
    \<and> (if b then link_of d (lc_server c) = Some (lc_state c) \<and> lc_state c \<noteq> link_target c now
               \<and> link_of d' (lc_server c) = Some (link_target c now) \<and> (\<forall>s. s \<noteq> lc_server c \<longrightarrow> link_of d' s = link_of d s)
       else d' = d)"
proof -
  have no: "d' = d" if "apply_link_transition d sid old new obs build quota now at = Inr (False, d')"
    for sid old new obs build quota now at
    using that by (auto simp: apply_link_transition_def Let_def split: if_splits option.splits sum.splits)
  show ?thesis
  proof (cases b)
    case True
    with assms(2) obtain build where "apply_link_transition d (lc_server c) (lc_state c) (link_target c now)
        (lc_last_seen c) build pending_delivery_bound (fst clocks) (snd clocks) = Inr (True, d')"
      and "lc_state c \<noteq> link_target c now"
      by (auto simp: check_link_def Let_def split: if_splits sum.splits)
    with transition_applied [OF assms(1)] True show ?thesis by simp
  next
    case False
    with assms(2) have "d' = d \<or> (\<exists>build. apply_link_transition d (lc_server c) (lc_state c) (link_target c now)
        (lc_last_seen c) build pending_delivery_bound (fst clocks) (snd clocks) = Inr (False, d'))"
      unfolding check_link_def Let_def by (simp split: if_splits sum.splits) blast+
    with no have "d' = d" by blast
    with False assms(1) show ?thesis by simp
  qed
qed

text \<open>What one check fires for a server.\<close>

definition fired :: "string \<Rightarrow> link_candidate \<Rightarrow> time \<Rightarrow> bool \<Rightarrow> string list" where
  "fired sid c now applied =
     (if applied \<and> lc_server c = sid
      then (case edge_type (lc_state c) (link_target c now) of None \<Rightarrow> [] | Some ty \<Rightarrow> [ty]) else [])"

lemma edge_type_cases: "edge_type old new = None \<or> edge_type old new = Some link_lost \<or> edge_type old new = Some link_restored"
  unfolding edge_type_def by presburger

lemma fired_types: "list_all (\<lambda>ty. ty = link_lost \<or> ty = link_restored) (fired sid c now b)"
  unfolding fired_def using edge_type_cases [of "lc_state c" "link_target c now"]
  by (elim disjE) simp_all

text \<open>
  A history of checks on candidates read at any time, with anything else in between; \<open>link_log\<close> is
  what it fires for one server, oldest first.
\<close>

fun link_log ::
  "codec \<Rightarrow> string \<Rightarrow> db \<Rightarrow> ((db \<Rightarrow> db) \<times> (nat \<Rightarrow> string) \<times> time \<times> (time \<times> time) \<times> link_candidate) list \<Rightarrow> string list" where
  "link_log cd sid d [] = []"
| "link_log cd sid d ((elsewhere, mint, now, clocks, c) # es) =
     (let (b, d') = check_link cd mint now clocks (elsewhere d) c in fired sid c now b @ link_log cd sid d' es)"

definition leaves_link :: "string \<Rightarrow> (db \<Rightarrow> db) \<Rightarrow> bool" where
  "leaves_link sid f = (\<forall>d. servers_keyed d \<longrightarrow> servers_keyed (f d) \<and> link_of (f d) sid = link_of d sid)"

lemma link_log_alternates:
  "servers_keyed d \<Longrightarrow> list_all (\<lambda>e. leaves_link sid (fst e)) es \<Longrightarrow>
    distinct_adj (link_log cd sid d es)
    \<and> (link_log cd sid d es \<noteq> [] \<longrightarrow>
         (link_of d sid = Some link_up \<longrightarrow> hd (link_log cd sid d es) = link_lost)
       \<and> (link_of d sid = Some link_down \<longrightarrow> hd (link_log cd sid d es) = link_restored))"
proof (induction es arbitrary: d)
  case (Cons e es)
  obtain f mint now clocks c where e: "e = (f, mint, now, clocks, c)" by (metis surj_pair)
  obtain b d' where ck: "check_link cd mint now clocks (f d) c = (b, d')" by fastforce
  have f: "servers_keyed (f d)" "link_of (f d) sid = link_of d sid"
    using Cons.prems by (auto simp: e leaves_link_def)
  note eff = check_link_effect [OF f(1) ck]
  then have IH: "distinct_adj (link_log cd sid d' es)"
    "link_log cd sid d' es \<noteq> [] \<Longrightarrow> link_of d' sid = Some link_up \<Longrightarrow> hd (link_log cd sid d' es) = link_lost"
    "link_log cd sid d' es \<noteq> [] \<Longrightarrow> link_of d' sid = Some link_down \<Longrightarrow> hd (link_log cd sid d' es) = link_restored"
    using Cons.IH [of d'] Cons.prems(2) by auto
  have log: "link_log cd sid d (e # es) = fired sid c now b @ link_log cd sid d' es" by (simp add: e ck)
  show ?case
  proof (cases "b \<and> lc_server c = sid")
    case True
    with eff f(2) have st: "link_of d sid = Some (lc_state c)" "lc_state c \<noteq> link_target c now"
      "link_of d' sid = Some (link_target c now)" by auto
    consider "lc_state c = link_up" "link_target c now = link_down" | "lc_state c = link_down" "link_target c now = link_up"
      | "lc_state c \<noteq> link_up" "lc_state c \<noteq> link_down"
      using st(2) by (metis link_target_def)
    then show ?thesis
    proof cases
      case 1
      with True IH st show ?thesis unfolding log
        by (auto simp: fired_def edge_type_def distinct_adj_Cons)
    next
      case 2
      with True IH st show ?thesis unfolding log
        by (auto simp: fired_def edge_type_def distinct_adj_Cons)
    next
      case 3
      with True IH st show ?thesis unfolding log by (simp add: fired_def edge_type_def)
    qed
  next
    case False
    then have "link_of d' sid = link_of d sid" using eff f(2) by (auto split: if_splits)
    moreover have "fired sid c now b = []" using False by (auto simp: fired_def)
    ultimately show ?thesis unfolding log using IH by simp
  qed
qed simp

text \<open>
  A server's link notifications alternate: whatever the monitor read and when, however its decisions
  interleave with polls, revocations and other writes, it never reports a link lost twice without
  restoring it in between, nor restored twice without losing it, and its first classification out of
  unknown is silent.
\<close>

lemma links_alternate:
  assumes "servers_keyed d" and "list_all (\<lambda>e. leaves_link sid (fst e)) es"
  shows "distinct_adj (link_log cd sid d es) \<and> list_all (\<lambda>ty. ty = link_lost \<or> ty = link_restored) (link_log cd sid d es)"
proof -
  have "list_all (\<lambda>ty. ty = link_lost \<or> ty = link_restored) (link_log cd sid d es)" for d
  proof (induction es arbitrary: d)
    case (Cons e es)
    obtain f mint now clocks c where e: "e = (f, mint, now, clocks, c)" by (metis surj_pair)
    obtain b d' where "check_link cd mint now clocks (f d) c = (b, d')" by fastforce
    with Cons.IH [of d'] fired_types show ?case by (simp add: e)
  qed simp
  with link_log_alternates [OF assms] show ?thesis by blast
qed

text \<open>
  A link notification has its evidence: a transition commits only while the server still has the state and
  the last-seen instant the decision was taken on, up only with a session live at that moment, and down
  only when the silence is longer than twice the negotiated poll timeout and the grace, or no session was
  live.
\<close>

lemma link_fires_on_evidence:
  assumes "check_link cd mint now clocks d c = (True, d')"
  shows "\<exists>v \<in> set (servers d). sv_id v = lc_server c \<and> sv_link_state v = lc_state c
     \<and> sv_last_seen v = map_option format_time (lc_last_seen c)
     \<and> (if link_target c now = link_up
        then exists_row (server_live (lc_server c) (fst clocks)) (sessions d)
        else (case (lc_poll_timeout c, lc_last_seen c) of
                (Some seconds, Some seen) \<Rightarrow> 2 * (seconds * 1000000000) + link_grace < now - seen
              | _ \<Rightarrow> True))"
proof -
  from assms obtain build where "apply_link_transition d (lc_server c) (lc_state c) (link_target c now)
      (lc_last_seen c) build pending_delivery_bound (fst clocks) (snd clocks) = Inr (True, d')"
    by (auto simp: check_link_def Let_def split: if_splits sum.splits)
  then have "affected (link_guard d (lc_server c) (lc_state c) (link_target c now) (lc_last_seen c) (fst clocks)) (servers d) \<noteq> 0"
    by (auto simp: apply_link_transition_def Let_def split: if_splits)
  then obtain v where v: "v \<in> set (servers d)"
    "link_guard d (lc_server c) (lc_state c) (link_target c now) (lc_last_seen c) (fst clocks) v"
    by (auto simp: affected_zero_iff)
  have "case (lc_poll_timeout c, lc_last_seen c) of (Some seconds, Some seen) \<Rightarrow> 2 * (seconds * 1000000000) + link_grace < now - seen | _ \<Rightarrow> True"
    if "link_target c now \<noteq> link_up"
    using that by (auto simp: link_target_def reachable_def split: option.splits if_splits)
  with v show ?thesis by (intro bexI [of _ v]) (auto simp: link_guard_def)
qed

definition sample_codec :: codec where
  "sample_codec = \<lparr>cd_parse = JLiteral, cd_text = (\<lambda>j. ''{}''), cd_stamp = (\<lambda>t. ''t''), cd_audit = (\<lambda>r. JObject []),
     cd_discord = (\<lambda>n s. ''{}'')\<rparr>"

definition sample_quiet :: db where
  "sample_quiet = empty_db\<lparr>servers := [\<lparr>sv_id = ''s1'', sv_name = ''one'', sv_game = ''dayz'', sv_created = 0,
      sv_secret = ''h'', sv_enrolled = Some 0, sv_revoked = None, sv_plugin_name = '''', sv_plugin_version = '''',
      sv_transports = '''', sv_last_seen = Some 0, sv_link_state = link_up, sv_bans_revision = None, sv_bans_at = None\<rparr>],
     events := [sample_feed_row ''v1''], webhooks := [sample_webhook]\<rparr>"

definition sample_candidate :: link_candidate where
  "sample_candidate = \<lparr>lc_server = ''s1'', lc_state = link_up, lc_last_seen = Some 0, lc_poll_timeout = None\<rparr>"

lemma sample_link_check:
  obtains d' where "check_link sample_codec (\<lambda>k. ''x1'') 9 (9, 9) sample_quiet sample_candidate = (True, d')"
proof -
  have "\<exists>d'. check_link sample_codec (\<lambda>k. ''x1'') 9 (9, 9) sample_quiet sample_candidate = (True, d')"
    by (simp add: check_link_def sample_candidate_def link_target_def reachable_def apply_link_transition_def
        lock_server_def exists_row_def sample_quiet_def link_guard_def affected_def edge_type_def fan_out_def
        webhooks_all_def insert_deliveries_def sample_webhook_def scan_webhook_def link_notification_def
        webhook_matches_def filter_of_def opt_in_def link_lost_def link_down_def link_up_def link_unknown_def
        format_time_def parse_time_def Let_def pending_delivery_bound_def webhook_pending_def
        new_delivery_row_def)
  then show thesis using that by blast
qed

lemma link_fires_on_evidence_witness:
  "\<exists>d' v. check_link sample_codec (\<lambda>k. ''x1'') 9 (9, 9) sample_quiet sample_candidate = (True, d')
     \<and> servers sample_quiet = [v] \<and> sv_link_state v = link_up"
proof -
  obtain d' where d': "check_link sample_codec (\<lambda>k. ''x1'') 9 (9, 9) sample_quiet sample_candidate = (True, d')"
    by (rule sample_link_check)
  from link_fires_on_evidence [OF d'] obtain v where "v \<in> set (servers sample_quiet)" "sv_link_state v = link_up"
    by (auto simp: sample_candidate_def)
  then have "servers sample_quiet = [v]" by (simp add: sample_quiet_def)
  with d' \<open>sv_link_state v = link_up\<close> show ?thesis by blast
qed

lemma links_alternate_witness:
  "distinct_adj (link_log sample_codec ''s1'' sample_quiet
      [(id, \<lambda>k. ''x1'', 9, (9, 9), sample_candidate), (id, \<lambda>k. ''x2'', 9, (9, 9), sample_candidate)])"
proof -
  have "servers_keyed sample_quiet" by (simp add: servers_keyed_def sample_quiet_def)
  moreover have "list_all (\<lambda>e. leaves_link ''s1'' (fst e))
      [(id, \<lambda>k. ''x1'', 9, (9, 9), sample_candidate), (id, \<lambda>k. ''x2'', 9, (9, 9), sample_candidate)]"
    by (simp add: leaves_link_def)
  ultimately show ?thesis using links_alternate by blast
qed

definition sample_owed :: delivery_row where
  "sample_owed = \<lparr>dl_id = ''x1'', dl_webhook = ''w1'', dl_type = ''core.x'', dl_server = ''s1'', dl_body = ''{}'',
     dl_state = DeliveryPending, dl_attempts = 0, dl_next = 0, dl_status = None, dl_error = None, dl_created = 0,
     dl_finished = None, dl_delivered = None, dl_generation = 0\<rparr>"

theorem retries_end_witness:
  "\<exists>y \<in> set (deliveries (try_all [5] sample_owed [(Status 500, 1), (TransportFailed ''refused'', 9), (Status 404, 20)]
        (sample_hub\<lparr>deliveries := [sample_owed]\<rparr>))).
     dl_attempts y = 2 \<and> dl_state y = DeliveryDead"
proof -
  let ?d = "sample_hub\<lparr>deliveries := [sample_owed]\<rparr>"
  let ?ts = "[(Status 500, 1 :: time), (TransportFailed ''refused'', 9), (Status 404, 20)]"
  have "attemptable ?d sample_owed sample_owed"
    by (simp add: attemptable_def sample_hub_def sample_owed_def booked_under_def sample_webhook_def)
  moreover have "0 \<le> dl_attempts sample_owed" by (simp add: sample_owed_def)
  moreover have "list_all (\<lambda>t. failing (fst t)) ?ts" by simp
  ultimately have "\<exists>y \<in> set (deliveries (try_all [5] sample_owed ?ts ?d)). dl_id y = dl_id sample_owed
     \<and> dl_attempts y = dl_attempts sample_owed + int (min (length ?ts) (attempts_left [5] (dl_attempts sample_owed)))
     \<and> dl_state y = (if length ?ts < attempts_left [5] (dl_attempts sample_owed) then DeliveryPending else DeliveryDead)"
    by (rule retries_end)
  then obtain y where "y \<in> set (deliveries (try_all [5] sample_owed ?ts ?d))"
    "dl_attempts y = 2" "dl_state y = DeliveryDead" by (auto simp: attempts_left_def sample_owed_def)
  then show ?thesis by blast
qed


end
