(* ===== verification/WebhookApi.thy ===== *)
theory WebhookApi
  imports Dispatcher Gate
begin

text \<open>
  The webhook routes of the Admin API (hub/webhooks.go): the validators that registration and edit
  share, the coverage decisions (what a caller must be able to read before the hub sends it
  somewhere), and the handlers over the tables of theory \<open>Webhooks\<close>.

  The JSON decoder, the URL parser, the drawn identifier and secret, the clock and what happens
  between the snapshot an edit reads and its transaction are the record \<open>webhook_env\<close>.
\<close>

subsection \<open>Validators\<close>

record create_webhook_request =
  cw_url :: string
  cw_events :: "string list"
  cw_servers :: "string list"
  cw_template :: string
  cw_redact :: "string list"

record update_webhook_request =
  uw_url :: "string option"
  uw_events :: "string list option"
  uw_servers :: "string list option"
  uw_template :: "string option"
  uw_redact :: "string list option"
  uw_paused :: "bool option"

record webhook_env =
  we_create :: "string \<Rightarrow> bool \<times> create_webhook_request decoded"
  we_update :: "string \<Rightarrow> bool \<times> update_webhook_request decoded"
  we_parse_url :: "string \<Rightarrow> (string \<times> string) option"
  we_id :: string
  we_secret :: string
  we_now :: time
  we_meanwhile :: "db \<Rightarrow> db"

definition max_webhook_url_length :: nat where "max_webhook_url_length = 2048"
definition max_webhook_event_filters :: nat where "max_webhook_event_filters = 20"
definition max_webhook_server_ids :: nat where "max_webhook_server_ids = 50"
definition max_webhook_redact_paths :: nat where "max_webhook_redact_paths = 20"
definition max_redact_path_length :: nat where "max_redact_path_length = 128"

definition template_generic_json :: string where "template_generic_json = ''generic-json''"

text \<open>The parsed form is the scheme and the host, all that the audit trail keeps.\<close>

definition validate_webhook_url :: "webhook_env \<Rightarrow> string \<Rightarrow> refusal + (string \<times> string \<times> string)" where
  "validate_webhook_url env value =
     (let target = trim_space value in
      if target = '''' then Inl (bad_request ''url is required'')
      else if length target > max_webhook_url_length then Inl (bad_request ''url is too long'')
      else case we_parse_url env target of
        None \<Rightarrow> Inl (bad_request ''url must be http or https'')
      | Some (scheme, host) \<Rightarrow>
          if (scheme \<noteq> ''http'' \<and> scheme \<noteq> ''https'') \<or> host = ''''
          then Inl (bad_request ''url must be http or https'')
          else Inr (target, scheme, host))"

fun events_loop :: "string list \<Rightarrow> refusal + string list" where
  "events_loop [] = Inr []"
| "events_loop (v # vs) =
     (let pattern = trim_space v in
      if pattern \<noteq> ''*'' \<and> \<not> valid_scope_pattern pattern
      then Inl (bad_request (''event pattern '' @ pattern @ '' is not *, a {namespace}.* prefix, or an exact type''))
      else case events_loop vs of Inl err \<Rightarrow> Inl err | Inr rest \<Rightarrow> Inr (pattern # rest))"

definition validate_webhook_events :: "string list \<Rightarrow> refusal + string list" where
  "validate_webhook_events values =
     (if length values > max_webhook_event_filters
      then Inl (bad_request (''a webhook subscribes with at most '' @ show_int (int max_webhook_event_filters) @ '' event patterns''))
      else events_loop values)"

fun server_ids_loop :: "db \<Rightarrow> string list \<Rightarrow> refusal + string list" where
  "server_ids_loop d [] = Inr []"
| "server_ids_loop d (v # vs) =
     (let sid = trim_space v in
      case find_server d sid of
        Inl err \<Rightarrow> Inl (if err = ErrNotFound then not_found (''no such server: '' @ sid) else internal_error)
      | Inr s \<Rightarrow> (case server_ids_loop d vs of Inl err \<Rightarrow> Inl err | Inr rest \<Rightarrow> Inr (sid # rest)))"

definition validate_webhook_server_ids :: "db \<Rightarrow> string list \<Rightarrow> refusal + string list" where
  "validate_webhook_server_ids d values =
     (if length values > max_webhook_server_ids
      then Inl (bad_request (''a webhook observes at most '' @ show_int (int max_webhook_server_ids)
             @ '' named servers; leave serverIds empty to observe every server''))
      else server_ids_loop d values)"

definition unknown_template_message :: "string \<Rightarrow> string" where
  "unknown_template_message t =
     ''template '' @ t @ '' is not one this hub implements; '' @ template_generic_json @ '' and '' @ template_discord @ '' are''"

definition validate_webhook_template :: "string \<Rightarrow> refusal + string" where
  "validate_webhook_template value =
     (let t = trim_space value; template = (if t = '''' then template_generic_json else t) in
      if template \<noteq> template_generic_json \<and> template \<noteq> template_discord
      then Inl (bad_request (unknown_template_message template)) else Inr template)"

text \<open>Member names from the identifier alphabet, joined by dots.\<close>

definition valid_redact_path :: "string \<Rightarrow> bool" where
  "valid_redact_path path =
     (if path = '''' \<or> length path > max_redact_path_length then False
      else (\<forall>seg \<in> set (split_dot path). seg \<noteq> '''' \<and> (\<forall>c \<in> set seg. segment_char c)))"

fun redact_loop :: "string list \<Rightarrow> refusal + string list" where
  "redact_loop [] = Inr []"
| "redact_loop (v # vs) =
     (let path = trim_space v in
      if \<not> valid_redact_path path
      then Inl (bad_request (''redact path '' @ truncate_utf8 path 64
             @ '' is not member names of letters, digits, _ and - joined by dots, at most ''
             @ show_int (int max_redact_path_length) @ '' characters''))
      else case redact_loop vs of Inl err \<Rightarrow> Inl err | Inr rest \<Rightarrow> Inr (path # rest))"

definition validate_webhook_redact :: "string list \<Rightarrow> refusal + string list" where
  "validate_webhook_redact values =
     (if length values > max_webhook_redact_paths
      then Inl (bad_request (''a webhook redacts at most '' @ show_int (int max_webhook_redact_paths) @ '' paths''))
      else redact_loop values)"

subsection \<open>Coverage\<close>

text \<open>One pass over the patterns: what they need beyond telemetry, or the first telemetry refusal.\<close>

fun coverage_loop :: "principal \<Rightarrow> string list \<Rightarrow> bool \<times> bool \<times> bool \<Rightarrow> refusal + (bool \<times> bool \<times> bool)" where
  "coverage_loop caller [] needs = Inr needs"
| "coverage_loop caller (pattern # ps) (needs_actions, needs_servers, needs_admin) =
     (if subscribes_telemetry pattern \<and> \<not> covers caller ''events'' ''read'' pattern
      then Inl (forbidden (''subscribing to '' @ pattern @ '' requires a scope covering events:read:'' @ pattern
             @ ''; a webhook is a standing export of what it matches''))
      else coverage_loop caller ps
        (needs_actions \<or> pattern_admits pattern action_completed,
         needs_servers \<or> pattern_admits pattern link_lost \<or> pattern_admits pattern link_restored,
         needs_admin \<or> pattern_admits pattern audit_recorded))"

definition subscription_coverage :: "principal \<Rightarrow> string list \<Rightarrow> bool \<Rightarrow> refusal option" where
  "subscription_coverage caller evs names_servers =
     (case coverage_loop caller (if evs = [] then [''*''] else evs) (False, names_servers, False) of
        Inl refused \<Rightarrow> Some refused
      | Inr (needs_actions, needs_servers, needs_admin) \<Rightarrow>
          if needs_actions \<and> \<not> covers caller ''actions'' ''read'' ''*''
          then Some (forbidden ''subscribing to action.completed requires actions:read; the notification carries any action's record'')
          else if needs_servers \<and> \<not> allows_any caller ''servers'' ''read''
          then Some (forbidden ''subscribing to the link notifications, or naming serverIds, requires servers:read'')
          else if needs_admin \<and> \<not> is_admin caller
          then Some (forbidden ''subscribing to audit.recorded requires admin, the scope that reads the audit log'')
          else None)"

definition notification_coverage :: "principal \<Rightarrow> string \<Rightarrow> refusal option" where
  "notification_coverage caller ty =
     (if ty = action_completed then
        (if \<not> covers caller ''actions'' ''read'' ''*''
         then Some (forbidden ''a pending action.completed delivery requires actions:read to be redirected or replayed'') else None)
      else if ty = link_lost \<or> ty = link_restored then
        (if \<not> allows_any caller ''servers'' ''read''
         then Some (forbidden (''a pending '' @ ty @ '' delivery requires servers:read to be redirected or replayed'')) else None)
      else if opt_in ty then
        (if \<not> is_admin caller
         then Some (forbidden (''a delivery of '' @ ty @ '' requires admin to be redirected or replayed'')) else None)
      else if \<not> covers caller ''events'' ''read'' ty
        then Some (forbidden (''a delivery of '' @ ty @ '' requires a scope covering events:read:'' @ ty @ '' to be redirected or replayed''))
        else None)"

subsection \<open>Handlers\<close>

definition redact_url :: "string \<Rightarrow> string \<Rightarrow> string" where
  "redact_url scheme host = scheme @ ''://'' @ host"

definition handle_create_webhook :: "webhook_env \<Rightarrow> webhook handler" where
  "handle_create_webhook env caller body e d =
     (case decode_body (fst (we_create env body)) None (snd (we_create env body)) of
        Inl refused \<Rightarrow> (Failure refused, e, d)
      | Inr q \<Rightarrow>
     (case validate_webhook_url env (cw_url q) of
        Inl refused \<Rightarrow> (Failure refused, e, d)
      | Inr (target, scheme, host) \<Rightarrow>
     (case validate_webhook_events (cw_events q) of
        Inl refused \<Rightarrow> (Failure refused, e, d)
      | Inr evs \<Rightarrow>
     (case subscription_coverage caller evs (cw_servers q \<noteq> []) of
        Some refused \<Rightarrow> (Failure refused, e, d)
      | None \<Rightarrow>
     (case validate_webhook_server_ids d (cw_servers q) of
        Inl refused \<Rightarrow> (Failure refused, e, d)
      | Inr server_ids \<Rightarrow>
     (case validate_webhook_template (cw_template q) of
        Inl refused \<Rightarrow> (Failure refused, e, d)
      | Inr template \<Rightarrow>
     (case validate_webhook_redact (cw_redact q) of
        Inl refused \<Rightarrow> (Failure refused, e, d)
      | Inr redact \<Rightarrow>
     (case create_webhook d
             \<lparr>wk_id = we_id env, wk_url = target, wk_secret = we_secret env, wk_template = template, wk_events = evs,
              wk_servers = server_ids, wk_redact = redact, wk_audit = filter_admits_audit evs, wk_created = 0,
              wk_paused = None\<rparr> (we_now env) of
        Inl err \<Rightarrow> (Failure internal_error, e, d)
      | Inr (w, d') \<Rightarrow>
          (Success 201 w, audit_detail ''url'' (JString (redact_url scheme host)) (audit_detail ''webhookId'' (JString (wk_id w)) e), d')))))))))"

definition updated_fields :: "update_webhook_request \<Rightarrow> string list" where
  "updated_fields q =
     (if uw_url q \<noteq> None then [''url''] else []) @ (if uw_events q \<noteq> None then [''events''] else [])
     @ (if uw_servers q \<noteq> None then [''serverIds''] else []) @ (if uw_template q \<noteq> None then [''template''] else [])
     @ (if uw_redact q \<noteq> None then [''redact''] else []) @ (if uw_paused q \<noteq> None then [''paused''] else [])"

text \<open>Validation of a member that may be absent.\<close>

definition if_given :: "('a \<Rightarrow> refusal + 'b) \<Rightarrow> 'a option \<Rightarrow> refusal + 'b option" where
  "if_given f v = (case v of None \<Rightarrow> Inr None | Some x \<Rightarrow> (case f x of Inl r \<Rightarrow> Inl r | Inr y \<Rightarrow> Inr (Some y)))"

text \<open>The decision of an edit, over the webhook as it stands and the types still owed to the old URL.\<close>

definition authorize_edit ::
  "principal \<Rightarrow> string list option \<Rightarrow> string list option \<Rightarrow> webhook \<Rightarrow> string list \<Rightarrow> refusal option" where
  "authorize_edit caller evs raw_servers current pending_types =
     (case subscription_coverage caller (assign_to evs (wk_events current)) (assign_to raw_servers (wk_servers current) \<noteq> []) of
        Some refused \<Rightarrow> Some refused
      | None \<Rightarrow>
          (case find (\<lambda>ty. notification_coverage caller ty \<noteq> None) pending_types of
             Some ty \<Rightarrow> notification_coverage caller ty
           | None \<Rightarrow> None))"

definition refusal_message :: "refusal \<Rightarrow> string" where
  "refusal_message r = (case r of Refusal status code message \<Rightarrow> message)"

text \<open>
  The decision is taken on a snapshot first, so that a refusal precedes the server lookups, and again
  on the locked row.
\<close>

definition handle_update_webhook :: "webhook_env \<Rightarrow> string \<Rightarrow> webhook handler" where
  "handle_update_webhook env wid caller body e d =
     (case decode_body (fst (we_update env body)) None (snd (we_update env body)) of
        Inl refused \<Rightarrow> (Failure refused, e, d)
      | Inr q \<Rightarrow>
      if updated_fields q = []
      then (Failure (bad_request ''an edit names at least one of url, events, serverIds, template, redact, paused''), e, d)
      else
     (case webhook_by_id d wid of
        Inl err \<Rightarrow> (Failure (if err = ErrNotFound then not_found ''no such webhook'' else internal_error), e, d)
      | Inr existing \<Rightarrow>
     (case if_given (validate_webhook_url env) (uw_url q) of
        Inl refused \<Rightarrow> (Failure refused, e, d)
      | Inr url \<Rightarrow>
     (case if_given validate_webhook_events (uw_events q) of
        Inl refused \<Rightarrow> (Failure refused, e, d)
      | Inr evs \<Rightarrow>
      let target = map_option fst url;
          decide = authorize_edit caller evs (uw_servers q);
          types = (if target \<noteq> None \<and> the target \<noteq> wk_url existing then pending_delivery_types d wid else []) in
     (case decide existing types of
        Some refused \<Rightarrow> (Failure refused, e, d)
      | None \<Rightarrow>
     (case if_given (validate_webhook_server_ids d) (uw_servers q) of
        Inl refused \<Rightarrow> (Failure refused, e, d)
      | Inr server_ids \<Rightarrow>
     (case if_given validate_webhook_template (uw_template q) of
        Inl refused \<Rightarrow> (Failure refused, e, d)
      | Inr template \<Rightarrow>
     (case if_given validate_webhook_redact (uw_redact q) of
        Inl refused \<Rightarrow> (Failure refused, e, d)
      | Inr redact \<Rightarrow>
      let now_db = we_meanwhile env d in
     (case update_webhook now_db wid
             \<lparr>wu_url = target, wu_template = template, wu_events = evs, wu_servers = server_ids, wu_redact = redact,
              wu_paused = uw_paused q,
              wu_audit = Some (\<lambda>w. filter_admits_audit (assign_to evs (wk_events w)))\<rparr>
             (Some (\<lambda>w types. map_option refusal_message (decide w types))) (we_now env) of
        Inl err \<Rightarrow>
          (Failure (case err of ErrRefused why \<Rightarrow> forbidden why
                    | _ \<Rightarrow> if err = ErrNotFound then not_found ''no such webhook'' else internal_error), e, now_db)
      | Inr (w, d') \<Rightarrow>
          (Success 200 w,
           (case uw_paused q of None \<Rightarrow> id | Some b \<Rightarrow> audit_detail ''paused'' (json_bool (Some b)))
             ((case url of None \<Rightarrow> id | Some (t, scheme, host) \<Rightarrow> audit_detail ''url'' (JString (redact_url scheme host)))
               (audit_detail ''fields'' (json_strings (updated_fields q))
                 (audit_detail ''webhookId'' (JString (wk_id w)) e))), d'))))))))))"

definition handle_replay_webhook_delivery :: "webhook_env \<Rightarrow> string \<Rightarrow> string \<Rightarrow> webhook_delivery handler" where
  "handle_replay_webhook_delivery env wid did caller body e d =
     (let absent = (\<lambda>err. if err = ErrNotFound then not_found ''no such delivery on this webhook'' else internal_error) in
      case webhook_delivery_by_id d wid did of
        Inl err \<Rightarrow> (Failure (absent err), e, d)
      | Inr stored \<Rightarrow>
          (case notification_coverage caller (wd_type stored) of
             Some refused \<Rightarrow> (Failure refused, e, d)
           | None \<Rightarrow>
               (let now_db = we_meanwhile env d in
                case replay_webhook_delivery now_db wid did (we_now env) of
                  Inl err \<Rightarrow> (Failure (absent err), e, now_db)
                | Inr (x, d') \<Rightarrow>
                    (Success 202 x, audit_detail ''deliveryId'' (JString did) (audit_detail ''webhookId'' (JString wid) e), d'))))"

definition handle_delete_webhook :: "string \<Rightarrow> unit handler" where
  "handle_delete_webhook wid caller body e d =
     (case delete_webhook d wid of
        Inl err \<Rightarrow> (Failure (if err = ErrNotFound then not_found ''no such webhook'' else internal_error), e, d)
      | Inr d' \<Rightarrow> (Success 204 (), audit_detail ''webhookId'' (JString wid) e, d'))"

definition handle_list_webhooks :: "webhook list handler" where
  "handle_list_webhooks caller body e d = (Success 200 (webhooks_all d), e, d)"

subsection \<open>What a covered subscription can carry\<close>

text \<open>A notification type as the hub sends it: one exact name, telemetry outside the reserved namespaces.\<close>

definition sent_type :: "string \<Rightarrow> bool" where
  "sent_type ty =
     (ty = action_completed \<or> ty = link_lost \<or> ty = link_restored \<or> ty = audit_recorded
      \<or> (\<not> reserved_namespace ty \<and> ty \<noteq> '''' \<and> ty \<noteq> ''*'' \<and> \<not> suffix ''.*'' ty))"

lemma coverage_loop_needs:
  "coverage_loop caller ps (a, s, m) = Inr (a', s', m') \<Longrightarrow>
     (\<forall>p \<in> set ps. subscribes_telemetry p \<longrightarrow> covers caller ''events'' ''read'' p)
     \<and> (a' \<longleftrightarrow> a \<or> (\<exists>p \<in> set ps. pattern_admits p action_completed))
     \<and> (s' \<longleftrightarrow> s \<or> (\<exists>p \<in> set ps. pattern_admits p link_lost \<or> pattern_admits p link_restored))
     \<and> (m' \<longleftrightarrow> m \<or> (\<exists>p \<in> set ps. pattern_admits p audit_recorded))"
proof (induction ps arbitrary: a s m)
  case (Cons p ps)
  then have rest: "coverage_loop caller ps (a \<or> pattern_admits p action_completed,
      s \<or> pattern_admits p link_lost \<or> pattern_admits p link_restored, m \<or> pattern_admits p audit_recorded) = Inr (a', s', m')"
    and "subscribes_telemetry p \<longrightarrow> covers caller ''events'' ''read'' p"
    by (auto split: if_splits)
  with Cons.IH [OF rest] show ?case by (simp only: list.set ball_simps bex_simps) blast
qed simp

lemma subscription_coverage_None:
  assumes "subscription_coverage caller evs names_servers = None"
  defines "ps \<equiv> (if evs = [] then [''*''] else evs)"
  shows "(\<forall>p \<in> set ps. subscribes_telemetry p \<longrightarrow> covers caller ''events'' ''read'' p)
    \<and> ((\<exists>p \<in> set ps. pattern_admits p action_completed) \<longrightarrow> covers caller ''actions'' ''read'' ''*'')
    \<and> ((\<exists>p \<in> set ps. pattern_admits p link_lost \<or> pattern_admits p link_restored) \<or> names_servers
         \<longrightarrow> allows_any caller ''servers'' ''read'')
    \<and> ((\<exists>p \<in> set ps. pattern_admits p audit_recorded) \<longrightarrow> is_admin caller)"
proof -
  from assms obtain a s m where "coverage_loop caller ps (False, names_servers, False) = Inr (a, s, m)"
    and "a \<longrightarrow> covers caller ''actions'' ''read'' ''*''" and "s \<longrightarrow> allows_any caller ''servers'' ''read''"
    and "m \<longrightarrow> is_admin caller"
    by (auto simp: subscription_coverage_def split: sum.splits if_splits)
  with coverage_loop_needs [OF this(1)] show ?thesis by blast
qed

lemma covers_exact_type:
  assumes "covers caller r v f" and "go_match f ty" and "ty \<noteq> ''''" and "ty \<noteq> ''*''" and "\<not> suffix ''.*'' ty"
  shows "covers caller r v ty"
proof -
  have "go_match ty x \<longleftrightarrow> ty = x" for x using assms(3-5) by (rule go.match_exact)
  with assms(1,2) show ?thesis by (auto simp: covers_iff scope_covers_matches)
qed

lemma opt_in_reserved: "opt_in ty \<Longrightarrow> reserved_namespace ty"
  by (simp add: opt_in_def reserved_namespace_def)

lemma lifecycle_types:
  "\<not> opt_in action_completed" "\<not> opt_in link_lost" "\<not> opt_in link_restored" "opt_in audit_recorded"
  "audit_recorded \<noteq> action_completed" "audit_recorded \<noteq> link_lost" "audit_recorded \<noteq> link_restored"
  "link_lost \<noteq> action_completed" "link_restored \<noteq> action_completed"
  by (simp_all add: opt_in_def action_completed_def link_lost_def link_restored_def audit_recorded_def)

text \<open>What a filter matches, read off the patterns the coverage rule looks at.\<close>

lemma match_admitted:
  assumes "webhook_matches w ty sid"
  shows "\<exists>p \<in> set (if wf_events w = [] then [''*''] else wf_events w). pattern_admits p ty"
  using assms by (auto simp: webhook_matches_def pattern_admits_def go_match_def split: if_splits)

lemma notification_coverage_None:
  "notification_coverage caller ty = None \<longleftrightarrow>
     (if ty = action_completed then covers caller ''actions'' ''read'' ''*''
      else if ty = link_lost \<or> ty = link_restored then allows_any caller ''servers'' ''read''
      else if opt_in ty then is_admin caller
      else covers caller ''events'' ''read'' ty)"
  by (simp add: notification_coverage_def)

lemma covered_match:
  assumes "subscription_coverage caller (wf_events w) names_servers = None"
    and "webhook_matches w ty sid" and "sent_type ty"
  shows "notification_coverage caller ty = None"
proof -
  note cov = subscription_coverage_None [OF assms(1)]
  from match_admitted [OF assms(2)] obtain p where p:
    "p \<in> set (if wf_events w = [] then [''*''] else wf_events w)" "pattern_admits p ty" by blast
  show ?thesis
  proof (cases "ty = action_completed \<or> ty = link_lost \<or> ty = link_restored \<or> ty = audit_recorded")
    case True
    then consider "ty = action_completed" | "ty = link_lost \<or> ty = link_restored" | "ty = audit_recorded" by blast
    then show ?thesis
    proof cases
      case 1
      then have "covers caller ''actions'' ''read'' ''*''" using cov p by blast
      with 1 show ?thesis by (simp only: notification_coverage_None if_True simp_thms)
    next
      case 2
      then have "allows_any caller ''servers'' ''read''" using cov p by blast
      moreover have "ty \<noteq> action_completed" using 2 lifecycle_types(8,9) by metis
      ultimately show ?thesis using 2 by (simp only: notification_coverage_None if_True if_False simp_thms)
    next
      case 3
      then have "is_admin caller" using cov p by blast
      moreover have "ty \<noteq> action_completed" "\<not> (ty = link_lost \<or> ty = link_restored)" "opt_in ty"
        using 3 lifecycle_types(4-7) by metis+
      ultimately show ?thesis by (simp only: notification_coverage_None if_True if_False simp_thms)
    qed
  next
    case False
    with assms(3) [unfolded sent_type_def]
    have ty: "\<not> reserved_namespace ty" "ty \<noteq> ''''" "ty \<noteq> ''*''" "\<not> suffix ''.*'' ty" by blast+
    have "subscribes_telemetry p" using no_telemetry_outside [of p ty] p(2) ty(1) by blast
    with cov p(1) have "covers caller ''events'' ''read'' p" by blast
    moreover have "go_match p ty" using p(2) by (auto simp: pattern_admits_def split: if_splits)
    ultimately have "covers caller ''events'' ''read'' ty" using covers_exact_type ty(2-4) by blast
    moreover have "\<not> opt_in ty" using ty(1) opt_in_reserved by blast
    ultimately show ?thesis using False by (simp only: notification_coverage_None if_False simp_thms de_Morgan_disj)
  qed
qed

text \<open>
  A subscription is no way around the read scopes: when the hub accepts a filter from a caller, every
  notification that a webhook with that filter will ever be sent is of a type that the same caller's grants
  cover, telemetry under events:read, finished actions under actions:read, link changes under servers:read
  and audit records under admin.
\<close>

lemma covered_subscription_sound:
  assumes "subscription_coverage caller (wf_events w) names_servers = None"
    and "webhook_matches w ty sid" and "sent_type ty"
  shows "notification_coverage caller ty = None
    \<and> (if ty = action_completed then covers caller ''actions'' ''read'' ''*''
       else if ty = link_lost \<or> ty = link_restored then allows_any caller ''servers'' ''read''
       else if ty = audit_recorded then is_admin caller
       else covers caller ''events'' ''read'' ty)"
proof -
  have n: "notification_coverage caller ty = None" by (rule covered_match [OF assms])
  have o: "\<not> opt_in ty" if "\<not> reserved_namespace ty" using that opt_in_reserved by blast
  from n [unfolded notification_coverage_None] show ?thesis
    using n o assms(3) lifecycle_types unfolding sent_type_def by presburger
qed

text \<open>A coverage refusal is always forbidden with a message.\<close>

lemma authorize_edit_None:
  assumes "authorize_edit caller evs raw current types = None"
  shows "subscription_coverage caller (assign_to evs (wk_events current)) (assign_to raw (wk_servers current) \<noteq> []) = None
    \<and> list_all (\<lambda>ty. notification_coverage caller ty = None) types"
  using assms by (auto simp: authorize_edit_def list_all_iff find_None_iff' split: option.splits dest!: find_Some_in)

text \<open>What the transaction of an edit that committed had decided.\<close>

lemma update_webhook_commits:
  assumes "update_webhook d wid u (Some f) now = Inr (w, d')" and "distinct (map wh_id (webhooks d))"
    and "wu_audit u = Some grant"
  obtains r where "r \<in> set (webhooks d)" "wh_id r = wid" and "deliveries d' = deliveries d"
    and "f (scan_webhook r) (if wu_url u \<noteq> None \<and> the (wu_url u) \<noteq> wh_url r then pending_delivery_types d wid else []) = None"
    and "w = scan_webhook (edit_row u now r)"
    and "webhooks d' = update_where (\<lambda>x. wh_id x = wid) (edit_row u now) (webhooks d)"
proof -
  have "\<not> update_is_empty u" using assms(3) by (simp add: update_is_empty_def)
  with assms(1) obtain r where r: "find (\<lambda>r. wh_id r = wid) (webhooks d) = Some r"
    and ok: "f (scan_webhook r) (if wu_url u \<noteq> None \<and> the (wu_url u) \<noteq> wh_url r then pending_delivery_types d wid else []) = None"
    and by_id: "webhook_by_id d' wid = Inr w"
    and d': "d' = d\<lparr>webhooks := update_where (\<lambda>x. wh_id x = wid) (edit_row u now) (webhooks d)\<rparr>"
    by (auto simp: update_webhook_def Let_def scan_webhook_def split: option.splits sum.splits if_splits)
  have "find (\<lambda>r. wh_id r = wid) (webhooks d') = Some (edit_row u now r)"
    using find_Some_in [OF r] by (simp add: d' find_update_where edit_row_def r)
  with by_id have "w = scan_webhook (edit_row u now r)" by (simp add: webhook_by_id_def)
  with find_Some_in [OF r] ok show ?thesis by (intro that [of r]) (simp_all add: d')
qed

lemma edit_success:
  assumes "handle_update_webhook env wid caller body e d = (Success n w, e', d')"
  shows "\<exists>(q :: update_webhook_request) (u :: webhook_update). update_webhook (we_meanwhile env d) wid u
       (Some (\<lambda>w types. map_option refusal_message (authorize_edit caller (wu_events u) (uw_servers q) w types))) (we_now env)
     = Inr (w, d')
     \<and> wu_audit u = Some (\<lambda>w. filter_admits_audit (assign_to (wu_events u) (wk_events w)))
     \<and> if_given (validate_webhook_server_ids d) (uw_servers q) = Inr (wu_servers u)"
proof -
  note h = assms [unfolded handle_update_webhook_def Let_def]
  from h obtain q where q: "decode_body (fst (we_update env body)) None (snd (we_update env body)) = Inr q"
    by (cases "decode_body (fst (we_update env body)) None (snd (we_update env body))") simp_all
  from h q have f: "updated_fields q \<noteq> []" by auto
  from h q f obtain ex where ex: "webhook_by_id d wid = Inr ex" by (cases "webhook_by_id d wid") simp_all
  from h q f ex obtain url where url: "if_given (validate_webhook_url env) (uw_url q) = Inr url"
    by (cases "if_given (validate_webhook_url env) (uw_url q)") simp_all
  from h q f ex url obtain evs where evs: "if_given validate_webhook_events (uw_events q) = Inr evs"
    by (cases "if_given validate_webhook_events (uw_events q)") simp_all
  let ?types = "if map_option fst url \<noteq> None \<and> the (map_option fst url) \<noteq> wk_url ex then pending_delivery_types d wid else []"
  from h q f ex url evs have ok: "authorize_edit caller evs (uw_servers q) ex ?types = None"
    by (cases "authorize_edit caller evs (uw_servers q) ex ?types") simp_all
  from h q f ex url evs ok obtain ids where ids: "if_given (validate_webhook_server_ids d) (uw_servers q) = Inr ids"
    by (cases "if_given (validate_webhook_server_ids d) (uw_servers q)") simp_all
  from h q f ex url evs ok ids obtain tmpl where tmpl: "if_given validate_webhook_template (uw_template q) = Inr tmpl"
    by (cases "if_given validate_webhook_template (uw_template q)") simp_all
  from h q f ex url evs ok ids tmpl obtain red where red: "if_given validate_webhook_redact (uw_redact q) = Inr red"
    by (cases "if_given validate_webhook_redact (uw_redact q)") simp_all
  let ?u = "\<lparr>wu_url = map_option fst url, wu_template = tmpl, wu_events = evs, wu_servers = ids, wu_redact = red,
        wu_paused = uw_paused q, wu_audit = Some (\<lambda>w. filter_admits_audit (assign_to evs (wk_events w)))\<rparr>"
  let ?up = "update_webhook (we_meanwhile env d) wid ?u
       (Some (\<lambda>w types. map_option refusal_message (authorize_edit caller evs (uw_servers q) w types))) (we_now env)"
  from h q f ex url evs ok ids tmpl red have "?up = Inr (w, d')" by (cases ?up) auto
  with ids show ?thesis by (intro exI [of _ q] exI [of _ ?u]) simp
qed

text \<open>
  C20. An edit never widens a webhook past its editor: when an edit commits, whatever raced it between the
  snapshot and the transaction, the webhook's filter as stored is one the editing caller could have
  registered, audit records are granted only to a filter that names them and only by an admin, and if the
  URL moved, every delivery still owed, which now goes to the new URL, is of a type that caller covers.
\<close>

theorem edit_never_escalates:
  assumes "handle_update_webhook env wid caller body e d = (Success n w, e', d')"
    and "distinct (map wh_id (webhooks (we_meanwhile env d)))"
  shows "subscription_coverage caller (wk_events w) (wk_servers w \<noteq> []) = None
    \<and> wk_audit w = filter_admits_audit (wk_events w) \<and> (wk_audit w \<longrightarrow> is_admin caller)
    \<and> ((\<exists>r \<in> set (webhooks (we_meanwhile env d)). wh_id r = wid \<and> wh_url r = wk_url w)
       \<or> list_all (\<lambda>x. dl_webhook x = wid \<and> dl_state x = DeliveryPending \<longrightarrow> notification_coverage caller (dl_type x) = None)
           (deliveries d'))"
proof -
  let ?d = "we_meanwhile env d"
  from edit_success [OF assms(1)] obtain q :: update_webhook_request and u :: webhook_update where
    up: "update_webhook ?d wid u
           (Some (\<lambda>w types. map_option refusal_message (authorize_edit caller (wu_events u) (uw_servers q) w types))) (we_now env)
         = Inr (w, d')"
    and au: "wu_audit u = Some (\<lambda>w. filter_admits_audit (assign_to (wu_events u) (wk_events w)))"
    and ids: "if_given (validate_webhook_server_ids d) (uw_servers q) = Inr (wu_servers u)"
    by blast
  let ?held = "\<lambda>r. if wu_url u \<noteq> None \<and> the (wu_url u) \<noteq> wh_url r then pending_delivery_types ?d wid else []"
  obtain r where r: "r \<in> set (webhooks ?d)" "wh_id r = wid" "deliveries d' = deliveries ?d"
    and ok: "map_option refusal_message (authorize_edit caller (wu_events u) (uw_servers q) (scan_webhook r) (?held r)) = None"
    and w: "w = scan_webhook (edit_row u (we_now env) r)"
    by (rule update_webhook_commits [OF up assms(2) au])
  have "authorize_edit caller (wu_events u) (uw_servers q) (scan_webhook r) (?held r) = None" using ok by simp
  from authorize_edit_None [OF this] have cov:
    "subscription_coverage caller (assign_to (wu_events u) (wh_events r)) (assign_to (uw_servers q) (wh_servers r) \<noteq> []) = None"
    "list_all (\<lambda>ty. notification_coverage caller ty = None)
(?held r)"
    by (simp_all add: scan_webhook_def)
  have len: "server_ids_loop s vs = Inr out \<Longrightarrow> length out = length vs" for s vs out
    by (induction vs arbitrary: out) (auto simp: Let_def split: sum.splits)
  have named: "(assign_to (wu_servers u) (wh_servers r) \<noteq> []) = (assign_to (uw_servers q) (wh_servers r) \<noteq> [])"
  proof (cases "uw_servers q")
    case (Some vs)
    with ids obtain out where out: "wu_servers u = Some out" "server_ids_loop d vs = Inr out"
      by (cases "wu_servers u") (auto simp: if_given_def validate_webhook_server_ids_def split: sum.splits if_splits)
    from len [OF out(2)] Some out(1) show ?thesis by (cases vs; cases out) (simp_all add: assign_to_def)
  qed (use ids in \<open>simp add: if_given_def assign_to_def\<close>)
  have ws: "wk_events w = assign_to (wu_events u) (wh_events r)" "wk_servers w = assign_to (wu_servers u) (wh_servers r)"
    "wk_audit w = filter_admits_audit (assign_to (wu_events u) (wh_events r))" "wk_url w = assign_to (wu_url u) (wh_url r)"
    by (simp_all add: w scan_webhook_def edit_row_def au)
  have sub: "subscription_coverage caller (wk_events w) (wk_servers w \<noteq> []) = None"
    using cov(1) named by (simp add: ws)
  have admin: "is_admin caller" if "filter_admits_audit (wk_events w)"
    using subscription_coverage_None [OF sub] that
    by (auto simp: filter_admits_audit_def split: if_splits)
  have "wh_url r = wk_url w \<or> list_all (\<lambda>x. dl_webhook x = wid \<and> dl_state x = DeliveryPending \<longrightarrow>
      notification_coverage caller (dl_type x) = None) (deliveries d')"
  proof (cases "wu_url u \<noteq> None \<and> the (wu_url u) \<noteq> wh_url r")
    case True
    with cov(2) show ?thesis by (auto simp: r(3) pending_delivery_types_def list_all_iff)
  next
    case False
    then show ?thesis by (cases "wu_url u") (auto simp: ws assign_to_def)
  qed
  with sub ws(1,3) admin r(1,2) show ?thesis by auto
qed

subsection \<open>The two theorems on concrete input\<close>

definition sample_reader :: principal where
  "sample_reader = \<lparr>pr_token_id = ''t1'', pr_name = ''panel'',
     pr_scopes = [\<lparr>sc_resource = ''events'', sc_verb = ''read'', sc_pattern = ''''\<rparr>], pr_servers = []\<rparr>"

definition sample_core_filter :: webhook_filter where
  "sample_core_filter = \<lparr>wf_server_ids = [], wf_events = [''core.x''], wf_audit_granted = False\<rparr>"

lemma covered_subscription_sound_witness:
  "webhook_matches sample_core_filter ''core.x'' ''s1'' \<and> covers sample_reader ''events'' ''read'' ''core.x''
    \<and> \<not> is_admin sample_reader"
proof -
  have a: "subscription_coverage sample_reader (wf_events sample_core_filter) False = None" by code_simp
  have m: "webhook_matches sample_core_filter ''core.x'' ''s1''" by code_simp
  have t: "sent_type ''core.x''" by code_simp
  have "notification_coverage sample_reader ''core.x'' = None"
    by (rule covered_subscription_sound [OF a m t, THEN conjunct1])
  moreover have "notification_coverage sample_reader ''core.x'' = None \<longleftrightarrow> covers sample_reader ''events'' ''read'' ''core.x''"
    by code_simp
  moreover have "\<not> is_admin sample_reader" by code_simp
  ultimately show ?thesis using m by blast
qed

definition sample_edit :: update_webhook_request where
  "sample_edit = \<lparr>uw_url = None, uw_events = None, uw_servers = None, uw_template = None, uw_redact = None,
     uw_paused = Some True\<rparr>"

definition sample_webhook_env :: webhook_env where
  "sample_webhook_env = \<lparr>we_create = (\<lambda>b. (False, Malformed ''EOF'')), we_update = (\<lambda>b. (True, Decoded sample_edit)),
     we_parse_url = (\<lambda>u. None), we_id = ''w2'', we_secret = ''s'', we_now = 0, we_meanwhile = id\<rparr>"

theorem edit_never_escalates_witness:
  "\<exists>w e' d'. handle_update_webhook sample_webhook_env ''w1'' bootstrap_principal ''{}'' empty_entry sample_hub
       = (Success 200 w, e', d') \<and> \<not> wk_audit w \<and> subscription_coverage bootstrap_principal (wk_events w) False = None"
proof -
  have admin: "subscription_coverage bootstrap_principal [] False = None" by code_simp
  have "\<exists>w e' d'. handle_update_webhook sample_webhook_env ''w1'' bootstrap_principal ''{}'' empty_entry sample_hub
       = (Success 200 w, e', d') \<and> wk_events w = [] \<and> wk_servers w = []"
    by (simp add: handle_update_webhook_def sample_webhook_env_def sample_edit_def decode_body_def updated_fields_def
        webhook_by_id_def sample_hub_def sample_webhook_def if_given_def authorize_edit_def scan_webhook_def
        assign_to_def admin update_webhook_def update_is_empty_def Let_def update_where_def edit_row_def)
  then obtain w e' d' where h: "handle_update_webhook sample_webhook_env ''w1'' bootstrap_principal ''{}'' empty_entry
      sample_hub = (Success 200 w, e', d')" "wk_events w = []" "wk_servers w = []" by blast
  have "distinct (map wh_id (webhooks (we_meanwhile sample_webhook_env sample_hub)))"
    by (simp add: sample_webhook_env_def sample_hub_def)
  from edit_never_escalates [OF h(1) this] h have "subscription_coverage bootstrap_principal (wk_events w) False = None"
    "wk_audit w = filter_admits_audit (wk_events w)" by simp_all
  moreover have "\<not> filter_admits_audit []" by code_simp
  ultimately show ?thesis using h by auto
qed

end
