(* ===== verification/Inbound.thy ===== *)
theory Inbound
  imports Envelope Bans Snapshots
begin

text \<open>
  What a poll's envelopes do (\<open>ApplyInbound\<close> in hub/store/envelopes.go and \<open>handlePoll\<close> in
  hub/poll.go): one transaction that moves the session's inbound ack and applies the effect of every
  envelope the ack newly covers, and the hold that answers the poll.

  The clock readings, the identifier and clock of each notice (\<open>draw\<close>) and the iteration order of the
  snapshot trim (\<open>shuffle\<close>) are arguments.
\<close>

subsection \<open>What one batch does to the store\<close>

record notice =
  nc_type :: string
  nc_body :: string

record manifest_publish =
  mp_revision :: int
  mp_body :: string
  mp_capabilities :: "string list"

record inbound_application =
  ia_ack :: int
  ia_accepted :: int
  ia_manifests :: "manifest_publish list"
  ia_notices :: "notice list"
  ia_snapshots :: "new_snapshot list"
  ia_acks :: "string list"
  ia_results :: "action_result list"
  ia_batches :: "new_event_batch list"
  ia_bans :: "int list"

record inbound_applied =
  ip_ack :: int
  ip_manifests :: int
  ip_notices :: int
  ip_started :: int
  ip_finished :: int
  ip_events :: int
  ip_snapshots :: int
  ip_bans :: int

definition no_application :: "int \<Rightarrow> inbound_application" where
  "no_application ack =
     \<lparr>ia_ack = ack, ia_accepted = 0, ia_manifests = [], ia_notices = [], ia_snapshots = [], ia_acks = [],
      ia_results = [], ia_batches = [], ia_bans = []\<rparr>"

text \<open>
  The four loops of the transaction.  A manifest that declares the bans capability is applied under
  the ban list's lock, whose revision is \<open>Some\<close> then, and owes the server a notice.
\<close>

fun apply_manifests ::
  "int option \<Rightarrow> int \<Rightarrow> (nat \<Rightarrow> string \<times> time) \<Rightarrow> string \<Rightarrow> time \<Rightarrow> nat \<Rightarrow> manifest_publish list \<Rightarrow> db
    \<Rightarrow> store_error + (int \<times> int \<times> db)" where
  "apply_manifests list_rev limit draw server now k [] d = Inr (0, 0, d)"
| "apply_manifests list_rev limit draw server now k (m # ms) d =
     (case apply_manifest d server (mp_revision m) (mp_body m) (mp_capabilities m) now of
        (replaced, d1) \<Rightarrow>
          (case (if replaced \<and> list_rev \<noteq> None \<and> has_capability (mp_capabilities m) capability_bans
                 then notice_ban_revision d1 server (the list_rev) limit (fst (draw k)) (snd (draw k))
                 else Inr (False, d1)) of
             Inl err \<Rightarrow> Inl err
           | Inr (queued, d2) \<Rightarrow>
               (case apply_manifests list_rev limit draw server now (Suc k) ms d2 of
                  Inl err \<Rightarrow> Inl err
                | Inr (a, q, d3) \<Rightarrow> Inr (of_bool replaced + a, of_bool queued + q, d3))))"

fun queue_notices ::
  "int \<Rightarrow> (nat \<Rightarrow> string \<times> time) \<Rightarrow> string \<Rightarrow> nat \<Rightarrow> notice list \<Rightarrow> db \<Rightarrow> store_error + (int \<times> db)" where
  "queue_notices limit draw server k [] d = Inr (0, d)"
| "queue_notices limit draw server k (n # ns) d =
     (case queue_outbound d server (nc_type n) (nc_body n) limit (fst (draw k)) (snd (draw k)) of
        Inl err \<Rightarrow> if err = ErrOutboundQueueFull then queue_notices limit draw server (Suc k) ns d else Inl err
      | Inr (e, d1) \<Rightarrow>
          (case queue_notices limit draw server (Suc k) ns d1 of
             Inl err \<Rightarrow> Inl err
           | Inr (q, d2) \<Rightarrow> Inr (1 + q, d2)))"

fun apply_acks :: "string \<Rightarrow> time \<Rightarrow> string list \<Rightarrow> db \<Rightarrow> int \<times> db" where
  "apply_acks server now [] d = (0, d)"
| "apply_acks server now (a # as) d =
     (case apply_action_ack d server a now of
        (started, d1) \<Rightarrow> (case apply_acks server now as d1 of (n, d2) \<Rightarrow> (of_bool started + n, d2)))"

fun apply_results :: "string \<Rightarrow> time \<Rightarrow> action_result list \<Rightarrow> db \<Rightarrow> int \<times> db" where
  "apply_results server now [] d = (0, d)"
| "apply_results server now (r # rs) d =
     (case apply_action_result d server r now of
        (finished, d1) \<Rightarrow> (case apply_results server now rs d1 of (n, d2) \<Rightarrow> (of_bool finished + n, d2)))"

definition report_bans :: "db \<Rightarrow> string \<Rightarrow> int list \<Rightarrow> time \<Rightarrow> db" where
  "report_bans d server reports now =
     (if reports = [] then d
      else d\<lparr>servers := update_where (\<lambda>s. sv_id s = server)
               (\<lambda>s. s\<lparr>sv_bans_revision := Some (last reports), sv_bans_at := Some (format_time now)\<rparr>) (servers d)\<rparr>)"

definition record_inbound_ack :: "db \<Rightarrow> string \<Rightarrow> int \<Rightarrow> inbound_application \<Rightarrow> db" where
  "record_inbound_ack d sid ack a =
     (if ia_accepted a > 0 \<and> ia_ack a > ack
      then d\<lparr>sessions := update_where (\<lambda>s. ss_id s = sid)
               (\<lambda>s. s\<lparr>ss_inbound_ack := ia_ack a, ss_inbound_count := ss_inbound_count s + ia_accepted a\<rparr>) (sessions d)\<rparr>
      else d)"

text \<open>The effects, in the order the transaction takes them.\<close>

definition apply_effects ::
  "((string \<times> int) list \<Rightarrow> (string \<times> int) list) \<Rightarrow> int option \<Rightarrow> int \<Rightarrow> (nat \<Rightarrow> string \<times> time) \<Rightarrow> string \<Rightarrow> time
    \<Rightarrow> inbound_application \<Rightarrow> db \<Rightarrow> store_error + (inbound_applied \<times> db)" where
  "apply_effects shuffle list_rev limit draw server now a d =
     (case apply_manifests list_rev limit draw server now 0 (ia_manifests a) d of
        Inl err \<Rightarrow> Inl err
      | Inr (replaced, noticed, d1) \<Rightarrow>
     (case queue_notices limit draw server (length (ia_manifests a)) (ia_notices a) d1 of
        Inl err \<Rightarrow> Inl err
      | Inr (queued, d2) \<Rightarrow>
     (case apply_acks server now (ia_acks a) d2 of
        (started, d3) \<Rightarrow>
     (case apply_results server now (ia_results a) d3 of
        (finished, d4) \<Rightarrow>
     (case insert_event_batches d4 server (ia_batches a) now of
        Inl err \<Rightarrow> Inl err
      | Inr (stored, d5) \<Rightarrow>
     (case insert_snapshots shuffle d5 server (ia_snapshots a) now of
        (snaps, d6) \<Rightarrow>
          Inr (\<lparr>ip_ack = ia_ack a, ip_manifests = replaced, ip_notices = noticed + queued, ip_started = started,
                ip_finished = finished, ip_events = stored, ip_snapshots = snaps, ip_bans = int (length (ia_bans a))\<rparr>,
               report_bans d6 server (ia_bans a) now)))))))"

definition apply_inbound ::
  "((string \<times> int) list \<Rightarrow> (string \<times> int) list) \<Rightarrow> (nat \<Rightarrow> string \<times> time) \<Rightarrow> db \<Rightarrow> string
    \<Rightarrow> (int \<Rightarrow> inbound_application) \<Rightarrow> int \<Rightarrow> bool \<Rightarrow> time \<Rightarrow> time \<Rightarrow> store_error + (inbound_applied \<times> db)" where
  "apply_inbound shuffle draw d sid classify limit declaring_bans live_now now =
     (case find (\<lambda>s. ss_id s = sid) (sessions d) of
        None \<Rightarrow> Inl ErrNotFound
      | Some owner \<Rightarrow>
          if \<not> lock_server d (ss_server owner) then Inl ErrNotFound
          else case live_session_row d sid live_now of
            None \<Rightarrow> Inl ErrNotFound
          | Some s \<Rightarrow>
              let a = classify (ss_inbound_ack s);
                  a = (if ia_ack a < ss_inbound_ack s then no_application (ss_inbound_ack s) else a)
              in apply_effects shuffle (if declaring_bans then Some (ban_revision d) else None) limit draw
                   (ss_server owner) now a (record_inbound_ack d sid (ss_inbound_ack s) a))"

definition touch_server :: "db \<Rightarrow> string \<Rightarrow> time \<Rightarrow> db" where
  "touch_server d server now =
     d\<lparr>servers := update_where (\<lambda>s. sv_id s = server) (\<lambda>s. s\<lparr>sv_last_seen := Some (format_time now)\<rparr>) (servers d)\<rparr>"

subsection \<open>What the handler makes of a batch\<close>

definition max_notices_per_poll :: nat where "max_notices_per_poll = 20"
definition max_events_per_poll :: nat where "max_events_per_poll = 1000"

text \<open>
  A body after validation, one of the maps the handler prepares: the type of an envelope decides which
  map it can be in, so one value stands for all of them.  \<open>Unmodelled\<close> is acked and ignored.
\<close>

datatype prepared =
    ManifestPublish manifest_publish
  | ManifestReject notice
  | ActionAck string
  | ActionOutcome action_result
  | ActionUnusable
  | EventRecords "new_event list"
  | EventsReject notice
  | StateRecord new_snapshot
  | StateReject notice
  | BansApplied int
  | Unmodelled

definition queue_notice :: "notice \<Rightarrow> inbound_application \<Rightarrow> inbound_application" where
  "queue_notice n a =
     (if length (ia_notices a) \<ge> max_notices_per_poll then a else a\<lparr>ia_notices := ia_notices a @ [n]\<rparr>)"

definition take_batch :: "string \<Rightarrow> new_event list \<Rightarrow> inbound_application \<Rightarrow> inbound_application" where
  "take_batch eid es a = a\<lparr>ia_batches := ia_batches a @ [\<lparr>nb_envelope = eid, nb_events = es\<rparr>]\<rparr>"

text \<open>One accepted envelope; the pair is the application so far and what is left of the event budget.\<close>

fun accept_envelope ::
  "string set \<Rightarrow> (string \<Rightarrow> notice) \<Rightarrow> string \<Rightarrow> prepared \<Rightarrow> inbound_application \<times> nat \<Rightarrow> inbound_application \<times> nat" where
  "accept_envelope replayed over eid (ManifestPublish m) (a, budget) =
     (a\<lparr>ia_manifests := ia_manifests a @ [m]\<rparr>, budget)"
| "accept_envelope replayed over eid (ManifestReject n) (a, budget) = (queue_notice n a, budget)"
| "accept_envelope replayed over eid (ActionAck i) (a, budget) = (a\<lparr>ia_acks := ia_acks a @ [i]\<rparr>, budget)"
| "accept_envelope replayed over eid (ActionOutcome r) (a, budget) = (a\<lparr>ia_results := ia_results a @ [r]\<rparr>, budget)"
| "accept_envelope replayed over eid ActionUnusable (a, budget) = (a, budget)"
| "accept_envelope replayed over eid (EventsReject n) (a, budget) = (queue_notice n a, budget)"
| "accept_envelope replayed over eid (EventRecords es) (a, budget) =
     (if eid \<in> replayed then (take_batch eid es a, budget)
      else if length es > budget then (queue_notice (over eid) a, budget)
      else (take_batch eid es a, budget - length es))"
| "accept_envelope replayed over eid (StateRecord s) (a, budget) = (a\<lparr>ia_snapshots := ia_snapshots a @ [s]\<rparr>, budget)"
| "accept_envelope replayed over eid (StateReject n) (a, budget) = (queue_notice n a, budget)"
| "accept_envelope replayed over eid (BansApplied r) (a, budget) = (a\<lparr>ia_bans := ia_bans a @ [r]\<rparr>, budget)"
| "accept_envelope replayed over eid Unmodelled (a, budget) = (a, budget)"

definition poll_application ::
  "(inbound_envelope \<Rightarrow> prepared) \<Rightarrow> string set \<Rightarrow> (string \<Rightarrow> notice) \<Rightarrow> inbound_envelope list \<Rightarrow> int \<Rightarrow> inbound_application" where
  "poll_application prepare replayed over es ack =
     (let b = classify_inbound ack es in
      fst (fold (\<lambda>i. accept_envelope replayed over (ie_id (es ! i)) (prepare (es ! i))) (ib_accepted b)
             ((no_application (ib_ack b))\<lparr>ia_accepted := int (length (ib_accepted b))\<rparr>, max_events_per_poll)))"

text \<open>The batches whose ids the handler looks up before the transaction.\<close>

fun looked_up :: "prepared \<Rightarrow> bool" where
  "looked_up (EventRecords es) = (es \<noteq> [])"
| "looked_up _ = False"

definition replayed_batches :: "db \<Rightarrow> string \<Rightarrow> (inbound_envelope \<Rightarrow> prepared) \<Rightarrow> inbound_envelope list \<Rightarrow> string set" where
  "replayed_batches d server prepare es =
     ingested_event_batches d server (map ie_id (filter (\<lambda>e. looked_up (prepare e)) es))"

fun declares_bans :: "prepared \<Rightarrow> bool" where
  "declares_bans (ManifestPublish m) = (capability_bans \<in> set (mp_capabilities m))"
| "declares_bans _ = False"

subsection \<open>What each stage leaves alone\<close>

lemma same_db:
  "\<exists>t. d = d\<lparr>outbound := t\<rparr>" "\<exists>t. d = d\<lparr>actions := t\<rparr>" "\<exists>t u. d = d\<lparr>events := t, event_identities := u\<rparr>"
  "\<exists>t u v. d = d\<lparr>events := t, event_identities := u, event_batches := v\<rparr>"
  "\<exists>t k u. d = d\<lparr>snapshots := t, snapshot_counter := k, snapshot_dedup := u\<rparr>"
proof -
  have "d = d\<lparr>outbound := outbound d\<rparr>" "d = d\<lparr>actions := actions d\<rparr>"
    "d = d\<lparr>events := events d, event_identities := event_identities d\<rparr>"
    "d = d\<lparr>events := events d, event_identities := event_identities d, event_batches := event_batches d\<rparr>"
    "d = d\<lparr>snapshots := snapshots d, snapshot_counter := snapshot_counter d, snapshot_dedup := snapshot_dedup d\<rparr>"
    by simp_all
  then show "\<exists>t. d = d\<lparr>outbound := t\<rparr>" "\<exists>t. d = d\<lparr>actions := t\<rparr>"
    "\<exists>t u. d = d\<lparr>events := t, event_identities := u\<rparr>"
    "\<exists>t u v. d = d\<lparr>events := t, event_identities := u, event_batches := v\<rparr>"
    "\<exists>t k u. d = d\<lparr>snapshots := t, snapshot_counter := k, snapshot_dedup := u\<rparr>"
    by blast+
qed

lemma queue_outbound_frame: "queue_outbound d server ty body limit eid now = Inr (e, d') \<Longrightarrow> \<exists>t. d' = d\<lparr>outbound := t\<rparr>"
  by (auto simp: queue_outbound_def insert_outbound_def Let_def split: if_splits)

lemma notice_ban_revision_frame:
  "notice_ban_revision d server revision limit eid now = Inr (q, d') \<Longrightarrow> \<exists>t. d' = d\<lparr>outbound := t\<rparr>"
  by (auto simp: notice_ban_revision_def split: if_splits sum.splits dest: queue_outbound_frame intro: exI [of _ "outbound d"])

lemma queue_notices_frame: "queue_notices limit draw server k ns d = Inr (q, d') \<Longrightarrow> \<exists>t. d' = d\<lparr>outbound := t\<rparr>"
proof (induction ns arbitrary: k d q)
  case Nil
  then show ?case by (simp add: same_db)
next
  case (Cons n ns)
  show ?case
  proof (cases "queue_outbound d server (nc_type n) (nc_body n) limit (fst (draw k)) (snd (draw k))")
    case (Inl err)
    with Cons.prems have "queue_notices limit draw server (Suc k) ns d = Inr (q, d')" by (simp split: if_splits)
    then show ?thesis by (rule Cons.IH)
  next
    case (Inr p)
    obtain e d1 where p: "p = (e, d1)" by fastforce
    from Cons.prems Inr p obtain q' where "queue_notices limit draw server (Suc k) ns d1 = Inr (q', d')"
      by (auto split: sum.splits)
    from Cons.IH [OF this] queue_outbound_frame [OF Inr [unfolded p]] show ?thesis by auto
  qed
qed

lemma apply_acks_actions: "\<exists>t. snd (apply_acks server now is d) = d\<lparr>actions := t\<rparr>"
proof (induction "is" arbitrary: d)
  case (Cons i "is")
  obtain t where t: "snd (apply_acks server now is (snd (apply_action_ack d server i now)))
      = (snd (apply_action_ack d server i now))\<lparr>actions := t\<rparr>" using Cons by blast
  then show ?case by (intro exI [of _ t]) (auto simp: apply_action_ack_def with_actions_def split: prod.splits)
qed (simp add: same_db)

lemma apply_results_actions: "\<exists>t. snd (apply_results server now rs d) = d\<lparr>actions := t\<rparr>"
proof (induction rs arbitrary: d)
  case (Cons r rs)
  obtain t where t: "snd (apply_results server now rs (snd (apply_action_result d server r now)))
      = (snd (apply_action_result d server r now))\<lparr>actions := t\<rparr>" using Cons by blast
  then show ?case by (intro exI [of _ t]) (auto simp: apply_action_result_def with_actions_def split: prod.splits)
qed (simp add: same_db)

lemma insert_events_frame:
  "insert_events d server es now = Inr d' \<Longrightarrow> \<exists>t u. d' = d\<lparr>events := t, event_identities := u\<rparr>"
proof (induction es arbitrary: d)
  case Nil
  then have "d' = d\<lparr>events := events d, event_identities := event_identities d\<rparr>" by simp
  then show ?case by blast
next
  case (Cons e es)
  from Cons.prems have "insert_events (d\<lparr>events := events d @ [event_row_of server now e],
      event_identities := insert_event_identities (event_identities d) (ev_id (event_row_of server now e)) server
        (ev_type (event_row_of server now e)) (ev_occurred (event_row_of server now e)) (nv_identities e)\<rparr>) server es now = Inr d'"
    by (simp add: Let_def split: if_splits)
  from Cons.IH [OF this] show ?case by auto
qed

lemma insert_event_batches_frame:
  "insert_event_batches d server bs now = Inr (n, d') \<Longrightarrow>
     \<exists>t u v. d' = d\<lparr>events := t, event_identities := u, event_batches := v\<rparr>"
proof (induction bs arbitrary: d n)
  case Nil
  then have "d' = d\<lparr>events := events d, event_identities := event_identities d, event_batches := event_batches d\<rparr>" by simp
  then show ?case by blast
next
  case (Cons b bs)
  show ?case
  proof (cases "nb_events b = [] \<or> batch_claimed d server (nb_envelope b)")
    case True
    with Cons.prems have "insert_event_batches d server bs now = Inr (n, d')" by (cases "nb_events b = []") simp_all
    then show ?thesis by (rule Cons.IH)
  next
    case False
    with Cons.prems obtain d1 m where
      "insert_events (d\<lparr>event_batches := event_batches d @ [\<lparr>eb_server = server, eb_envelope = nb_envelope b,
          eb_expires = format_time (now + batch_horizon (nb_events b))\<rparr>]\<rparr>) server (nb_events b) now = Inr d1"
      "insert_event_batches d1 server bs now = Inr (m, d')" by (auto split: sum.splits)
    from Cons.IH [OF this(2)] insert_events_frame [OF this(1)] obtain t u v t' u' where
      "d' = d1\<lparr>events := t, event_identities := u, event_batches := v\<rparr>"
      "d1 = d\<lparr>event_batches := event_batches d @ [\<lparr>eb_server = server, eb_envelope = nb_envelope b,
          eb_expires = format_time (now + batch_horizon (nb_events b))\<rparr>], events := t', event_identities := u'\<rparr>" by blast
    then have "d' = d\<lparr>events := t, event_identities := u, event_batches := v\<rparr>" by simp
    then show ?thesis by blast
  qed
qed

lemma insert_snapshots_frame:
  "\<exists>t k u. snd (insert_snapshots shuffle d server ss now) = d\<lparr>snapshots := t, snapshot_counter := k, snapshot_dedup := u\<rparr>"
proof -
  have one: "\<exists>t k u. snd (snd (insert_snapshot d server s now)) = d\<lparr>snapshots := t, snapshot_counter := k, snapshot_dedup := u\<rparr>" for d s
  proof -
    let ?m = "snapshot_dedup d @ [\<lparr>dd_server = server, dd_envelope = np_envelope s, dd_expires = format_time (now + np_retention s)\<rparr>]"
    let ?old = "(server, np_envelope s) \<in> dedup_id ` set (snapshot_dedup d)"
    let ?kept = "(server, np_envelope s) \<in> snapshot_id ` set (snapshots d)"
    let ?r = "snapshot_row_of server now (snapshot_counter d + 1) s"
    have eq: "snd (snd (insert_snapshot d server s now)) =
        (if ?old then d else if ?kept
         then d\<lparr>snapshots := snapshots d, snapshot_counter := snapshot_counter d, snapshot_dedup := ?m\<rparr>
         else d\<lparr>snapshots := snapshots d @ [?r], snapshot_counter := snapshot_counter d + 1, snapshot_dedup := ?m\<rparr>)"
      by (simp add: insert_snapshot_def Let_def)
    show ?thesis
    proof (cases ?old)
      case True
      then show ?thesis unfolding eq by (simp only: if_True same_db)
    next
      case False
      then show ?thesis unfolding eq by (cases ?kept) (simp_all only: if_True if_False, blast+)
    qed
  qed
  have rows: "\<exists>t k u. snd (snd (insert_snapshot_rows d server ss now ds))
      = d\<lparr>snapshots := t, snapshot_counter := k, snapshot_dedup := u\<rparr>" for d ds
  proof (induction ss arbitrary: d ds)
    case (Cons s ss)
    obtain b n d1 where i: "insert_snapshot d server s now = (b, n, d1)" by (metis prod_cases3)
    from one [of d s] obtain t k u where d1: "d1 = d\<lparr>snapshots := t, snapshot_counter := k, snapshot_dedup := u\<rparr>"
      by (auto simp: i)
    from Cons [of d1 "if b then raise_depth (np_type s) (np_depth s) ds else ds"] obtain t' k' u' where
      "snd (snd (insert_snapshot_rows d1 server ss now (if b then raise_depth (np_type s) (np_depth s) ds else ds)))
         = d1\<lparr>snapshots := t', snapshot_counter := k', snapshot_dedup := u'\<rparr>" by blast
    then have "snd (snd (insert_snapshot_rows d server (s # ss) now ds))
        = d\<lparr>snapshots := t', snapshot_counter := k', snapshot_dedup := u'\<rparr>"
      by (auto simp: i d1 split: prod.splits)
    then show ?case by blast
  qed (simp add: same_db)
  show ?thesis
  proof (cases "ss = []")
    case False
    obtain n ds d1 where r: "insert_snapshot_rows d server ss now [] = (n, ds, d1)" by (metis prod_cases3)
    with rows [of d "[]"] obtain t k u where "d1 = d\<lparr>snapshots := t, snapshot_counter := k, snapshot_dedup := u\<rparr>" by auto
    with r False have "snd (insert_snapshots shuffle d server ss now)
        = d\<lparr>snapshots := foldl (\<lambda>t p. trim_history server p t) t (shuffle ds), snapshot_counter := k, snapshot_dedup := u\<rparr>"
      by (simp add: insert_snapshots_def)
    then show ?thesis by blast
  qed (simp add: insert_snapshots_def same_db)
qed

subsection \<open>What each stage makes durable\<close>

lemma stored_revision_outbound [simp]: "stored_revision (d\<lparr>outbound := t\<rparr>) server = stored_revision d server"
  "manifests_keyed (d\<lparr>outbound := t\<rparr>) = manifests_keyed d"
  by (simp_all add: stored_revision_def manifests_keyed_def)

definition at_least :: "db \<Rightarrow> string \<Rightarrow> int \<Rightarrow> bool" where
  "at_least d server n = (\<exists>r. stored_revision d server = Some r \<and> n \<le> r)"

lemma apply_manifest_at_least:
  assumes "manifests_keyed d" and "apply_manifest d server n body caps now = (b, d1)"
  shows "at_least d1 server n \<and> (\<forall>m. at_least d server m \<longrightarrow> at_least d1 server m)
    \<and> manifests_keyed d1 \<and> (\<exists>t. d1 = d\<lparr>manifests := t\<rparr>)"
proof -
  have "\<exists>t. d1 = d\<lparr>manifests := t\<rparr>"
    using assms(2) by (auto simp: apply_manifest_def Let_def split: if_splits)
  then show ?thesis
    using apply_manifest_stored(1) [OF assms, of server] apply_manifest_keyed [OF assms]
    by (auto simp: at_least_def stored_revision_def split: option.splits if_splits)
qed

lemma apply_manifests_effect:
  "apply_manifests list_rev limit draw server now k ms d = Inr (a, q, d') \<Longrightarrow> manifests_keyed d \<Longrightarrow>
     (\<exists>t u. d' = d\<lparr>manifests := t, outbound := u\<rparr>) \<and> manifests_keyed d'
     \<and> (\<forall>n. at_least d server n \<longrightarrow> at_least d' server n) \<and> list_all (\<lambda>m. at_least d' server (mp_revision m)) ms"
proof (induction ms arbitrary: k d a q)
  case Nil
  have "\<exists>t u. d = d\<lparr>manifests := t, outbound := u\<rparr>"
    by (rule exI [of _ "manifests d"], rule exI [of _ "outbound d"]) simp
  with Nil show ?case by simp
next
  case (Cons m ms)
  obtain b d1 where ap: "apply_manifest d server (mp_revision m) (mp_body m) (mp_capabilities m) now = (b, d1)" by fastforce
  let ?tell = "if b \<and> list_rev \<noteq> None \<and> has_capability (mp_capabilities m) capability_bans
      then notice_ban_revision d1 server (the list_rev) limit (fst (draw k)) (snd (draw k)) else Inr (False, d1)"
  from Cons.prems(1) ap obtain qd where qd: "?tell = Inr qd" by (cases ?tell) simp_all
  obtain q1 d2 where q1: "qd = (q1, d2)" by fastforce
  from Cons.prems(1) ap qd q1 obtain a' q' where
    rest: "apply_manifests list_rev limit draw server now (Suc k) ms d2 = Inr (a', q', d')" by (auto split: sum.splits)
  from qd q1 have "\<exists>t. d2 = d1\<lparr>outbound := t\<rparr>"
    by (auto split: if_splits dest: notice_ban_revision_frame simp: same_db)
  then obtain t where t: "d2 = d1\<lparr>outbound := t\<rparr>" by blast
  note one = apply_manifest_at_least [OF Cons.prems(2) ap]
  have lift: "at_least d2 server n \<longleftrightarrow> at_least d1 server n" for n by (simp add: t at_least_def)
  have keyed: "manifests_keyed d2" using one t by simp
  note IH = Cons.IH [OF rest keyed]
  from one obtain u where "d1 = d\<lparr>manifests := u\<rparr>" by blast
  moreover from IH obtain v w where "d' = d2\<lparr>manifests := v, outbound := w\<rparr>" by blast
  ultimately have "d' = d\<lparr>manifests := v, outbound := w\<rparr>" by (simp add: t)
  then have "\<exists>t u. d' = d\<lparr>manifests := t, outbound := u\<rparr>" by blast
  with IH one lift show ?case by (simp add: list_all_iff)
qed

text \<open>A stage over actions that leaves none to which some earlier report would still apply.\<close>

definition none_apply :: "(action_row \<Rightarrow> bool) \<Rightarrow> db \<Rightarrow> bool" where
  "none_apply p d = list_all (\<lambda>a. \<not> p a) (actions d)"

lemma none_apply_update:
  "none_apply p d \<Longrightarrow> (\<And>a. \<not> p (f a)) \<Longrightarrow> none_apply p (with_actions (update_where q f) d)"
  by (auto simp: none_apply_def with_actions_def list_all_iff elim!: update_whereE)

lemma settled_rows [simp]:
  "\<not> ack_applies server i now (ack_row t a)" "\<not> ack_applies server i now (result_row r t a)"
  "\<not> result_applies server i now (result_row r t a)"
  by (simp_all add: ack_applies_def result_applies_def ack_row_def result_row_def action_open_def)

lemma snd_apply_Cons:
  "snd (apply_acks server now (j # is) d) = snd (apply_acks server now is (snd (apply_action_ack d server j now)))"
  "snd (apply_results server now (r # rs) d) = snd (apply_results server now rs (snd (apply_action_result d server r now)))"
  by (auto split: prod.splits)

lemma apply_acks_settle:
  "(none_apply (ack_applies server i now) d \<or> i \<in> set is) \<Longrightarrow> none_apply (ack_applies server i now) (snd (apply_acks server now is d))"
proof (induction "is" arbitrary: d)
  case (Cons j "is")
  let ?d = "snd (apply_action_ack d server j now)"
  have d: "?d = with_actions (update_where (ack_applies server j now) (ack_row now)) d" by (simp add: apply_action_ack_def)
  have "none_apply (ack_applies server i now) ?d \<or> i \<in> set is"
  proof (cases "i = j")
    case True
    then have "none_apply (ack_applies server i now) ?d"
      by (auto simp: d none_apply_def with_actions_def list_all_iff elim!: update_whereE)
    then show ?thesis by simp
  next
    case False
    with Cons.prems show ?thesis by (auto simp: d intro: none_apply_update)
  qed
  from Cons.IH [OF this] show ?case by (simp only: snd_apply_Cons)
qed simp

lemma apply_results_settle:
  "(none_apply p d \<or> (\<exists>r \<in> set rs. p = result_applies server (ar_action r) now)) \<Longrightarrow>
     (\<And>r a. \<not> p (result_row r now a)) \<Longrightarrow> none_apply p (snd (apply_results server now rs d))"
proof (induction rs arbitrary: d)
  case (Cons r rs)
  let ?d = "snd (apply_action_result d server r now)"
  have d: "?d = with_actions (update_where (result_applies server (ar_action r) now) (result_row r now)) d"
    by (simp add: apply_action_result_def)
  have "none_apply p ?d \<or> (\<exists>r \<in> set rs. p = result_applies server (ar_action r) now)"
  proof (cases "p = result_applies server (ar_action r) now")
    case True
    then have "none_apply p ?d"
      by (auto simp: d none_apply_def with_actions_def list_all_iff elim!: update_whereE)
    then show ?thesis by simp
  next
    case False
    with Cons.prems show ?thesis by (auto simp: d intro: none_apply_update)
  qed
  from Cons.IH [OF this Cons.prems(2)] show ?case by (simp only: snd_apply_Cons)
qed simp

lemma insert_event_batches_claims:
  "insert_event_batches d server bs now = Inr (n, d') \<Longrightarrow>
     (\<forall>e. batch_claimed d server e \<longrightarrow> batch_claimed d' server e)
     \<and> list_all (\<lambda>b. nb_events b = [] \<or> batch_claimed d' server (nb_envelope b)) bs"
proof (induction bs arbitrary: d n)
  case (Cons b bs)
  show ?case
  proof (cases "nb_events b = [] \<or> batch_claimed d server (nb_envelope b)")
    case True
    with Cons.prems have "insert_event_batches d server bs now = Inr (n, d')" by (cases "nb_events b = []") simp_all
    from Cons.IH [OF this] True show ?thesis by auto
  next
    case False
    let ?d = "d\<lparr>event_batches := event_batches d @ [\<lparr>eb_server = server, eb_envelope = nb_envelope b,
        eb_expires = format_time (now + batch_horizon (nb_events b))\<rparr>]\<rparr>"
    from False Cons.prems obtain d1 m where d1: "insert_events ?d server (nb_events b) now = Inr d1"
      and rest: "insert_event_batches d1 server bs now = Inr (m, d')" by (auto split: sum.splits)
    have "event_batches d1 = event_batches ?d" by (rule insert_events_batches [OF d1])
    then have "batch_claimed d1 server e \<longleftrightarrow> batch_claimed d server e \<or> e = nb_envelope b" for e
      by (auto simp: batch_claimed_def exists_row_def)
    with Cons.IH [OF rest] show ?thesis by simp
  qed
qed simp

definition snapshot_claimed :: "db \<Rightarrow> string \<Rightarrow> string \<Rightarrow> bool" where
  "snapshot_claimed d server e = ((server, e) \<in> dedup_id ` set (snapshot_dedup d))"

lemma insert_snapshots_claims:
  assumes "insert_snapshots shuffle d server ss now = (n, d')"
  shows "list_all (\<lambda>s. snapshot_claimed d' server (np_envelope s)) ss"
proof (cases "ss = []")
  case False
  have one: "snapshot_claimed (snd (snd (insert_snapshot d server s now))) server e
      \<longleftrightarrow> snapshot_claimed d server e \<or> e = np_envelope s" for d s e
    by (auto simp: insert_snapshot_def snapshot_claimed_def Let_def dedup_id_def)
  have rows: "(\<forall>e. snapshot_claimed d server e \<longrightarrow> snapshot_claimed (snd (snd (insert_snapshot_rows d server ss now ds))) server e)
      \<and> list_all (\<lambda>s. snapshot_claimed (snd (snd (insert_snapshot_rows d server ss now ds))) server (np_envelope s)) ss" for d ds
  proof (induction ss arbitrary: d ds)
    case (Cons s ss)
    obtain b m d1 where i: "insert_snapshot d server s now = (b, m, d1)" by (metis prod_cases3)
    with one [of d s] have d1: "snapshot_claimed d1 server e \<longleftrightarrow> snapshot_claimed d server e \<or> e = np_envelope s" for e by simp
    have "snd (snd (insert_snapshot_rows d server (s # ss) now ds))
        = snd (snd (insert_snapshot_rows d1 server ss now (if b then raise_depth (np_type s) (np_depth s) ds else ds)))"
      by (auto simp: i split: prod.splits)
    with Cons [of d1 "if b then raise_depth (np_type s) (np_depth s) ds else ds"] d1 show ?case by simp
  qed simp
  obtain m ds d1 where r: "insert_snapshot_rows d server ss now [] = (m, ds, d1)" by (metis prod_cases3)
  with assms False have "snapshot_dedup d' = snapshot_dedup d1" by (auto simp: insert_snapshots_def)
  with rows [of d "[]"] r show ?thesis by (simp add: snapshot_claimed_def)
qed simp

subsection \<open>The transaction as a whole\<close>

text \<open>
  Every effect of an application is in the database: the manifest of that revision or a later one is
  stored, no acked or finished report could still apply, each batch and snapshot is claimed under its
  envelope, and the server's word on the ban list is the last report.
\<close>

definition effects_held :: "db \<Rightarrow> string \<Rightarrow> time \<Rightarrow> inbound_application \<Rightarrow> bool" where
  "effects_held d server now a =
     (list_all (\<lambda>m. at_least d server (mp_revision m)) (ia_manifests a)
      \<and> list_all (\<lambda>i. none_apply (ack_applies server i now) d) (ia_acks a)
      \<and> list_all (\<lambda>r. none_apply (result_applies server (ar_action r) now) d) (ia_results a)
      \<and> list_all (\<lambda>b. nb_events b = [] \<or> batch_claimed d server (nb_envelope b)) (ia_batches a)
      \<and> list_all (\<lambda>s. snapshot_claimed d server (np_envelope s)) (ia_snapshots a)
      \<and> (ia_bans a = [] \<or> list_all (\<lambda>v. sv_id v = server \<longrightarrow> sv_bans_revision v = Some (last (ia_bans a))) (servers d)))"

lemma report_bans_frame: "\<exists>t. report_bans d server reports now = d\<lparr>servers := t\<rparr>"
proof (cases "reports = []")
  case True
  then have "report_bans d server reports now = d\<lparr>servers := servers d\<rparr>" by (simp add: report_bans_def)
  then show ?thesis by blast
next
  case False
  then show ?thesis unfolding report_bans_def by (simp only: if_False) blast
qed

lemma report_bans_last:
  assumes "reports \<noteq> []" and "v \<in> set (servers (report_bans d server reports now))" and "sv_id v = server"
  shows "sv_bans_revision v = Some (last reports)"
proof -
  from assms(1,2) have "v \<in> set (update_where (\<lambda>s. sv_id s = server)
      (\<lambda>s. s\<lparr>sv_bans_revision := Some (last reports), sv_bans_at := Some (format_time now)\<rparr>) (servers d))"
    by (simp add: report_bans_def)
  then show ?thesis by (rule update_whereE) (use assms(3) in simp_all)
qed

lemma apply_effectsE:
  assumes "apply_effects shuffle list_rev limit draw server now a d = Inr (r, d')"
  obtains x y d1 q d2 x3 d3 x4 d4 n d5 k d6 where
    "apply_manifests list_rev limit draw server now 0 (ia_manifests a) d = Inr (x, y, d1)"
    "queue_notices limit draw server (length (ia_manifests a)) (ia_notices a) d1 = Inr (q, d2)"
    "apply_acks server now (ia_acks a) d2 = (x3, d3)" "apply_results server now (ia_results a) d3 = (x4, d4)"
    "insert_event_batches d4 server (ia_batches a) now = Inr (n, d5)"
    "insert_snapshots shuffle d5 server (ia_snapshots a) now = (k, d6)"
    "d' = report_bans d6 server (ia_bans a) now" "ip_ack r = ia_ack a" "ip_notices r = y + q"
    "manifests d' = manifests d1" "actions d' = actions d4" "event_batches d' = event_batches d5"
    "snapshot_dedup d' = snapshot_dedup d6" "sessions d' = sessions d2" "servers d6 = servers d2"
    "enrollment_tokens d' = enrollment_tokens d2" "outbound d' = outbound d2" "actions d2 = actions d1" "sessions d2 = sessions d1"
    "servers d2 = servers d1" "manifests d2 = manifests d1" "events d' = events d5" "events d4 = events d1"
proof -
  note h = assms(1) [unfolded apply_effects_def]
  from h obtain x y d1 where ms: "apply_manifests list_rev limit draw server now 0 (ia_manifests a) d = Inr (x, y, d1)"
    by (cases "apply_manifests list_rev limit draw server now 0 (ia_manifests a) d") auto
  from h ms obtain q d2 where ns: "queue_notices limit draw server (length (ia_manifests a)) (ia_notices a) d1 = Inr (q, d2)"
    by (cases "queue_notices limit draw server (length (ia_manifests a)) (ia_notices a) d1") auto
  obtain x3 d3 where as: "apply_acks server now (ia_acks a) d2 = (x3, d3)" by fastforce
  obtain x4 d4 where rs: "apply_results server now (ia_results a) d3 = (x4, d4)" by fastforce
  from h ms ns as rs obtain n d5 where es: "insert_event_batches d4 server (ia_batches a) now = Inr (n, d5)"
    by (cases "insert_event_batches d4 server (ia_batches a) now") (auto split: prod.splits)
  obtain k d6 where ss: "insert_snapshots shuffle d5 server (ia_snapshots a) now = (k, d6)" by fastforce
  from h ms ns as rs es ss have d': "d' = report_bans d6 server (ia_bans a) now" and ack: "ip_ack r = ia_ack a" "ip_notices r = y + q"
    by (auto split: prod.splits)
  from queue_notices_frame [OF ns] obtain u2 where f2: "d2 = d1\<lparr>outbound := u2\<rparr>" by blast
  from apply_acks_actions [of server now "ia_acks a" d2] obtain a3 where f3: "d3 = d2\<lparr>actions := a3\<rparr>" by (auto simp: as)
  from apply_results_actions [of server now "ia_results a" d3] obtain a4 where f4: "d4 = d3\<lparr>actions := a4\<rparr>" by (auto simp: rs)
  from insert_event_batches_frame [OF es] obtain e5 i5 b5 where
    f5: "d5 = d4\<lparr>events := e5, event_identities := i5, event_batches := b5\<rparr>" by blast
  from insert_snapshots_frame [of shuffle d5 server "ia_snapshots a" now] obtain s6 k6 u6 where
    f6: "d6 = d5\<lparr>snapshots := s6, snapshot_counter := k6, snapshot_dedup := u6\<rparr>" by (auto simp: ss)
  from report_bans_frame [of d6 server "ia_bans a" now] obtain v where f7: "d' = d6\<lparr>servers := v\<rparr>" by (auto simp: d')
  show thesis
    by (rule that [OF ms ns as rs es ss d' ack]) (simp_all add: f7 f6 f5 f4 f3 f2)
qed

lemma apply_effects_held:
  assumes "apply_effects shuffle list_rev limit draw server now a d = Inr (r, d')" and "manifests_keyed d"
  shows "sessions d' = sessions d \<and> map sv_id (servers d') = map sv_id (servers d)
    \<and> ip_ack r = ia_ack a \<and> manifests_keyed d' \<and> effects_held d' server now a"
proof -
  obtain x y d1 q d2 x3 d3 x4 d4 n d5 k d6 where
    ms: "apply_manifests list_rev limit draw server now 0 (ia_manifests a) d = Inr (x, y, d1)"
    and "queue_notices limit draw server (length (ia_manifests a)) (ia_notices a) d1 = Inr (q, d2)"
    and as: "apply_acks server now (ia_acks a) d2 = (x3, d3)" and rs: "apply_results server now (ia_results a) d3 = (x4, d4)"
    and es: "insert_event_batches d4 server (ia_batches a) now = Inr (n, d5)"
    and ss: "insert_snapshots shuffle d5 server (ia_snapshots a) now = (k, d6)"
    and d': "d' = report_bans d6 server (ia_bans a) now" and ack: "ip_ack r = ia_ack a" and "ip_notices r = y + q"
    and same1: "manifests d' = manifests d1" "actions d' = actions d4" "event_batches d' = event_batches d5"
      "snapshot_dedup d' = snapshot_dedup d6"
    and ss': "sessions d' = sessions d2" and sv: "servers d6 = servers d2" and "enrollment_tokens d' = enrollment_tokens d2"
      "outbound d' = outbound d2" "actions d2 = actions d1"
    and s2: "sessions d2 = sessions d1" and sv2: "servers d2 = servers d1" and "manifests d2 = manifests d1" "events d' = events d5" "events d4 = events d1"
    by (rule apply_effectsE [OF assms(1)])
  from apply_manifests_effect [OF ms assms(2)] obtain t1 u1 where f1: "d1 = d\<lparr>manifests := t1, outbound := u1\<rparr>"
    and keyed: "manifests_keyed d1" and stored: "list_all (\<lambda>m. at_least d1 server (mp_revision m)) (ia_manifests a)" by blast
  have same: "manifests d' = manifests d1" "actions d' = actions d4" "event_batches d' = event_batches d5"
    "snapshot_dedup d' = snapshot_dedup d6" "sessions d' = sessions d"
    using same1 ss' s2 by (simp_all add: f1)
  have "list_all (\<lambda>m. at_least d' server (mp_revision m)) (ia_manifests a)" "manifests_keyed d'"
    using stored keyed same(1) by (simp_all add: at_least_def stored_revision_def manifests_keyed_def)
  moreover have "none_apply (ack_applies server i now) d'" if "i \<in> set (ia_acks a)" for i
    using apply_results_settle [of "ack_applies server i now" d3 "ia_results a" server now]
      apply_acks_settle [of server i now d2 "ia_acks a"] that same(2) by (simp add: none_apply_def as rs)
  moreover have "none_apply (result_applies server (ar_action x) now) d'" if "x \<in> set (ia_results a)" for x
    using apply_results_settle [of "result_applies server (ar_action x) now" d3 "ia_results a" server now] that same(2)
    by (auto simp: none_apply_def rs)
  moreover have "list_all (\<lambda>b. nb_events b = [] \<or> batch_claimed d' server (nb_envelope b)) (ia_batches a)"
    using insert_event_batches_claims [OF es] same(3) by (simp add: batch_claimed_def)
  moreover have "list_all (\<lambda>s. snapshot_claimed d' server (np_envelope s)) (ia_snapshots a)"
    using insert_snapshots_claims [OF ss] same(4) by (simp add: snapshot_claimed_def)
  moreover have "ia_bans a = [] \<or> list_all (\<lambda>v. sv_id v = server \<longrightarrow> sv_bans_revision v = Some (last (ia_bans a))) (servers d')"
    using report_bans_last [of "ia_bans a" _ d6 server now] by (auto simp: d' list_all_iff)
  moreover have "map sv_id (servers d') = map sv_id (servers d)"
    using sv sv2 by (simp add: d' report_bans_def map_update_where f1)
  ultimately show ?thesis using same(5) ack by (simp add: effects_held_def list_all_iff)
qed

subsection \<open>What a batch asks for\<close>

fun record_count :: "prepared \<Rightarrow> nat" where
  "record_count (EventRecords es) = length es"
| "record_count _ = 0"

definition records_total :: "(string \<times> prepared) list \<Rightarrow> nat" where
  "records_total ps = sum_list (map (\<lambda>p. record_count (snd p)) ps)"

definition answered :: "notice \<Rightarrow> inbound_application \<Rightarrow> bool" where
  "answered n a = (n \<in> set (ia_notices a) \<or> length (ia_notices a) \<ge> max_notices_per_poll)"

text \<open>
  How one accepted envelope is accounted for: its effect is asked for, or a refusal is owed a notice,
  which is queued unless this poll has already queued its share.  \<open>over_budget\<close> is the one reason to
  refuse a valid batch of events.
\<close>

fun accounted :: "bool \<Rightarrow> (string \<Rightarrow> notice) \<Rightarrow> inbound_application \<Rightarrow> string \<times> prepared \<Rightarrow> bool" where
  "accounted over_budget over a (eid, ManifestPublish m) = (m \<in> set (ia_manifests a))"
| "accounted over_budget over a (eid, ManifestReject n) = answered n a"
| "accounted over_budget over a (eid, ActionAck i) = (i \<in> set (ia_acks a))"
| "accounted over_budget over a (eid, ActionOutcome r) = (r \<in> set (ia_results a))"
| "accounted over_budget over a (eid, ActionUnusable) = True"
| "accounted over_budget over a (eid, EventRecords es) =
     (\<lparr>nb_envelope = eid, nb_events = es\<rparr> \<in> set (ia_batches a) \<or> over_budget \<and> answered (over eid) a)"
| "accounted over_budget over a (eid, EventsReject n) = answered n a"
| "accounted over_budget over a (eid, StateRecord s) = (s \<in> set (ia_snapshots a))"
| "accounted over_budget over a (eid, StateReject n) = answered n a"
| "accounted over_budget over a (eid, BansApplied r) = (r \<in> set (ia_bans a))"
| "accounted over_budget over a (eid, Unmodelled) = True"

definition fresh_records :: "string set \<Rightarrow> inbound_application \<Rightarrow> nat" where
  "fresh_records replayed a = sum_list (map (\<lambda>b. length (nb_events b)) (filter (\<lambda>b. nb_envelope b \<notin> replayed) (ia_batches a)))"

definition grows :: "inbound_application \<Rightarrow> inbound_application \<Rightarrow> bool" where
  "grows a b =
     (set (ia_manifests a) \<subseteq> set (ia_manifests b) \<and> prefix (ia_notices a) (ia_notices b) \<and> set (ia_acks a) \<subseteq> set (ia_acks b)
      \<and> set (ia_results a) \<subseteq> set (ia_results b) \<and> set (ia_batches a) \<subseteq> set (ia_batches b)
      \<and> set (ia_snapshots a) \<subseteq> set (ia_snapshots b) \<and> set (ia_bans a) \<subseteq> set (ia_bans b)
      \<and> ia_ack a = ia_ack b \<and> ia_accepted a = ia_accepted b)"

lemma grows_refl: "grows a a" by (simp add: grows_def)

lemma grows_trans: "grows a b \<Longrightarrow> grows b c \<Longrightarrow> grows a c"
  using prefix_order.trans by (auto simp: grows_def)

lemma answered_grows: "answered n a \<Longrightarrow> grows a b \<Longrightarrow> answered n b"
  unfolding answered_def grows_def by (meson dual_order.trans prefix_length_le set_mono_prefix subsetD)

lemma accounted_grows: "accounted o1 over a p \<Longrightarrow> (o1 \<Longrightarrow> o2) \<Longrightarrow> grows a b \<Longrightarrow> accounted o2 over b p"
  by (cases "(o1, over, a, p)" rule: accounted.cases) (use answered_grows in \<open>auto simp: grows_def\<close>)

lemma queue_notice_step: "grows a (queue_notice n a)" "answered n (queue_notice n a)"
  "length (ia_notices a) \<le> max_notices_per_poll \<Longrightarrow> length (ia_notices (queue_notice n a)) \<le> max_notices_per_poll"
  "fresh_records replayed (queue_notice n a) = fresh_records replayed a"
  by (simp_all add: grows_def answered_def queue_notice_def fresh_records_def)

lemma accept_step:
  "grows a (fst (accept_envelope replayed over eid p (a, b)))"
  "accounted (b < record_count p) over (fst (accept_envelope replayed over eid p (a, b))) (eid, p)"
  "b \<le> snd (accept_envelope replayed over eid p (a, b)) + record_count p"
  "snd (accept_envelope replayed over eid p (a, b)) \<le> b"
  "fresh_records replayed (fst (accept_envelope replayed over eid p (a, b))) + snd (accept_envelope replayed over eid p (a, b))
     = fresh_records replayed a + b"
  "length (ia_notices a) \<le> max_notices_per_poll \<Longrightarrow>
     length (ia_notices (fst (accept_envelope replayed over eid p (a, b)))) \<le> max_notices_per_poll"
  by (cases p; auto simp: queue_notice_step; auto simp: grows_def take_batch_def fresh_records_def)+

lemma accept_one:
  assumes "accept_envelope replayed over eid p (a, b) = (a1, b1)"
  shows "grows a a1" and "accounted (b < record_count p) over a1 (eid, p)" and "b \<le> b1 + record_count p" and "b1 \<le> b"
    and "fresh_records replayed a1 + b1 = fresh_records replayed a + b"
    and "length (ia_notices a) \<le> max_notices_per_poll \<Longrightarrow> length (ia_notices a1) \<le> max_notices_per_poll"
  using accept_step [where eid = eid and p = p and a = a and b = b and replayed = replayed and over = over]
  by (simp_all only: assms fst_conv snd_conv)

lemma accept_all:
  "fold (\<lambda>(eid, p). accept_envelope replayed over eid p) ps (a, b) = (a', b') \<Longrightarrow>
     grows a a' \<and> list_all (accounted (b < records_total ps) over a') ps \<and> b' \<le> b
     \<and> fresh_records replayed a' + b' = fresh_records replayed a + b
     \<and> (length (ia_notices a) \<le> max_notices_per_poll \<longrightarrow> length (ia_notices a') \<le> max_notices_per_poll)"
proof (induction ps arbitrary: a b)
  case Nil
  then show ?case by (simp add: grows_refl)
next
  case (Cons x ps)
  obtain eid p where x: "x = (eid, p)" by fastforce
  obtain a1 b1 where one: "accept_envelope replayed over eid p (a, b) = (a1, b1)" by fastforce
  with Cons.prems have "fold (\<lambda>(eid, p). accept_envelope replayed over eid p) ps (a1, b1) = (a', b')" by (simp add: x)
  note IH = Cons.IH [OF this] and step = accept_one [OF one]
  have total: "records_total (x # ps) = record_count p + records_total ps" by (simp add: records_total_def x)
  have "accounted (b < records_total (x # ps)) over a' (eid, p)"
    by (rule accounted_grows [OF step(2)]) (use IH total in auto)
  moreover have "accounted (b < records_total (x # ps)) over a' q" if "q \<in> set ps" for q
  proof (rule accounted_grows [of "b1 < records_total ps"])
    show "accounted (b1 < records_total ps) over a' q" using IH that by (simp add: list_all_iff)
    show "b1 < records_total ps \<Longrightarrow> b < records_total (x # ps)" using step(3) total by simp
  qed (rule grows_refl)
  ultimately show ?case using IH step grows_trans [OF step(1)] by (auto simp: x list_all_iff)
qed

subsection \<open>An ack promises that its effects are stored\<close>

text \<open>What the ack of one accepted envelope promises the plugin about the database.\<close>

fun durable :: "bool \<Rightarrow> db \<Rightarrow> string \<Rightarrow> time \<Rightarrow> string \<times> prepared \<Rightarrow> bool" where
  "durable over_budget d server now (eid, ManifestPublish m) = at_least d server (mp_revision m)"
| "durable over_budget d server now (eid, ActionAck i) = none_apply (ack_applies server i now) d"
| "durable over_budget d server now (eid, ActionOutcome r) = none_apply (result_applies server (ar_action r) now) d"
| "durable over_budget d server now (eid, EventRecords es) = (es = [] \<or> batch_claimed d server eid \<or> over_budget)"
| "durable over_budget d server now (eid, StateRecord s) = snapshot_claimed d server (np_envelope s)"
| "durable over_budget d server now (eid, BansApplied r) =
     list_all (\<lambda>v. sv_id v = server \<longrightarrow> sv_bans_revision v \<noteq> None) (servers d)"
| "durable over_budget d server now (eid, p) = True"

lemma accounted_durable:
  "accounted over_budget over a p \<Longrightarrow> effects_held d server now a \<Longrightarrow> durable over_budget d server now p"
  by (cases "(over_budget, d, server, now, p)" rule: durable.cases)
    (fastforce simp: effects_held_def list_all_iff)+

definition inbound_sane :: "db \<Rightarrow> bool" where
  "inbound_sane d =
     (distinct (map ss_id (sessions d)) \<and> list_all (\<lambda>s. 0 \<le> ss_inbound_ack s \<and> ss_inbound_ack s < 2 ^ 63) (sessions d))"

definition taken :: "int \<Rightarrow> inbound_envelope list \<Rightarrow> inbound_envelope list" where
  "taken ack es = snd (accept_next ack es)"

lemma poll_application_accounts:
  assumes "seqs_fit es" and "0 \<le> ack" and "ack < 2 ^ 63"
    and a: "a = poll_application prepare replayed over es ack"
    and ps: "ps = map (\<lambda>e. (ie_id e, prepare e)) (taken ack es)"
  shows "ia_ack a = fst (accept_next ack es)" and "ia_accepted a = int (length (taken ack es))"
    and "list_all (accounted (max_events_per_poll < records_total ps) over a) ps"
    and "length (ia_notices a) \<le> max_notices_per_poll" and "fresh_records replayed a \<le> max_events_per_poll"
proof -
  let ?b = "classify_inbound ack es"
  let ?a0 = "(no_application (ib_ack ?b))\<lparr>ia_accepted := int (length (ib_accepted ?b))\<rparr>"
  note acc = classify_inbound_accepts(1) [OF assms(1-3)]
  then have t: "taken ack es = map (\<lambda>i. es ! i) (ib_accepted ?b)" and ack: "fst (accept_next ack es) = ib_ack ?b"
    by (simp_all add: taken_def)
  obtain a' b' where run: "fold (\<lambda>(eid, p). accept_envelope replayed over eid p) ps (?a0, max_events_per_poll) = (a', b')"
    by fastforce
  have "fold (\<lambda>i. accept_envelope replayed over (ie_id (es ! i)) (prepare (es ! i))) is s
      = fold (\<lambda>(eid, p). accept_envelope replayed over eid p) (map (\<lambda>e. (ie_id e, prepare e)) (map (\<lambda>i. es ! i) is)) s" for "is" s
    by (induction "is" arbitrary: s) simp_all
  then have "a = fst (fold (\<lambda>(eid, p). accept_envelope replayed over eid p) ps (?a0, max_events_per_poll))"
    unfolding a ps t poll_application_def Let_def by presburger
  with run have a': "a = a'" by simp
  note all = accept_all [OF run, folded a']
  from all show "list_all (accounted (max_events_per_poll < records_total ps) over a) ps" by blast
  from all show "ia_ack a = fst (accept_next ack es)" "ia_accepted a = int (length (taken ack es))"
    by (simp_all add: grows_def no_application_def ack t)
  from all show "length (ia_notices a) \<le> max_notices_per_poll" "fresh_records replayed a \<le> max_events_per_poll"
    by (simp_all add: no_application_def fresh_records_def)
qed

lemma apply_inboundE:
  assumes "apply_inbound shuffle draw d sid classify limit declaring live_now now = Inr (r, d')"
  obtains s owner list_rev a where "find (\<lambda>s. ss_id s = sid) (sessions d) = Some owner" "live_session_row d sid live_now = Some s"
    "lock_server d (ss_server owner)" "a = (if ia_ack (classify (ss_inbound_ack s)) < ss_inbound_ack s then no_application (ss_inbound_ack s)
          else classify (ss_inbound_ack s))"
    "apply_effects shuffle list_rev limit draw (ss_server owner) now a (record_inbound_ack d sid (ss_inbound_ack s) a) = Inr (r, d')"
  using assms by (auto simp: apply_inbound_def Let_def split: option.splits if_splits)

lemma record_inbound_ack_frame: "\<exists>t. record_inbound_ack d sid ack a = d\<lparr>sessions := t\<rparr>"
proof -
  have "d = d\<lparr>sessions := sessions d\<rparr>" by simp
  then show ?thesis unfolding record_inbound_ack_def by (metis (full_types))
qed

lemma record_inbound_ack_sane:
  assumes "inbound_sane d" and "s \<in> set (sessions d)" and "ss_id s = sid"
    and "ia_ack a = ss_inbound_ack s \<or> 0 < ia_accepted a" and "ss_inbound_ack s \<le> ia_ack a" and "ia_ack a < 2 ^ 63"
  shows "inbound_sane (record_inbound_ack d sid (ss_inbound_ack s) a)"
    and "\<exists>x. find (\<lambda>x. ss_id x = sid) (sessions (record_inbound_ack d sid (ss_inbound_ack s) a)) = Some x \<and> ss_inbound_ack x = ia_ack a"
proof -
  let ?f = "\<lambda>s. s\<lparr>ss_inbound_ack := ia_ack a, ss_inbound_count := ss_inbound_count s + ia_accepted a\<rparr>"
  have found: "find (\<lambda>x. ss_id x = sid) (sessions d) = Some s"
    using find_unique [of ss_id "sessions d" s] assms(1-3) by (simp add: inbound_sane_def)
  have pos: "0 \<le> ss_inbound_ack s" using assms(1,2) by (auto simp: inbound_sane_def list_all_iff)
  have "distinct (map ss_id (update_where (\<lambda>x. ss_id x = sid) ?f (sessions d)))"
    using assms(1) by (simp add: map_update_where inbound_sane_def)
  moreover have "0 \<le> ss_inbound_ack x \<and> ss_inbound_ack x < 2 ^ 63"
    if "x \<in> set (update_where (\<lambda>x. ss_id x = sid) ?f (sessions d))" for x
    using that by (rule update_whereE) (use assms(1,5,6) pos in \<open>auto simp: inbound_sane_def list_all_iff\<close>)
  ultimately show "inbound_sane (record_inbound_ack d sid (ss_inbound_ack s) a)"
    using assms(1) by (auto simp: record_inbound_ack_def inbound_sane_def list_all_iff)
  show "\<exists>x. find (\<lambda>x. ss_id x = sid) (sessions (record_inbound_ack d sid (ss_inbound_ack s) a)) = Some x \<and> ss_inbound_ack x = ia_ack a"
    using assms(3-5) found by (auto simp: record_inbound_ack_def find_update_where)
qed

lemma committed_poll:
  assumes "apply_inbound shuffle draw d sid (poll_application prepare replayed over es) limit declaring live_now now = Inr (r, d')"
    and "seqs_fit es" and "inbound_sane d" and "manifests_keyed d"
  shows "\<exists>s s'. live_session_row d sid live_now = Some s \<and> find (\<lambda>x. ss_id x = sid) (sessions d') = Some s'
    \<and> ss_inbound_ack s' = ip_ack r \<and> ss_inbound_ack s \<le> ip_ack r \<and> inbound_sane d'
    \<and> map ie_seq (taken (ss_inbound_ack s) es) = [ss_inbound_ack s + 1..ip_ack r]
    \<and> list_all (\<lambda>e. durable (max_events_per_poll < records_total (map (\<lambda>e. (ie_id e, prepare e)) (taken (ss_inbound_ack s) es)))
         d' (ss_server s) now (ie_id e, prepare e)) (taken (ss_inbound_ack s) es)"
proof -
  let ?classify = "poll_application prepare replayed over es"
  obtain s owner list_rev a where s: "find (\<lambda>s. ss_id s = sid) (sessions d) = Some owner" "live_session_row d sid live_now = Some s"
    "lock_server d (ss_server owner)" and a: "a = (if ia_ack (?classify (ss_inbound_ack s)) < ss_inbound_ack s then no_application (ss_inbound_ack s)
          else ?classify (ss_inbound_ack s))"
    and run: "apply_effects shuffle list_rev limit draw (ss_server owner) now a (record_inbound_ack d sid (ss_inbound_ack s) a) = Inr (r, d')"
    by (rule apply_inboundE [OF assms(1)])
  from live_session_rowD [OF s(2)] have in_s: "s \<in> set (sessions d)" "ss_id s = sid" by auto
  with assms(3) have fit: "0 \<le> ss_inbound_ack s" "ss_inbound_ack s < 2 ^ 63" by (auto simp: inbound_sane_def list_all_iff)
  note acc = poll_application_accounts [OF assms(2) fit refl refl, where prepare = prepare and replayed = replayed and over = over]
  note seqs = accept_next_seqs [of "ss_inbound_ack s" es]
  have "owner = s" using find_unique [of ss_id "sessions d" s] in_s s(1) assms(3) by (simp add: inbound_sane_def)
  have a: "a = ?classify (ss_inbound_ack s)" using a acc(1) seqs by auto
  have ack: "ia_ack a = fst (accept_next (ss_inbound_ack s) es)" using acc(1) a by simp
  have len: "ia_ack a = ss_inbound_ack s + ia_accepted a"
  proof -
    have "length (taken (ss_inbound_ack s) es) = length [ss_inbound_ack s + 1..ia_ack a]"
      using seqs by (metis ack length_map taken_def)
    then show ?thesis using acc(2) a seqs ack by simp
  qed
  let ?d = "record_inbound_ack d sid (ss_inbound_ack s) a"
  have le: "ss_inbound_ack s \<le> ia_ack a" and lt: "ia_ack a < 2 ^ 63"
    using seqs accept_next_bounded [OF assms(2) fit(2)] by (simp_all add: ack)
  then have moved: "ia_ack a = ss_inbound_ack s \<or> 0 < ia_accepted a" using len by linarith
  note sane = record_inbound_ack_sane [OF assms(3) in_s moved le lt]
  have "manifests_keyed ?d" using record_inbound_ack_frame [of d sid "ss_inbound_ack s" a] assms(4)
    by (auto simp: manifests_keyed_def)
  note held = apply_effects_held [OF run this]
  have "inbound_sane d'" using sane(1) held by (simp add: inbound_sane_def)
  moreover from sane(2) held obtain x where "find (\<lambda>x. ss_id x = sid) (sessions d') = Some x" "ss_inbound_ack x = ip_ack r" by auto
  moreover have "map ie_seq (taken (ss_inbound_ack s) es) = [ss_inbound_ack s + 1..ip_ack r]"
    using seqs held ack by (simp add: taken_def)
  moreover have "list_all (\<lambda>e. durable (max_events_per_poll < records_total (map (\<lambda>e. (ie_id e, prepare e)) (taken (ss_inbound_ack s) es)))
         d' (ss_server s) now (ie_id e, prepare e)) (taken (ss_inbound_ack s) es)"
    using acc(3) held accounted_durable \<open>owner = s\<close> by (auto simp: list_all_iff a)
  ultimately show ?thesis using s(2) le held by auto
qed


subsection \<open>A poll sent again\<close>

definition nothing_applied :: "int \<Rightarrow> inbound_applied" where
  "nothing_applied ack = \<lparr>ip_ack = ack, ip_manifests = 0, ip_notices = 0, ip_started = 0, ip_finished = 0, ip_events = 0,
     ip_snapshots = 0, ip_bans = 0\<rparr>"

lemma apply_no_effects: "apply_effects shuffle list_rev limit draw server now (no_application ack) d = Inr (nothing_applied ack, d)"
  by (simp add: apply_effects_def no_application_def nothing_applied_def insert_snapshots_def report_bans_def)

lemma classify_covered:
  assumes "list_all (\<lambda>e. ie_seq e \<le> ack) es"
  shows "ib_ack (classify_inbound ack es) = ack \<and> ib_accepted (classify_inbound ack es) = []"
proof -
  have "ib_ack (foldl classify_one b (enumerate n es)) = ib_ack b \<and> ib_accepted (foldl classify_one b (enumerate n es)) = ib_accepted b"
    if "list_all (\<lambda>e. ie_seq e \<le> ib_ack b) es" for b n using that
    by (induction es arbitrary: b n) (simp_all add: classify_one_def)
  with assms show ?thesis by (simp add: classify_inbound_def)
qed

lemma covered_application: "list_all (\<lambda>e. ie_seq e \<le> ack) es \<Longrightarrow> poll_application prepare replayed over es ack = no_application ack"
  using classify_covered [of ack es] by (simp add: poll_application_def Let_def no_application_def)

lemma lock_server_ids: "map sv_id (servers a) = map sv_id (servers b) \<Longrightarrow> lock_server a i = lock_server b i"
proof -
  have "lock_server d i \<longleftrightarrow> i \<in> set (map sv_id (servers d))" for d by (auto simp: lock_server_def exists_row_def)
  then show "map sv_id (servers a) = map sv_id (servers b) \<Longrightarrow> lock_server a i = lock_server b i" by metis
qed

lemma covered_poll_noop:
  assumes "find (\<lambda>s. ss_id s = sid) (sessions d) = Some owner" and "lock_server d (ss_server owner)"
    and "live_session_row d sid live_now = Some s" and "list_all (\<lambda>e. ie_seq e \<le> ss_inbound_ack s) es"
  shows "apply_inbound shuffle draw d sid (poll_application prepare replayed over es) limit declaring live_now now
    = Inr (nothing_applied (ss_inbound_ack s), d)"
  using assms by (simp add: apply_inbound_def covered_application apply_no_effects Let_def record_inbound_ack_def
      no_application_def [THEN arg_cong [of _ _ ia_accepted]])

text \<open>
  A poll whose answer was lost may be sent again: once a batch has committed with nothing beyond a gap, applying
  the same envelopes again while the session lives, whatever their bodies are made of then and whatever the
  clocks say, stores nothing, starts and finishes nothing, queues no notice, leaves the database as it is,
  and answers the same ack.
\<close>

lemma resent_poll_harmless:
  assumes "apply_inbound shuffle draw d sid (poll_application prepare replayed over es) limit declaring live_now now = Inr (r, d')"
    and "seqs_fit es" and "inbound_sane d" and "manifests_keyed d" and "list_all (\<lambda>e. ie_seq e \<le> ip_ack r) es"
    and "live_session_row d' sid later \<noteq> None"
  shows "apply_inbound shuffle' draw' d' sid (poll_application prepare' replayed' over' es) limit' declaring' later now'
    = Inr (nothing_applied (ip_ack r), d')"
proof -
  obtain s owner list_rev a where s: "find (\<lambda>s. ss_id s = sid) (sessions d) = Some owner" "live_session_row d sid live_now = Some s"
    "lock_server d (ss_server owner)" and a: "a = (if ia_ack (poll_application prepare replayed over es (ss_inbound_ack s)) < ss_inbound_ack s
          then no_application (ss_inbound_ack s) else poll_application prepare replayed over es (ss_inbound_ack s))"
    and run: "apply_effects shuffle list_rev limit draw (ss_server owner) now a (record_inbound_ack d sid (ss_inbound_ack s) a) = Inr (r, d')"
    by (rule apply_inboundE [OF assms(1)])
  let ?d = "record_inbound_ack d sid (ss_inbound_ack s) a"
  obtain t where t: "?d = d\<lparr>sessions := t\<rparr>" using record_inbound_ack_frame by blast
  have "manifests_keyed ?d" using assms(4) by (simp add: t manifests_keyed_def)
  note held = apply_effects_held [OF run this]
  from committed_poll [OF assms(1-4)] obtain x where x: "find (\<lambda>x. ss_id x = sid) (sessions d') = Some x"
    "ss_inbound_ack x = ip_ack r" "inbound_sane d'" by blast
  from assms(6) obtain y where y: "live_session_row d' sid later = Some y" by blast
  from live_session_rowD [OF y] have "y \<in> set (sessions d')" "ss_id y = sid" by auto
  then have xy: "x = y" using find_unique [of ss_id "sessions d'" y] x by (simp add: inbound_sane_def)
  have "\<exists>o'. find (\<lambda>s. ss_id s = sid) (sessions ?d) = Some o' \<and> ss_server o' = ss_server owner"
    using s(1) by (auto simp: record_inbound_ack_def find_update_where)
  then have "ss_server x = ss_server owner" using x(1) held by auto
  moreover have "map sv_id (servers d') = map sv_id (servers d)" using held by (simp add: t)
  ultimately have "lock_server d' (ss_server x)" using s(3) lock_server_ids by metis
  from covered_poll_noop [OF x(1) this y [folded xy]] assms(5) x(2) show ?thesis by simp
qed

text \<open>
  One poll can ask only so much of the transaction, however wrong or large it is: it queues at most twenty
  refusal notices and stores at most a thousand events that were not stored before.  Within those bounds
  every accepted envelope is accounted for: its effect is asked for, or its refusal is answered.
\<close>

lemma poll_bounded_and_accounted:
  assumes "seqs_fit es" and "0 \<le> ack" and "ack < 2 ^ 63" and "a = poll_application prepare replayed over es ack"
  shows "length (ia_notices a) \<le> 20 \<and> fresh_records replayed a \<le> 1000
    \<and> list_all (accounted (1000 < records_total (map (\<lambda>e. (ie_id e, prepare e)) (taken ack es))) over a)
        (map (\<lambda>e. (ie_id e, prepare e)) (taken ack es))"
  using poll_application_accounts(3-5) [OF assms refl]
  by (simp add: max_notices_per_poll_def max_events_per_poll_def)

subsection \<open>The theorems on one poll\<close>

definition sample_prepare :: "inbound_envelope \<Rightarrow> prepared" where
  "sample_prepare e =
     (if ie_type e = ''bans.applied'' then BansApplied 7
      else if ie_type e = ''event.batch'' then EventRecords [sample_event] else Unmodelled)"

definition sample_over :: "string \<Rightarrow> notice" where
  "sample_over eid = \<lparr>nc_type = ''event.reject'', nc_body = eid\<rparr>"

definition sample_poll :: "inbound_envelope list" where
  "sample_poll = [(sample_inbound 1)\<lparr>ie_type := ''bans.applied''\<rparr>, (sample_inbound 2)\<lparr>ie_type := ''event.batch''\<rparr>]"

definition sample_apply :: "db \<Rightarrow> store_error + (inbound_applied \<times> db)" where
  "sample_apply d =
     apply_inbound id (\<lambda>k. (''n'', 0)) d ''S'' (poll_application sample_prepare {} sample_over sample_poll) 100 False 0 0"

fun ack_and_live :: "store_error + (inbound_applied \<times> db) \<Rightarrow> bool" where
  "ack_and_live (Inr (r, d)) = (ip_ack r = 2 \<and> ip_events r = 1 \<and> live_session_row d ''S'' 0 \<noteq> None)"
| "ack_and_live (Inl err) = False"

lemma sample_applied: obtains r d' where "sample_apply sample_link = Inr (r, d')" "ip_ack r = 2" "ip_events r = 1"
    "live_session_row d' ''S'' 0 \<noteq> None"
proof -
  have "ack_and_live (sample_apply sample_link)" by code_simp
  then show thesis using that by (cases "sample_apply sample_link" rule: ack_and_live.cases) auto
qed
lemma sample_poll_ok:
  "seqs_fit sample_poll" "inbound_sane sample_link" "manifests_keyed sample_link" "list_all (\<lambda>e. ie_seq e \<le> 2) sample_poll"
  by (simp_all add: seqs_fit_def sample_poll_def sample_inbound_def inbound_sane_def sample_session_def manifests_keyed_def
      sample_link_def [THEN arg_cong [of _ _ manifests]])


lemma resent_poll_harmless_witness:
  "\<exists>r d'. sample_apply sample_link = Inr (r, d') \<and> ip_events r = 1 \<and> sample_apply d' = Inr (nothing_applied 2, d')"
proof -
  obtain r d' where run: "sample_apply sample_link = Inr (r, d')" "ip_ack r = 2" "ip_events r = 1" "live_session_row d' ''S'' 0 \<noteq> None"
    by (rule sample_applied)
  have "list_all (\<lambda>e. ie_seq e \<le> ip_ack r) sample_poll" using sample_poll_ok(4) run(2) by simp
  from resent_poll_harmless [OF run(1) [unfolded sample_apply_def] sample_poll_ok(1-3) this run(4)] run
  show ?thesis unfolding sample_apply_def by metis
qed

lemma poll_bounded_and_accounted_witness:
  "length (ia_batches (poll_application sample_prepare {} sample_over sample_poll 0)) = 1
   \<and> length (ia_notices (poll_application sample_prepare {} sample_over sample_poll 0)) \<le> 20"
proof -
  have "length (ia_batches (poll_application sample_prepare {} sample_over sample_poll 0)) = 1" by code_simp
  moreover have "length (ia_notices (poll_application sample_prepare {} sample_over sample_poll 0)) \<le> 20"
    using poll_bounded_and_accounted [OF sample_poll_ok(1), of 0 _ sample_prepare "{}" sample_over] by simp
  ultimately show ?thesis by blast
qed

end
