(* ===== verification/Schema.thy ===== *)
theory Schema
  imports Db Complex_Main
begin

text \<open>
  hub/internal/schema/schema.go: the closed JSON Schema subset a manifest may describe parameters in,
  compiled at publish and enforced at dispatch.

  A decoded JSON document (\<open>json.Unmarshal\<close> into \<open>any\<close>) is a \<open>value\<close>: a number is the float64 it was read
  as, so a rational, and an object is a Go map, kept here as its members in the order of their names
  (\<open>canonical\<close>), which makes \<open>reflect.DeepEqual\<close> equality and \<open>sortedKeys\<close> the order of the list.  The
  renderings of \<open>%q\<close> and \<open>%v\<close> are the record \<open>printer\<close>.
\<close>

subsection \<open>Documents\<close>

datatype jvalue =
    VNull
  | VBool bool
  | VNum rat
  | VStr string
  | VArr "jvalue list"
  | VObj "(string \<times> jvalue) list"

record fault =
  ft_path :: string
  ft_message :: string

record printer =
  pt_quote :: "string \<Rightarrow> string"
  pt_number :: "rat \<Rightarrow> string"

definition fault_at :: "string \<Rightarrow> string \<Rightarrow> fault" where
  "fault_at path message = \<lparr>ft_path = path, ft_message = message\<rparr>"

definition join_path :: "string \<Rightarrow> string \<Rightarrow> string" where
  "join_path path key = (if path = '''' then key else path @ ''.'' @ key)"

definition index_path :: "string \<Rightarrow> nat \<Rightarrow> string" where
  "index_path path i = path @ ''['' @ show_int (int i) @ '']''"

definition max_depth :: nat where "max_depth = 32"
definition max_context_id_length :: nat where "max_context_id_length = 64"
definition max_context_refs :: nat where "max_context_refs = 16"
definition max_kv_namespace_length :: nat where "max_kv_namespace_length = 64"
definition max_exact_number :: rat where "max_exact_number = 2 ^ 53"

definition type_names :: "string list" where
  "type_names = [''object'', ''array'', ''string'', ''integer'', ''number'', ''boolean'', ''null'']"

fun integral :: "rat \<Rightarrow> bool" where
  "integral n = (n = of_int \<lfloor>n\<rfloor>)"

fun type_matches :: "string \<Rightarrow> jvalue \<Rightarrow> bool" where
  "type_matches name (VObj ms) = (name = ''object'')"
| "type_matches name (VArr vs) = (name = ''array'')"
| "type_matches name (VStr s) = (name = ''string'')"
| "type_matches name (VBool b) = (name = ''boolean'')"
| "type_matches name VNull = (name = ''null'')"
| "type_matches name (VNum n) = (name = ''number'' \<or> name = ''integer'' \<and> integral n)"

fun json_type_name :: "jvalue \<Rightarrow> string" where
  "json_type_name (VObj ms) = ''object''"
| "json_type_name (VArr vs) = ''array''"
| "json_type_name (VStr s) = ''string''"
| "json_type_name (VBool b) = ''boolean''"
| "json_type_name (VNum n) = ''number''"
| "json_type_name VNull = ''null''"

subsection \<open>Compiled schemas\<close>

record constraints =
  ct_type :: string
  ct_enum :: "jvalue list option"
  ct_required :: "string list"
  ct_minimum :: "rat option"
  ct_maximum :: "rat option"
  ct_above :: "rat option"
  ct_below :: "rat option"
  ct_excluded :: "jvalue list"
  ct_contexts :: "string list option"
  ct_kv :: string

text \<open>The node's own keywords, its properties in order, its items; a child that did not compile is \<open>None\<close>.\<close>

datatype schema = Schema constraints "(string \<times> schema option) list" "schema option"

definition no_constraints :: constraints where
  "no_constraints =
     \<lparr>ct_type = '''', ct_enum = None, ct_required = [], ct_minimum = None, ct_maximum = None, ct_above = None,
      ct_below = None, ct_excluded = [], ct_contexts = None, ct_kv = ''''\<rparr>"

definition exact :: "rat \<Rightarrow> bool" where
  "exact n = (if \<not> integral n then True else - max_exact_number < n \<and> n < max_exact_number)"

lemma size_members: "size_prod (\<lambda>x. 0) f = (\<lambda>p. Suc (f (snd p)))"
  by (auto simp: fun_eq_iff)

text \<open>The result of the Go function is whether this list is empty.\<close>

function inexact_constants :: "jvalue \<Rightarrow> string \<Rightarrow> fault list"
  and inexact_elements :: "jvalue list \<Rightarrow> string \<Rightarrow> nat \<Rightarrow> fault list"
  and inexact_members :: "(string \<times> jvalue) list \<Rightarrow> string \<Rightarrow> fault list" where
  "inexact_constants (VNum n) path =
     (if exact n then [] else [fault_at path ''numbers beyond 2^53 in magnitude cannot be compared exactly''])"
| "inexact_constants (VArr vs) path = inexact_elements vs path 0"
| "inexact_constants (VObj ms) path = inexact_members ms path"
| "inexact_constants VNull path = []"
| "inexact_constants (VBool b) path = []"
| "inexact_constants (VStr s) path = []"
| "inexact_elements [] path i = []"
| "inexact_elements (v # vs) path i = inexact_constants v (index_path path i) @ inexact_elements vs path (Suc i)"
| "inexact_members [] path = []"
| "inexact_members ((k, v) # ms) path = inexact_constants v (join_path path k) @ inexact_members ms path"
  by pat_completeness auto
termination
  by (relation "measure (case_sum (\<lambda>(v, path). size v)
        (case_sum (\<lambda>(vs, path, i). size_list size vs) (\<lambda>(ms, path). size_list (\<lambda>p. Suc (size (snd p))) ms)))")
    (auto simp: size_list_conv_sum_list size_members)

definition compile_bound :: "jvalue \<Rightarrow> string \<Rightarrow> rat option \<times> fault list" where
  "compile_bound v path =
     (case v of
        VNum n \<Rightarrow>
          if \<not> exact n then (None, [fault_at path ''numbers beyond 2^53 in magnitude cannot be enforced exactly''])
          else (Some n, [])
      | _ \<Rightarrow> (None, [fault_at path ''numeric bounds must be numbers'']))"

text \<open>The first member name other than \<open>enum\<close> is the one fault.\<close>

definition compile_exclusion :: "printer \<Rightarrow> jvalue \<Rightarrow> string \<Rightarrow> jvalue list \<times> fault list" where
  "compile_exclusion pr v path =
     (case v of
        VObj ms \<Rightarrow>
          (case find (\<lambda>k. k \<noteq> ''enum'') (map fst ms) of
             Some k \<Rightarrow> ([], [fault_at (join_path path k)
               (''keyword '' @ pt_quote pr k @ '' inside not is outside the subset: not admits only {\"enum\": [...]}'')])
           | None \<Rightarrow>
               (case map_of ms ''enum'' of
                  Some (VArr members) \<Rightarrow>
                    if members = []
                    then ([], [fault_at (join_path path ''enum'') ''not must carry a non-empty enum of the values it excludes''])
                    else (case inexact_elements members (join_path path ''enum'') 0 of
                            [] \<Rightarrow> (members, [])
                          | f # fs \<Rightarrow> ([], f # fs))
                | _ \<Rightarrow> ([], [fault_at (join_path path ''enum'') ''not must carry a non-empty enum of the values it excludes''])))
      | _ \<Rightarrow> ([], [fault_at path ''not must be an object of the form {\"enum\": [...]}'']))"

fun context_loop :: "printer \<Rightarrow> string \<Rightarrow> jvalue list \<Rightarrow> nat \<Rightarrow> string list \<Rightarrow> string list option \<times> fault list" where
  "context_loop pr path [] i ids = (Some ids, [])"
| "context_loop pr path (VStr s # ms) i ids =
     (if s = '''' then (None, [fault_at path (index_path ''context'' i @ '' must be a non-empty context id'')])
      else if rune_count s > max_context_id_length
      then (None, [fault_at path (index_path ''context'' i @ '' is longer than '' @ show_int (int max_context_id_length) @ '' characters'')])
      else if s \<in> set ids then (None, [fault_at path (''context names '' @ pt_quote pr s @ '' more than once'')])
      else context_loop pr path ms (Suc i) (ids @ [s]))"
| "context_loop pr path (m # ms) i ids =
     (None, [fault_at path (index_path ''context'' i @ '' must be a non-empty context id'')])"

definition compile_context_refs :: "printer \<Rightarrow> jvalue \<Rightarrow> string \<Rightarrow> string list option \<times> fault list" where
  "compile_context_refs pr v path =
     (case (case v of VStr s \<Rightarrow> Some [VStr s] | VArr ms \<Rightarrow> Some ms | _ \<Rightarrow> None) of
        None \<Rightarrow> (None, [fault_at path ''context must be a context id or an array of them''])
      | Some members \<Rightarrow>
          if members = [] then (None, [fault_at path ''context must name at least one context''])
          else if length members > max_context_refs
          then (None, [fault_at path (''context may name at most '' @ show_int (int max_context_refs) @ '' contexts, got ''
                 @ show_int (int (length members)))])
          else context_loop pr path members 0 [])"

fun required_loop :: "string \<Rightarrow> jvalue list \<Rightarrow> nat \<Rightarrow> string list \<times> fault list" where
  "required_loop path [] i = ([], [])"
| "required_loop path (VStr s # ms) i = (case required_loop path ms (Suc i) of (ns, fs) \<Rightarrow> (s # ns, fs))"
| "required_loop path (m # ms) i =
     (case required_loop path ms (Suc i) of
        (ns, fs) \<Rightarrow> (ns, fault_at (index_path path i) ''required entries must be strings'' # fs))"

text \<open>One keyword other than \<open>properties\<close> and \<open>items\<close>.\<close>

definition simple_keyword :: "printer \<Rightarrow> string \<Rightarrow> jvalue \<Rightarrow> string \<Rightarrow> constraints \<Rightarrow> constraints \<times> fault list" where
  "simple_keyword pr k v child c =
     (if k = ''type'' then
        (case v of
           VStr name \<Rightarrow>
             if name \<in> set type_names then (c\<lparr>ct_type := name\<rparr>, [])
             else (c, [fault_at child ''type must be one of object, array, string, integer, number, boolean, null''])
         | _ \<Rightarrow> (c, [fault_at child ''type must be one of object, array, string, integer, number, boolean, null'']))
      else if k = ''enum'' then
        (case v of
           VArr vs \<Rightarrow>
             if vs = [] then (c, [fault_at child ''enum must be a non-empty array''])
             else (c\<lparr>ct_enum := Some vs\<rparr>, inexact_elements vs child 0)
         | _ \<Rightarrow> (c, [fault_at child ''enum must be a non-empty array'']))
      else if k = ''not'' then
        (if v = VNull then (c, [])
         else case compile_exclusion pr v child of (vs, fs) \<Rightarrow> (c\<lparr>ct_excluded := vs\<rparr>, fs))
      else if k = ''required'' then
        (case v of
           VArr ns \<Rightarrow> (case required_loop child ns 0 of (names, fs) \<Rightarrow> (c\<lparr>ct_required := ct_required c @ names\<rparr>, fs))
         | _ \<Rightarrow> (c, [fault_at child ''required must be an array of property names'']))
      else if k = ''minimum'' then (case compile_bound v child of (b, fs) \<Rightarrow> (c\<lparr>ct_minimum := b\<rparr>, fs))
      else if k = ''maximum'' then (case compile_bound v child of (b, fs) \<Rightarrow> (c\<lparr>ct_maximum := b\<rparr>, fs))
      else if k = ''exclusiveMinimum'' then (case compile_bound v child of (b, fs) \<Rightarrow> (c\<lparr>ct_above := b\<rparr>, fs))
      else if k = ''exclusiveMaximum'' then (case compile_bound v child of (b, fs) \<Rightarrow> (c\<lparr>ct_below := b\<rparr>, fs))
      else if k = ''default'' then (c, [])
      else if k = ''context'' then
        (if v = VNull then (c, [])
         else case compile_context_refs pr v child of (ids, fs) \<Rightarrow> (c\<lparr>ct_contexts := ids\<rparr>, fs))
      else if k = ''kvNamespace'' then
        (if v = VNull then (c, [])
         else case v of
           VStr name \<Rightarrow>
             if name = '''' then (c, [fault_at child ''kvNamespace must name a key/value namespace''])
             else if rune_count name > max_kv_namespace_length
             then (c, [fault_at child (''kvNamespace is longer than '' @ show_int (int max_kv_namespace_length) @ '' characters'')])
             else (c\<lparr>ct_kv := name\<rparr>, [])
         | _ \<Rightarrow> (c, [fault_at child ''kvNamespace must name a key/value namespace'']))
      else if k = ''x-vyshka-widget'' then
        (case v of VStr s \<Rightarrow> (c, []) | _ \<Rightarrow> (c, [fault_at child ''x-vyshka-widget must be a string'']))
      else (c, [fault_at child (''keyword '' @ pt_quote pr k @ '' is outside the schema subset this protocol enforces'')]))"

definition late_faults :: "string \<Rightarrow> constraints \<Rightarrow> fault list" where
  "late_faults path c =
     (if ct_contexts c \<noteq> None \<and> ct_type c \<noteq> ''string''
      then [fault_at (join_path path ''context'') ''context is an annotation for a string schema; add \"type\": \"string\" beside it'']
      else [])
     @ (if ct_kv c \<noteq> '''' \<and> ct_type c \<noteq> ''string''
        then [fault_at (join_path path ''kvNamespace'') ''kvNamespace is an annotation for a string schema; add \"type\": \"string\" beside it'']
        else [])"

text \<open>\<open>compile\<close>, its keyword loop and the loop over \<open>properties\<close>.\<close>

function compile_node :: "printer \<Rightarrow> jvalue \<Rightarrow> string \<Rightarrow> nat \<Rightarrow> schema option \<times> fault list"
  and compile_keywords ::
    "printer \<Rightarrow> (string \<times> jvalue) list \<Rightarrow> string \<Rightarrow> nat \<Rightarrow> constraints \<times> (string \<times> schema option) list \<times> schema option
      \<Rightarrow> (constraints \<times> (string \<times> schema option) list \<times> schema option) \<times> fault list"
  and compile_properties :: "printer \<Rightarrow> (string \<times> jvalue) list \<Rightarrow> string \<Rightarrow> nat \<Rightarrow> (string \<times> schema option) list \<times> fault list" where
  "compile_node pr v path depth =
     (if depth > max_depth
      then (None, [fault_at path (''schema nests deeper than '' @ show_int (int max_depth) @ '' levels'')])
      else case v of
        VObj kvs \<Rightarrow>
          (case compile_keywords pr kvs path depth (no_constraints, [], None) of
             ((c, ps, it), fs) \<Rightarrow> (Some (Schema c ps it), fs @ late_faults path c))
      | _ \<Rightarrow> (None, [fault_at path ''a schema must be a JSON object'']))"
| "compile_keywords pr [] path depth st = (st, [])"
| "compile_keywords pr ((k, v) # kvs) path depth (c, ps, it) =
     (case (if k = ''properties'' then
              (case v of
                 VObj ms \<Rightarrow> (case compile_properties pr ms (join_path path k) (Suc depth) of (ps', fs) \<Rightarrow> ((c, ps', it), fs))
               | _ \<Rightarrow> ((c, ps, it), [fault_at (join_path path k) ''properties must be an object of schemas'']))
            else if k = ''items'' then
              (case compile_node pr v (join_path path k) (Suc depth) of (s, fs) \<Rightarrow> ((c, ps, s), fs))
            else (case simple_keyword pr k v (join_path path k) c of (c', fs) \<Rightarrow> ((c', ps, it), fs))) of
        (st, fs) \<Rightarrow> (case compile_keywords pr kvs path depth st of (st', fs') \<Rightarrow> (st', fs @ fs')))"
| "compile_properties pr [] path depth = ([], [])"
| "compile_properties pr ((n, v) # ms) path depth =
     (case compile_node pr v (join_path path n) depth of
        (s, fs) \<Rightarrow> (case compile_properties pr ms path depth of (ps, fs') \<Rightarrow> ((n, s) # ps, fs @ fs')))"
  by pat_completeness auto
termination
  by (relation "measure (case_sum (\<lambda>(pr, v, path, depth). size v)
        (case_sum (\<lambda>(pr, kvs, path, depth, st). size_list (\<lambda>p. Suc (size (snd p))) kvs)
          (\<lambda>(pr, ms, path, depth). size_list (\<lambda>p. Suc (size (snd p))) ms)))") (auto simp: size_list_conv_sum_list size_members)

declare compile_node.simps [simp del]

definition compile_schema :: "printer \<Rightarrow> (string \<Rightarrow> string + jvalue) \<Rightarrow> string \<Rightarrow> schema option \<times> fault list" where
  "compile_schema pr decode raw =
     (case decode raw of
        Inl err \<Rightarrow> (None, [fault_at '''' (''schema is not valid JSON: '' @ err)])
      | Inr node \<Rightarrow>
          (case compile_node pr node '''' 0 of (s, fs) \<Rightarrow> if fs = [] then (s, []) else (None, fs)))"

subsection \<open>Validation\<close>

definition required_faults :: "printer \<Rightarrow> string list \<Rightarrow> (string \<times> jvalue) list \<Rightarrow> string \<Rightarrow> fault list" where
  "required_faults pr names ms path =
     map (\<lambda>n. fault_at path (''required property '' @ pt_quote pr n @ '' is missing'')) (filter (\<lambda>n. map_of ms n = None) names)"

definition bound_faults :: "printer \<Rightarrow> constraints \<Rightarrow> rat \<Rightarrow> string \<Rightarrow> fault list" where
  "bound_faults pr c n path =
     (case ct_minimum c of None \<Rightarrow> [] | Some b \<Rightarrow>
        if n < b then [fault_at path (pt_number pr n @ '' is below the minimum '' @ pt_number pr b)] else [])
     @ (case ct_maximum c of None \<Rightarrow> [] | Some b \<Rightarrow>
        if n > b then [fault_at path (pt_number pr n @ '' is above the maximum '' @ pt_number pr b)] else [])
     @ (case ct_above c of None \<Rightarrow> [] | Some b \<Rightarrow>
        if n \<le> b then [fault_at path (pt_number pr n @ '' is not above the exclusive minimum '' @ pt_number pr b)] else [])
     @ (case ct_below c of None \<Rightarrow> [] | Some b \<Rightarrow>
        if n \<ge> b then [fault_at path (pt_number pr n @ '' is not below the exclusive maximum '' @ pt_number pr b)] else [])"

definition value_faults :: "constraints \<Rightarrow> jvalue \<Rightarrow> string \<Rightarrow> fault list" where
  "value_faults c v path =
     (case ct_enum c of
        None \<Rightarrow> []
      | Some vs \<Rightarrow> if v \<in> set vs then []
                   else [fault_at path (''value is not one of the enum's '' @ show_int (int (length vs)) @ '' allowed values'')])
     @ (if v \<in> set (ct_excluded c)
        then [fault_at path (''value is one of the '' @ show_int (int (length (ct_excluded c))) @ '' values the schema excludes'')]
        else [])"

function validate_node :: "printer \<Rightarrow> schema option \<Rightarrow> jvalue \<Rightarrow> string \<Rightarrow> fault list"
  and validate_members :: "printer \<Rightarrow> (string \<times> schema option) list \<Rightarrow> (string \<times> jvalue) list \<Rightarrow> string \<Rightarrow> fault list"
  and validate_elements :: "printer \<Rightarrow> schema option \<Rightarrow> jvalue list \<Rightarrow> string \<Rightarrow> nat \<Rightarrow> fault list" where
  "validate_node pr None v path = []"
| "validate_node pr (Some (Schema c ps it)) v path =
     (if ct_type c \<noteq> '''' \<and> \<not> type_matches (ct_type c) v
      then [fault_at path (''expected '' @ ct_type c @ '', got '' @ json_type_name v)]
      else value_faults c v path
        @ (case v of
             VObj ms \<Rightarrow> required_faults pr (ct_required c) ms path @ validate_members pr ps ms path
           | VArr vs \<Rightarrow> (case it of None \<Rightarrow> [] | Some s \<Rightarrow> validate_elements pr (Some s) vs path 0)
           | VNum n \<Rightarrow> bound_faults pr c n path
           | _ \<Rightarrow> []))"
| "validate_members pr [] ms path = []"
| "validate_members pr ((n, s) # ps) ms path =
     (case map_of ms n of None \<Rightarrow> [] | Some v \<Rightarrow> validate_node pr s v (join_path path n)) @ validate_members pr ps ms path"
| "validate_elements pr s [] path i = []"
| "validate_elements pr s (v # vs) path i = validate_node pr s v (index_path path i) @ validate_elements pr s vs path (Suc i)"
  by pat_completeness auto
termination
  by (relation "measures
        [case_sum (\<lambda>(pr, s, v, path). size_option size s)
           (case_sum (\<lambda>(pr, ps, ms, path). size_list (\<lambda>p. Suc (size_option size (snd p))) ps)
             (\<lambda>(pr, s, vs, path, i). size_option size s)),
         case_sum (\<lambda>x. 0) (case_sum (\<lambda>x. 0) (\<lambda>(pr, s, vs, path, i). Suc (length vs)))]")
    (auto simp: size_list_conv_sum_list size_members)

definition validate_instance :: "printer \<Rightarrow> (string \<Rightarrow> string + jvalue) \<Rightarrow> schema option \<Rightarrow> string \<Rightarrow> fault list" where
  "validate_instance pr decode s raw =
     (case decode raw of
        Inl err \<Rightarrow> [fault_at '''' (''instance is not valid JSON: '' @ err)]
      | Inr v \<Rightarrow> validate_node pr s v '''')"

subsection \<open>Annotations\<close>

text \<open>Every node of a compiled schema with its path, in path order.\<close>

function schema_walk :: "string \<Rightarrow> schema option \<Rightarrow> (constraints \<times> string) list"
  and walk_properties :: "string \<Rightarrow> (string \<times> schema option) list \<Rightarrow> (constraints \<times> string) list" where
  "schema_walk path None = []"
| "schema_walk path (Some (Schema c ps it)) =
     (c, path) # walk_properties path ps
       @ (case it of None \<Rightarrow> [] | Some s \<Rightarrow> schema_walk (join_path path ''items'') (Some s))"
| "walk_properties path [] = []"
| "walk_properties path ((n, s) # ps) = schema_walk (join_path path (''properties.'' @ n)) s @ walk_properties path ps"
  by pat_completeness auto
termination
  by (relation "measure (case_sum (\<lambda>(path, s). size_option size s)
        (\<lambda>(path, ps). size_list (\<lambda>p. Suc (size_option size (snd p))) ps))")
    (auto simp: size_list_conv_sum_list size_members)

definition context_refs :: "schema option \<Rightarrow> (string \<times> string) list" where
  "context_refs s =
     concat (map (\<lambda>(c, here). map (\<lambda>i. (join_path here ''context'', i)) (case ct_contexts c of None \<Rightarrow> [] | Some ids \<Rightarrow> ids))
       (schema_walk '''' s))"

definition kv_namespace_refs :: "schema option \<Rightarrow> (string \<times> string) list" where
  "kv_namespace_refs s =
     concat (map (\<lambda>(c, here). if ct_kv c = '''' then [] else [(join_path here ''kvNamespace'', ct_kv c)]) (schema_walk '''' s))"

subsection \<open>What a schema means\<close>

text \<open>
  The meaning of a schema, read off the document itself: what each keyword demands of an instance, with
  no compilation.
\<close>

lemma size_member: "(n, v) \<in> set ms \<Longrightarrow> size v \<le> size_list (\<lambda>p. Suc (size (snd p))) ms"
  by (induction ms) auto

lemma size_element: "v \<in> set vs \<Longrightarrow> size v \<le> size_list size vs"
  by (induction vs) auto

function canonical :: "jvalue \<Rightarrow> bool" where
  "canonical (VObj ms) = (sorted_wrt (<) (map fst ms) \<and> list_all (\<lambda>(n, v). canonical v) ms)"
| "canonical (VArr vs) = list_all (\<lambda>v. canonical v) vs"
| "canonical VNull = True"
| "canonical (VBool b) = True"
| "canonical (VNum n) = True"
| "canonical (VStr s) = True"
  by pat_completeness auto
termination
  by (relation "measure size") (auto simp: size_members less_Suc_eq_le dest: size_member size_element)

definition strings_of :: "jvalue list \<Rightarrow> string list" where
  "strings_of vs = concat (map (\<lambda>v. case v of VStr s \<Rightarrow> [s] | _ \<Rightarrow> []) vs)"

definition bound_holds :: "(string \<times> jvalue) list \<Rightarrow> string \<Rightarrow> (rat \<Rightarrow> bool) \<Rightarrow> bool" where
  "bound_holds kvs k p = (case map_of kvs k of Some (VNum b) \<Rightarrow> p b | _ \<Rightarrow> True)"

definition own_accepts :: "(string \<times> jvalue) list \<Rightarrow> jvalue \<Rightarrow> bool" where
  "own_accepts kvs v =
     ((case map_of kvs ''type'' of Some (VStr t) \<Rightarrow> type_matches t v | _ \<Rightarrow> True)
      \<and> (case map_of kvs ''enum'' of Some (VArr vs) \<Rightarrow> v \<in> set vs | _ \<Rightarrow> True)
      \<and> (case map_of kvs ''not'' of
            Some (VObj ms) \<Rightarrow> (case map_of ms ''enum'' of Some (VArr vs) \<Rightarrow> v \<notin> set vs | _ \<Rightarrow> True)
          | _ \<Rightarrow> True)
      \<and> (case v of
            VObj ms \<Rightarrow>
              (case map_of kvs ''required'' of Some (VArr ns) \<Rightarrow> set (strings_of ns) \<subseteq> fst ` set ms | _ \<Rightarrow> True)
          | VNum n \<Rightarrow> bound_holds kvs ''minimum'' (\<lambda>b. b \<le> n) \<and> bound_holds kvs ''maximum'' (\<lambda>b. n \<le> b)
              \<and> bound_holds kvs ''exclusiveMinimum'' (\<lambda>b. b < n) \<and> bound_holds kvs ''exclusiveMaximum'' (\<lambda>b. n < b)
          | _ \<Rightarrow> True))"

function accepts :: "jvalue \<Rightarrow> jvalue \<Rightarrow> bool" where
  "accepts (VObj kvs) v =
     (own_accepts kvs v
      \<and> (case v of
           VObj ms \<Rightarrow>
             (case map_of kvs ''properties'' of
                Some (VObj ps) \<Rightarrow> list_all (\<lambda>(n, x). case map_of ps n of None \<Rightarrow> True | Some sub \<Rightarrow> accepts sub x) ms
              | _ \<Rightarrow> True)
         | VArr vs \<Rightarrow> (case map_of kvs ''items'' of Some sub \<Rightarrow> list_all (\<lambda>x. accepts sub x) vs | None \<Rightarrow> True)
         | _ \<Rightarrow> True))"
| "accepts VNull v = False"
| "accepts (VBool b) v = False"
| "accepts (VNum n) v = False"
| "accepts (VStr s) v = False"
| "accepts (VArr vs) v = False"
  by pat_completeness auto
termination
  by (relation "measure (\<lambda>(s, v). size v)") (auto simp: size_members less_Suc_eq_le dest: size_member size_element)

subsection \<open>Compilation keeps the meaning\<close>

text \<open>A keyword sets its own field, when it is well formed, and no other.\<close>

lemma required_loop_ok: "required_loop path ns i = (names, []) \<Longrightarrow> names = strings_of ns"
  by (induction path ns i arbitrary: names rule: required_loop.induct)
    (auto simp: strings_of_def split: prod.splits)

lemma compile_exclusion_ok:
  "compile_exclusion pr v path = (xs, []) \<Longrightarrow> \<exists>ms. v = VObj ms \<and> map_of ms ''enum'' = Some (VArr xs)"
  by (auto simp: compile_exclusion_def split: jvalue.splits option.splits if_splits list.splits)

lemma compile_bound_ok: "compile_bound v path = (b, []) \<Longrightarrow> \<exists>n. v = VNum n \<and> b = Some n"
  by (auto simp: compile_bound_def split: jvalue.splits if_splits)

lemma keyword_sets:
  assumes "simple_keyword pr k v child c = (c1, [])"
  shows "k = ''type'' \<Longrightarrow> ct_type c1 = (case v of VStr t \<Rightarrow> t | _ \<Rightarrow> ct_type c)"
    and "k = ''enum'' \<Longrightarrow> ct_enum c1 = (case v of VArr vs \<Rightarrow> Some vs | _ \<Rightarrow> ct_enum c)"
    and "k = ''not'' \<Longrightarrow> ct_excluded c1 = (case v of VObj ms \<Rightarrow> (case map_of ms ''enum'' of Some (VArr vs) \<Rightarrow> vs | _ \<Rightarrow> []) | _ \<Rightarrow> ct_excluded c)"
    and "k = ''required'' \<Longrightarrow> ct_required c1 = (case v of VArr ns \<Rightarrow> ct_required c @ strings_of ns | _ \<Rightarrow> ct_required c)"
    and "k = ''minimum'' \<Longrightarrow> ct_minimum c1 = (case v of VNum b \<Rightarrow> Some b | _ \<Rightarrow> ct_minimum c)"
    and "k = ''maximum'' \<Longrightarrow> ct_maximum c1 = (case v of VNum b \<Rightarrow> Some b | _ \<Rightarrow> ct_maximum c)"
    and "k = ''exclusiveMinimum'' \<Longrightarrow> ct_above c1 = (case v of VNum b \<Rightarrow> Some b | _ \<Rightarrow> ct_above c)"
    and "k = ''exclusiveMaximum'' \<Longrightarrow> ct_below c1 = (case v of VNum b \<Rightarrow> Some b | _ \<Rightarrow> ct_below c)"
  using assms by (auto simp: simple_keyword_def split: prod.splits jvalue.splits if_splits
      dest!: required_loop_ok compile_exclusion_ok compile_bound_ok)

lemma keyword_keeps:
  assumes "simple_keyword pr k v child c = (c1, fs)"
  shows "k \<noteq> ''type'' \<Longrightarrow> ct_type c1 = ct_type c"
    and "k \<noteq> ''enum'' \<Longrightarrow> ct_enum c1 = ct_enum c"
    and "k \<noteq> ''not'' \<Longrightarrow> ct_excluded c1 = ct_excluded c"
    and "k \<noteq> ''required'' \<Longrightarrow> ct_required c1 = ct_required c"
    and "k \<noteq> ''minimum'' \<Longrightarrow> ct_minimum c1 = ct_minimum c"
    and "k \<noteq> ''maximum'' \<Longrightarrow> ct_maximum c1 = ct_maximum c"
    and "k \<noteq> ''exclusiveMinimum'' \<Longrightarrow> ct_above c1 = ct_above c"
    and "k \<noteq> ''exclusiveMaximum'' \<Longrightarrow> ct_below c1 = ct_below c"
  using assms unfolding simple_keyword_def
  by (simp_all only: if_False split: if_splits prod.splits jvalue.splits) auto

lemma compile_keywords_ConsE:
  assumes "compile_keywords pr ((k, v) # kvs) path depth (c, ps, it) = ((c', ps', it'), [])"
  obtains (properties) ms q where "k = ''properties''" "v = VObj ms"
      "compile_properties pr ms (join_path path ''properties'') (Suc depth) = (q, [])"
      "compile_keywords pr kvs path depth (c, q, it) = ((c', ps', it'), [])"
    | (items) s where "k = ''items''" "compile_node pr v (join_path path ''items'') (Suc depth) = (s, [])"
      "compile_keywords pr kvs path depth (c, ps, s) = ((c', ps', it'), [])"
    | (simple) c1 where "k \<noteq> ''properties''" "k \<noteq> ''items''" "simple_keyword pr k v (join_path path k) c = (c1, [])"
      "compile_keywords pr kvs path depth (c1, ps, it) = ((c', ps', it'), [])"
proof -
  consider "k = ''properties''" | "k = ''items''" | "k \<noteq> ''properties''" "k \<noteq> ''items''" by blast
  then show thesis
  proof cases
    case 1
    with assms show thesis by (auto split: jvalue.splits prod.splits intro: properties)
  next
    case 2
    with assms show thesis by (auto split: prod.splits intro: items)
  next
    case 3
    with assms show thesis by (auto split: prod.splits intro: simple)
  qed
qed

lemma keyword_loop:
  fixes f :: "constraints \<Rightarrow> 'a"
  assumes sets: "\<And>v child c c1. simple_keyword pr K v child c = (c1, []) \<Longrightarrow> f c1 = g v (f c)"
    and keeps: "\<And>k v child c c1. k \<noteq> K \<Longrightarrow> simple_keyword pr k v child c = (c1, []) \<Longrightarrow> f c1 = f c"
    and K: "K \<noteq> ''properties''" "K \<noteq> ''items''"
  shows "compile_keywords pr kvs path depth (c, ps, it) = ((c', ps', it'), []) \<Longrightarrow> distinct (map fst kvs) \<Longrightarrow>
    f c' = (case map_of kvs K of None \<Rightarrow> f c | Some v \<Rightarrow> g v (f c))"
proof (induction kvs arbitrary: c ps it)
  case (Cons p kvs)
  obtain k v where p: "p = (k, v)" by fastforce
  from Cons.prems(2) have new: "map_of kvs k = None" and d: "distinct (map fst kvs)"
    by (auto simp: p map_of_eq_None_iff)
  from Cons.prems(1) [unfolded p] show ?case
  proof (cases rule: compile_keywords_ConsE)
    case (properties ms q)
    with Cons.IH [OF properties(4) d] K show ?thesis by (simp add: p)
  next
    case (items s)
    with Cons.IH [OF items(3) d] K show ?thesis by (simp add: p)
  next
    case (simple c1)
    from Cons.IH [OF simple(4) d] sets [of v _ c c1] keeps [OF _ simple(3)] simple(3) new show ?thesis
      by (cases "k = K") (auto simp: p split: option.splits)
  qed
qed simp

lemma keyword_properties:
  "compile_keywords pr kvs path depth (c, ps, it) = ((c', ps', it'), []) \<Longrightarrow> distinct (map fst kvs) \<Longrightarrow>
     (case map_of kvs ''properties'' of
        None \<Rightarrow> ps' = ps
      | Some v \<Rightarrow> \<exists>ms. v = VObj ms \<and> compile_properties pr ms (join_path path ''properties'') (Suc depth) = (ps', []))"
proof (induction kvs arbitrary: c ps it)
  case (Cons p kvs)
  obtain k v where p: "p = (k, v)" by fastforce
  from Cons.prems(2) have new: "map_of kvs k = None" and d: "distinct (map fst kvs)"
    by (auto simp: p map_of_eq_None_iff)
  from Cons.prems(1) [unfolded p] show ?case
  proof (cases rule: compile_keywords_ConsE)
    case (properties ms q)
    with Cons.IH [OF properties(4) d] new show ?thesis by (simp add: p)
  next
    case (items s)
    with Cons.IH [OF items(3) d] show ?thesis by (simp add: p)
  next
    case (simple c1)
    with Cons.IH [OF simple(4) d] show ?thesis by (simp add: p)
  qed
qed simp

lemma keyword_items:
  "compile_keywords pr kvs path depth (c, ps, it) = ((c', ps', it'), []) \<Longrightarrow> distinct (map fst kvs) \<Longrightarrow>
     (case map_of kvs ''items'' of
        None \<Rightarrow> it' = it
      | Some v \<Rightarrow> compile_node pr v (join_path path ''items'') (Suc depth) = (it', []))"
proof (induction kvs arbitrary: c ps it)
  case (Cons p kvs)
  obtain k v where p: "p = (k, v)" by fastforce
  from Cons.prems(2) have new: "map_of kvs k = None" and d: "distinct (map fst kvs)"
    by (auto simp: p map_of_eq_None_iff)
  from Cons.prems(1) [unfolded p] show ?case
  proof (cases rule: compile_keywords_ConsE)
    case (properties ms q)
    with Cons.IH [OF properties(4) d] show ?thesis by (simp add: p)
  next
    case (items s)
    with Cons.IH [OF items(3) d] new show ?thesis by (simp add: p)
  next
    case (simple c1)
    with Cons.IH [OF simple(4) d] show ?thesis by (simp add: p)
  qed
qed simp

text \<open>The fields of the compiled node, read off the document.\<close>

lemma compiled_fields:
  assumes "compile_keywords pr kvs path depth (c, ps, it) = ((c', ps', it'), [])" and "distinct (map fst kvs)"
  shows "ct_type c' = (case map_of kvs ''type'' of None \<Rightarrow> ct_type c | Some v \<Rightarrow> (case v of VStr t \<Rightarrow> t | _ \<Rightarrow> ct_type c))"
    and "ct_enum c' = (case map_of kvs ''enum'' of None \<Rightarrow> ct_enum c | Some v \<Rightarrow> (case v of VArr vs \<Rightarrow> Some vs | _ \<Rightarrow> ct_enum c))"
    and "ct_excluded c' = (case map_of kvs ''not'' of None \<Rightarrow> ct_excluded c | Some v \<Rightarrow> (case v of VObj ms \<Rightarrow> (case map_of ms ''enum'' of Some (VArr vs) \<Rightarrow> vs | _ \<Rightarrow> []) | _ \<Rightarrow> ct_excluded c))"
    and "ct_required c' = (case map_of kvs ''required'' of None \<Rightarrow> ct_required c | Some v \<Rightarrow> (case v of VArr ns \<Rightarrow> ct_required c @ strings_of ns | _ \<Rightarrow> ct_required c))"
    and "ct_minimum c' = (case map_of kvs ''minimum'' of None \<Rightarrow> ct_minimum c | Some v \<Rightarrow> (case v of VNum b \<Rightarrow> Some b | _ \<Rightarrow> ct_minimum c))"
    and "ct_maximum c' = (case map_of kvs ''maximum'' of None \<Rightarrow> ct_maximum c | Some v \<Rightarrow> (case v of VNum b \<Rightarrow> Some b | _ \<Rightarrow> ct_maximum c))"
    and "ct_above c' = (case map_of kvs ''exclusiveMinimum'' of None \<Rightarrow> ct_above c | Some v \<Rightarrow> (case v of VNum b \<Rightarrow> Some b | _ \<Rightarrow> ct_above c))"
    and "ct_below c' = (case map_of kvs ''exclusiveMaximum'' of None \<Rightarrow> ct_below c | Some v \<Rightarrow> (case v of VNum b \<Rightarrow> Some b | _ \<Rightarrow> ct_below c))"
  subgoal by (rule keyword_loop [where f = ct_type and K = "''type''" and g = "\<lambda>v old. case v of VStr t \<Rightarrow> t | _ \<Rightarrow> old", OF _ _ _ _ assms])
      (auto dest: keyword_sets(1) [OF _ refl] keyword_keeps(1))
  subgoal by (rule keyword_loop [where f = ct_enum and K = "''enum''" and g = "\<lambda>v old. case v of VArr vs \<Rightarrow> Some vs | _ \<Rightarrow> old", OF _ _ _ _ assms])
      (auto dest: keyword_sets(2) [OF _ refl] keyword_keeps(2))
  subgoal by (rule keyword_loop [where f = ct_excluded and K = "''not''" and g = "\<lambda>v old. case v of VObj ms \<Rightarrow> (case map_of ms ''enum'' of Some (VArr vs) \<Rightarrow> vs | _ \<Rightarrow> []) | _ \<Rightarrow> old", OF _ _ _ _ assms])
      (auto dest: keyword_sets(3) [OF _ refl] keyword_keeps(3))
  subgoal by (rule keyword_loop [where f = ct_required and K = "''required''" and g = "\<lambda>v old. case v of VArr ns \<Rightarrow> old @ strings_of ns | _ \<Rightarrow> old", OF _ _ _ _ assms])
      (auto dest: keyword_sets(4) [OF _ refl] keyword_keeps(4))
  subgoal by (rule keyword_loop [where f = ct_minimum and K = "''minimum''" and g = "\<lambda>v old. case v of VNum b \<Rightarrow> Some b | _ \<Rightarrow> old", OF _ _ _ _ assms])
      (auto dest: keyword_sets(5) [OF _ refl] keyword_keeps(5))
  subgoal by (rule keyword_loop [where f = ct_maximum and K = "''maximum''" and g = "\<lambda>v old. case v of VNum b \<Rightarrow> Some b | _ \<Rightarrow> old", OF _ _ _ _ assms])
      (auto dest: keyword_sets(6) [OF _ refl] keyword_keeps(6))
  subgoal by (rule keyword_loop [where f = ct_above and K = "''exclusiveMinimum''" and g = "\<lambda>v old. case v of VNum b \<Rightarrow> Some b | _ \<Rightarrow> old", OF _ _ _ _ assms])
      (auto dest: keyword_sets(7) [OF _ refl] keyword_keeps(7))
  subgoal by (rule keyword_loop [where f = ct_below and K = "''exclusiveMaximum''" and g = "\<lambda>v old. case v of VNum b \<Rightarrow> Some b | _ \<Rightarrow> old", OF _ _ _ _ assms])
      (auto dest: keyword_sets(8) [OF _ refl] keyword_keeps(8))
  done

lemma compile_properties_ok:
  "compile_properties pr ms path depth = (ps, []) \<Longrightarrow>
     list_all2 (\<lambda>m p. fst p = fst m \<and> compile_node pr (snd m) (join_path path (fst m)) depth = (snd p, [])) ms ps"
proof (induction ms arbitrary: ps)
  case (Cons m ms)
  obtain n v where "m = (n, v)" by fastforce
  with Cons show ?case by (auto split: prod.splits)
qed simp

lemma validate_members_empty:
  "validate_members pr ps ms path = [] \<longleftrightarrow>
     (\<forall>(n, s) \<in> set ps. \<forall>v. map_of ms n = Some v \<longrightarrow> validate_node pr s v (join_path path n) = [])"
proof (induction ps)
  case (Cons p ps)
  obtain n s where "p = (n, s)" by fastforce
  with Cons show ?case by (auto split: option.splits)
qed simp

lemma validate_elements_empty:
  assumes "\<And>v path. v \<in> set vs \<Longrightarrow> validate_node pr s v path = [] \<longleftrightarrow> Q v"
  shows "validate_elements pr s vs path i = [] \<longleftrightarrow> list_all Q vs"
  using assms by (induction vs arbitrary: i) simp_all

lemma value_faults_empty:
  "value_faults c v path = [] \<longleftrightarrow> (case ct_enum c of None \<Rightarrow> True | Some vs \<Rightarrow> v \<in> set vs) \<and> v \<notin> set (ct_excluded c)"
  by (simp add: value_faults_def split: option.splits)

lemma required_faults_empty: "required_faults pr names ms path = [] \<longleftrightarrow> set names \<subseteq> fst ` set ms"
  by (auto simp: required_faults_def filter_empty_conv map_of_eq_None_iff)

lemma bound_faults_empty:
  "bound_faults pr c n path = [] \<longleftrightarrow>
     (case ct_minimum c of None \<Rightarrow> True | Some b \<Rightarrow> b \<le> n) \<and> (case ct_maximum c of None \<Rightarrow> True | Some b \<Rightarrow> n \<le> b)
     \<and> (case ct_above c of None \<Rightarrow> True | Some b \<Rightarrow> b < n) \<and> (case ct_below c of None \<Rightarrow> True | Some b \<Rightarrow> n < b)"
  by (auto simp: bound_faults_def split: option.splits)

lemma type_matches_empty: "\<not> type_matches '''' v"
  by (cases v) simp_all

text \<open>What the keywords of the node itself demand, after compilation and before it.\<close>

definition own_holds :: "constraints \<Rightarrow> jvalue \<Rightarrow> bool" where
  "own_holds c v =
     ((ct_type c = '''' \<or> type_matches (ct_type c) v)
      \<and> (case ct_enum c of None \<Rightarrow> True | Some vs \<Rightarrow> v \<in> set vs) \<and> v \<notin> set (ct_excluded c)
      \<and> (case v of
           VObj ms \<Rightarrow> set (ct_required c) \<subseteq> fst ` set ms
         | VNum n \<Rightarrow> (case ct_minimum c of None \<Rightarrow> True | Some b \<Rightarrow> b \<le> n) \<and> (case ct_maximum c of None \<Rightarrow> True | Some b \<Rightarrow> n \<le> b)
             \<and> (case ct_above c of None \<Rightarrow> True | Some b \<Rightarrow> b < n) \<and> (case ct_below c of None \<Rightarrow> True | Some b \<Rightarrow> n < b)
         | _ \<Rightarrow> True))"

lemma no_constraints_fields [simp]:
  "ct_type no_constraints = ''''" "ct_enum no_constraints = None" "ct_required no_constraints = []"
  "ct_minimum no_constraints = None" "ct_maximum no_constraints = None" "ct_above no_constraints = None"
  "ct_below no_constraints = None" "ct_excluded no_constraints = []"
  by (simp_all add: no_constraints_def)

lemma typed_names:
  assumes "simple_keyword pr ''type'' v child c = (c1, [])"
  shows "\<exists>t. v = VStr t \<and> t \<noteq> ''''"
  using assms by (auto simp: simple_keyword_def type_names_def split: jvalue.splits if_splits)

lemma validate_node_empty:
  "validate_node pr (Some (Schema c ps it)) v path = [] \<longleftrightarrow>
     own_holds c v
     \<and> (case v of
          VObj ms \<Rightarrow> validate_members pr ps ms path = []
        | VArr vs \<Rightarrow> (case it of None \<Rightarrow> True | Some s \<Rightarrow> validate_elements pr (Some s) vs path 0 = [])
        | _ \<Rightarrow> True)"
  by (cases v) (auto simp: own_holds_def value_faults_empty required_faults_empty bound_faults_empty split: option.splits)

lemma keyword_wellformed:
  "compile_keywords pr kvs path depth (c, ps, it) = ((c', ps', it'), []) \<Longrightarrow> (k, v) \<in> set kvs \<Longrightarrow>
     k \<noteq> ''properties'' \<Longrightarrow> k \<noteq> ''items'' \<Longrightarrow> \<exists>c1 c2. simple_keyword pr k v (join_path path k) c1 = (c2, [])"
proof (induction kvs arbitrary: c ps it)
  case (Cons p kvs)
  obtain k' v' where p: "p = (k', v')" by fastforce
  from Cons.prems(1) [unfolded p] show ?case
  proof (cases rule: compile_keywords_ConsE)
    case (properties ms q)
    with Cons.IH [OF properties(4)] Cons.prems show ?thesis by (auto simp: p)
  next
    case (items s)
    with Cons.IH [OF items(3)] Cons.prems show ?thesis by (auto simp: p)
  next
    case (simple c1)
    with Cons.IH [OF simple(4)] Cons.prems show ?thesis by (auto simp: p)
  qed
qed simp

lemma compile_node_ok:
  assumes "compile_node pr sch path depth = (s, [])"
  obtains kvs c ps it where "depth \<le> max_depth" "sch = VObj kvs" "s = Some (Schema c ps it)"
    "compile_keywords pr kvs path depth (no_constraints, [], None) = ((c, ps, it), [])" "late_faults path c = []"
  using assms by (auto simp: compile_node.simps split: if_splits jvalue.splits prod.splits)

lemma own_keywords_kept:
  assumes loop: "compile_keywords pr kvs path depth (no_constraints, ps, it) = ((c', ps', it'), [])"
    and d: "distinct (map fst kvs)"
  shows "own_holds c' v \<longleftrightarrow> own_accepts kvs v"
proof -
  have t: "\<exists>t. x = VStr t \<and> t \<noteq> ''''" if "map_of kvs ''type'' = Some x" for x
    using keyword_wellformed [OF loop map_of_SomeD [OF that]] typed_names by fastforce
  note f = compiled_fields [OF loop d, unfolded no_constraints_fields append_Nil]
  have 1: "(ct_type c' = '''' \<or> type_matches (ct_type c') v)
      \<longleftrightarrow> (case map_of kvs ''type'' of Some (VStr t) \<Rightarrow> type_matches t v | _ \<Rightarrow> True)"
    using t by (auto simp: f(1) split: option.splits jvalue.splits)
  have 2: "(case ct_enum c' of None \<Rightarrow> True | Some vs \<Rightarrow> v \<in> set vs)
      \<longleftrightarrow> (case map_of kvs ''enum'' of Some (VArr vs) \<Rightarrow> v \<in> set vs | _ \<Rightarrow> True)"
    by (simp add: f(2) split: option.splits jvalue.splits)
  have 3: "v \<notin> set (ct_excluded c')
      \<longleftrightarrow> (case map_of kvs ''not'' of
            Some (VObj ms) \<Rightarrow> (case map_of ms ''enum'' of Some (VArr vs) \<Rightarrow> v \<notin> set vs | _ \<Rightarrow> True)
          | _ \<Rightarrow> True)"
    by (auto simp: f(3) split: option.splits jvalue.splits)
  have 4: "set (ct_required c') \<subseteq> X
      \<longleftrightarrow> (case map_of kvs ''required'' of Some (VArr ns) \<Rightarrow> set (strings_of ns) \<subseteq> X | _ \<Rightarrow> True)" for X
    by (simp add: f(4) split: option.splits jvalue.splits)
  have 5: "(case ct_minimum c' of None \<Rightarrow> True | Some b \<Rightarrow> p b) \<longleftrightarrow> bound_holds kvs ''minimum'' p" for p
    by (simp add: f(5) bound_holds_def split: option.splits jvalue.splits)
  have 6: "(case ct_maximum c' of None \<Rightarrow> True | Some b \<Rightarrow> p b) \<longleftrightarrow> bound_holds kvs ''maximum'' p" for p
    by (simp add: f(6) bound_holds_def split: option.splits jvalue.splits)
  have 7: "(case ct_above c' of None \<Rightarrow> True | Some b \<Rightarrow> p b) \<longleftrightarrow> bound_holds kvs ''exclusiveMinimum'' p" for p
    by (simp add: f(7) bound_holds_def split: option.splits jvalue.splits)
  have 8: "(case ct_below c' of None \<Rightarrow> True | Some b \<Rightarrow> p b) \<longleftrightarrow> bound_holds kvs ''exclusiveMaximum'' p" for p
    by (simp add: f(8) bound_holds_def split: option.splits jvalue.splits)
  show ?thesis unfolding own_holds_def own_accepts_def 1 2 3 4 5 6 7 8 by (rule refl)
qed

lemma compiled_property:
  assumes "compile_properties pr subs path depth = (ps, [])" and "distinct (map fst subs)"
  shows "map fst ps = map fst subs"
    and "map_of subs n = Some sub \<Longrightarrow> \<exists>s. map_of ps n = Some s \<and> compile_node pr sub (join_path path n) depth = (s, [])"
proof -
  from compile_properties_ok [OF assms(1)]
  have all: "list_all2 (\<lambda>m p. fst p = fst m \<and> compile_node pr (snd m) (join_path path (fst m)) depth = (snd p, [])) subs ps" .
  then show "map fst ps = map fst subs"
    by (induction rule: list_all2_induct) simp_all
  from all show "map_of subs n = Some sub \<Longrightarrow> \<exists>s. map_of ps n = Some s \<and> compile_node pr sub (join_path path n) depth = (s, [])"
    by (induction rule: list_all2_induct) (auto split: if_splits)
qed

lemma members_agree:
  assumes "distinct (map fst ps)" and "distinct (map fst ms)"
  shows "(\<forall>(n, s) \<in> set ps. \<forall>v. map_of ms n = Some v \<longrightarrow> Q n s v)
    \<longleftrightarrow> list_all (\<lambda>(n, v). case map_of ps n of None \<Rightarrow> True | Some s \<Rightarrow> Q n s v) ms"
  using assms by (fastforce simp: list_all_iff split: option.splits dest: map_of_SomeD intro: map_of_is_SomeI)

lemma sorted_distinct: "sorted_wrt (<) xs \<Longrightarrow> distinct (xs :: 'a :: order list)"
  by (induction xs) auto

lemma elements_agree:
  assumes "compile_node pr sub path depth = (s, [])"
    and "\<And>v path. v \<in> set vs \<Longrightarrow> validate_node pr s v path = [] \<longleftrightarrow> accepts sub v"
  shows "(case s of None \<Rightarrow> True | Some s' \<Rightarrow> validate_elements pr (Some s') vs here 0 = []) \<longleftrightarrow> list_all (accepts sub) vs"
  using assms(1)
proof (rule compile_node_ok)
  fix kvs c ps it assume s: "s = Some (Schema c ps it)"
  show ?thesis unfolding s option.case by (rule validate_elements_empty) (use assms(2) in \<open>auto simp: s\<close>)
qed

lemma compiled_accepts:
  "compile_node pr sch path depth = (s, []) \<Longrightarrow> canonical sch \<Longrightarrow> canonical v \<Longrightarrow>
     validate_node pr s v here = [] \<longleftrightarrow> accepts sch v"
proof (induction sch v arbitrary: path depth s here rule: accepts.induct)
  case (1 kvs v)
  from 1(3) obtain c ps it where s: "s = Some (Schema c ps it)"
    and loop: "compile_keywords pr kvs path depth (no_constraints, [], None) = ((c, ps, it), [])"
    by (rule compile_node_ok) auto
  from 1(4) have d: "distinct (map fst kvs)" and sub: "\<And>k x. (k, x) \<in> set kvs \<Longrightarrow> canonical x"
    by (auto simp: list_all_iff sorted_distinct)
  have own: "own_holds c v \<longleftrightarrow> own_accepts kvs v"
    by (rule own_keywords_kept [OF loop d])
  have items: "(case it of None \<Rightarrow> True | Some s' \<Rightarrow> validate_elements pr (Some s') vs here 0 = [])
      \<longleftrightarrow> (case map_of kvs ''items'' of Some x \<Rightarrow> list_all (accepts x) vs | None \<Rightarrow> True)" if v: "v = VArr vs" for vs
  proof (cases "map_of kvs ''items''")
    case None
    with keyword_items [OF loop d] show ?thesis by simp
  next
    case (Some x)
    with keyword_items [OF loop d] have x: "compile_node pr x (join_path path ''items'') (Suc depth) = (it, [])" by simp
    from v 1(5) have "\<And>y. y \<in> set vs \<Longrightarrow> canonical y" by (simp add: list_all_iff)
    then have each: "validate_node pr it y p = [] \<longleftrightarrow> accepts x y" if "y \<in> set vs" for y p
      using 1(1) v Some that x sub [OF map_of_SomeD [OF Some]] by blast
    show ?thesis unfolding Some option.case by (rule elements_agree [OF x each])
  qed
  have props: "validate_members pr ps ms here = []
      \<longleftrightarrow> (case map_of kvs ''properties'' of
             Some (VObj subs) \<Rightarrow> list_all (\<lambda>(n, x). case map_of subs n of None \<Rightarrow> True | Some sub \<Rightarrow> accepts sub x) ms
           | _ \<Rightarrow> True)" if v: "v = VObj ms" for ms
  proof (cases "map_of kvs ''properties''")
    case None
    with keyword_properties [OF loop d] show ?thesis by simp
  next
    case (Some y)
    with keyword_properties [OF loop d] obtain subs where y: "y = VObj subs"
      and subs: "compile_properties pr subs (join_path path ''properties'') (Suc depth) = (ps, [])" by auto
    from sub [OF map_of_SomeD [OF Some]] y have ds: "distinct (map fst subs)"
      and cs: "\<And>n x. (n, x) \<in> set subs \<Longrightarrow> canonical x" by (auto simp: list_all_iff sorted_distinct)
    from v 1(5) have dm: "distinct (map fst ms)" and cm: "\<And>n x. (n, x) \<in> set ms \<Longrightarrow> canonical x"
      by (auto simp: list_all_iff sorted_distinct)
    note names = compiled_property(1) [OF subs ds] and compiled = compiled_property(2) [OF subs ds]
    have each: "(case map_of ps n of None \<Rightarrow> True | Some t \<Rightarrow> validate_node pr t x (join_path here n) = [])
        \<longleftrightarrow> (case map_of subs n of None \<Rightarrow> True | Some sub \<Rightarrow> accepts sub x)" if m: "(n, x) \<in> set ms" for n x
    proof (cases "map_of subs n")
      case None
      with names have "map_of ps n = None" by (metis map_of_eq_None_iff list.set_map)
      with None show ?thesis by simp
    next
      case (Some z)
      with compiled obtain t where t: "map_of ps n = Some t"
        and z: "compile_node pr z (join_path (join_path path ''properties'') n) (Suc depth) = (t, [])" by blast
      have "validate_node pr t x (join_path here n) = [] \<longleftrightarrow> accepts z x"
        by (rule 1(2) [OF v \<open>map_of kvs ''properties'' = Some y\<close> y m refl Some z cs [OF map_of_SomeD [OF Some]] cm [OF m]])
      with t Some show ?thesis by simp
    qed
    from names ds have "distinct (map fst ps)" by simp
    from validate_members_empty [of pr ps ms here] members_agree [OF this dm, of "\<lambda>n s v. validate_node pr s v (join_path here n) = []"]
    have "validate_members pr ps ms here = []
        \<longleftrightarrow> list_all (\<lambda>(n, v). case map_of ps n of None \<Rightarrow> True | Some s \<Rightarrow> validate_node pr s v (join_path here n) = []) ms"
      by (rule trans)
    with each Some y show ?thesis by (simp add: list_all_iff split_beta)
  qed
  from own items props show ?case
    unfolding s validate_node_empty accepts.simps by (cases v) simp_all
qed (auto elim: compile_node_ok)

text \<open>The closed subset: every keyword at every depth is one the compiler knows, and the nesting is bounded.\<close>

definition schema_keywords :: "string list" where
  "schema_keywords =
     [''type'', ''enum'', ''not'', ''required'', ''minimum'', ''maximum'', ''exclusiveMinimum'', ''exclusiveMaximum'', ''default'',
      ''context'', ''kvNamespace'', ''x-vyshka-widget'', ''properties'', ''items'']"

function in_subset :: "nat \<Rightarrow> jvalue \<Rightarrow> bool" where
  "in_subset depth (VObj kvs) =
     (depth \<le> max_depth
      \<and> list_all (\<lambda>(k, v). k \<in> set schema_keywords
            \<and> (k = ''properties'' \<longrightarrow> (case v of VObj ps \<Rightarrow> list_all (\<lambda>(n, x). in_subset (Suc depth) x) ps | _ \<Rightarrow> False))
            \<and> (k = ''items'' \<longrightarrow> in_subset (Suc depth) v)) kvs)"
| "in_subset depth VNull = False"
| "in_subset depth (VBool b) = False"
| "in_subset depth (VNum n) = False"
| "in_subset depth (VStr s) = False"
| "in_subset depth (VArr vs) = False"
  by pat_completeness auto
termination
proof (relation "measure (\<lambda>(depth, s). size s)", simp, goal_cases)
  case (1 depth kvs p k v ps q n x)
  then have "size x < size (VObj ps)" "size (VObj ps) < size (VObj kvs)"
    by (auto simp: size_members less_Suc_eq_le dest!: size_member)
  then show ?case by simp
next
  case (2 depth kvs p k v)
  then show ?case by (auto simp: size_members less_Suc_eq_le dest: size_member)
qed

lemma known_keyword:
  assumes "simple_keyword pr k v child c = (c1, [])"
  shows "k \<in> set schema_keywords"
  using assms unfolding simple_keyword_def schema_keywords_def
  by (simp only: list.set insert_iff split: if_splits) simp_all

lemma compiled_in_subset: "compile_node pr sch path depth = (s, []) \<Longrightarrow> canonical sch \<Longrightarrow> in_subset depth sch"
proof (induction depth sch arbitrary: path s rule: in_subset.induct)
  case (1 depth kvs)
  from 1(3) obtain c ps it where deep: "depth \<le> max_depth"
    and loop: "compile_keywords pr kvs path depth (no_constraints, [], None) = ((c, ps, it), [])"
    by (rule compile_node_ok) auto
  from 1(4) have d: "distinct (map fst kvs)" and sub: "\<And>k x. (k, x) \<in> set kvs \<Longrightarrow> canonical x"
    by (auto simp: list_all_iff sorted_distinct)
  have "k \<in> set schema_keywords
      \<and> (k = ''properties'' \<longrightarrow> (case v of VObj subs \<Rightarrow> list_all (\<lambda>(n, x). in_subset (Suc depth) x) subs | _ \<Rightarrow> False))
      \<and> (k = ''items'' \<longrightarrow> in_subset (Suc depth) v)" if m: "(k, v) \<in> set kvs" for k v
  proof -
    from m d have at_k: "map_of kvs k = Some v" by simp
    consider "k = ''properties''" | "k = ''items''" | "k \<noteq> ''properties''" "k \<noteq> ''items''" by blast
    then show ?thesis
    proof cases
      case 1
      with at_k keyword_properties [OF loop d] obtain subs where v: "v = VObj subs"
        and subs: "compile_properties pr subs (join_path path ''properties'') (Suc depth) = (ps, [])" by auto
      from sub [OF m] v have ds: "distinct (map fst subs)" and cs: "\<And>n x. (n, x) \<in> set subs \<Longrightarrow> canonical x"
        by (auto simp: list_all_iff sorted_distinct)
      have "in_subset (Suc depth) x" if x: "(n, x) \<in> set subs" for n x
      proof -
        from x ds compiled_property(2) [OF subs ds, of n x] obtain t where
          t: "compile_node pr x (join_path (join_path path ''properties'') n) (Suc depth) = (t, [])" by auto
        show ?thesis by (rule "1.IH"(1) [OF m refl 1 v x refl t cs [OF x]])
      qed
      with 1 v show ?thesis by (auto simp: list_all_iff schema_keywords_def)
    next
      case 2
      with at_k keyword_items [OF loop d] have "compile_node pr v (join_path path ''items'') (Suc depth) = (it, [])" by simp
      from "1.IH"(2) [OF m refl 2 this sub [OF m]] have "in_subset (Suc depth) v" .
      with 2 show ?thesis by (simp add: schema_keywords_def)
    next
      case 3
      with keyword_wellformed [OF loop m] known_keyword show ?thesis by blast
    qed
  qed
  then have "list_all (\<lambda>(k, v). k \<in> set schema_keywords
      \<and> (k = ''properties'' \<longrightarrow> (case v of VObj subs \<Rightarrow> list_all (\<lambda>(n, x). in_subset (Suc depth) x) subs | _ \<Rightarrow> False))
      \<and> (k = ''items'' \<longrightarrow> in_subset (Suc depth) v)) kvs"
    unfolding list_all_iff by blast
  with deep show ?case by simp
qed (auto elim: compile_node_ok)

text \<open>
  C14. The hub enforces what it accepts.  A parameter schema that publishes uses only the keywords of the
  closed subset, at every depth and no deeper than 32; and validating an instance against the compiled
  form finds no fault exactly when the instance satisfies what the document itself says.
\<close>

theorem schema_enforces_what_it_accepts:
  assumes "compile_schema pr decode raw = (s, [])" and "decode raw = Inr sch" and "canonical sch"
    and "decode text = Inr v" and "canonical v"
  shows "s \<noteq> None \<and> in_subset 0 sch \<and> (validate_instance pr decode s text = [] \<longleftrightarrow> accepts sch v)"
proof -
  from assms(1,2) have c: "compile_node pr sch '''' 0 = (s, [])"
    by (auto simp: compile_schema_def split: prod.splits if_splits)
  then have "s \<noteq> None" by (auto elim: compile_node_ok)
  with compiled_in_subset [OF c assms(3)] compiled_accepts [OF c assms(3,5)] assms(4) show ?thesis
    by (simp add: validate_instance_def)
qed

definition sample_schema :: jvalue where
  "sample_schema =
     VObj [(''properties'', VObj [(''amount'', VObj [(''maximum'', VNum 10), (''type'', VStr ''integer'')])]),
           (''required'', VArr [VStr ''amount'']), (''type'', VStr ''object'')]"

definition sample_decode :: "string \<Rightarrow> string + jvalue" where
  "sample_decode raw = (if raw = ''schema'' then Inr sample_schema
     else if raw = ''good'' then Inr (VObj [(''amount'', VNum 3)]) else Inr (VObj [(''amount'', VNum 11)]))"

definition sample_printer :: printer where
  "sample_printer = \<lparr>pt_quote = \<lambda>s. s, pt_number = \<lambda>n. show_int \<lfloor>n\<rfloor>\<rparr>"

definition sample_compiled :: "schema option" where
  "sample_compiled = Some (Schema (no_constraints\<lparr>ct_type := ''object'', ct_required := [''amount'']\<rparr>)
     [(''amount'', Some (Schema (no_constraints\<lparr>ct_type := ''integer'', ct_maximum := Some 10\<rparr>) [] None))] None)"

lemma sample_compiles: "compile_schema sample_printer sample_decode ''schema'' = (sample_compiled, [])"
  by code_simp

lemma sample_canonical: "canonical sample_schema" "canonical (VObj [(''amount'', VNum 3)])"
  by code_simp+

theorem schema_enforces_what_it_accepts_witness:
  "sample_compiled \<noteq> None \<and> in_subset 0 sample_schema
     \<and> (validate_instance sample_printer sample_decode sample_compiled ''good'' = []
          \<longleftrightarrow> accepts sample_schema (VObj [(''amount'', VNum 3)]))"
  by (rule schema_enforces_what_it_accepts [OF sample_compiles _ sample_canonical(1) _ sample_canonical(2)])
    (simp_all add: sample_decode_def)

lemma sample_refused: "validate_instance sample_printer sample_decode sample_compiled ''bad'' \<noteq> []"
  by code_simp

end
