(* ===== verification/Discord.thy ===== *)
theory Discord
  imports Dispatcher
begin

text \<open>
  hub/internal/webhook/discord.go: a notification worded as one Discord embed, with everything a player can
  type escaped, and every text cut to Discord's limits.

  A \<open>rtext\<close> is the code points of a Go string (\<open>[]rune\<close>).  The payload is the parse tree of the notification; what
  \<open>strconv\<close> makes of a number and \<open>json.Marshal\<close> of a nested value is the record \<open>discord_env\<close>.  The decoder keeps numbers
  as their text (\<open>UseNumber\<close>), so the float64 branches of the code, which no caller reaches, are left out.
\<close>

type_synonym rtext = "nat list"

definition lit :: "string \<Rightarrow> rtext" where "lit s = map of_char s"

text \<open>The runes of valid UTF-8; a string the JSON decoder or the database hands out is valid.\<close>

fun utf8_runes :: "nat list \<Rightarrow> rtext" where
  "utf8_runes [] = []"
| "utf8_runes (a # s) =
     (if a < 0x80 then a # utf8_runes s
      else case s of
        [] \<Rightarrow> [0xFFFD]
      | b # s1 \<Rightarrow>
          if a < 0xE0 then ((a - 0xC0) * 64 + (b - 0x80)) # utf8_runes s1
          else case s1 of
            [] \<Rightarrow> [0xFFFD]
          | c # s2 \<Rightarrow>
              if a < 0xF0 then ((a - 0xE0) * 4096 + (b - 0x80) * 64 + (c - 0x80)) # utf8_runes s2
              else case s2 of
                [] \<Rightarrow> [0xFFFD]
              | e # s3 \<Rightarrow> ((a - 0xF0) * 262144 + (b - 0x80) * 4096 + (c - 0x80) * 64 + (e - 0x80)) # utf8_runes s3)"

definition runes :: "string \<Rightarrow> rtext" where "runes s = utf8_runes (map of_char s)"

subsection \<open>Limits, colors and bodies\<close>

definition discord_title_max :: nat where "discord_title_max = 256"
definition discord_description_max :: nat where "discord_description_max = 4096"
definition discord_field_name_max :: nat where "discord_field_name_max = 256"
definition discord_field_value_max :: nat where "discord_field_value_max = 1024"
definition discord_footer_max :: nat where "discord_footer_max = 2048"
definition discord_fields_max :: nat where "discord_fields_max = 25"
definition discord_generic_fields :: nat where "discord_generic_fields = 10"
definition discord_embed_total_max :: nat where "discord_embed_total_max = 6000"
definition discord_username :: string where "discord_username = ''Vyshka''"

definition discord_green :: int where "discord_green = 0x2ECC71"
definition discord_red :: int where "discord_red = 0xE74C3C"
definition discord_orange :: int where "discord_orange = 0xE67E22"
definition discord_blue :: int where "discord_blue = 0x3498DB"
definition discord_grey :: int where "discord_grey = 0x95A5A6"
definition discord_dark :: int where "discord_dark = 0x992D22"

record discord_field =
  df_name :: rtext
  df_value :: rtext
  df_inline :: bool

record discord_embed =
  em_title :: rtext
  em_description :: rtext
  em_color :: int
  em_timestamp :: string
  em_footer :: rtext
  em_fields :: "discord_field list"

record discord_body =
  db_username :: string
  db_embeds :: "discord_embed list"
  db_mentions :: "string list"

record 'f discord_env =
  de_float :: "string \<Rightarrow> 'f option"
  de_fixed :: "nat \<Rightarrow> 'f \<Rightarrow> rtext"
  de_int :: "'f \<Rightarrow> int"
  de_marshal :: "json \<Rightarrow> string option"
  de_stamp :: "time \<Rightarrow> string"

text \<open>An embed literal: what the code leaves out of one is zero.\<close>

definition embed_of :: "rtext \<Rightarrow> rtext \<Rightarrow> int \<Rightarrow> discord_field list \<Rightarrow> discord_embed" where
  "embed_of title description color fs =
     \<lparr>em_title = title, em_description = description, em_color = color, em_timestamp = '''', em_footer = [], em_fields = fs\<rparr>"

definition inline_field :: "string \<Rightarrow> rtext \<Rightarrow> discord_field" where
  "inline_field name v = \<lparr>df_name = lit name, df_value = v, df_inline = True\<rparr>"

subsection \<open>Escaping and cutting\<close>

text \<open>Case-insensitive, \<open>[a-z]\<close> has two members outside ASCII: the long s and the Kelvin sign.\<close>

definition scheme_letter :: "nat \<Rightarrow> bool" where
  "scheme_letter r = ((97 \<le> r \<and> r \<le> 122) \<or> (65 \<le> r \<and> r \<le> 90) \<or> r = 0x17F \<or> r = 0x212A)"

definition scheme_rune :: "nat \<Rightarrow> bool" where
  "scheme_rune r = (scheme_letter r \<or> (48 \<le> r \<and> r \<le> 57) \<or> r = 43 \<or> r = 46 \<or> r = 45)"

definition word_rune :: "nat \<Rightarrow> bool" where
  "word_rune r = ((97 \<le> r \<and> r \<le> 122) \<or> (65 \<le> r \<and> r \<le> 90) \<or> (48 \<le> r \<and> r \<le> 57) \<or> r = 95)"

definition zero_width_space :: nat where "zero_width_space = 0x200B"
definition ellipsis :: nat where "ellipsis = 0x2026"

text \<open>\<open>urlScheme\<close>: the leftmost match first, and no part of a text in two matches.\<close>

function break_schemes :: "rtext \<Rightarrow> rtext" where
  "break_schemes [] = []"
| "break_schemes (c # cs) =
     (if scheme_letter c \<and> take 3 (dropWhile scheme_rune cs) = lit ''://''
      then c # takeWhile scheme_rune cs @ 58 # zero_width_space # 47 # 47 # break_schemes (drop 3 (dropWhile scheme_rune cs))
      else c # break_schemes cs)"
  by pat_completeness auto
termination
  by (relation "measure length") (auto simp: length_dropWhile_le le_imp_less_Suc intro: le_less_trans [OF diff_le_self])

text \<open>\<open>urlBareHost\<close>; \<open>prev\<close> is whether the rune before is a word rune.\<close>

fun break_hosts :: "bool \<Rightarrow> rtext \<Rightarrow> rtext" where
  "break_hosts prev (a # b # c # e # cs) =
     (if \<not> prev \<and> a \<in> {87, 119} \<and> b \<in> {87, 119} \<and> c \<in> {87, 119} \<and> e = 46
      then a # b # c # zero_width_space # 46 # break_hosts False cs
      else a # break_hosts (word_rune a) (b # c # e # cs))"
| "break_hosts prev cs = cs"

definition formatting :: "nat list" where
  "formatting = [92, 42, 95, 126, 96, 124, 62, 35, 91, 93, 40, 41]"

definition is_control :: "nat \<Rightarrow> bool" where
  "is_control r = (r < 0x20 \<or> (0x7F \<le> r \<and> r < 0xA0))"

definition escape_rune :: "nat \<Rightarrow> rtext" where
  "escape_rune r =
     (if r \<in> set formatting then [92, r]
      else if r = 10 then [r]
      else if is_control r then [32] else [r])"

definition escape_text :: "rtext \<Rightarrow> rtext" where
  "escape_text t = concat (map escape_rune (break_hosts False (break_schemes t)))"

definition escape_markdown :: "string \<Rightarrow> rtext" where
  "escape_markdown s = escape_text (runes s)"

definition clip_text :: "rtext \<Rightarrow> nat \<Rightarrow> rtext" where
  "clip_text t limit =
     (if length t \<le> limit then t else if limit \<le> 1 then [ellipsis] else take (limit - 1) t @ [ellipsis])"

text \<open>\<open>strings.TrimSpace\<close> on runes.\<close>

definition white_rune :: "nat \<Rightarrow> bool" where
  "white_rune r = ((9 \<le> r \<and> r \<le> 13) \<or> r \<in> {32, 0x85, 0xA0, 0x1680, 0x2028, 0x2029, 0x202F, 0x205F, 0x3000} \<or> (0x2000 \<le> r \<and> r \<le> 0x200A))"

definition trim_text :: "rtext \<Rightarrow> rtext" where
  "trim_text t = rev (dropWhile white_rune (rev (dropWhile white_rune t)))"

fun join_text :: "rtext \<Rightarrow> rtext list \<Rightarrow> rtext" where
  "join_text sep [] = []"
| "join_text sep [w] = w"
| "join_text sep (w # v # ws) = w @ sep @ join_text sep (v # ws)"

definition plural :: "int \<Rightarrow> string \<Rightarrow> rtext" where
  "plural n noun = (if n = 1 then lit (''1 '' @ noun) else lit (show_int n @ '' '' @ noun @ ''s''))"

subsection \<open>Reading the payload\<close>

text \<open>A payload is the members of the object the data is; anything else decodes to no members.\<close>

type_synonym payload = "(string \<times> json) list"

definition payload_of :: "json \<Rightarrow> payload" where
  "payload_of j = (case j of JObject ms \<Rightarrow> ms | _ \<Rightarrow> [])"

definition string_field :: "payload \<Rightarrow> string \<Rightarrow> string" where
  "string_field ms key = (case last_member ms key of Some (JString s) \<Rightarrow> s | _ \<Rightarrow> '''')"

definition number_value :: "'f discord_env \<Rightarrow> json \<Rightarrow> 'f option" where
  "number_value env j =
     (case j of JLiteral l \<Rightarrow> if l \<in> {''null'', ''true'', ''false''} then None else de_float env l | _ \<Rightarrow> None)"

definition number_field :: "'f discord_env \<Rightarrow> payload \<Rightarrow> string \<Rightarrow> 'f option" where
  "number_field env ms key = (case last_member ms key of None \<Rightarrow> None | Some j \<Rightarrow> number_value env j)"

definition flag_field :: "payload \<Rightarrow> string \<Rightarrow> bool" where
  "flag_field ms key = (last_member ms key = Some (JLiteral ''true''))"

text \<open>\<open>escapeMarkdown\<close> of a string field, as nearly every use of it is.\<close>

abbreviation escaped_field :: "payload \<Rightarrow> string \<Rightarrow> rtext" where
  "escaped_field ms key \<equiv> escape_markdown (string_field ms key)"

definition scalar_text :: "'f discord_env \<Rightarrow> json \<Rightarrow> rtext" where
  "scalar_text env j =
     (case j of
        JLiteral l \<Rightarrow> runes l
      | JString s \<Rightarrow> if s = '''' then lit ''(empty)'' else escape_markdown s
      | _ \<Rightarrow> (case de_marshal env j of None \<Rightarrow> lit ''(unreadable)'' | Some s \<Rightarrow> escape_markdown s))"

definition identity_label :: "json option \<Rightarrow> rtext" where
  "identity_label j =
     (case j of
        Some (JObject ms) \<Rightarrow>
          (let id = string_field ms ''id''; platform = string_field ms ''platform'' in
           if id = '''' then []
           else if platform \<noteq> '''' then escape_markdown (platform @ '':'' @ id)
           else escape_markdown id)
      | _ \<Rightarrow> [])"

definition bold :: "rtext \<Rightarrow> rtext" where "bold t = lit ''**'' @ t @ lit ''**''"

definition player_label :: "payload \<Rightarrow> rtext" where
  "player_label ms =
     (let name = escaped_field ms ''name''; label = identity_label (last_member ms ''player'') in
      if name \<noteq> [] then bold name else if label \<noteq> [] then bold label else lit ''a player'')"

definition other_player_label :: "payload \<Rightarrow> string \<Rightarrow> string \<Rightarrow> rtext" where
  "other_player_label ms name_key identity_key =
     (let name = escaped_field ms name_key;
          other = (if name = [] then identity_label (last_member ms identity_key) else name)
      in if other = [] then lit ''another player'' else bold other)"

definition hit_label :: "payload \<Rightarrow> rtext" where
  "hit_label ms =
     (let part = escaped_field ms ''bodyPart''; ammo = escaped_field ms ''ammo'' in
      if part \<noteq> [] \<and> ammo \<noteq> [] then part @ lit '' ('' @ ammo @ lit '')''
      else if part \<noteq> [] then part else ammo)"

definition position_field :: "'f discord_env \<Rightarrow> payload \<Rightarrow> discord_field list" where
  "position_field env ms =
     (case last_member ms ''position'' of
        Some (JArray position) \<Rightarrow>
          if length position \<noteq> 3 then []
          else (let parts = List.map_filter (\<lambda>j. map_option (de_fixed env 0) (number_value env j)) position in
                if length parts \<noteq> 3 then []
                else [inline_field ''Position'' (join_text (lit '', '') parts)])
      | _ \<Rightarrow> [])"

definition action_id_field :: "payload \<Rightarrow> discord_field list" where
  "action_id_field ms =
     (if string_field ms ''actionId'' = '''' then []
      else [inline_field ''Action'' (clip_text (escaped_field ms ''actionId'') discord_field_value_max)])"

definition last_seen_description :: "payload \<Rightarrow> rtext" where
  "last_seen_description ms =
     (if string_field ms ''lastSeenAt'' \<noteq> '''' then lit ''last traffic at '' @ escaped_field ms ''lastSeenAt''
      else lit ''no traffic recorded'')"

text \<open>A suffix of a description that is only there when the text it carries is.\<close>

definition when_said :: "string \<Rightarrow> rtext \<Rightarrow> string \<Rightarrow> rtext" where
  "when_said opening t closing = (if t = [] then [] else lit opening @ t @ lit closing)"

definition server_description :: "payload \<Rightarrow> rtext" where
  "server_description ms =
     (let parts =
        [when_said ''world '' (escaped_field ms ''world'') '''', when_said ''game '' (escaped_field ms ''game'') '''',
         (case last_member ms ''plugin'' of
            Some (JObject plugin) \<Rightarrow>
              (let name = escaped_field plugin ''name'' in
               if name = [] then [] else lit ''plugin '' @ trim_text (name @ lit '' '' @ escaped_field plugin ''version''))
          | _ \<Rightarrow> [])];
          said = filter (\<lambda>p. p \<noteq> []) parts
      in if said = [] then lit ''no details'' else join_text (lit '', '') said)"

lemma runes_empty [simp]: "runes s = [] \<longleftrightarrow> s = ''''"
  by (cases s) (auto simp: runes_def split: list.split if_splits)

subsection \<open>The words of an embed\<close>

definition fixed_field :: "'f discord_env \<Rightarrow> payload \<Rightarrow> string \<Rightarrow> nat \<Rightarrow> rtext" where
  "fixed_field env ms key prec = (case number_field env ms key of None \<Rightarrow> [] | Some v \<Rightarrow> de_fixed env prec v)"

text \<open>A number with what is said around it, when the payload has one.\<close>

definition when_number :: "'f discord_env \<Rightarrow> payload \<Rightarrow> string \<Rightarrow> nat \<Rightarrow> string \<Rightarrow> string \<Rightarrow> rtext" where
  "when_number env ms key prec opening closing =
     (if number_field env ms key = None then [] else lit opening @ fixed_field env ms key prec @ lit closing)"

definition discord_death :: "'f discord_env \<Rightarrow> payload \<Rightarrow> discord_embed" where
  "discord_death env ms =
     (let victim = player_label ms; weapon = escaped_field ms ''weapon''; cause = string_field ms ''cause'';
          description =
            (if cause = ''player'' then victim @ lit '' was killed by '' @ other_player_label ms ''killerName'' ''killer''
               @ when_said '' with '' weapon '''' @ when_number env ms ''distance'' 0 '' from '' '' m''
             else if cause = ''self'' then victim @ lit '' died'' @ when_said '' to their own '' weapon ''''
             else if cause = ''infected'' then victim @ lit '' was killed by an infected''
             else if cause = ''animal'' then victim @ lit '' was killed by an animal''
             else if cause = ''explosion'' then victim @ lit '' was killed by an explosion'' @ when_said '' ('' weapon '')''
             else if cause = ''vehicle'' then victim @ lit '' was killed by a vehicle''
             else if cause = ''other'' then victim @ lit '' was killed'' @ when_said '' by '' (escaped_field ms ''killerType'') ''''
             else victim @ lit '' died'');
          hit = (if hit_label ms = [] then [] else [inline_field ''Hit'' (hit_label ms)]);
          vitals = filter (\<lambda>v. v \<noteq> [])
            [when_number env ms ''water'' 0 ''water '' '''', when_number env ms ''energy'' 0 ''energy '' '''',
             when_number env ms ''blood'' 0 ''blood '' '''', when_number env ms ''bleedingSources'' 0 ''bleeding sources '' '''',
             if flag_field ms ''submerged'' then lit ''submerged'' else []];
          at_death = (if vitals = [] then [] else [inline_field ''At death'' (join_text (lit '', '') vitals)])
      in embed_of (lit ''Player died'') description discord_red (position_field env ms @ hit @ at_death))"

definition discord_damage :: "'f discord_env \<Rightarrow> payload \<Rightarrow> discord_embed" where
  "discord_damage env ms =
     (let victim = player_label ms; weapon = escaped_field ms ''weapon''; cause = string_field ms ''cause'';
          hit =
            (if cause = ''player'' then victim @ lit '' was hit by '' @ other_player_label ms ''attackerName'' ''attacker''
               @ when_said '' with '' weapon '''' @ when_number env ms ''distance'' 0 '' from '' '' m''
             else if cause = ''self'' then victim @ lit '' was hurt'' @ when_said '' by their own '' weapon ''''
             else if cause = ''infected'' then victim @ lit '' was hit by an infected''
             else if cause = ''animal'' then victim @ lit '' was hit by an animal''
             else if cause = ''explosion'' then victim @ lit '' was hit by an explosion'' @ when_said '' ('' weapon '')''
             else if cause = ''vehicle'' then victim @ lit '' was hit by a vehicle''
             else if cause = ''other'' then victim @ lit '' was hit'' @ when_said '' by '' (escaped_field ms ''sourceType'') ''''
             else victim @ lit '' was hit'');
          harm = (if flag_field ms ''blocked'' then lit '', blocked'' else when_number env ms ''damage'' 1 '' for '' '' damage'');
          description = hit @ when_said '' in the '' (escaped_field ms ''bodyPart'') '''' @ harm @ when_said '' ('' (escaped_field ms ''ammo'') '')'';
          health = (if number_field env ms ''health'' = None then [] else [inline_field ''Health left'' (fixed_field env ms ''health'' 0)])
      in if flag_field ms ''fatal'' then embed_of (lit ''Player hit (fatal)'') description discord_red (health @ position_field env ms)
         else embed_of (lit ''Player hit'') description discord_orange (health @ position_field env ms))"

definition discord_action :: "'f discord_env \<Rightarrow> payload \<Rightarrow> discord_embed" where
  "discord_action env ms =
     (let named = escaped_field ms ''code''; code = (if named = [] then lit ''an action'' else named);
          state = string_field ms ''state''; fs = action_id_field ms
      in if state = ''completed''
         then embed_of (lit ''Action completed'') (code @ lit '' completed'' @ when_number env ms ''durationMs'' 0 '' in '' '' ms'') discord_green fs
         else if state = ''failed''
         then embed_of (lit ''Action failed'') (code @ lit '' failed'' @ when_said '': '' (escaped_field ms ''error'') '''') discord_red fs
         else if state = ''expired''
         then embed_of (lit ''Action expired'') (code @ lit '' expired before the server answered'') discord_orange fs
         else embed_of (lit ''Action '' @ escape_markdown state) code discord_grey fs)"

definition audit_color :: "int \<Rightarrow> int" where
  "audit_color code =
     (if code \<ge> 200 \<and> code < 300 then discord_green else if code \<ge> 400 \<and> code < 500 then discord_orange
      else if code \<ge> 500 then discord_red else discord_grey)"

definition discord_audit :: "'f discord_env \<Rightarrow> payload \<Rightarrow> discord_embed" where
  "discord_audit env ms =
     (let named = escaped_field ms ''tokenName''; who = (if named = [] then lit ''an unnamed credential'' else named);
          asked = trim_space (string_field ms ''method'' @ '' '' @ string_field ms ''path'');
          request = (if asked = '''' then ''a mutation'' else asked);
          source = (if string_field ms ''sourceIp'' = '''' then [] else [inline_field ''Source'' (escaped_field ms ''sourceIp'')]);
          token = (if string_field ms ''tokenId'' = '''' then [] else [inline_field ''Token'' (escaped_field ms ''tokenId'')]);
          detail =
            (case last_member ms ''detail'' of
               Some (JObject d) \<Rightarrow>
                 if d = [] then []
                 else [\<lparr>df_name = lit ''Detail'', df_value = clip_text (scalar_text env (JObject d)) discord_field_value_max, df_inline = False\<rparr>]
             | _ \<Rightarrow> []);
          title = lit ''Audit: '' @ escape_markdown request
      in case number_field env ms ''status'' of
           None \<Rightarrow> embed_of title who discord_grey (source @ token @ detail)
         | Some v \<Rightarrow> embed_of title (who @ [32, 0x2192, 32] @ lit (show_int (de_int env v))) (audit_color (de_int env v)) (source @ token @ detail))"

text \<open>The top-level members in key order, at most ten of them, and a field that counts the rest.\<close>

definition generic_fields :: "'f discord_env \<Rightarrow> payload \<Rightarrow> discord_field list" where
  "generic_fields env ms =
     (let keys = sort (remdups (map fst ms));
          shown = map (\<lambda>key. \<lparr>df_name = clip_text (escape_markdown key) discord_field_name_max,
              df_value = clip_text (scalar_text env (the (last_member ms key))) discord_field_value_max, df_inline = True\<rparr>)
            (take discord_generic_fields keys)
      in if length keys \<le> discord_generic_fields then shown
         else shown @ [\<lparr>df_name = [ellipsis],
             df_value = plural (int (length keys - discord_generic_fields)) ''more member'' @ lit '' not shown'', df_inline = False\<rparr>])"

definition discord_generic :: "'f discord_env \<Rightarrow> string \<Rightarrow> payload \<Rightarrow> discord_embed" where
  "discord_generic env ty ms =
     embed_of (escape_markdown ty) (if generic_fields env ms = [] then lit ''no payload'' else []) discord_grey (generic_fields env ms)"

definition discord_performance :: "'f discord_env \<Rightarrow> payload \<Rightarrow> discord_embed" where
  "discord_performance env ms =
     (let fps = when_number env ms ''fps'' 1 '''' '' fps'';
          players = (case number_field env ms ''players'' of None \<Rightarrow> [] | Some v \<Rightarrow> plural (de_int env v) ''player'');
          description = (if fps \<noteq> [] \<and> players \<noteq> [] then fps @ lit '', '' @ players else fps @ players)
      in embed_of (lit ''Performance'') (if description = [] then lit ''no sample'' else description) discord_blue [])"

definition discord_embed_for :: "'f discord_env \<Rightarrow> string \<Rightarrow> payload \<Rightarrow> discord_embed" where
  "discord_embed_for env ty ms =
     (if ty = ''core.player.connect'' then embed_of (lit ''Player connected'') (player_label ms @ lit '' joined'') discord_green []
      else if ty = ''core.player.disconnect'' then embed_of (lit ''Player disconnected'') (player_label ms @ lit '' left'') discord_grey []
      else if ty = ''core.player.death'' then discord_death env ms
      else if ty = ''core.player.damage'' then discord_damage env ms
      else if ty = ''core.player.chat'' then
        embed_of (if string_field ms ''channel'' = '''' then lit ''Chat'' else lit ''Chat ('' @ escaped_field ms ''channel'' @ lit '')'')
          (player_label ms @ lit '': '' @ escaped_field ms ''text'') discord_blue []
      else if ty = ''core.player.kick'' then
        embed_of (lit ''Player kicked'')
          ((if string_field ms ''cause'' = ''ban'' then player_label ms @ lit '' was refused: banned'' else player_label ms @ lit '' was kicked'')
             @ when_said '' ('' (escaped_field ms ''reason'') '')'') discord_orange (action_id_field ms)
      else if ty = ''core.player.ban'' then
        embed_of (lit ''Player banned'')
          (player_label ms @ lit '' was banned'' @ when_said '' until '' (escaped_field ms ''expiresAt'') ''''
             @ when_said '' ('' (escaped_field ms ''reason'') '')'') discord_dark (action_id_field ms)
      else if ty = ''core.server.start'' then embed_of (lit ''Server started'') (server_description ms) discord_green []
      else if ty = ''core.server.stop'' then embed_of (lit ''Server stopped'') (server_description ms) discord_grey []
      else if ty = ''core.server.fps'' then discord_performance env ms
      else if ty = action_completed then discord_action env ms
      else if ty = link_lost then embed_of (lit ''Server link lost'') (last_seen_description ms) discord_red []
      else if ty = link_restored then embed_of (lit ''Server link restored'') (last_seen_description ms) discord_green []
      else if ty = audit_recorded then discord_audit env ms
      else discord_generic env ty ms)"

subsection \<open>The limits\<close>

definition bound_field :: "discord_field \<Rightarrow> discord_field" where
  "bound_field f =
     (let name = clip_text (df_name f) discord_field_name_max; shown = clip_text (df_value f) discord_field_value_max in
      f\<lparr>df_name := if name = [] then [ellipsis] else name, df_value := if shown = [] then lit ''(empty)'' else shown\<rparr>)"

definition field_length :: "discord_field \<Rightarrow> nat" where
  "field_length f = length (df_name f) + length (df_value f)"

definition embed_text_length :: "discord_embed \<Rightarrow> nat" where
  "embed_text_length e =
     length (em_title e) + length (em_description e) + length (em_footer e) + sum_list (map field_length (em_fields e))"

lemma length_clip_text: "length (clip_text t limit) = (if length t \<le> limit then length t else max 1 limit)"
  by (simp add: clip_text_def)

lemma embed_text_length_description [simp]:
  "embed_text_length (e\<lparr>em_description := t\<rparr>) = embed_text_length e - length (em_description e) + length t"
  by (simp add: embed_text_length_def)

text \<open>The whole-embed cap: the description gives first, then the fields from the end.\<close>

definition kept_length :: "discord_embed \<Rightarrow> nat" where
  "kept_length e =
     (let over = embed_text_length e - discord_embed_total_max; n = length (em_description e) in if n - over < 1 then 1 else n - over)"

function shrink_embed :: "discord_embed \<Rightarrow> discord_embed" where
  "shrink_embed e =
     (if embed_text_length e \<le> discord_embed_total_max then e
      else if length (em_description e) > 1 then shrink_embed (e\<lparr>em_description := clip_text (em_description e) (kept_length e)\<rparr>)
      else if em_fields e = [] then e
      else shrink_embed (e\<lparr>em_fields := butlast (em_fields e)\<rparr>))"
  by pat_completeness auto
termination
  by (relation "measure (\<lambda>e. length (em_description e) + length (em_fields e))") (auto simp: length_clip_text kept_length_def Let_def)

definition bound_discord_embed :: "discord_embed \<Rightarrow> discord_embed" where
  "bound_discord_embed e =
     shrink_embed (e\<lparr>em_title := clip_text (em_title e) discord_title_max,
       em_description := clip_text (em_description e) discord_description_max,
       em_footer := clip_text (em_footer e) discord_footer_max,
       em_fields := map bound_field (take discord_fields_max (em_fields e))\<rparr>)"

definition render_discord :: "'f discord_env \<Rightarrow> notification \<Rightarrow> string \<Rightarrow> discord_body" where
  "render_discord env n server_name =
     (let name = (if server_name = '''' then no_server n else server_name);
          name = (if name = '''' then ''installation'' else name);
          e = (discord_embed_for env (no_type n) (payload_of (no_data n)))\<lparr>em_timestamp := de_stamp env (no_occurred n),
            em_footer := clip_text (runes name @ [32, 0xB7, 32] @ runes (no_type n)) discord_footer_max\<rparr>
      in \<lparr>db_username = discord_username, db_embeds = [bound_discord_embed e], db_mentions = []\<rparr>)"

declare shrink_embed.simps [simp del]

subsection \<open>An embed is one Discord accepts\<close>

definition field_fits :: "discord_field \<Rightarrow> bool" where
  "field_fits f = (1 \<le> length (df_name f) \<and> length (df_name f) \<le> 256 \<and> 1 \<le> length (df_value f) \<and> length (df_value f) \<le> 1024)"

definition embed_fits :: "discord_embed \<Rightarrow> bool" where
  "embed_fits e =
     (length (em_title e) \<le> 256 \<and> length (em_description e) \<le> 4096 \<and> length (em_footer e) \<le> 2048
      \<and> length (em_fields e) \<le> 25 \<and> list_all field_fits (em_fields e))"

lemma bound_field_fits: "field_fits (bound_field f)"
  by (auto simp: field_fits_def bound_field_def Let_def length_clip_text lit_def discord_field_name_max_def discord_field_value_max_def
      Suc_le_eq)

lemma shrink_embed_cases:
  obtains (small) "embed_text_length e \<le> discord_embed_total_max" "shrink_embed e = e"
    | (cut) "\<not> embed_text_length e \<le> discord_embed_total_max" "length (em_description e) > 1"
        "shrink_embed e = shrink_embed (e\<lparr>em_description := clip_text (em_description e) (kept_length e)\<rparr>)"
    | (bare) "\<not> embed_text_length e \<le> discord_embed_total_max" "\<not> length (em_description e) > 1" "em_fields e = []" "shrink_embed e = e"
    | (drop_last) "\<not> embed_text_length e \<le> discord_embed_total_max" "\<not> length (em_description e) > 1" "em_fields e \<noteq> []"
        "shrink_embed e = shrink_embed (e\<lparr>em_fields := butlast (em_fields e)\<rparr>)"
  using shrink_embed.simps [of e] by metis

lemma shrink_fits: "embed_fits e \<Longrightarrow> embed_fits (shrink_embed e)"
proof (induction e rule: shrink_embed.induct)
  case (1 e)
  show ?case
  proof (cases e rule: shrink_embed_cases)
    case cut
    from "1.prems" have "embed_fits (e\<lparr>em_description := clip_text (em_description e) (kept_length e)\<rparr>)"
      by (auto simp: embed_fits_def length_clip_text kept_length_def Let_def)
    from "1.IH"(1) [OF cut(1,2) this] show ?thesis unfolding cut(3) .
  next
    case drop_last
    from "1.prems" have "embed_fits (e\<lparr>em_fields := butlast (em_fields e)\<rparr>)"
      by (auto simp: embed_fits_def list_all_iff dest: in_set_butlastD)
    from "1.IH"(2) [OF drop_last(1-3) this] show ?thesis unfolding drop_last(4) .
  qed (use "1.prems" in simp_all)
qed

lemma shrink_total: "length (em_title e) + length (em_footer e) < discord_embed_total_max \<Longrightarrow> embed_text_length (shrink_embed e) \<le> discord_embed_total_max"
proof (induction e rule: shrink_embed.induct)
  case (1 e)
  show ?case
  proof (cases e rule: shrink_embed_cases)
    case cut
    from "1.IH"(1) [OF cut(1,2)] "1.prems" show ?thesis unfolding cut(3) by simp
  next
    case drop_last
    from "1.IH"(2) [OF drop_last(1-3)] "1.prems" show ?thesis unfolding drop_last(4) by simp
  next
    case bare
    then have "embed_text_length e \<le> length (em_title e) + length (em_footer e) + 1" by (simp add: embed_text_length_def)
    with bare(1) "1.prems" show ?thesis by linarith
  qed simp
qed

text \<open>
  C27. Discord accepts what the hub posts.  Every notification, whatever its type and payload, becomes one embed that keeps
  each of Discord's limits (title 256, description 4096, footer 2048, 25 fields with a name of 1 to 256 and a value of 1 to
  1024, 6000 over all texts), and no mention in it is resolved.
\<close>

theorem discord_within_limits:
  "(\<exists>e. db_embeds (render_discord env n name) = [e] \<and> embed_fits e \<and> embed_text_length e \<le> 6000)
     \<and> db_mentions (render_discord env n name) = []"
proof -
  define e where "e = hd (db_embeds (render_discord env n name))"
  have one: "db_embeds (render_discord env n name) = [e]" by (simp add: e_def render_discord_def Let_def)
  obtain e0 where e0: "e = bound_discord_embed e0" by (simp add: e_def render_discord_def Let_def)
  let ?e = "e0\<lparr>em_title := clip_text (em_title e0) discord_title_max, em_description := clip_text (em_description e0) discord_description_max,
      em_footer := clip_text (em_footer e0) discord_footer_max, em_fields := map bound_field (take discord_fields_max (em_fields e0))\<rparr>"
  have fits: "embed_fits ?e"
    by (auto simp: embed_fits_def length_clip_text list_all_iff bound_field_fits discord_title_max_def discord_description_max_def
        discord_footer_max_def discord_fields_max_def)
  then have "length (em_title ?e) + length (em_footer ?e) < discord_embed_total_max"
    unfolding embed_fits_def discord_embed_total_max_def by linarith
  from shrink_total [OF this] shrink_fits [OF fits] have "embed_fits e" "embed_text_length e \<le> 6000"
    by (simp_all add: e0 bound_discord_embed_def discord_embed_total_max_def)
  with one show ?thesis by (simp add: render_discord_def Let_def)
qed

subsection \<open>What a player types formats nothing\<close>

text \<open>What Discord reads as formatting: backslash, emphasis, strikethrough, code, spoiler, quote, heading and link.\<close>

definition markdown_runes :: "nat list" where
  "markdown_runes = [92, 42, 95, 126, 96, 124, 62, 35, 91, 93, 40, 41]"

lemma markdown_escaped [simp]: "markdown_runes = formatting"
  by (simp add: markdown_runes_def formatting_def)

text \<open>The formatting runes of a text that no backslash takes the meaning from; \<open>esc\<close> is whether one stands before.\<close>

fun markup :: "bool \<Rightarrow> rtext \<Rightarrow> rtext" where
  "markup esc [] = []"
| "markup esc (c # cs) =
     (if esc then markup False cs
      else if c = 92 then markup True cs
      else if c \<in> set markdown_runes then c # markup False cs
      else markup False cs)"

text \<open>What the hub words itself: bold names and parentheses.\<close>

definition own_markup :: "nat list" where "own_markup = [42, 40, 41]"

text \<open>A text whose backslashes all stand before a formatting rune, and whose other formatting is the hub's.\<close>

fun tame :: "bool \<Rightarrow> rtext \<Rightarrow> bool" where
  "tame esc [] = (\<not> esc)"
| "tame esc (c # cs) =
     (if esc then c \<in> set formatting \<and> tame False cs
      else if c = 92 then tame True cs
      else (c \<in> set formatting \<longrightarrow> c \<in> set own_markup) \<and> tame False cs)"

named_theorems tame_intros

lemma tame_append [tame_intros]: "tame e a \<Longrightarrow> tame False b \<Longrightarrow> tame e (a @ b)"
  by (induction e a rule: tame.induct) (auto split: if_splits)

lemma tame_markup: "tame e t \<Longrightarrow> set (markup e t) \<subseteq> set own_markup"
  by (induction e t rule: tame.induct) (auto split: if_splits)

lemma markup_prefix: "set (markup e (take n t)) \<subseteq> set (markup e t)"
proof (induction e t arbitrary: n rule: markup.induct)
  case (2 esc c cs)
  then show ?case by (cases n) (simp_all; blast)+
qed simp

lemma markup_end: "set (markup e (t @ [ellipsis])) = set (markup e t)"
  by (induction e t rule: markup.induct) (auto simp: ellipsis_def formatting_def)

lemma markup_clip: "set (markup e (clip_text t n)) \<subseteq> set (markup e t)"
  using markup_prefix by (auto simp: clip_text_def markup_end) (auto simp: ellipsis_def formatting_def split: if_splits)

definition plain_rune :: "nat \<Rightarrow> bool" where "plain_rune c = (c \<in> set own_markup \<or> c \<notin> set formatting)"

lemma tame_plain: "list_all plain_rune t \<Longrightarrow> tame False t"
  by (induction t) (auto simp: plain_rune_def own_markup_def formatting_def)

lemma tame_concat: "(\<And>t. t \<in> set ts \<Longrightarrow> tame False t) \<Longrightarrow> tame False (concat ts)"
  by (induction ts) (auto intro: tame_append)

lemma tame_escape_rune: "tame False (escape_rune r)"
  by (auto simp: escape_rune_def own_markup_def formatting_def)

lemma tame_escape [tame_intros]: "tame False (escape_text t)" "tame False (escape_markdown s)"
  by (auto simp: escape_text_def escape_markdown_def intro!: tame_concat tame_escape_rune)

lemma white_plain: "white_rune r \<Longrightarrow> r \<notin> set formatting"
  by (auto simp: white_rune_def formatting_def)

lemma tame_dropWhile: "tame False t \<Longrightarrow> tame False (dropWhile white_rune t)"
proof (induction t)
  case (Cons c cs)
  then show ?case using white_plain [of c] by (auto simp: formatting_def split: if_splits)
qed simp

lemma tame_last: "tame e (t @ [w]) \<Longrightarrow> white_rune w \<Longrightarrow> tame e t"
  by (induction e t rule: tame.induct) (auto dest: white_plain split: if_splits)

lemma tame_trim_end: "tame False (rev t) \<Longrightarrow> tame False (rev (dropWhile white_rune t))"
  by (induction t) (auto dest: tame_last)

lemma tame_trim [tame_intros]: "tame False t \<Longrightarrow> tame False (trim_text t)"
  unfolding trim_text_def by (rule tame_trim_end) (simp add: tame_dropWhile)

lemma tame_join [tame_intros]:
  "tame False sep \<Longrightarrow> (\<And>t. t \<in> set ts \<Longrightarrow> tame False t) \<Longrightarrow> tame False (join_text sep ts)"
  by (induction sep ts rule: join_text.induct) (auto intro!: tame_append)

lemma plain_digits: "list_all plain_rune (lit (show_int n))"
proof -
  have "plain_rune (of_char c)" if "c \<in> set (digits_rev k)" for c k
    using digits_rev_chars [OF that] by (auto simp: plain_rune_def formatting_def own_markup_def)
  then show ?thesis by (auto simp: lit_def show_int_def list_all_iff plain_rune_def formatting_def split: if_splits)
qed

lemma tame_show_int [tame_intros]: "tame False (lit (show_int n))"
  by (rule tame_plain [OF plain_digits])

lemma lit_append: "lit (a @ b) = lit a @ lit b"
  by (simp add: lit_def)

lemma tame_plural [tame_intros]: "tame False (lit noun) \<Longrightarrow> tame False (plural n noun)"
  unfolding plural_def lit_append
  by (auto intro!: tame_append tame_show_int) (simp_all add: lit_def formatting_def own_markup_def)

definition quiet :: "rtext \<Rightarrow> bool" where "quiet t = (set (markup False t) \<subseteq> set own_markup)"

definition embed_quiet :: "discord_embed \<Rightarrow> bool" where
  "embed_quiet e =
     (quiet (em_title e) \<and> quiet (em_description e) \<and> list_all (\<lambda>f. quiet (df_name f) \<and> quiet (df_value f)) (em_fields e))"

lemma quiet_tame: "tame False t \<Longrightarrow> quiet t"
  using tame_markup by (simp add: quiet_def)

lemma quiet_clip: "quiet t \<Longrightarrow> quiet (clip_text t n)"
  using markup_clip by (fastforce simp: quiet_def)

lemma quiet_plain: "list_all plain_rune t \<Longrightarrow> quiet t"
  by (rule quiet_tame [OF tame_plain])

lemma bound_field_quiet: "quiet (df_name f) \<Longrightarrow> quiet (df_value f) \<Longrightarrow> quiet (df_name (bound_field f)) \<and> quiet (df_value (bound_field f))"
  by (auto simp: bound_field_def Let_def intro!: quiet_clip)
    (auto simp: lit_def ellipsis_def plain_rune_def formatting_def own_markup_def intro!: quiet_plain)

lemma shrink_quiet: "embed_quiet e \<Longrightarrow> embed_quiet (shrink_embed e)"
proof (induction e rule: shrink_embed.induct)
  case (1 e)
  show ?case
  proof (cases e rule: shrink_embed_cases)
    case cut
    from "1.prems" have "embed_quiet (e\<lparr>em_description := clip_text (em_description e) (kept_length e)\<rparr>)"
      by (auto simp: embed_quiet_def intro: quiet_clip)
    from "1.IH"(1) [OF cut(1,2) this] show ?thesis unfolding cut(3) .
  next
    case drop_last
    from "1.prems" have "embed_quiet (e\<lparr>em_fields := butlast (em_fields e)\<rparr>)"
      by (auto simp: embed_quiet_def list_all_iff dest: in_set_butlastD)
    from "1.IH"(2) [OF drop_last(1-3) this] show ?thesis unfolding drop_last(4) .
  qed (use "1.prems" in simp_all)
qed

lemma bound_quiet: "embed_quiet e \<Longrightarrow> embed_quiet (bound_discord_embed e)"
  unfolding bound_discord_embed_def
  by (rule shrink_quiet) (auto simp: embed_quiet_def list_all_iff intro: quiet_clip dest!: in_set_takeD simp: bound_field_quiet)

text \<open>Numbers are worded plainly: what the library writes for one has no formatting rune.\<close>

definition plain_numbers :: "'f discord_env \<Rightarrow> payload \<Rightarrow> bool" where
  "plain_numbers env ms =
     ((\<forall>p v. list_all plain_rune (de_fixed env p v)) \<and> (\<forall>key l. (key, JLiteral l) \<in> set ms \<longrightarrow> list_all plain_rune (runes l)))"

lemma tame_lit: "list_all plain_rune (lit s) \<Longrightarrow> tame False (lit s)"
  by (rule tame_plain)

lemma lit_simps [simp]: "lit [] = []" "lit (c # cs) = of_char c # lit cs"
  by (simp_all add: lit_def)

lemmas plain_lits = plain_rune_def formatting_def own_markup_def

lemma tame_bold [tame_intros]: "tame False t \<Longrightarrow> tame False (bold t)"
  unfolding bold_def by (intro tame_append) (simp_all add: formatting_def own_markup_def)

lemma tame_identity [tame_intros]: "tame False (identity_label j)"
  by (auto simp: identity_label_def Let_def intro: tame_intros split: option.split json.split)

lemma tame_labels [tame_intros]: "tame False (player_label ms)" "tame False (other_player_label ms a b)"
  by (auto simp: player_label_def other_player_label_def Let_def plain_lits simp del: lit_simps intro!: tame_intros)
    (auto simp: formatting_def)

lemma tame_when_said [tame_intros]:
  "list_all plain_rune (lit opening) \<Longrightarrow> list_all plain_rune (lit closing) \<Longrightarrow> tame False t \<Longrightarrow> tame False (when_said opening t closing)"
  unfolding when_said_def by (auto intro!: tame_append tame_lit simp del: lit_simps)

lemma tame_fixed: "plain_numbers env ms \<Longrightarrow> tame False (fixed_field env ms key p)"
  by (auto simp: fixed_field_def plain_numbers_def intro!: tame_plain split: option.split)

lemma tame_when_number [tame_intros]:
  "plain_numbers env ms \<Longrightarrow> list_all plain_rune (lit opening) \<Longrightarrow> list_all plain_rune (lit closing) \<Longrightarrow>
     tame False (when_number env ms key p opening closing)"
  unfolding when_number_def by (auto intro!: tame_append tame_lit tame_fixed simp del: lit_simps)

lemma tame_hit [tame_intros]: "tame False (hit_label ms)"
  unfolding hit_label_def Let_def by (auto intro!: tame_append tame_escape simp: plain_lits)

lemma tame_last_seen [tame_intros]: "tame False (last_seen_description ms)"
  unfolding last_seen_description_def by (auto intro!: tame_append tame_escape simp: plain_lits)

lemma tame_join_said: "list_all (tame False) ts \<Longrightarrow> tame False (join_text (lit '', '') (filter P ts))"
  by (intro tame_join) (auto simp: plain_lits list_all_iff)

lemma tame_server [tame_intros]: "tame False (server_description ms)"
proof -
  have parts: "tame False (when_said ''world '' (escaped_field ms ''world'') '''')" "tame False (when_said ''game '' (escaped_field ms ''game'') '''')"
    by (intro tame_intros; simp add: plain_lits)+
  have plugin: "tame False (case last_member ms ''plugin'' of
      Some (JObject plugin) \<Rightarrow> (let name = escaped_field plugin ''name'' in
        if name = [] then [] else lit ''plugin '' @ trim_text (name @ lit '' '' @ escaped_field plugin ''version'')) | _ \<Rightarrow> [])"
    by (auto simp: Let_def intro!: tame_append tame_trim tame_escape split: option.split json.split) (auto simp: plain_lits)
  have gen: "tame False (if filter P [a, b, c] = [] then lit ''no details'' else join_text (lit '', '') (filter P [a, b, c]))"
    if "tame False a" "tame False b" "tame False c" for a b c and P :: "rtext \<Rightarrow> bool"
    using tame_join_said [of "[a, b, c]" P] that by (auto simp: plain_lits simp del: filter.simps)
  show ?thesis unfolding server_description_def Let_def using parts plugin unfolding Let_def by (rule gen)
qed

definition field_quiet :: "discord_field \<Rightarrow> bool" where
  "field_quiet f = (quiet (df_name f) \<and> quiet (df_value f))"

lemma inline_quiet: "list_all plain_rune (lit name) \<Longrightarrow> quiet v \<Longrightarrow> field_quiet (inline_field name v)"
  by (simp add: field_quiet_def inline_field_def quiet_plain del: lit_simps)

lemma position_quiet: "plain_numbers env ms \<Longrightarrow> list_all field_quiet (position_field env ms)"
proof -
  assume "plain_numbers env ms"
  then have "tame False (de_fixed env 0 v)" for v by (simp add: plain_numbers_def tame_plain)
  then have "tame False (join_text (lit '', '') (List.map_filter (\<lambda>j. map_option (de_fixed env 0) (number_value env j)) position))" for position
    by (intro tame_join) (auto simp: List.map_filter_def plain_lits)
  then show ?thesis unfolding position_field_def Let_def
    by (auto simp: plain_lits intro!: inline_quiet quiet_tame split: option.split json.split)
qed

lemma action_id_quiet: "list_all field_quiet (action_id_field ms)"
proof -
  have "quiet (clip_text (escaped_field ms ''actionId'') discord_field_value_max)" by (rule quiet_clip [OF quiet_tame [OF tame_escape(2)]])
  moreover have "list_all plain_rune (lit ''Action'')" by (simp add: plain_lits)
  ultimately show ?thesis using inline_quiet unfolding action_id_field_def by simp
qed

lemma scalar_quiet:
  assumes "plain_numbers env ms" and "last_member ms key = Some j"
  shows "quiet (scalar_text env j)"
proof -
  have "(key, j) \<in> set ms" using assms(2) by (auto simp: last_member_def dest: map_of_SomeD)
  with assms(1) have plain: "quiet (runes l)" if "j = JLiteral l" for l
    using that by (auto simp: plain_numbers_def intro!: quiet_plain)
  have said: "quiet (escape_markdown s)" "quiet (lit ''(empty)'')" "quiet (lit ''(unreadable)'')" for s
    by (rule quiet_tame [OF tame_escape(2)]) (simp_all add: quiet_plain plain_lits)
  show ?thesis using plain said by (cases j) (auto simp: scalar_text_def simp del: lit_simps split: option.split)
qed

lemma generic_quiet:
  assumes "plain_numbers env ms"
  shows "list_all field_quiet (generic_fields env ms)"
proof -
  have "quiet (scalar_text env (the (last_member ms key)))" if "key \<in> fst ` set ms" for key
  proof -
    have "map_of (rev ms) key \<noteq> None" using that by (simp add: map_of_eq_None_iff)
    then obtain j where "last_member ms key = Some j" by (auto simp: last_member_def)
    with scalar_quiet [OF assms this] show ?thesis by simp
  qed
  moreover have "quiet (plural n ''more member'' @ lit '' not shown'')" for n
    by (intro quiet_tame tame_append tame_plural) (simp_all add: plain_lits)
  moreover have "quiet [ellipsis]" by (rule quiet_plain) (simp add: plain_lits ellipsis_def)
  ultimately show ?thesis
    by (auto simp: generic_fields_def Let_def list_all_iff field_quiet_def simp del: lit_simps
        intro!: quiet_clip quiet_tame [OF tame_escape(2)] dest!: in_set_takeD)
qed

lemma embed_quiet_of [intro]:
  "tame False t \<Longrightarrow> tame False desc \<Longrightarrow> list_all field_quiet fs \<Longrightarrow> embed_quiet (embed_of t desc color fs)"
  by (auto simp: embed_quiet_def embed_of_def list_all_iff field_quiet_def intro: quiet_tame)

lemma tame_if [tame_intros]: "tame e a \<Longrightarrow> tame e b \<Longrightarrow> tame e (if c then a else b)"
  by simp

lemma if_both: "A \<Longrightarrow> B \<Longrightarrow> (if c then A else B)"
  by simp

lemma death_quiet: "plain_numbers env ms \<Longrightarrow> embed_quiet (discord_death env ms)"
proof -
  assume plain: "plain_numbers env ms"
  have vital: "list_all plain_rune (lit s) \<Longrightarrow> tame False (when_number env ms key 0 s '''')" for key s
    by (rule tame_when_number [OF plain]) simp_all
  have at_death: "quiet (join_text (lit '', '') (filter P
      [when_number env ms ''water'' 0 ''water '' [], when_number env ms ''energy'' 0 ''energy '' [],
       when_number env ms ''blood'' 0 ''blood '' [], when_number env ms ''bleedingSources'' 0 ''bleeding sources '' [],
       if flag_field ms ''submerged'' then lit ''submerged'' else []]))" for P
    by (intro quiet_tame tame_join_said) (simp add: vital plain_lits)
  show ?thesis unfolding discord_death_def Let_def
  proof (rule embed_quiet_of, goal_cases)
    case 2
    show ?case by (intro tame_if tame_append tame_labels tame_when_said tame_when_number tame_escape plain; simp add: plain_lits)
  next
    case 3
    have "list_all field_quiet (if hit_label ms = [] then [] else [inline_field ''Hit'' (hit_label ms)])"
      by (auto intro!: inline_quiet quiet_tame tame_hit simp: plain_lits)
    moreover have "list_all field_quiet (if vs = [] then [] else [inline_field ''At death'' v])" if "quiet v" for vs :: "rtext list" and v
      using that by (auto intro!: inline_quiet simp: plain_lits)
    ultimately show ?case using position_quiet [OF plain] at_death by (simp only: list_all_append simp_thms)
  qed (simp add: plain_lits)
qed

lemma damage_quiet: "plain_numbers env ms \<Longrightarrow> embed_quiet (discord_damage env ms)"
proof -
  assume plain: "plain_numbers env ms"
  have "list_all field_quiet (if number_field env ms ''health'' = None then [] else [inline_field ''Health left'' (fixed_field env ms ''health'' 0)])"
    by (auto intro!: inline_quiet quiet_tame tame_fixed plain simp: plain_lits)
  with position_quiet [OF plain] have fs: "list_all field_quiet ((if number_field env ms ''health'' = None then []
      else [inline_field ''Health left'' (fixed_field env ms ''health'' 0)]) @ position_field env ms)" by (simp only: list_all_append simp_thms)
  show ?thesis unfolding discord_damage_def Let_def if_distrib [of embed_quiet]
  proof (rule if_both, goal_cases)
    case 1
    show ?case
      by (rule embed_quiet_of [OF _ _ fs], simp add: plain_lits)
        (intro tame_if tame_append tame_labels tame_when_said tame_when_number tame_escape plain; simp add: plain_lits)
  next
    case 2
    show ?case
      by (rule embed_quiet_of [OF _ _ fs], simp add: plain_lits)
        (intro tame_if tame_append tame_labels tame_when_said tame_when_number tame_escape plain; simp add: plain_lits)
  qed
qed

lemma action_quiet: "plain_numbers env ms \<Longrightarrow> embed_quiet (discord_action env ms)"
  unfolding discord_action_def Let_def
  by (auto intro!: embed_quiet_of action_id_quiet tame_append tame_when_said tame_when_number tame_escape simp: plain_lits)

lemma performance_quiet: "plain_numbers env ms \<Longrightarrow> embed_quiet (discord_performance env ms)"
  unfolding discord_performance_def Let_def
  by (auto intro!: embed_quiet_of tame_append tame_when_number tame_plural simp: plain_lits split: option.split)

lemma audit_quiet: "plain_numbers env ms \<Longrightarrow> embed_quiet (discord_audit env ms)"
proof -
  assume plain: "plain_numbers env ms"
  have source: "list_all field_quiet (if string_field ms ''sourceIp'' = '''' then [] else [inline_field ''Source'' (escaped_field ms ''sourceIp'')])"
    and token: "list_all field_quiet (if string_field ms ''tokenId'' = '''' then [] else [inline_field ''Token'' (escaped_field ms ''tokenId'')])"
    by (auto intro!: inline_quiet quiet_tame tame_escape simp: plain_lits)
  have "quiet (lit ''Detail'')" by (rule quiet_plain) (simp add: plain_lits)
  then have "list_all field_quiet (case last_member ms ''detail'' of
      Some (JObject d) \<Rightarrow> if d = [] then []
        else [\<lparr>df_name = lit ''Detail'', df_value = clip_text (scalar_text env (JObject d)) discord_field_value_max, df_inline = False\<rparr>]
    | _ \<Rightarrow> [])"
    using scalar_quiet [OF plain] by (auto simp: field_quiet_def simp del: lit_simps intro!: quiet_clip split: option.split json.split)
  with source token have fs: "list_all field_quiet (source' @ token' @ detail')"
    if "source' = (if string_field ms ''sourceIp'' = [] then [] else [inline_field ''Source'' (escaped_field ms ''sourceIp'')])"
      "token' = (if string_field ms ''tokenId'' = [] then [] else [inline_field ''Token'' (escaped_field ms ''tokenId'')])"
      "detail' = (case last_member ms ''detail'' of
        Some (JObject d) \<Rightarrow> if d = [] then []
          else [\<lparr>df_name = lit ''Detail'', df_value = clip_text (scalar_text env (JObject d)) discord_field_value_max, df_inline = False\<rparr>]
      | _ \<Rightarrow> [])" for source' token' detail'
    unfolding that by (simp only: list_all_append simp_thms)
  have arrow: "tame False [32, 8594, 32]" by (simp add: formatting_def)
  show ?thesis
  proof (cases "number_field env ms ''status''")
    case None
    show ?thesis unfolding discord_audit_def Let_def None option.case
      by (rule embed_quiet_of [OF _ _ fs [OF refl refl refl]]; intro tame_if tame_append tame_escape; simp add: plain_lits)
  next
    case (Some v)
    show ?thesis unfolding discord_audit_def Let_def Some option.case
      by (rule embed_quiet_of [OF _ _ fs [OF refl refl refl]]; intro tame_if tame_append tame_escape tame_show_int arrow; simp add: plain_lits)
  qed
qed

lemma generic_embed_quiet: "plain_numbers env ms \<Longrightarrow> embed_quiet (discord_generic env ty ms)"
  unfolding discord_generic_def by (intro embed_quiet_of tame_escape tame_if generic_quiet; simp add: plain_lits)

lemma embed_for_quiet:
  assumes plain: "plain_numbers env ms"
  shows "embed_quiet (discord_embed_for env ty ms)"
  unfolding discord_embed_for_def if_distrib [of embed_quiet]
  by (intro if_both death_quiet [OF plain] damage_quiet [OF plain] action_quiet [OF plain] performance_quiet [OF plain]
      audit_quiet [OF plain] generic_embed_quiet [OF plain] embed_quiet_of action_id_quiet tame_if tame_append tame_labels
      tame_when_said tame_escape tame_server tame_last_seen; code_simp)

subsection \<open>No live web address\<close>

text \<open>
  What Discord turns into a link: a scheme, a colon and two slashes.  The state is 1 inside what may be a scheme, 2 after its
  colon and 3 after the first slash.
\<close>

definition link_step :: "nat \<Rightarrow> nat \<Rightarrow> nat" where
  "link_step q c =
     (if q = 1 then (if scheme_rune c then 1 else if c = 58 then 2 else 0)
      else if q = 2 \<and> c = 47 then 3
      else if scheme_letter c then 1 else 0)"

fun live_link :: "nat \<Rightarrow> rtext \<Rightarrow> bool" where
  "live_link q [] = False"
| "live_link q (c # cs) = (q = 3 \<and> c = 47 \<or> live_link (link_step q c) cs)"

lemma live_link_bottom: "live_link 0 t \<Longrightarrow> live_link q t"
proof (induction t arbitrary: q)
  case (Cons c cs)
  show ?case
  proof (cases "scheme_letter c")
    case True
    then have "c \<noteq> 47" by (auto simp: scheme_letter_def)
    with True have "link_step q c = 1" "link_step 0 c = 1" by (auto simp: link_step_def scheme_rune_def)
    with Cons.prems show ?thesis by simp
  next
    case False
    then have "link_step 0 c = 0" by (simp add: link_step_def)
    with Cons.prems have "live_link 0 cs" by simp
    from Cons.IH [OF this] show ?thesis by simp
  qed
qed simp

definition link_cut :: "nat \<Rightarrow> rtext \<Rightarrow> bool" where
  "link_cut q t =
     ((q = 1 \<longrightarrow> take 3 (dropWhile scheme_rune t) \<noteq> lit ''://'') \<and> (q = 2 \<longrightarrow> take 2 t \<noteq> lit ''//'') \<and> (q = 3 \<longrightarrow> take 1 t \<noteq> lit ''/''))"

lemma live_link_scheme: "list_all scheme_rune run \<Longrightarrow> live_link 1 (run @ t) = live_link 1 t"
  by (induction run) (simp_all add: link_step_def)

lemma break_schemes_cut: "link_cut q t \<Longrightarrow> \<not> live_link q (break_schemes t)"
proof (induction t arbitrary: q rule: break_schemes.induct)
  case (2 c cs)
  show ?case
  proof (cases "scheme_letter c \<and> take 3 (dropWhile scheme_rune cs) = lit ''://''")
    case True
    then have letter: "scheme_letter c" "c \<noteq> 47" "scheme_rune c" by (auto simp: scheme_letter_def scheme_rune_def)
    have one: "link_step q c = 1" using letter by (auto simp: link_step_def)
    have rest: "\<not> live_link 0 (break_schemes (drop 3 (dropWhile scheme_rune cs)))"
      by (rule "2.IH"(1) [OF True]) (simp add: link_cut_def)
    have steps: "link_step 1 58 = 2" "link_step 2 zero_width_space = 0" "link_step 0 47 = 0"
      by (simp_all add: link_step_def scheme_rune_def scheme_letter_def zero_width_space_def)
    have "list_all scheme_rune (takeWhile scheme_rune cs)" by (auto simp: list_all_iff dest: set_takeWhileD)
    from live_link_scheme [OF this] True letter one rest steps show ?thesis by (simp add: zero_width_space_def)
  next
    case False
    have "link_cut (link_step q c) cs" and "\<not> (q = 3 \<and> c = 47)"
      using False "2.prems" by (auto simp: link_cut_def link_step_def scheme_rune_def numeral_2_eq_2 numeral_3_eq_3 split: if_splits)
    with "2.IH"(2) [OF False this(1)] show ?thesis unfolding break_schemes.simps if_not_P [OF False] by simp
  qed
qed simp

lemma break_hosts_cut: "\<not> live_link q t \<Longrightarrow> \<not> live_link q (break_hosts prev t)"
proof (induction prev t arbitrary: q rule: break_hosts.induct)
  case (1 prev a b c e cs)
  show ?case
  proof (cases "\<not> prev \<and> a \<in> {87, 119} \<and> b \<in> {87, 119} \<and> c \<in> {87, 119} \<and> e = 46")
    case True
    then have w: "scheme_letter a" "scheme_letter b" "scheme_letter c" "a \<noteq> 47" "b \<noteq> 47" "c \<noteq> 47" "scheme_rune b" "scheme_rune c" "scheme_rune a"
      by (auto simp: scheme_letter_def scheme_rune_def)
    have steps: "link_step q a = 1" "link_step 1 b = 1" "link_step 1 c = 1" "link_step 1 46 = 1"
        "link_step 1 zero_width_space = 0" "link_step 0 46 = 0"
      using w by (auto simp: link_step_def scheme_rune_def scheme_letter_def zero_width_space_def)
    from "1.prems" True w steps have "\<not> live_link 1 cs" by simp
    then have "\<not> live_link 0 cs" using live_link_bottom by blast
    from "1.IH"(1) [OF True this] True w steps show ?thesis by (simp add: zero_width_space_def)
  next
    case False
    from "1.IH"(2) [OF False, of "link_step q a"] "1.prems" show ?thesis unfolding break_hosts.simps if_not_P [OF False] by simp
  qed
qed simp_all

definition link_rune :: "nat \<Rightarrow> bool" where "link_rune r = (scheme_rune r \<or> r = 58 \<or> r = 47)"

lemma no_link_rune: "r \<in> set formatting \<or> is_control r \<or> r = 32 \<Longrightarrow> \<not> link_rune r"
proof -
  have "list_all (\<lambda>r. \<not> link_rune r) (32 # formatting)"
    by (simp add: formatting_def link_rune_def scheme_rune_def scheme_letter_def)
  moreover have "is_control r \<Longrightarrow> \<not> link_rune r" by (auto simp: is_control_def link_rune_def scheme_rune_def scheme_letter_def)
  ultimately show "r \<in> set formatting \<or> is_control r \<or> r = 32 \<Longrightarrow> \<not> link_rune r" by (auto simp: list_all_iff)
qed

lemma link_step_dead: "\<not> link_rune r \<Longrightarrow> link_step q r = 0"
  by (auto simp: link_step_def link_rune_def scheme_rune_def)

lemma escape_keeps_cut: "\<not> live_link q t \<Longrightarrow> \<not> live_link q (concat (map escape_rune t))"
proof (induction t arbitrary: q)
  case (Cons c cs)
  have quiet: "link_step q' r = 0" if "r \<in> set formatting \<or> is_control r \<or> r = 32" for q' r
    using link_step_dead [OF no_link_rune [OF that]] by simp
  have next_q: "\<not> live_link (link_step q c) cs" "\<not> (q = 3 \<and> c = 47)" using Cons.prems by simp_all
  have rest: "\<not> live_link (link_step q c) (concat (map escape_rune cs))" by (rule Cons.IH [OF next_q(1)])
  consider "c \<in> set formatting" | "c \<notin> set formatting" "c \<noteq> 10" "is_control c"
    | "c \<notin> set formatting" "c = 10 \<or> \<not> is_control c" by blast
  then show ?case
  proof cases
    case 1
    have esc: "(92 :: nat) \<in> set formatting" by (simp add: formatting_def)
    from 1 have "c \<noteq> 47" "escape_rune c = [92, c]" by (auto simp: formatting_def escape_rune_def)
    with 1 rest show ?thesis by (simp add: quiet esc)
  next
    case 2
    then have "escape_rune c = [32]" by (simp add: escape_rune_def)
    with rest 2(3) show ?thesis by (simp add: quiet)
  next
    case 3
    then have "escape_rune c = [c]" by (auto simp: escape_rune_def)
    with rest next_q(2) show ?thesis by simp
  qed
qed simp

lemma escaped_links_broken: "\<not> live_link 0 (escape_text t)"
  unfolding escape_text_def by (intro escape_keeps_cut break_hosts_cut break_schemes_cut) (simp add: link_cut_def)

lemma escaped_formats_nothing: "markup False (escape_text t) = []"
proof -
  have "markup False (escape_rune r @ s) = markup False s" for r s by (auto simp: escape_rune_def formatting_def)
  then have "markup False (concat (map escape_rune rs)) = []" for rs by (induction rs) simp_all
  then show ?thesis by (simp add: escape_text_def)
qed

definition discord_codec :: "'f discord_env \<Rightarrow> (discord_body \<Rightarrow> string) \<Rightarrow> codec \<Rightarrow> codec" where
  "discord_codec env marshal cd = cd\<lparr>cd_discord := \<lambda>n server_name. marshal (render_discord env n server_name)\<rparr>"


definition sample_discord :: "nat discord_env" where
  "sample_discord = \<lparr>de_float = \<lambda>l. Some (length l), de_fixed = \<lambda>p v. lit (show_int (int v)), de_int = int,
     de_marshal = \<lambda>j. Some ''{}'', de_stamp = \<lambda>t. ''''\<rparr>"

definition sample_chat :: notification where
  "sample_chat = \<lparr>no_type = ''core.player.chat'', no_server = ''s1'', no_event = ''e'', no_occurred = 0, no_landed = 0,
     no_data = JObject [(''name'', JString ''*a*''), (''text'', JString ''see http://x'')]\<rparr>"


lemma sample_chat_escaped:
  "escape_text (lit ''*a*'') = [92, 42, 97, 92, 42]"
  "escape_text (lit ''ab://x'') = lit ''ab:'' @ [zero_width_space] @ lit ''//x''"
  "escape_text (lit ''www.x'') = lit ''www'' @ [zero_width_space] @ lit ''.x''"
  by (simp_all add: escape_text_def escape_rune_def formatting_def is_control_def scheme_letter_def scheme_rune_def
      word_rune_def zero_width_space_def)

end
