(* ===== verification/Manifest.thy ===== *)
theory Manifest
  imports Inbound Schema
begin

text \<open>
  hub/manifest.go: what a manifest.publish body may declare, every fault of one that may not be stored,
  and the notice that answers it.  The schema subset of the parameters it describes is theory \<open>Schema\<close>.

  Reading a body into the Go struct, rendering the notice and the printers of \<open>fmt\<close> are the record
  \<open>manifest_env\<close>; an absent string member is the empty string and an absent raw member the empty text,
  as the decoder leaves them.
\<close>

subsection \<open>Bodies\<close>

record manifest_plugin =
  mg_name :: string
  mg_version :: string

record manifest_action =
  ma_code :: string
  ma_name :: string
  ma_context :: string
  ma_namespace :: string
  ma_danger :: string
  ma_params :: string

record manifest_context =
  mc_id :: string
  mc_name :: string
  mc_namespace :: string

record manifest_event =
  me_id :: string
  me_name :: string
  me_namespace :: string
  me_payload :: string

record manifest_body =
  mb_game :: string
  mb_plugin :: "manifest_plugin option"
  mb_revision :: "int option"
  mb_actions :: "manifest_action list"
  mb_contexts :: "manifest_context list"
  mb_events :: "manifest_event list"
  mb_kv :: "string list"
  mb_capabilities :: "string list"

record manifest_env =
  mv_shape :: "string \<Rightarrow> string + manifest_body"
  mv_capabilities :: "string \<Rightarrow> string list option"
  mv_revision :: "string \<Rightarrow> int option"
  mv_decode :: "string \<Rightarrow> string + jvalue"
  mv_printer :: printer
  mv_reject :: "string \<Rightarrow> int option \<Rightarrow> fault list \<Rightarrow> string option"

definition max_manifest_actions :: nat where "max_manifest_actions = 500"
definition max_manifest_contexts :: nat where "max_manifest_contexts = 100"
definition max_manifest_events :: nat where "max_manifest_events = 500"
definition max_manifest_kv_namespaces :: nat where "max_manifest_kv_namespaces = 100"
definition max_manifest_capabilities :: nat where "max_manifest_capabilities = 32"
definition max_capability_length :: nat where "max_capability_length = 64"
definition max_code_length :: nat where "max_code_length = 128"
definition max_label_length :: nat where "max_label_length = 200"
definition max_namespace_length :: nat where "max_namespace_length = 64"
definition max_manifest_faults :: nat where "max_manifest_faults = 20"
definition max_manifest_revision :: int where "max_manifest_revision = 2 ^ 53 - 1"

definition danger_levels :: "string list" where
  "danger_levels = ['''', ''none'', ''warning'', ''destructive'']"

definition builtin_contexts :: "string list" where
  "builtin_contexts = [''world'', ''player'', ''vehicle'', ''object'']"

subsection \<open>The grammar of key/value names\<close>

definition kv_name_char :: "char \<Rightarrow> bool" where
  "kv_name_char c =
     ((CHR ''0'' \<le> c \<and> c \<le> CHR ''9'') \<or> (CHR ''A'' \<le> c \<and> c \<le> CHR ''Z'') \<or> (CHR ''a'' \<le> c \<and> c \<le> CHR ''z'')
      \<or> c = CHR ''_'' \<or> c = CHR ''-'')"


fun kv_segments :: "string \<Rightarrow> nat \<Rightarrow> bool" where
  "kv_segments [] n = (n > 0)"
| "kv_segments (c # cs) n =
     (if kv_name_char c then kv_segments cs (Suc n)
      else if c = CHR ''.'' then (if n = 0 then False else kv_segments cs 0)
      else False)"

definition valid_kv_name :: "string \<Rightarrow> nat \<Rightarrow> bool" where
  "valid_kv_name s limit = (if s = '''' \<or> length s > limit then False else kv_segments s 0)"

subsection \<open>Validation\<close>

definition long_fault :: "string \<Rightarrow> string \<Rightarrow> string \<Rightarrow> nat \<Rightarrow> fault list" where
  "long_fault path what s limit =
     (if rune_count s > limit
      then [fault_at path (what @ '' is longer than '' @ show_int (int limit) @ '' characters'')] else [])"

definition many_fault :: "string \<Rightarrow> string \<Rightarrow> nat \<Rightarrow> nat \<Rightarrow> fault" where
  "many_fault path what limit n =
     fault_at path (''a manifest may declare at most '' @ show_int (int limit) @ '' '' @ what @ '', got '' @ show_int (int n))"

definition revision_faults :: "int option \<Rightarrow> int \<times> fault list" where
  "revision_faults r =
     (case r of
        None \<Rightarrow> (0, [fault_at ''manifestRevision'' ''manifestRevision is required''])
      | Some n \<Rightarrow>
          if n < 1 then (0, [fault_at ''manifestRevision'' (''manifestRevision must be 1 or above, got '' @ show_int n)])
          else if n > max_manifest_revision then (0, [fault_at ''manifestRevision'' ''manifestRevision must be below 2^53''])
          else (n, []))"

definition plugin_faults :: "manifest_plugin option \<Rightarrow> fault list" where
  "plugin_faults p =
     (case p of
        None \<Rightarrow> []
      | Some q \<Rightarrow> long_fault ''plugin.name'' ''name'' (mg_name q) max_label_length
          @ long_fault ''plugin.version'' ''version'' (mg_version q) max_label_length)"

definition rebase :: "string \<Rightarrow> string \<Rightarrow> string" where
  "rebase path inner = (if inner = '''' then path else path @ ''.'' @ inner)"

text \<open>The context and key/value annotations of one schema with their paths, and its faults.\<close>

definition compile_params ::
  "manifest_env \<Rightarrow> string \<Rightarrow> string \<Rightarrow> (string \<times> string) list \<times> (string \<times> string) list \<times> fault list" where
  "compile_params env raw path =
     (if raw = '''' \<or> raw = ''null'' then ([], [], [])
      else case compile_schema (mv_printer env) (mv_decode env) raw of
        (compiled, faults) \<Rightarrow>
          (map (\<lambda>(p, i). (rebase path p, i)) (context_refs compiled),
           map (\<lambda>(p, i). (rebase path p, i)) (kv_namespace_refs compiled),
           map (\<lambda>f. f\<lparr>ft_path := rebase path (ft_path f)\<rparr>) faults))"

definition code_faults :: "printer \<Rightarrow> string \<Rightarrow> string \<Rightarrow> string list \<Rightarrow> fault list" where
  "code_faults pr path code codes =
     (if code = '''' then [fault_at path ''code is required'']
      else if rune_count code > max_code_length
      then [fault_at path (''code is longer than '' @ show_int (int max_code_length) @ '' characters'')]
      else if code \<in> set codes
      then [fault_at path (''code '' @ pt_quote pr code @ '' appears more than once; codes are unique within a server'')]
      else [])"

definition danger_faults :: "printer \<Rightarrow> string \<Rightarrow> string \<Rightarrow> fault list" where
  "danger_faults pr path danger =
     (if danger \<notin> set danger_levels
      then [fault_at path (''danger must be none, warning, or destructive, got '' @ pt_quote pr danger)] else [])"

fun action_loop ::
  "manifest_env \<Rightarrow> nat \<Rightarrow> manifest_action list \<Rightarrow> string list
    \<Rightarrow> fault list \<times> (string \<times> string) list \<times> (string \<times> string) list" where
  "action_loop env i [] codes = ([], [], [])"
| "action_loop env i (a # as) codes =
     (let path = index_path ''actions'' i;
          bad_code = code_faults (mv_printer env) (path @ ''.code'') (ma_code a) codes
      in case compile_params env (ma_params a) (path @ ''.params'') of
        (cs, ks, fs) \<Rightarrow>
          (case action_loop env (Suc i) as (if bad_code = [] then codes @ [ma_code a] else codes) of
             (fs', cs', ks') \<Rightarrow>
               (bad_code
                @ long_fault (path @ ''.name'') ''name'' (ma_name a) max_label_length
                @ long_fault (path @ ''.context'') ''context'' (ma_context a) max_namespace_length
                @ long_fault (path @ ''.namespace'') ''namespace'' (ma_namespace a) max_namespace_length
                @ danger_faults (mv_printer env) (path @ ''.danger'') (ma_danger a)
                @ fs @ fs', cs @ cs', ks @ ks')))"

text \<open>The identifier of a declared context, and of a declared event, which has no reserved ones.\<close>

definition id_faults :: "printer \<Rightarrow> string list \<Rightarrow> nat \<Rightarrow> string \<Rightarrow> string \<Rightarrow> string list \<Rightarrow> fault list" where
  "id_faults pr reserved limit path i ids =
     (if i = '''' then [fault_at path ''id is required'']
      else if rune_count i > limit then [fault_at path (''id is longer than '' @ show_int (int limit) @ '' characters'')]
      else if i \<in> set reserved
      then [fault_at path (''id '' @ pt_quote pr i @ '' names a built-in context, which a manifest cannot declare as its own (section 6.2)'')]
      else if i \<in> set ids then [fault_at path (''id '' @ pt_quote pr i @ '' appears more than once'')]
      else [])"

fun context_loop_decl :: "manifest_env \<Rightarrow> nat \<Rightarrow> manifest_context list \<Rightarrow> string list \<Rightarrow> fault list \<times> string list" where
  "context_loop_decl env i [] ids = ([], ids)"
| "context_loop_decl env i (c # cs) ids =
     (let path = index_path ''contexts'' i;
          bad_id = id_faults (mv_printer env) builtin_contexts max_namespace_length (path @ ''.id'') (mc_id c) ids
      in case context_loop_decl env (Suc i) cs (if bad_id = [] then ids @ [mc_id c] else ids) of
        (fs', ids') \<Rightarrow>
          (bad_id
           @ long_fault (path @ ''.name'') ''name'' (mc_name c) max_label_length
           @ long_fault (path @ ''.namespace'') ''namespace'' (mc_namespace c) max_namespace_length @ fs', ids'))"

fun event_loop ::
  "manifest_env \<Rightarrow> nat \<Rightarrow> manifest_event list \<Rightarrow> string list
    \<Rightarrow> fault list \<times> (string \<times> string) list \<times> (string \<times> string) list" where
  "event_loop env i [] ids = ([], [], [])"
| "event_loop env i (e # es) ids =
     (let path = index_path ''events'' i;
          bad_id = id_faults (mv_printer env) [] max_code_length (path @ ''.id'') (me_id e) ids
      in case compile_params env (me_payload e) (path @ ''.payload'') of
        (cs, ks, fs) \<Rightarrow>
          (case event_loop env (Suc i) es (if bad_id = [] then ids @ [me_id e] else ids) of
             (fs', cs', ks') \<Rightarrow>
               (bad_id
                @ long_fault (path @ ''.name'') ''name'' (me_name e) max_label_length
                @ long_fault (path @ ''.namespace'') ''namespace'' (me_namespace e) max_namespace_length
                @ fs @ fs', cs @ cs', ks @ ks')))"

definition undeclared_faults :: "(string \<Rightarrow> string) \<Rightarrow> (string \<times> string) list \<Rightarrow> string list \<Rightarrow> fault list" where
  "undeclared_faults message refs ids = map (\<lambda>(p, i). fault_at p (message i)) (filter (\<lambda>(p, i). i \<notin> set ids) refs)"

fun kv_loop :: "manifest_env \<Rightarrow> nat \<Rightarrow> string list \<Rightarrow> string list \<Rightarrow> fault list \<times> string list" where
  "kv_loop env i [] names = ([], names)"
| "kv_loop env i (n # ns) names =
     (let path = index_path ''kvNamespaces'' i;
          bad = (if \<not> valid_kv_name n max_namespace_length
                 then [fault_at path (pt_quote (mv_printer env) n
                    @ '' is not a KV namespace: dot-separated segments of letters, digits, _, and -, at most ''
                    @ show_int (int max_namespace_length) @ '' characters'')]
                 else if n \<in> set names then [fault_at path (''namespace '' @ pt_quote (mv_printer env) n @ '' appears more than once'')]
                 else [])
      in case kv_loop env (Suc i) ns (if bad = [] then names @ [n] else names) of (fs', names') \<Rightarrow> (bad @ fs', names'))"

fun capability_loop :: "nat \<Rightarrow> string list \<Rightarrow> fault list" where
  "capability_loop i [] = []"
| "capability_loop i (c # cs) =
     (let path = index_path ''capabilities'' i in
      (if c = '''' then [fault_at path ''a capability is a non-empty string'']
       else long_fault path ''capability'' c max_capability_length) @ capability_loop (Suc i) cs)"

definition manifest_faults :: "manifest_env \<Rightarrow> manifest_body \<Rightarrow> fault list" where
  "manifest_faults env m =
     (case (if length (mb_actions m) > max_manifest_actions
            then ([many_fault ''actions'' ''actions'' max_manifest_actions (length (mb_actions m))], [], [])
            else action_loop env 0 (mb_actions m) []) of
        (action_fs, action_cs, action_ks) \<Rightarrow>
      (case (if length (mb_contexts m) > max_manifest_contexts
             then ([many_fault ''contexts'' ''contexts'' max_manifest_contexts (length (mb_contexts m))], [])
             else context_loop_decl env 0 (mb_contexts m) []) of
        (context_fs, context_ids) \<Rightarrow>
      (case (if length (mb_events m) > max_manifest_events
             then ([many_fault ''events'' ''events'' max_manifest_events (length (mb_events m))], [], [])
             else event_loop env 0 (mb_events m) []) of
        (event_fs, event_cs, event_ks) \<Rightarrow>
      (case (if length (mb_kv m) > max_manifest_kv_namespaces
             then ([many_fault ''kvNamespaces'' ''KV namespaces'' max_manifest_kv_namespaces (length (mb_kv m))], [])
             else kv_loop env 0 (mb_kv m) []) of
        (kv_fs, kv_names) \<Rightarrow>
          snd (revision_faults (mb_revision m))
          @ long_fault ''game'' ''game'' (mb_game m) max_namespace_length
          @ plugin_faults (mb_plugin m)
          @ action_fs @ context_fs @ event_fs
          @ undeclared_faults (\<lambda>i. ''context '' @ pt_quote (mv_printer env) i @ '' is not declared in this manifest's contexts'')
              (action_cs @ event_cs) context_ids
          @ kv_fs
          @ undeclared_faults (\<lambda>i. ''kvNamespace '' @ pt_quote (mv_printer env) i @ '' is not declared in this manifest's kvNamespaces'')
              (action_ks @ event_ks) kv_names
          @ (if length (mb_capabilities m) > max_manifest_capabilities
             then [many_fault ''capabilities'' ''capabilities'' max_manifest_capabilities (length (mb_capabilities m))]
             else capability_loop 0 (mb_capabilities m))))))"

definition validate_manifest :: "manifest_env \<Rightarrow> string \<Rightarrow> int \<times> fault list" where
  "validate_manifest env body =
     (if body = '''' then (0, [fault_at '''' ''body is required''])
      else case mv_shape env body of
        Inl err \<Rightarrow> (0, [fault_at '''' (''body does not match the manifest shape: '' @ err)])
      | Inr m \<Rightarrow>
          (case manifest_faults env m of
             [] \<Rightarrow> (fst (revision_faults (mb_revision m)), [])
           | f # fs \<Rightarrow> (0, f # fs)))"

fun first_seen :: "string list \<Rightarrow> string list \<Rightarrow> string list" where
  "first_seen seen [] = []"
| "first_seen seen (c # cs) = (if c \<in> set seen then first_seen seen cs else c # first_seen (c # seen) cs)"

definition declared_capabilities :: "manifest_env \<Rightarrow> string \<Rightarrow> string list" where
  "declared_capabilities env body =
     (case mv_capabilities env body of None \<Rightarrow> [] | Some cs \<Rightarrow> first_seen [] cs)"

definition new_manifest_reject :: "manifest_env \<Rightarrow> string \<Rightarrow> string \<Rightarrow> fault list \<Rightarrow> notice" where
  "new_manifest_reject env eid body faults =
     \<lparr>nc_type = ''manifest.reject'',
      nc_body =
        (case mv_reject env eid (mv_revision env body) (take max_manifest_faults faults) of
           Some text \<Rightarrow> text
         | None \<Rightarrow> (case mv_reject env eid None [fault_at '''' ''the manifest was rejected''] of Some text \<Rightarrow> text | None \<Rightarrow> ''''))\<rparr>"

definition prepare_manifest :: "manifest_env \<Rightarrow> inbound_envelope \<Rightarrow> prepared" where
  "prepare_manifest env e =
     (case validate_manifest env (ie_body e) of
        (revision, faults) \<Rightarrow>
          if faults = []
          then ManifestPublish \<lparr>mp_revision = revision, mp_body = ie_body e, mp_capabilities = declared_capabilities env (ie_body e)\<rparr>
          else ManifestReject (new_manifest_reject env (ie_id e) (ie_body e) faults))"

subsection \<open>What an accepted manifest declares\<close>

text \<open>
  The reference: a manifest as the protocol describes it, with no paths, no order of checks and no fault
  list.
\<close>

definition runes_within :: "string \<Rightarrow> nat \<Rightarrow> bool" where
  "runes_within s limit = (rune_count s \<le> limit)"

definition schema_declared :: "manifest_env \<Rightarrow> string list \<Rightarrow> string list \<Rightarrow> string \<Rightarrow> bool" where
  "schema_declared env contexts names raw =
     (raw = '''' \<or> raw = ''null''
      \<or> (case compile_schema (mv_printer env) (mv_decode env) raw of
           (s, fs) \<Rightarrow> fs = [] \<and> set (map snd (context_refs s)) \<subseteq> set contexts \<and> set (map snd (kv_namespace_refs s)) \<subseteq> set names))"

definition identifiers_ok :: "string list \<Rightarrow> nat \<Rightarrow> string list \<Rightarrow> bool" where
  "identifiers_ok reserved limit ids =
     (distinct ids \<and> list_all (\<lambda>i. i \<noteq> '''' \<and> runes_within i limit \<and> i \<notin> set reserved) ids)"

definition manifest_wf :: "manifest_env \<Rightarrow> manifest_body \<Rightarrow> bool" where
  "manifest_wf env m =
     (let contexts = map mc_id (mb_contexts m) in
      (case mb_revision m of None \<Rightarrow> False | Some r \<Rightarrow> 1 \<le> r \<and> r < 2 ^ 53)
      \<and> runes_within (mb_game m) 64
      \<and> (case mb_plugin m of None \<Rightarrow> True | Some p \<Rightarrow> runes_within (mg_name p) 200 \<and> runes_within (mg_version p) 200)
      \<and> length (mb_actions m) \<le> 500 \<and> identifiers_ok [] 128 (map ma_code (mb_actions m))
      \<and> list_all (\<lambda>a. runes_within (ma_name a) 200 \<and> runes_within (ma_context a) 64 \<and> runes_within (ma_namespace a) 64
            \<and> ma_danger a \<in> set danger_levels \<and> schema_declared env contexts (mb_kv m) (ma_params a)) (mb_actions m)
      \<and> length (mb_contexts m) \<le> 100 \<and> identifiers_ok builtin_contexts 64 contexts
      \<and> list_all (\<lambda>c. runes_within (mc_name c) 200 \<and> runes_within (mc_namespace c) 64) (mb_contexts m)
      \<and> length (mb_events m) \<le> 500 \<and> identifiers_ok [] 128 (map me_id (mb_events m))
      \<and> list_all (\<lambda>e. runes_within (me_name e) 200 \<and> runes_within (me_namespace e) 64
            \<and> schema_declared env contexts (mb_kv m) (me_payload e)) (mb_events m)
      \<and> length (mb_kv m) \<le> 100 \<and> distinct (mb_kv m) \<and> list_all (\<lambda>n. valid_kv_name n 64) (mb_kv m)
      \<and> length (mb_capabilities m) \<le> 32 \<and> list_all (\<lambda>c. c \<noteq> '''' \<and> runes_within c 64) (mb_capabilities m))"

lemma long_fault_empty [simp]: "long_fault path what s limit = [] \<longleftrightarrow> runes_within s limit"
  by (simp add: long_fault_def runes_within_def)

lemma code_faults_empty [simp]: "code_faults pr path code codes = [] \<longleftrightarrow> code \<noteq> '''' \<and> runes_within code 128 \<and> code \<notin> set codes"
  by (simp add: code_faults_def runes_within_def max_code_length_def)

lemma id_faults_empty [simp]:
  "id_faults pr reserved limit path i ids = [] \<longleftrightarrow> i \<noteq> '''' \<and> runes_within i limit \<and> i \<notin> set reserved \<and> i \<notin> set ids"
  by (simp add: id_faults_def runes_within_def)

lemma danger_faults_empty [simp]: "danger_faults pr path danger = [] \<longleftrightarrow> danger \<in> set danger_levels"
  by (simp add: danger_faults_def)

lemma undeclared_empty: "undeclared_faults message refs ids = [] \<longleftrightarrow> set (map snd refs) \<subseteq> set ids"
  by (fastforce simp: undeclared_faults_def filter_empty_conv)

text \<open>The annotations and the faults of one optional schema, whatever path they are reported under.\<close>

definition raw_contexts :: "manifest_env \<Rightarrow> string \<Rightarrow> string list" where
  "raw_contexts env raw = map snd (fst (compile_params env raw ''''))"

definition raw_names :: "manifest_env \<Rightarrow> string \<Rightarrow> string list" where
  "raw_names env raw = map snd (fst (snd (compile_params env raw '''')))"

definition raw_compiles :: "manifest_env \<Rightarrow> string \<Rightarrow> bool" where
  "raw_compiles env raw = (snd (snd (compile_params env raw '''')) = [])"

lemma compile_params_parts:
  assumes "compile_params env raw path = (cs, ks, fs)"
  shows "map snd cs = raw_contexts env raw" and "map snd ks = raw_names env raw" and "fs = [] \<longleftrightarrow> raw_compiles env raw"
  using assms by (auto simp: compile_params_def raw_contexts_def raw_names_def raw_compiles_def o_def split_beta split: if_splits prod.splits)

lemma schema_declared_iff:
  "schema_declared env contexts names raw
    \<longleftrightarrow> raw_compiles env raw \<and> set (raw_contexts env raw) \<subseteq> set contexts \<and> set (raw_names env raw) \<subseteq> set names"
  by (simp add: schema_declared_def compile_params_def raw_contexts_def raw_names_def raw_compiles_def split_beta image_image conj_ac)

text \<open>An identifier that is good extends the list of those seen; one that is not ends the hope of acceptance.\<close>

lemma identifiers_ok_Cons:
  "identifiers_ok reserved limit (i # is) \<and> set seen \<inter> set (i # is) = {}
    \<longleftrightarrow> (i \<noteq> '''' \<and> runes_within i limit \<and> i \<notin> set reserved \<and> i \<notin> set seen)
        \<and> identifiers_ok reserved limit is \<and> set (seen @ [i]) \<inter> set is = {}"
  by (auto simp: identifiers_ok_def)

lemma action_loop_all:
  assumes "action_loop env i as codes = (fs, cs, ks)"
  shows "(map snd cs = concat (map (\<lambda>a. raw_contexts env (ma_params a)) as)) 
    \<and> (map snd ks = concat (map (\<lambda>a. raw_names env (ma_params a)) as)) 
    \<and> (fs = [] \<longleftrightarrow> (identifiers_ok [] 128 (map ma_code as) \<and> set codes \<inter> set (map ma_code as) = {})
        \<and> list_all (\<lambda>a. runes_within (ma_name a) 200 \<and> runes_within (ma_context a) 64 \<and> runes_within (ma_namespace a) 64
            \<and> ma_danger a \<in> set danger_levels \<and> raw_compiles env (ma_params a)) as)"
  using assms
proof (induction as arbitrary: i codes fs cs ks)
  case (Cons a as)
  obtain cs1 ks1 fs1 where one: "compile_params env (ma_params a) (index_path ''actions'' i @ ''.params'') = (cs1, ks1, fs1)"
    by (metis prod_cases3)
  let ?bad = "code_faults (mv_printer env) (index_path ''actions'' i @ ''.code'') (ma_code a) codes"
  obtain fs2 cs2 ks2 where rest: "action_loop env (Suc i) as (if ?bad = [] then codes @ [ma_code a] else codes) = (fs2, cs2, ks2)"
    by (metis prod_cases3)
  note parts = compile_params_parts [OF one] and IH = Cons.IH [OF rest]
  note run = Cons.prems
  have eqs: "fs = ?bad
          @ long_fault (index_path ''actions'' i @ ''.name'') ''name'' (ma_name a) max_label_length
          @ long_fault (index_path ''actions'' i @ ''.context'') ''context'' (ma_context a) max_namespace_length
          @ long_fault (index_path ''actions'' i @ ''.namespace'') ''namespace'' (ma_namespace a) max_namespace_length
          @ danger_faults (mv_printer env) (index_path ''actions'' i @ ''.danger'') (ma_danger a) @ fs1 @ fs2"
      and refs: "cs = cs1 @ cs2" "ks = ks1 @ ks2"
      using run unfolding action_loop.simps Let_def one prod.case rest Pair_inject by blast+
  have fs: "fs = [] \<longleftrightarrow> ?bad = [] \<and> runes_within (ma_name a) 200 \<and> runes_within (ma_context a) 64 \<and> runes_within (ma_namespace a) 64
      \<and> ma_danger a \<in> set danger_levels \<and> raw_compiles env (ma_params a) \<and> fs2 = []"
    unfolding eqs append_is_Nil_conv long_fault_empty danger_faults_empty parts(3) max_label_length_def max_namespace_length_def by blast
  have "fs = [] \<longleftrightarrow> (identifiers_ok [] 128 (map ma_code (a # as)) \<and> set codes \<inter> set (map ma_code (a # as)) = {})
        \<and> list_all (\<lambda>a. runes_within (ma_name a) 200 \<and> runes_within (ma_context a) 64 \<and> runes_within (ma_namespace a) 64
            \<and> ma_danger a \<in> set danger_levels \<and> raw_compiles env (ma_params a)) (a # as)"
    unfolding fs list.map identifiers_ok_Cons list.pred_inject using IH by (cases "?bad = []") auto
  with refs parts IH show ?case by simp
qed (simp_all add: identifiers_ok_def)

lemma action_loop_parts:
  assumes "action_loop env i as codes = (fs, cs, ks)"
  shows "map snd cs = concat (map (\<lambda>a. raw_contexts env (ma_params a)) as)"
    and "map snd ks = concat (map (\<lambda>a. raw_names env (ma_params a)) as)"
    and "fs = [] \<longleftrightarrow> (identifiers_ok [] 128 (map ma_code as) \<and> set codes \<inter> set (map ma_code as) = {})
        \<and> list_all (\<lambda>a. runes_within (ma_name a) 200 \<and> runes_within (ma_context a) 64 \<and> runes_within (ma_namespace a) 64
            \<and> ma_danger a \<in> set danger_levels \<and> raw_compiles env (ma_params a)) as"
  using action_loop_all [OF assms] by blast+

lemma event_loop_all:
  assumes "event_loop env i es ids = (fs, cs, ks)"
  shows "(map snd cs = concat (map (\<lambda>e. raw_contexts env (me_payload e)) es)) 
    \<and> (map snd ks = concat (map (\<lambda>e. raw_names env (me_payload e)) es)) 
    \<and> (fs = [] \<longleftrightarrow> (identifiers_ok [] 128 (map me_id es) \<and> set ids \<inter> set (map me_id es) = {})
        \<and> list_all (\<lambda>e. runes_within (me_name e) 200 \<and> runes_within (me_namespace e) 64 \<and> raw_compiles env (me_payload e)) es)"
  using assms
proof (induction es arbitrary: i ids fs cs ks)
  case (Cons e es)
  obtain cs1 ks1 fs1 where one: "compile_params env (me_payload e) (index_path ''events'' i @ ''.payload'') = (cs1, ks1, fs1)"
    by (metis prod_cases3)
  let ?bad = "id_faults (mv_printer env) [] max_code_length (index_path ''events'' i @ ''.id'') (me_id e) ids"
  obtain fs2 cs2 ks2 where rest: "event_loop env (Suc i) es (if ?bad = [] then ids @ [me_id e] else ids) = (fs2, cs2, ks2)"
    by (metis prod_cases3)
  note parts = compile_params_parts [OF one] and IH = Cons.IH [OF rest]
  note run = Cons.prems
  have eqs: "fs = ?bad
          @ long_fault (index_path ''events'' i @ ''.name'') ''name'' (me_name e) max_label_length
          @ long_fault (index_path ''events'' i @ ''.namespace'') ''namespace'' (me_namespace e) max_namespace_length @ fs1 @ fs2"
      and refs: "cs = cs1 @ cs2" "ks = ks1 @ ks2"
      using run unfolding event_loop.simps Let_def one prod.case rest Pair_inject by blast+
  have fs: "fs = [] \<longleftrightarrow> ?bad = [] \<and> runes_within (me_name e) 200 \<and> runes_within (me_namespace e) 64
      \<and> raw_compiles env (me_payload e) \<and> fs2 = []"
    unfolding eqs append_is_Nil_conv long_fault_empty parts(3) max_label_length_def max_namespace_length_def by blast
  have "fs = [] \<longleftrightarrow> (identifiers_ok [] 128 (map me_id (e # es)) \<and> set ids \<inter> set (map me_id (e # es)) = {})
        \<and> list_all (\<lambda>e. runes_within (me_name e) 200 \<and> runes_within (me_namespace e) 64 \<and> raw_compiles env (me_payload e)) (e # es)"
    unfolding fs list.map identifiers_ok_Cons list.pred_inject using IH by (cases "?bad = []") (auto simp: max_code_length_def)
  with refs parts IH show ?case by simp
qed (simp_all add: identifiers_ok_def)

lemma event_loop_parts:
  assumes "event_loop env i es ids = (fs, cs, ks)"
  shows "map snd cs = concat (map (\<lambda>e. raw_contexts env (me_payload e)) es)"
    and "map snd ks = concat (map (\<lambda>e. raw_names env (me_payload e)) es)"
    and "fs = [] \<longleftrightarrow> (identifiers_ok [] 128 (map me_id es) \<and> set ids \<inter> set (map me_id es) = {})
        \<and> list_all (\<lambda>e. runes_within (me_name e) 200 \<and> runes_within (me_namespace e) 64 \<and> raw_compiles env (me_payload e)) es"
  using event_loop_all [OF assms] by blast+

lemma context_loop_all:
  assumes "context_loop_decl env i cs ids = (fs, ids')"
  shows "(fs = [] \<longleftrightarrow> (identifiers_ok builtin_contexts 64 (map mc_id cs) \<and> set ids \<inter> set (map mc_id cs) = {})
        \<and> list_all (\<lambda>c. runes_within (mc_name c) 200 \<and> runes_within (mc_namespace c) 64) cs)
    \<and> (fs = [] \<longrightarrow> ids' = ids @ map mc_id cs)"
  using assms
proof (induction cs arbitrary: i ids fs ids')
  case (Cons c cs)
  let ?bad = "id_faults (mv_printer env) builtin_contexts max_namespace_length (index_path ''contexts'' i @ ''.id'') (mc_id c) ids"
  obtain fs2 ids2 where rest: "context_loop_decl env (Suc i) cs (if ?bad = [] then ids @ [mc_id c] else ids) = (fs2, ids2)"
    by fastforce
  note IH = Cons.IH [OF rest]
  have eqs: "fs = ?bad
          @ long_fault (index_path ''contexts'' i @ ''.name'') ''name'' (mc_name c) max_label_length
          @ long_fault (index_path ''contexts'' i @ ''.namespace'') ''namespace'' (mc_namespace c) max_namespace_length @ fs2"
      and ids: "ids' = ids2"
    using Cons.prems unfolding context_loop_decl.simps Let_def rest prod.case Pair_inject by blast+
  have fs: "fs = [] \<longleftrightarrow> ?bad = [] \<and> runes_within (mc_name c) 200 \<and> runes_within (mc_namespace c) 64 \<and> fs2 = []"
    unfolding eqs append_is_Nil_conv long_fault_empty max_label_length_def max_namespace_length_def by blast
  have "fs = [] \<longleftrightarrow> (identifiers_ok builtin_contexts 64 (map mc_id (c # cs)) \<and> set ids \<inter> set (map mc_id (c # cs)) = {})
        \<and> list_all (\<lambda>c. runes_within (mc_name c) 200 \<and> runes_within (mc_namespace c) 64) (c # cs)"
    unfolding fs list.map identifiers_ok_Cons list.pred_inject using IH by (cases "?bad = []") (auto simp: max_namespace_length_def)
  moreover have "fs = [] \<longrightarrow> ids' = ids @ map mc_id (c # cs)" using fs ids IH by auto
  ultimately show ?case by blast
qed (simp add: identifiers_ok_def)

lemma context_loop_parts:
  assumes "context_loop_decl env i cs ids = (fs, ids')"
  shows "fs = [] \<longleftrightarrow> (identifiers_ok builtin_contexts 64 (map mc_id cs) \<and> set ids \<inter> set (map mc_id cs) = {})
        \<and> list_all (\<lambda>c. runes_within (mc_name c) 200 \<and> runes_within (mc_namespace c) 64) cs"
    and "fs = [] \<Longrightarrow> ids' = ids @ map mc_id cs"
  using context_loop_all [OF assms] by blast+

lemma kv_loop_parts:
  assumes "kv_loop env i ns names = (fs, names')"
  shows "(fs = [] \<longleftrightarrow> distinct ns \<and> list_all (\<lambda>n. valid_kv_name n 64) ns \<and> set names \<inter> set ns = {})
    \<and> (fs = [] \<longrightarrow> names' = names @ ns)"
  using assms
proof (induction ns arbitrary: i names fs names')
  case (Cons n ns)
  let ?path = "index_path ''kvNamespaces'' i"
  define bad where "bad = (if \<not> valid_kv_name n max_namespace_length
      then [fault_at ?path (pt_quote (mv_printer env) n
         @ '' is not a KV namespace: dot-separated segments of letters, digits, _, and -, at most ''
         @ show_int (int max_namespace_length) @ '' characters'')]
      else if n \<in> set names then [fault_at ?path (''namespace '' @ pt_quote (mv_printer env) n @ '' appears more than once'')]
      else [])"
  have good: "bad = [] \<longleftrightarrow> valid_kv_name n 64 \<and> n \<notin> set names" by (simp add: bad_def max_namespace_length_def)
  obtain fs2 names2 where rest: "kv_loop env (Suc i) ns (if bad = [] then names @ [n] else names) = (fs2, names2)"
    by fastforce
  have "fs = bad @ fs2 \<and> names' = names2"
    using Cons.prems unfolding kv_loop.simps Let_def bad_def [symmetric] rest prod.case Pair_inject by blast
  with Cons.IH [OF rest] good show ?case by (cases "bad = []") auto
qed simp

lemma capability_loop_empty:
  "capability_loop i cs = [] \<longleftrightarrow> list_all (\<lambda>c. c \<noteq> '''' \<and> runes_within c 64) cs"
  by (induction i cs rule: capability_loop.induct) (auto simp: Let_def max_capability_length_def)

subsection \<open>Acceptance\<close>

lemma list_all_conj: "list_all (\<lambda>x. P x \<and> Q x) xs \<longleftrightarrow> list_all P xs \<and> list_all Q xs"
  by (auto simp: list_all_iff)

lemma manifest_faults_empty: "manifest_faults env m = [] \<longleftrightarrow> manifest_wf env m"
proof -
  let ?as = "if length (mb_actions m) > max_manifest_actions
            then ([many_fault ''actions'' ''actions'' max_manifest_actions (length (mb_actions m))], [], [])
            else action_loop env 0 (mb_actions m) []"
  let ?cs = "if length (mb_contexts m) > max_manifest_contexts
             then ([many_fault ''contexts'' ''contexts'' max_manifest_contexts (length (mb_contexts m))], [])
             else context_loop_decl env 0 (mb_contexts m) []"
  let ?es = "if length (mb_events m) > max_manifest_events
             then ([many_fault ''events'' ''events'' max_manifest_events (length (mb_events m))], [], [])
             else event_loop env 0 (mb_events m) []"
  let ?ks = "if length (mb_kv m) > max_manifest_kv_namespaces
             then ([many_fault ''kvNamespaces'' ''KV namespaces'' max_manifest_kv_namespaces (length (mb_kv m))], [])
             else kv_loop env 0 (mb_kv m) []"
  obtain fa ca ka where a: "?as = (fa, ca, ka)" by (metis prod_cases3)
  obtain fc ids where c: "?cs = (fc, ids)" by fastforce
  obtain fe ce ke where e: "?es = (fe, ce, ke)" by (metis prod_cases3)
  obtain fk names where k: "?ks = (fk, names)" by fastforce
  let ?contexts = "map mc_id (mb_contexts m)"
  have A: "fa = [] \<longleftrightarrow> length (mb_actions m) \<le> 500 \<and> identifiers_ok [] 128 (map ma_code (mb_actions m))
      \<and> list_all (\<lambda>a. runes_within (ma_name a) 200 \<and> runes_within (ma_context a) 64 \<and> runes_within (ma_namespace a) 64
            \<and> ma_danger a \<in> set danger_levels \<and> raw_compiles env (ma_params a)) (mb_actions m)"
    and A_refs: "fa = [] \<Longrightarrow> map snd ca = concat (map (\<lambda>a. raw_contexts env (ma_params a)) (mb_actions m))
      \<and> map snd ka = concat (map (\<lambda>a. raw_names env (ma_params a)) (mb_actions m))"
    using a action_loop_parts [of env 0 "mb_actions m" "[]" fa ca ka]
    by (auto simp: max_manifest_actions_def split: if_splits)
  have E: "fe = [] \<longleftrightarrow> length (mb_events m) \<le> 500 \<and> identifiers_ok [] 128 (map me_id (mb_events m))
      \<and> list_all (\<lambda>e. runes_within (me_name e) 200 \<and> runes_within (me_namespace e) 64 \<and> raw_compiles env (me_payload e)) (mb_events m)"
    and E_refs: "fe = [] \<Longrightarrow> map snd ce = concat (map (\<lambda>e. raw_contexts env (me_payload e)) (mb_events m))
      \<and> map snd ke = concat (map (\<lambda>e. raw_names env (me_payload e)) (mb_events m))"
    using e event_loop_parts [of env 0 "mb_events m" "[]" fe ce ke]
    by (auto simp: max_manifest_events_def split: if_splits)
  have C: "fc = [] \<longleftrightarrow> length (mb_contexts m) \<le> 100 \<and> identifiers_ok builtin_contexts 64 ?contexts
      \<and> list_all (\<lambda>c. runes_within (mc_name c) 200 \<and> runes_within (mc_namespace c) 64) (mb_contexts m)"
    and ids: "fc = [] \<Longrightarrow> ids = ?contexts"
    using c context_loop_parts [of env 0 "mb_contexts m" "[]" fc ids]
    by (auto simp: max_manifest_contexts_def split: if_splits)
  have K: "fk = [] \<longleftrightarrow> length (mb_kv m) \<le> 100 \<and> distinct (mb_kv m) \<and> list_all (\<lambda>n. valid_kv_name n 64) (mb_kv m)"
    and names: "fk = [] \<Longrightarrow> names = mb_kv m"
    using k kv_loop_parts [of env 0 "mb_kv m" "[]" fk names]
    by (auto simp: max_manifest_kv_namespaces_def split: if_splits)
  have R: "snd (revision_faults (mb_revision m)) = [] \<longleftrightarrow> (case mb_revision m of None \<Rightarrow> False | Some r \<Rightarrow> 1 \<le> r \<and> r < 2 ^ 53)"
    by (auto simp: revision_faults_def max_manifest_revision_def split: option.splits)
  have P: "plugin_faults (mb_plugin m) = [] \<longleftrightarrow>
      (case mb_plugin m of None \<Rightarrow> True | Some p \<Rightarrow> runes_within (mg_name p) 200 \<and> runes_within (mg_version p) 200)"
    by (simp add: plugin_faults_def max_label_length_def split: option.splits)
  have L: "(if length (mb_capabilities m) > max_manifest_capabilities
             then [many_fault ''capabilities'' ''capabilities'' max_manifest_capabilities (length (mb_capabilities m))]
             else capability_loop 0 (mb_capabilities m)) = []
      \<longleftrightarrow> length (mb_capabilities m) \<le> 32 \<and> list_all (\<lambda>c. c \<noteq> '''' \<and> runes_within c 64) (mb_capabilities m)"
    by (simp add: max_manifest_capabilities_def capability_loop_empty)
  have refs: "(set (map snd (ca @ ce)) \<subseteq> set ids \<and> set (map snd (ka @ ke)) \<subseteq> set names)
      \<longleftrightarrow> list_all (\<lambda>a. set (raw_contexts env (ma_params a)) \<subseteq> set ?contexts \<and> set (raw_names env (ma_params a)) \<subseteq> set (mb_kv m)) (mb_actions m)
        \<and> list_all (\<lambda>e. set (raw_contexts env (me_payload e)) \<subseteq> set ?contexts \<and> set (raw_names env (me_payload e)) \<subseteq> set (mb_kv m)) (mb_events m)"
    if "fa = []" "fc = []" "fe = []" "fk = []"
    unfolding map_append A_refs [OF that(1), THEN conjunct1] A_refs [OF that(1), THEN conjunct2]
      E_refs [OF that(3), THEN conjunct1] E_refs [OF that(3), THEN conjunct2] ids [OF that(2)] names [OF that(4)]
    by (auto simp: list_all_iff)
  have "manifest_faults env m = [] \<longleftrightarrow>
      snd (revision_faults (mb_revision m)) = [] \<and> runes_within (mb_game m) 64 \<and> plugin_faults (mb_plugin m) = []
      \<and> fa = [] \<and> fc = [] \<and> fe = [] \<and> fk = [] \<and> set (map snd (ca @ ce)) \<subseteq> set ids \<and> set (map snd (ka @ ke)) \<subseteq> set names
      \<and> length (mb_capabilities m) \<le> 32 \<and> list_all (\<lambda>c. c \<noteq> '''' \<and> runes_within c 64) (mb_capabilities m)"
    unfolding manifest_faults_def a c e k prod.case append_is_Nil_conv undeclared_empty L long_fault_empty max_namespace_length_def
    by blast
  also have "\<dots> \<longleftrightarrow> snd (revision_faults (mb_revision m)) = [] \<and> runes_within (mb_game m) 64 \<and> plugin_faults (mb_plugin m) = []
      \<and> fa = [] \<and> fc = [] \<and> fe = [] \<and> fk = []
      \<and> list_all (\<lambda>a. set (raw_contexts env (ma_params a)) \<subseteq> set ?contexts \<and> set (raw_names env (ma_params a)) \<subseteq> set (mb_kv m)) (mb_actions m)
      \<and> list_all (\<lambda>e. set (raw_contexts env (me_payload e)) \<subseteq> set ?contexts \<and> set (raw_names env (me_payload e)) \<subseteq> set (mb_kv m)) (mb_events m)
      \<and> length (mb_capabilities m) \<le> 32 \<and> list_all (\<lambda>c. c \<noteq> '''' \<and> runes_within c 64) (mb_capabilities m)"
    using refs by blast
  also have "\<dots> \<longleftrightarrow> manifest_wf env m"
    unfolding manifest_wf_def Let_def A C E K R P schema_declared_iff list_all_conj by blast
  finally show ?thesis .
qed

lemma validate_manifest_iff:
  "validate_manifest env body = (revision, []) \<longleftrightarrow>
     (\<exists>m. body \<noteq> '''' \<and> mv_shape env body = Inr m \<and> manifest_wf env m \<and> mb_revision m = Some revision)"
proof (cases "body = ''''")
  case False
  show ?thesis
  proof (cases "mv_shape env body")
    case (Inr m)
    have "manifest_wf env m \<Longrightarrow> mb_revision m = Some (fst (revision_faults (mb_revision m)))"
      by (auto simp: manifest_wf_def Let_def revision_faults_def max_manifest_revision_def split: option.splits)
    with False Inr manifest_faults_empty [of env m] show ?thesis
      by (cases "manifest_faults env m") (auto simp: validate_manifest_def)
  qed (simp add: validate_manifest_def)
qed (simp add: validate_manifest_def)

text \<open>
  C15. Which manifests are accepted.  A publish is handed to the store exactly when its body reads as a manifest
  and that manifest is well formed: every identifier set, short enough, unique and not reserved, every schema
  inside the subset and naming only contexts and namespaces the same manifest declares, every list within its
  bound; and it is stored with the body verbatim under the revision the body names.
\<close>

theorem manifest_accepted_iff:
  "prepare_manifest env e = ManifestPublish p \<longleftrightarrow>
     (\<exists>m. ie_body e \<noteq> '''' \<and> mv_shape env (ie_body e) = Inr m \<and> manifest_wf env m \<and> mb_revision m = Some (mp_revision p)
        \<and> mp_body p = ie_body e \<and> mp_capabilities p = declared_capabilities env (ie_body e))"
proof (cases "validate_manifest env (ie_body e)")
  case (Pair revision faults)
  show ?thesis
  proof (cases "faults = []")
    case True
    with Pair validate_manifest_iff [of env "ie_body e" revision]
    have m: "\<exists>m. ie_body e \<noteq> '''' \<and> mv_shape env (ie_body e) = Inr m \<and> manifest_wf env m \<and> mb_revision m = Some revision" by simp
    have "prepare_manifest env e = ManifestPublish p \<longleftrightarrow>
        p = \<lparr>mp_revision = revision, mp_body = ie_body e, mp_capabilities = declared_capabilities env (ie_body e)\<rparr>"
      using Pair True by (auto simp: prepare_manifest_def)
    also have "\<dots> \<longleftrightarrow> mp_revision p = revision \<and> mp_body p = ie_body e \<and> mp_capabilities p = declared_capabilities env (ie_body e)"
      by (cases p) auto
    finally show ?thesis using m by auto
  next
    case False
    with Pair have "prepare_manifest env e \<noteq> ManifestPublish p" by (simp add: prepare_manifest_def)
    moreover have "\<not> (\<exists>m. ie_body e \<noteq> '''' \<and> mv_shape env (ie_body e) = Inr m \<and> manifest_wf env m \<and> mb_revision m = Some (mp_revision p))"
      using validate_manifest_iff [of env "ie_body e" "mp_revision p"] Pair False by simp
    ultimately show ?thesis by blast
  qed
qed

end
