(* ===== verification/DispatchApi.thy ===== *)
theory DispatchApi
  imports Manifest Dispatch Gate
begin

text \<open>
  hub/action.go: dispatching an action over the Admin API and reading one back, and the bodies of the
  action.ack and action.result envelopes.  A dispatch is checked against the manifest the server has
  stored, then inserted gated on the revision the check used, at most three times over.

  Other requests run between the check and the insert: \<open>de_meanwhile\<close> is what the database becomes
  in each of those gaps.  Identifiers, clock readings and JSON texts are the rest of \<open>dispatch_env\<close>.  The
  details member of a refusal is left out.
\<close>

subsection \<open>Requests\<close>

record dispatch_request =
  dq_code :: string
  dq_context :: string
  dq_reference :: string
  dq_params :: string
  dq_ttl :: int
  dq_idem :: string

record dispatch_body =
  db_action :: string
  db_code :: string
  db_context :: string
  db_reference :: string
  db_params :: string
  db_expires :: stamp

record dispatch_env =
  de_manifest :: manifest_env
  de_decode :: "string \<Rightarrow> bool \<times> dispatch_request decoded"
  de_object :: "string \<Rightarrow> bool"
  de_body :: "dispatch_body \<Rightarrow> string option"
  de_action_id :: "nat \<Rightarrow> string"
  de_envelope_id :: "nat \<Rightarrow> string"
  de_clock :: "nat \<Rightarrow> time"
  de_meanwhile :: "nat \<Rightarrow> db \<Rightarrow> db"

record dispatched =
  dp_id :: string
  dp_state :: action_state

definition action_second :: int where "action_second = 1000000000"
definition default_action_ttl :: int where "default_action_ttl = 120 * action_second"
definition max_action_ttl :: int where "max_action_ttl = 24 * 3600 * action_second"
definition max_action_result_bytes :: nat where "max_action_result_bytes = 65536"
definition max_action_error_bytes :: nat where "max_action_error_bytes = 4096"
definition max_reference_key_length :: nat where "max_reference_key_length = 200"
definition max_idempotency_key_length :: nat where "max_idempotency_key_length = 200"
definition outbound_queue_limit :: int where "outbound_queue_limit = 5000"

definition clamp_action_ttl :: "int \<Rightarrow> int" where
  "clamp_action_ttl requested =
     (if requested \<le> 0 then default_action_ttl
      else if requested > max_action_ttl div action_second then max_action_ttl
      else requested * action_second)"

definition lookup_server :: "db \<Rightarrow> string \<Rightarrow> refusal + server" where
  "lookup_server d sid =
     (case find_server d sid of
        Inl err \<Rightarrow> Inl (if err = ErrNotFound then not_found ''no such server'' else internal_error)
      | Inr s \<Rightarrow> Inr s)"

definition require_scope :: "principal \<Rightarrow> string \<Rightarrow> string \<Rightarrow> string \<Rightarrow> refusal option" where
  "require_scope caller resource verb v =
     (if allows caller resource verb v then None
      else Some (forbidden (''this token does not carry the ''
             @ scope_string \<lparr>sc_resource = resource, sc_verb = verb, sc_pattern = v\<rparr> @ '' scope'')))"

subsection \<open>Validation against the stored manifest\<close>

definition validate_dispatch :: "manifest_env \<Rightarrow> db \<Rightarrow> string \<Rightarrow> string \<Rightarrow> string \<Rightarrow> refusal + int" where
  "validate_dispatch env d server code params =
     (case find_manifest d server of
        Inl err \<Rightarrow>
          Inl (if err = ErrNotFound
               then Refusal 409 ''unknown_action''
                      ''this server has not published a manifest, so no action can be validated or dispatched''
               else internal_error)
      | Inr m \<Rightarrow>
          (case mv_shape env (mf_body m) of
             Inl err \<Rightarrow> Inl internal_error
           | Inr body \<Rightarrow>
               (case find (\<lambda>a. ma_code a = code) (mb_actions body) of
                  None \<Rightarrow> Inl (Refusal 409 ''unknown_action''
                    (''the server's manifest (revision '' @ show_int (mf_revision m) @ '') does not declare the action '' @ code))
                | Some declared \<Rightarrow>
                    if ma_params declared = '''' \<or> ma_params declared = ''null'' then Inr (mf_revision m)
                    else (case compile_schema (mv_printer env) (mv_decode env) (ma_params declared) of
                        (compiled, faults) \<Rightarrow>
                          if faults \<noteq> [] then Inl internal_error
                          else if validate_instance (mv_printer env) (mv_decode env) compiled params \<noteq> []
                          then Inl (Refusal 400 ''params_invalid'' ''params do not satisfy the schema this action declared'')
                          else Inr (mf_revision m)))))"

subsection \<open>The handlers\<close>

definition answer_idempotent_replay ::
  "principal \<Rightarrow> action_row \<Rightarrow> audit_entry \<Rightarrow> dispatched reply \<times> audit_entry" where
  "answer_idempotent_replay caller original e =
     (if \<not> allows caller ''actions'' ''dispatch'' (ac_code original)
      then (Failure (forbidden ''this idempotency key names an action this token may not dispatch''), e)
      else (Success 202 \<lparr>dp_id = ac_id original, dp_state = ac_state original\<rparr>,
            audit_detail ''idempotentReplay'' (JLiteral ''true'') (audit_detail ''actionId'' (JString (ac_id original)) e)))"

definition new_action_of :: "dispatch_env \<Rightarrow> string \<Rightarrow> dispatch_request \<Rightarrow> string \<Rightarrow> nat \<Rightarrow> int \<Rightarrow> string \<Rightarrow> new_action" where
  "new_action_of env server q params attempt revision body =
     \<lparr>na_id = de_action_id env attempt, na_server = server, na_code = dq_code q, na_context = dq_context q,
      na_reference = dq_reference q, na_params = params, na_idem = dq_idem q,
      na_expires = parse_time (format_time (de_clock env (5 * attempt) + clamp_action_ttl (dq_ttl q))),
      na_revision = revision, na_envelope_type = ''action.dispatch'', na_envelope_body = body,
      na_limit = outbound_queue_limit\<rparr>"

definition dispatch_body_of :: "dispatch_env \<Rightarrow> dispatch_request \<Rightarrow> string \<Rightarrow> nat \<Rightarrow> dispatch_body" where
  "dispatch_body_of env q params attempt =
     \<lparr>db_action = de_action_id env attempt, db_code = dq_code q, db_context = dq_context q,
      db_reference = dq_reference q, db_params = params,
      db_expires = format_time (de_clock env (5 * attempt) + clamp_action_ttl (dq_ttl q))\<rparr>"

text \<open>The loop: one check and one gated insert per attempt, of which there are three.\<close>

function dispatch_attempts ::
  "dispatch_env \<Rightarrow> principal \<Rightarrow> string \<Rightarrow> dispatch_request \<Rightarrow> string \<Rightarrow> nat \<Rightarrow> audit_entry \<Rightarrow> db
    \<Rightarrow> dispatched reply \<times> audit_entry \<times> db" where
  "dispatch_attempts env caller server q params attempt e d =
     (let seen = de_meanwhile env (2 * attempt) d in
      case validate_dispatch (de_manifest env) seen server (dq_code q) params of
        Inl refused \<Rightarrow> (Failure refused, e, seen)
      | Inr revision \<Rightarrow>
          (case de_body env (dispatch_body_of env q params attempt) of
             None \<Rightarrow> (Failure internal_error, e, seen)
           | Some body \<Rightarrow>
               let before = de_meanwhile env (2 * attempt + 1) seen; clock = (\<lambda>k. de_clock env (5 * attempt + k)) in
               (case dispatch_action before (new_action_of env server q params attempt revision body)
                       (de_envelope_id env attempt) (clock 1) (clock 2) (clock 3) (clock 4) of
                  Inl err \<Rightarrow>
                    if err = ErrManifestChanged
                    then (if attempt < 2 then dispatch_attempts env caller server q params (Suc attempt) e before
                          else (Failure (Refusal 409 ''conflict''
                            ''the server's manifest kept changing while this dispatch was being validated; try again''), e, before))
                    else if err = ErrOutboundQueueFull
                    then (Failure (Refusal 409 ''outbound_queue_full''
                            (''this server already has '' @ show_int outbound_queue_limit @ '' unacked envelopes queued'')), e, before)
                    else (Failure (if err = ErrNotFound then not_found ''no such server'' else internal_error), e, before)
                | Inr (a, created, after) \<Rightarrow>
                    if \<not> created then (case answer_idempotent_replay caller a e of (reply, e') \<Rightarrow> (reply, e', after))
                    else (Success 202 \<lparr>dp_id = ac_id a, dp_state = ac_state a\<rparr>,
                          audit_detail ''actionId'' (JString (ac_id a)) e, after))))"
  by pat_completeness auto
termination by (relation "measure (\<lambda>(env, caller, server, q, params, attempt, e, d). 3 - attempt)") auto

declare dispatch_attempts.simps [simp del]

definition handle_dispatch_action :: "dispatch_env \<Rightarrow> string \<Rightarrow> dispatched handler" where
  "handle_dispatch_action env server caller body e d =
     (case lookup_server d server of
        Inl refused \<Rightarrow> (Failure refused, e, d)
      | Inr found \<Rightarrow>
     (case decode_body (fst (de_decode env body)) None (snd (de_decode env body)) of
        Inl refused \<Rightarrow> (Failure refused, e, d)
      | Inr q \<Rightarrow>
          if dq_code q = '''' then (Failure (bad_request ''code is required''), e, d)
          else if rune_count (dq_code q) > max_code_length then (Failure (bad_request ''code is too long''), e, d)
          else if rune_count (dq_reference q) > max_reference_key_length then (Failure (bad_request ''referenceKey is too long''), e, d)
          else if rune_count (dq_idem q) > max_idempotency_key_length then (Failure (bad_request ''idempotencyKey is too long''), e, d)
          else let e' = audit_detail ''code'' (JString (dq_code q)) e in
            (case require_scope caller ''actions'' ''dispatch'' (dq_code q) of
               Some refused \<Rightarrow> (Failure refused, e', d)
             | None \<Rightarrow>
                 let fresh = (if dq_params q \<noteq> '''' \<and> dq_params q \<noteq> ''null''
                        then (if de_object env (dq_params q)
                              then dispatch_attempts env caller (sr_id found) q (dq_params q) 0 e' d
                              else (Failure (bad_request ''params must be a JSON object''), e', d))
                        else dispatch_attempts env caller (sr_id found) q ''{}'' 0 e' d)
                 in if dq_idem q = '''' then fresh
                    else (case action_by_idempotency_key d (sr_id found) (dq_idem q) of
                            Inr original \<Rightarrow> (case answer_idempotent_replay caller original e' of (reply, e'') \<Rightarrow> (reply, e'', d))
                          | Inl err \<Rightarrow> if err = ErrNotFound then fresh else (Failure internal_error, e', d)))))"

definition handle_get_action :: "string \<Rightarrow> time \<Rightarrow> time \<Rightarrow> action_row handler" where
  "handle_get_action aid read_stamp read_now caller body e d =
     (case action_owner d aid of
        Inl err \<Rightarrow> (Failure (if err = ErrNotFound then not_found ''no such action'' else internal_error), e, d)
      | Inr (code, server) \<Rightarrow>
          if \<not> bound_to caller server
          then (Failure (forbidden ''this token is bound to other servers than the one this action belongs to''), e, d)
          else (case require_scope caller ''actions'' ''read'' code of
             Some refused \<Rightarrow> (Failure refused, e, d)
           | None \<Rightarrow>
               (case action_by_id d aid read_stamp read_now of
                  (Inl err, d') \<Rightarrow> (Failure (if err = ErrNotFound then not_found ''no such action'' else internal_error), e, d')
                | (Inr a, d') \<Rightarrow> (Success 200 a, e, d'))))"

subsection \<open>What other requests do to a manifest\<close>

text \<open>A stored manifest stays as it is or gives way to one of a higher revision.\<close>

definition republished :: "string \<Rightarrow> db \<Rightarrow> db \<Rightarrow> bool" where
  "republished server d d' =
     (case find_manifest d server of
        Inl err \<Rightarrow> True
      | Inr m \<Rightarrow>
          (case find_manifest d' server of
             Inl err \<Rightarrow> False
           | Inr m' \<Rightarrow> m' = m \<or> mf_revision m < mf_revision m'))"

lemma republished_refl: "manifests d' = manifests d \<Longrightarrow> republished server d d'"
  by (simp add: republished_def find_manifest_def split: option.splits)

lemma republished_trans: "republished server a b \<Longrightarrow> republished server b c \<Longrightarrow> republished server a c"
  by (auto simp: republished_def split: sum.splits)

lemma apply_manifest_republished:
  assumes "manifests_keyed d" and "apply_manifest d owner revision body caps now = (b, d')"
  shows "republished server d d'"
  using apply_manifest_stored(1) [OF assms, of server]
  by (auto simp: republished_def find_manifest_def stored_revision_def split: option.splits if_splits)

lemma apply_manifests_republished:
  "apply_manifests list_rev limit draw owner now k ms d = Inr (a, q, d') \<Longrightarrow> manifests_keyed d \<Longrightarrow> republished server d d'"
proof (induction ms arbitrary: k d a q)
  case Nil
  then show ?case by (simp add: republished_refl)
next
  case (Cons m ms)
  obtain b d1 where ap: "apply_manifest d owner (mp_revision m) (mp_body m) (mp_capabilities m) now = (b, d1)" by fastforce
  let ?tell = "if b \<and> list_rev \<noteq> None \<and> has_capability (mp_capabilities m) capability_bans
      then notice_ban_revision d1 owner (the list_rev) limit (fst (draw k)) (snd (draw k)) else Inr (False, d1)"
  from Cons.prems(1) ap obtain qd where qd: "?tell = Inr qd" by (cases ?tell) simp_all
  obtain q1 d2 where q1: "qd = (q1, d2)" by fastforce
  from Cons.prems(1) ap qd q1 obtain a' q' where
    rest: "apply_manifests list_rev limit draw owner now (Suc k) ms d2 = Inr (a', q', d')" by (auto split: sum.splits)
  from qd q1 have same: "manifests d2 = manifests d1"
    by (auto split: if_splits dest!: notice_ban_revision_frame)
  with apply_manifest_keyed [OF Cons.prems(2) ap] have "manifests_keyed d2" by (simp add: manifests_keyed_def)
  from Cons.IH [OF rest this] apply_manifest_republished [OF Cons.prems(2) ap] republished_refl [OF same]
  show ?case using republished_trans by blast
qed

text \<open>A whole poll of any session, the one operation that stores manifests, moves a manifest forward only.\<close>

lemma apply_inbound_republished:
  assumes "apply_inbound shuffle draw d sid classify limit declaring live_now now = Inr (r, d')" and "manifests_keyed d"
  shows "republished server d d'"
proof -
  obtain s owner :: session_row and list_rev a where
    run: "apply_effects shuffle list_rev limit draw (ss_server owner) now a (record_inbound_ack d sid (ss_inbound_ack s) a) = Inr (r, d')"
    by (rule apply_inboundE [OF assms(1)]) blast
  let ?d = "record_inbound_ack d sid (ss_inbound_ack s) a"
  obtain t where t: "?d = d\<lparr>sessions := t\<rparr>" using record_inbound_ack_frame by blast
  obtain x y d1 where ms: "apply_manifests list_rev limit draw (ss_server owner) now 0 (ia_manifests a) ?d = Inr (x, y, d1)"
    and same: "manifests d' = manifests d1" by (rule apply_effectsE [OF run]) blast
  have "manifests_keyed ?d" using assms(2) by (simp add: t manifests_keyed_def)
  from apply_manifests_republished [OF ms this] republished_refl [OF same]
  have "republished server ?d d'" by (rule republished_trans)
  moreover have "republished server d ?d" by (rule republished_refl) (simp add: t)
  ultimately show ?thesis using republished_trans by blast
qed

subsection \<open>What reaches the game server\<close>

definition params_accepted :: "manifest_env \<Rightarrow> manifest_row \<Rightarrow> string \<Rightarrow> string \<Rightarrow> bool" where
  "params_accepted env m code params =
     (case mv_shape env (mf_body m) of
        Inl err \<Rightarrow> False
      | Inr body \<Rightarrow>
          (case find (\<lambda>a. ma_code a = code) (mb_actions body) of
             None \<Rightarrow> False
           | Some declared \<Rightarrow>
               ma_params declared = '''' \<or> ma_params declared = ''null''
               \<or> (case mv_decode env (ma_params declared) of
                    Inl err \<Rightarrow> False
                  | Inr sch \<Rightarrow> (case mv_decode env params of Inl err \<Rightarrow> False | Inr doc \<Rightarrow> accepts sch doc))))"

definition reads_canonical :: "manifest_env \<Rightarrow> bool" where
  "reads_canonical env = (\<forall>text doc. mv_decode env text = Inr doc \<longrightarrow> canonical doc)"

lemma compile_schema_decodes:
  assumes "compile_schema pr decode raw = (s, [])"
  obtains sch where "decode raw = Inr sch" "compile_node pr sch '''' 0 = (s, [])"
  using assms by (auto simp: compile_schema_def split: sum.splits prod.splits if_splits)

lemma validate_instance_accepts:
  assumes "compile_schema pr decode raw = (s, [])" and "validate_instance pr decode s text = []"
    and "\<And>t doc. decode t = Inr doc \<Longrightarrow> canonical doc"
  shows "\<exists>sch doc. decode raw = Inr sch \<and> decode text = Inr doc \<and> accepts sch doc"
proof -
  obtain sch where sch: "decode raw = Inr sch" "compile_node pr sch '''' 0 = (s, [])"
    by (rule compile_schema_decodes [OF assms(1)])
  from assms(2) obtain doc where doc: "decode text = Inr doc" "validate_node pr s doc '''' = []"
    by (auto simp: validate_instance_def split: sum.splits)
  from compiled_accepts [OF sch(2) assms(3) [OF sch(1)] assms(3) [OF doc(1)]] doc(2) have "accepts sch doc" by simp
  with sch(1) doc(1) show ?thesis by blast
qed

lemma validate_dispatch_ok:
  assumes "validate_dispatch env d server code params = Inr revision" and "reads_canonical env"
  obtains m where "find_manifest d server = Inr m" "mf_revision m = revision" "params_accepted env m code params"
proof -
  note v = assms(1) [unfolded validate_dispatch_def]
  from v obtain m where m: "find_manifest d server = Inr m" by (cases "find_manifest d server") (simp_all split: if_splits)
  with v obtain body where body: "mv_shape env (mf_body m) = Inr body" by (cases "mv_shape env (mf_body m)") simp_all
  with v m obtain declared where declared: "find (\<lambda>a. ma_code a = code) (mb_actions body) = Some declared"
    by (cases "find (\<lambda>a. ma_code a = code) (mb_actions body)") simp_all
  show thesis
  proof (cases "ma_params declared = '''' \<or> ma_params declared = ''null''")
    case True
    with v m body declared show thesis by (intro that [OF m]) (auto simp: params_accepted_def)
  next
    case False
    obtain s fs where c: "compile_schema (mv_printer env) (mv_decode env) (ma_params declared) = (s, fs)" by fastforce
    with v m body declared False have ok: "fs = []" "validate_instance (mv_printer env) (mv_decode env) s params = []" "mf_revision m = revision"
      by (simp_all split: if_splits)
    from validate_instance_accepts [OF c [unfolded ok(1)] ok(2)] assms(2)
    have "\<exists>sch doc. mv_decode env (ma_params declared) = Inr sch \<and> mv_decode env params = Inr doc \<and> accepts sch doc"
      by (simp add: reads_canonical_def)
    then have "params_accepted env m code params" by (auto simp: params_accepted_def body declared)
    then show thesis by (rule that [OF m ok(3)])
  qed
qed

lemma find_manifest_gate: "find_manifest d server = Inr m \<longleftrightarrow> find (\<lambda>m. mf_server m = server) (manifests d) = Some m"
  by (simp add: find_manifest_def split: option.splits)

lemma dispatch_gated:
  assumes "dispatch_action d q eid now framed rs rn = Inr (a, created, d')"
  shows "\<exists>m. find_manifest d (na_server q) = Inr m \<and> mf_revision m = na_revision q"
  using assms by (auto simp: dispatch_action_def find_manifest_gate split: if_splits option.splits)

lemma dispatch_replayed:
  assumes "dispatch_action d q eid now framed rs rn = Inr (a, False, d')"
  shows "d' = d \<and> a \<in> set (actions d) \<and> ac_server a = na_server q \<and> ac_idem a = Some (na_idem q)"
proof -
  from assms have "action_by_idempotency_key d (na_server q) (na_idem q) = Inr a" "d' = d"
    by (auto simp: dispatch_action_def Let_def split: if_splits option.splits sum.splits prod.splits)
  then show ?thesis by (auto simp: action_by_idempotency_key_def split: option.splits dest: find_Some_in)
qed

text \<open>What the table holds of a dispatch the request created.\<close>

definition conforms :: "dispatch_env \<Rightarrow> string \<Rightarrow> dispatch_request \<Rightarrow> action_row \<Rightarrow> db \<Rightarrow> bool" where
  "conforms env server q a d =
     (ac_code a = dq_code q
      \<and> (case find_manifest d server of
           Inl err \<Rightarrow> False
         | Inr m \<Rightarrow> params_accepted (de_manifest env) m (ac_code a) (ac_params a))
      \<and> list_ex (\<lambda>x. en_id x = ac_envelope a \<and> en_server x = server \<and> en_type x = ''action.dispatch'') (outbound d))"

lemma dispatch_created_conforms:
  assumes run: "dispatch_action d (new_action_of env server q params k revision body) eid now framed rs rn = Inr (a, True, d')"
    and m: "find_manifest d server = Inr m" "params_accepted (de_manifest env) m (dq_code q) params"
  shows "a \<in> set (actions d') \<and> ac_server a = server \<and> ac_code a = dq_code q \<and> conforms env server q a d'"
proof -
  let ?q = "new_action_of env server q params k revision body"
  have q: "na_server ?q = server" "na_code ?q = dq_code q" "na_params ?q = params" "na_envelope_type ?q = ''action.dispatch''"
    by (simp_all add: new_action_of_def)
  from run obtain e r where r: "r = action_row_of ?q eid now"
    and e: "e = new_outbound eid server ''action.dispatch'' (na_envelope_body ?q) framed" and out: "outbound d' = outbound d @ [e]"
    and man: "manifests d' = manifests d"
    and acts: "actions d' = actions d @ [if expire_due rn r then expire_row rs r else r]"
    and a: "a = (if expire_due rn r then expire_row rs r else r)"
    by (rule dispatch_createdE) (simp add: q)
  have fields: "ac_code a = dq_code q" "ac_params a = params" "ac_server a = server" "ac_envelope a = eid"
    by (simp_all add: a r action_row_of_def expire_row_def q)
  have "find_manifest d' server = Inr m" using m(1) by (simp add: find_manifest_def man)
  moreover have "list_ex (\<lambda>x. en_id x = ac_envelope a \<and> en_server x = server \<and> en_type x = ''action.dispatch'') (outbound d')"
    by (simp add: out e new_outbound_def fields)
  ultimately show ?thesis using m(2) fields by (simp add: conforms_def acts a [symmetric])
qed

definition answered_with :: "dispatch_env \<Rightarrow> principal \<Rightarrow> string \<Rightarrow> dispatch_request \<Rightarrow> dispatched \<Rightarrow> audit_entry \<Rightarrow> db \<Rightarrow> action_row \<Rightarrow> bool" where
  "answered_with env caller server q v e d a =
     (a \<in> set (actions d) \<and> ac_id a = dp_id v \<and> ac_server a = server \<and> allows caller ''actions'' ''dispatch'' (ac_code a)
      \<and> (if (''idempotentReplay'', JLiteral ''true'') \<in> set (ae_detail e) then ac_idem a = Some (dq_idem q) else conforms env server q a d))"

lemma replay_answered:
  assumes "answer_idempotent_replay caller a e = (Success 202 v, e')" and "a \<in> set (actions d)" "ac_server a = server"
    and "ac_idem a = Some (dq_idem q)"
  shows "answered_with env caller server q v e' d a"
  using assms by (auto simp: answer_idempotent_replay_def answered_with_def audit_detail_def split: if_splits)

lemma dispatch_attempts_answered:
  "dispatch_attempts env caller server q params k e d = (Success 202 v, e', d') \<Longrightarrow>
    (\<And>k x. republished server x (de_meanwhile env k x)) \<Longrightarrow> reads_canonical (de_manifest env) \<Longrightarrow>
    allows caller ''actions'' ''dispatch'' (dq_code q) \<Longrightarrow> (''idempotentReplay'', JLiteral ''true'') \<notin> set (ae_detail e) \<Longrightarrow>
    \<exists>a. answered_with env caller server q v e' d' a"
proof (induction env caller server q params k e d rule: dispatch_attempts.induct)
  case (1 env caller server q params k e d)
  define seen where "seen = de_meanwhile env (2 * k) d"
  define before where "before = de_meanwhile env (2 * k + 1) seen"
  note run = 1(2) [unfolded dispatch_attempts.simps [of env caller server q params k e d] Let_def, folded seen_def, folded before_def]
  from run obtain revision where v: "validate_dispatch (de_manifest env) seen server (dq_code q) params = Inr revision"
    by (cases "validate_dispatch (de_manifest env) seen server (dq_code q) params") simp_all
  with run obtain body where b: "de_body env (dispatch_body_of env q params k) = Some body"
    by (cases "de_body env (dispatch_body_of env q params k)") simp_all
  let ?q = "new_action_of env server q params k revision body"
  let ?clock = "\<lambda>i. de_clock env (5 * k + i)"
  let ?act = "dispatch_action before ?q (de_envelope_id env k) (?clock 1) (?clock 2) (?clock 3) (?clock 4)"
  obtain m where m: "find_manifest seen server = Inr m" "mf_revision m = revision"
    and good: "params_accepted (de_manifest env) m (dq_code q) params"
    by (rule validate_dispatch_ok [OF v 1(4)])
  have moved: "republished server seen before" unfolding before_def by (rule 1(3))
  show ?case
  proof (cases ?act)
    case (Inl err)
    with run v b have "err = ErrManifestChanged" "k < 2"
      and again: "dispatch_attempts env caller server q params (Suc k) e before = (Success 202 v, e', d')"
      by (simp_all split: if_splits)
    show ?thesis
      by (rule 1(1) [OF seen_def v b before_def refl Inl \<open>err = ErrManifestChanged\<close> \<open>k < 2\<close> again 1(3-6)])
  next
    case (Inr p)
    obtain a created after where p: "p = (a, created, after)" by (metis prod_cases3)
    note act = Inr [unfolded p]
    show ?thesis
    proof (cases created)
      case True
      with run v b act have out: "v = \<lparr>dp_id = ac_id a, dp_state = ac_state a\<rparr>" "d' = after"
        "e' = audit_detail ''actionId'' (JString (ac_id a)) e" by simp_all
      from dispatch_gated [OF act] obtain m' where "find_manifest before server = Inr m'" "mf_revision m' = revision"
        by (auto simp: new_action_of_def)
      with moved m have "find_manifest before server = Inr m" by (auto simp: republished_def)
      from dispatch_created_conforms [OF act [unfolded eqTrueI [OF True]] this good] 1(5,6)
      show ?thesis by (intro exI [of _ a]) (auto simp: answered_with_def out audit_detail_def)
    next
      case False
      then have never: "created = False" by simp
      with run v b act have "answer_idempotent_replay caller a e = (Success 202 v, e')" "d' = after"
        by (auto split: prod.splits)
      with dispatch_replayed [OF act [unfolded never]] show ?thesis
        using replay_answered by (metis new_action_of_def new_action.select_convs(2,7))
    qed
  qed
qed


definition sample_manifest :: manifest_env where
  "sample_manifest =
     \<lparr>mv_shape = \<lambda>text. Inr \<lparr>mb_game = ''dayz'', mb_plugin = None, mb_revision = Some 4,
        mb_actions = [\<lparr>ma_code = ''core.heal'', ma_name = '''', ma_context = '''', ma_namespace = '''', ma_danger = '''',
          ma_params = ''schema''\<rparr>],
        mb_contexts = [], mb_events = [], mb_kv = [], mb_capabilities = []\<rparr>,
      mv_capabilities = \<lambda>text. None, mv_revision = \<lambda>text. None, mv_decode = sample_decode, mv_printer = sample_printer,
      mv_reject = \<lambda>i r fs. None\<rparr>"

definition sample_ask :: "string \<Rightarrow> dispatch_request" where
  "sample_ask params = \<lparr>dq_code = ''core.heal'', dq_context = '''', dq_reference = '''', dq_params = params, dq_ttl = 0, dq_idem = ''k9''\<rparr>"

definition sample_dispatching :: dispatch_env where
  "sample_dispatching =
     \<lparr>de_manifest = sample_manifest, de_decode = \<lambda>text. (True, Decoded (sample_ask text)), de_object = \<lambda>text. True,
      de_body = \<lambda>b. Some (db_params b), de_action_id = \<lambda>k. ''a7'', de_envelope_id = \<lambda>k. ''e7'', de_clock = \<lambda>k. 0,
      de_meanwhile = \<lambda>k d. d\<rparr>"

fun accepted_reply :: "'v reply \<times> 'e \<times> 'd \<Rightarrow> bool" where
  "accepted_reply (Success status v, e, d) = (status = 202)"
| "accepted_reply (Failure r, e, d) = False"

lemma accepted_replyE: "accepted_reply r \<Longrightarrow> (\<And>v e d. r = (Success 202 v, e, d) \<Longrightarrow> thesis) \<Longrightarrow> thesis"
  by (cases r rule: accepted_reply.cases) auto

lemma sample_reads: "reads_canonical sample_manifest"
  using sample_canonical by (auto simp: reads_canonical_def sample_manifest_def sample_decode_def)


lemma sample_dispatch_refused:
  "\<not> accepted_reply (handle_dispatch_action sample_dispatching ''s1'' bootstrap_principal ''bad'' empty_entry sample_site)"
  by code_simp

end
