(* ===== verification/Ingest.thy ===== *)
theory Ingest
  imports DispatchApi
begin

text \<open>
  What the hub makes of the bodies a poll carries before the transaction applies them: action.ack and
  action.result (hub/action.go), event.batch (hub/events.go and the identities of hub/players.go), the
  state snapshots (hub/state.go) and bans.applied (hub/bans.go), with the notice that answers a body it refuses.

  The JSON decoder is the record \<open>ingest_env\<close>: one field per Go type a body is read into.  \<open>ig_members\<close>
  reads a text into a map: \<open>None\<close> is an error, \<open>Some None\<close> the nil map a JSON null leaves; the list holds each
  member name once.  The configuration, the printers and the rendering of a notice are its other members.
\<close>

subsection \<open>The decoder and the configuration\<close>

record result_body =
  rb_action :: string
  rb_ok :: "bool option"
  rb_result :: string
  rb_error :: "string option"
  rb_duration :: "int option"

record inbound_event =
  iv_type :: string
  iv_ts :: string
  iv_data :: string

datatype coordinate = NullCoordinate | Finite | NotFinite

record ingest_env =
  ig_manifest :: manifest_env
  ig_ack :: "string \<Rightarrow> string option"
  ig_result :: "string \<Rightarrow> result_body option"
  ig_revision :: "string \<Rightarrow> int option"
  ig_batch :: "string \<Rightarrow> string + inbound_event list option"
  ig_members :: "string \<Rightarrow> (string \<times> string) list option option"
  ig_text :: "string \<Rightarrow> string option"
  ig_list :: "string \<Rightarrow> string list option"
  ig_coordinates :: "string \<Rightarrow> coordinate list option"
  ig_time :: "string \<Rightarrow> time option"
  ig_reject :: "string \<Rightarrow> fault list \<Rightarrow> string option"
  ig_event_id :: "string \<Rightarrow> nat \<Rightarrow> string"
  ig_retention :: "(string \<times> int) list"
  ig_snapshot_retention :: int
  ig_snapshot_depth :: int

definition ingest_quote :: "ingest_env \<Rightarrow> string \<Rightarrow> string" where
  "ingest_quote env s = pt_quote (mv_printer (ig_manifest env)) s"

subsection \<open>Action receipts and results\<close>

definition join_non_empty :: "string \<Rightarrow> string \<Rightarrow> string" where
  "join_non_empty a b = (if a = '''' then b else a @ ''; '' @ b)"

definition bounded_result :: "result_body \<Rightarrow> bool \<Rightarrow> action_result" where
  "bounded_result b ok =
     (let error = (case rb_error b of None \<Rightarrow> '''' | Some s \<Rightarrow> s);
          error = (if length error > max_action_error_bytes then truncate_utf8 error max_action_error_bytes @ '' [truncated]'' else error);
          payload = (if rb_result b = ''null'' then '''' else rb_result b);
          duration = (case rb_duration b of Some n \<Rightarrow> if n < 0 then None else Some n | None \<Rightarrow> None)
      in if length payload > max_action_result_bytes
         then \<lparr>ar_action = rb_action b, ar_ok = ok, ar_result = '''',
               ar_error = join_non_empty error ''the result payload exceeded the 64 KiB cap and was dropped'', ar_duration = duration\<rparr>
         else \<lparr>ar_action = rb_action b, ar_ok = ok, ar_result = payload, ar_error = error, ar_duration = duration\<rparr>)"

definition prepare_action :: "ingest_env \<Rightarrow> inbound_envelope \<Rightarrow> prepared" where
  "prepare_action env e =
     (if ie_type e = ''action.ack'' then
        (case ig_ack env (ie_body e) of
           None \<Rightarrow> ActionUnusable
         | Some i \<Rightarrow> if i = '''' then ActionUnusable else ActionAck i)
      else
        (case ig_result env (ie_body e) of
           None \<Rightarrow> ActionUnusable
         | Some b \<Rightarrow>
             if rb_action b = '''' then ActionUnusable
             else (case rb_ok b of None \<Rightarrow> ActionUnusable | Some ok \<Rightarrow> ActionOutcome (bounded_result b ok))))"

subsection \<open>Reports of the ban list\<close>

definition max_ban_revision :: int where "max_ban_revision = 2 ^ 53 - 1"

definition prepare_bans_applied :: "ingest_env \<Rightarrow> inbound_envelope \<Rightarrow> prepared" where
  "prepare_bans_applied env e =
     (case ig_revision env (ie_body e) of
        None \<Rightarrow> Unmodelled
      | Some r \<Rightarrow> if r < 0 \<or> r > max_ban_revision then Unmodelled else BansApplied r)"

subsection \<open>Telemetry\<close>

definition max_events_per_batch :: nat where "max_events_per_batch = 200"
definition max_event_type :: nat where "max_event_type = 128"
definition max_event_data_bytes :: nat where "max_event_data_bytes = 16384"
definition max_event_faults :: nat where "max_event_faults = 20"
definition max_event_clock_skew :: int where "max_event_clock_skew = 3600 * action_second"
definition default_retention_ttl :: int where "default_retention_ttl = 30 * 24 * 3600 * action_second"
definition max_platform_length :: nat where "max_platform_length = 64"
definition max_player_id_length :: nat where "max_player_id_length = 128"

definition default_event_retention :: "(string \<times> int) list" where
  "default_event_retention = [(''*'', 30 * 24 * 3600 * action_second), (''core.player.chat'', 90 * 24 * 3600 * action_second)]"

definition valid_event_type :: "string \<Rightarrow> bool" where
  "valid_event_type t =
     (if t = '''' \<or> length t > max_event_type then False
      else let segments = split_on (CHR ''.'') t in
        if length segments < 2 then False
        else list_all (\<lambda>seg. seg \<noteq> '''' \<and> list_all segment_char seg) segments)"

definition retention_match :: "string \<Rightarrow> string \<Rightarrow> int" where
  "retention_match pat t =
     (if pat = ''*'' then 0
      else if pat = t then int (length t) + 1
      else if suffix ''.*'' pat \<and> prefix (trim_last 1 pat) t then int (length (trim_last 1 pat))
      else -1)"

fun retention_loop :: "(string \<times> int) list \<Rightarrow> string \<Rightarrow> int \<Rightarrow> int \<Rightarrow> int \<times> int" where
  "retention_loop [] t best score = (best, score)"
| "retention_loop ((pat, ttl) # rules) t best score =
     (if ttl \<le> 0 then retention_loop rules t best score
      else if retention_match pat t > score then retention_loop rules t ttl (retention_match pat t)
      else retention_loop rules t best score)"

definition retention_for :: "ingest_env \<Rightarrow> string \<Rightarrow> int" where
  "retention_for env t =
     (case retention_loop (ig_retention env) t 0 (-1) of
        (best, score) \<Rightarrow> if score < 0 then default_retention_ttl else best)"

definition event_timestamp :: "ingest_env \<Rightarrow> string \<Rightarrow> time \<Rightarrow> time option" where
  "event_timestamp env raw now =
     (if raw = '''' then None
      else case ig_text env raw of
        None \<Rightarrow> None
      | Some text \<Rightarrow>
          (case ig_time env text of
             None \<Rightarrow> None
           | Some t \<Rightarrow>
               let utc = parse_time (format_time t) in
               if utc > now + max_event_clock_skew then None else Some utc))"

definition member_of :: "(string \<times> string) list \<Rightarrow> string \<Rightarrow> string" where
  "member_of ms k = (case map_of ms k of None \<Rightarrow> '''' | Some raw \<Rightarrow> raw)"

definition identity_string :: "ingest_env \<Rightarrow> string \<Rightarrow> nat \<Rightarrow> string option" where
  "identity_string env raw limit =
     (if raw = '''' then None
      else case ig_text env raw of
        None \<Rightarrow> None
      | Some s \<Rightarrow> if s = '''' \<or> rune_count s > limit \<or> CHR 0x00 \<in> set s then None else Some s)"

definition identity_of :: "ingest_env \<Rightarrow> string \<Rightarrow> (string \<times> string) option" where
  "identity_of env raw =
     (case ig_members env raw of
        Some (Some ms) \<Rightarrow>
          (case identity_string env (member_of ms ''platform'') max_platform_length of
             None \<Rightarrow> None
           | Some p \<Rightarrow>
               (case identity_string env (member_of ms ''id'') max_player_id_length of
                  None \<Rightarrow> None
                | Some i \<Rightarrow> Some (p, i)))
      | _ \<Rightarrow> None)"

text \<open>The members that name one identity are its roles; both lists are sorted, so the map's order is immaterial.\<close>

definition identities_of :: "ingest_env \<Rightarrow> (string \<times> string) list \<Rightarrow> identity list" where
  "identities_of env ms =
     (let found = concat (map (\<lambda>(n, raw). case identity_of env raw of None \<Rightarrow> [] | Some k \<Rightarrow> [(k, n)]) ms) in
      map (\<lambda>k. \<lparr>idn_platform = fst k, idn_player = snd k, idn_roles = sort (map snd (filter (\<lambda>x. fst x = k) found))\<rparr>)
        (sort (remdups (map fst found))))"

text \<open>One event of a batch: its fault, or the record to store.\<close>

definition read_event :: "ingest_env \<Rightarrow> time \<Rightarrow> string \<Rightarrow> nat \<Rightarrow> inbound_event \<Rightarrow> fault + new_event" where
  "read_event env now eid i ev =
     (let path = index_path ''events'' i;
          stored = (\<lambda>data ms. Inr \<lparr>nv_id = ig_event_id env eid i, nv_type = iv_type ev, nv_occurred = event_timestamp env (iv_ts ev) now,
              nv_data = data, nv_retention = retention_for env (iv_type ev), nv_identities = identities_of env ms\<rparr>)
      in if \<not> valid_event_type (iv_type ev)
         then Inl (fault_at (path @ ''.t'')
           (''t must be a {namespace}.{name} type of at most '' @ show_int (int max_event_type)
            @ '' characters drawn from letters, digits, _ and -, got '' @ ingest_quote env (truncate_utf8 (iv_type ev) 64)))
         else if reserved_namespace (iv_type ev)
         then Inl (fault_at (path @ ''.t'')
           ''the action, server, and audit namespaces are reserved for the hub's own notifications; core server telemetry lives under core.server.*'')
         else if iv_data ev \<noteq> '''' \<and> iv_data ev \<noteq> ''null''
         then (if length (iv_data ev) > max_event_data_bytes
               then Inl (fault_at (path @ ''.data'') (''data is larger than the '' @ show_int (int max_event_data_bytes) @ '' byte cap''))
               else case ig_members env (iv_data ev) of
                 None \<Rightarrow> Inl (fault_at (path @ ''.data'') ''data must be a JSON object'')
               | Some ms \<Rightarrow> stored (iv_data ev) (case ms of None \<Rightarrow> [] | Some ms \<Rightarrow> ms))
         else stored ''{}'' [])"

fun batch_loop :: "ingest_env \<Rightarrow> time \<Rightarrow> string \<Rightarrow> nat \<Rightarrow> inbound_event list \<Rightarrow> new_event list \<times> fault list" where
  "batch_loop env now eid i [] = ([], [])"
| "batch_loop env now eid i (ev # evs) =
     (case batch_loop env now eid (Suc i) evs of
        (es, fs) \<Rightarrow> (case read_event env now eid i ev of Inl f \<Rightarrow> (es, f # fs) | Inr e \<Rightarrow> (e # es, fs)))"

definition validate_event_batch :: "ingest_env \<Rightarrow> time \<Rightarrow> string \<Rightarrow> string \<Rightarrow> fault list + new_event list" where
  "validate_event_batch env now eid body =
     (if body = '''' then Inl [fault_at '''' ''body is required'']
      else case ig_batch env body of
        Inl err \<Rightarrow> Inl [fault_at '''' (''body does not match the event batch shape: '' @ err)]
      | Inr None \<Rightarrow> Inl [fault_at ''events'' ''events is required'']
      | Inr (Some evs) \<Rightarrow>
          if length evs > max_events_per_batch
          then Inl [fault_at ''events'' (''a batch carries at most '' @ show_int (int max_events_per_batch) @ '' events, got ''
                 @ show_int (int (length evs)))]
          else (case batch_loop env now eid 0 evs of (es, fs) \<Rightarrow> if fs \<noteq> [] then Inl fs else Inr es))"

text \<open>A notice keeps the first twenty faults; one that cannot be rendered says only that it was refused.\<close>

definition reject_notice :: "ingest_env \<Rightarrow> string \<Rightarrow> string \<Rightarrow> string \<Rightarrow> nat \<Rightarrow> fault list \<Rightarrow> notice" where
  "reject_notice env ty short eid limit faults =
     \<lparr>nc_type = ty,
      nc_body =
        (case ig_reject env eid (take limit faults) of
           Some text \<Rightarrow> text
         | None \<Rightarrow> (case ig_reject env eid [fault_at '''' short] of Some text \<Rightarrow> text | None \<Rightarrow> ''''))\<rparr>"

definition new_event_reject :: "ingest_env \<Rightarrow> string \<Rightarrow> fault list \<Rightarrow> notice" where
  "new_event_reject env eid faults = reject_notice env ''event.reject'' ''the event batch was rejected'' eid max_event_faults faults"

definition new_event_budget_reject :: "ingest_env \<Rightarrow> string \<Rightarrow> notice" where
  "new_event_budget_reject env eid =
     new_event_reject env eid [fault_at ''events''
       (''this poll has already used its budget of '' @ show_int (int max_events_per_poll) @ '' events; send this batch on a later poll'')]"

definition prepare_events :: "ingest_env \<Rightarrow> time \<Rightarrow> inbound_envelope \<Rightarrow> prepared" where
  "prepare_events env now e =
     (case validate_event_batch env now (ie_id e) (ie_body e) of
        Inl faults \<Rightarrow> EventsReject (new_event_reject env (ie_id e) faults)
      | Inr es \<Rightarrow> EventRecords es)"

subsection \<open>State snapshots\<close>

definition max_snapshot_bytes :: nat where "max_snapshot_bytes = 262144"
definition max_snapshot_entries :: nat where "max_snapshot_entries = 5000"
definition max_state_faults :: nat where "max_state_faults = 20"
definition max_entry_id_length :: nat where "max_entry_id_length = 128"
definition max_entry_kind_length :: nat where "max_entry_kind_length = 128"
definition max_entry_name_length :: nat where "max_entry_name_length = 200"

definition state_list_field :: "string \<Rightarrow> string option" where
  "state_list_field ty =
     (if ty = ''state.players'' then Some ''players''
      else if ty = ''state.vehicles'' then Some ''vehicles''
      else if ty = ''state.entities'' then Some ''entities''
      else if ty = ''state.world'' then Some ''world''
      else None)"

definition exact_fields :: "ingest_env \<Rightarrow> string \<Rightarrow> (string \<times> string) list option" where
  "exact_fields env raw = (case ig_members env raw of Some (Some ms) \<Rightarrow> Some ms | _ \<Rightarrow> None)"

definition present :: "string \<Rightarrow> bool" where
  "present raw = (raw \<noteq> '''' \<and> raw \<noteq> ''null'')"

definition optional_string :: "ingest_env \<Rightarrow> (string \<times> string) list \<Rightarrow> string \<Rightarrow> string option" where
  "optional_string env members key =
     (if \<not> present (member_of members key) then Some '''' else ig_text env (member_of members key))"

text \<open>\<open>worldTimeForm\<close> and \<open>time.Parse\<close> of the two layouts: the calendar of the Gregorian year, no offset.\<close>

definition is_digit :: "char \<Rightarrow> bool" where
  "is_digit c = (CHR ''0'' \<le> c \<and> c \<le> CHR ''9'')"

definition digits_at :: "string \<Rightarrow> nat \<Rightarrow> nat \<Rightarrow> nat" where
  "digits_at s i n = foldl (\<lambda>a c. 10 * a + (of_char c - 48)) 0 (take n (drop i s))"

definition world_time_form :: "string \<Rightarrow> bool" where
  "world_time_form s =
     ((length s = 16 \<or> length s = 19)
      \<and> list_all (\<lambda>(i, c).
            if i = 4 \<or> i = 7 then c = CHR ''-''
            else if i = 10 then c = CHR ''T''
            else if i = 13 \<or> i = 16 then c = CHR '':''
            else is_digit c) (enumerate 0 s))"

definition leap_year :: "nat \<Rightarrow> bool" where
  "leap_year y = (y mod 4 = 0 \<and> (y mod 100 \<noteq> 0 \<or> y mod 400 = 0))"

definition days_in :: "nat \<Rightarrow> nat \<Rightarrow> nat" where
  "days_in month year =
     (if month = 2 then (if leap_year year then 29 else 28)
      else if month \<in> {4, 6, 9, 11} then 30 else 31)"

definition valid_world_time :: "string \<Rightarrow> bool" where
  "valid_world_time s =
     (if \<not> world_time_form s then False
      else let year = digits_at s 0 4; month = digits_at s 5 2; day = digits_at s 8 2 in
        1 \<le> month \<and> month \<le> 12 \<and> 1 \<le> day \<and> day \<le> days_in month year
        \<and> digits_at s 11 2 < 24 \<and> digits_at s 14 2 < 60 \<and> (if length s > 16 then digits_at s 17 2 < 60 else True))"

definition validate_entry_data :: "ingest_env \<Rightarrow> string \<Rightarrow> string \<Rightarrow> fault list" where
  "validate_entry_data env raw path =
     (if raw = '''' \<or> raw = ''null'' then []
      else case ig_members env raw of None \<Rightarrow> [fault_at path ''data must be a JSON object''] | Some ms \<Rightarrow> [])"

fun coordinate_fault :: "coordinate list \<Rightarrow> string \<Rightarrow> fault list" where
  "coordinate_fault [] path = []"
| "coordinate_fault (NullCoordinate # cs) path = [fault_at path ''position must be an array of numbers'']"
| "coordinate_fault (NotFinite # cs) path = [fault_at path ''position coordinates must be finite'']"
| "coordinate_fault (Finite # cs) path = coordinate_fault cs path"

definition validate_position :: "ingest_env \<Rightarrow> string \<Rightarrow> string \<Rightarrow> fault list" where
  "validate_position env raw path =
     (if raw = '''' \<or> raw = ''null'' then []
      else case ig_coordinates env raw of
        None \<Rightarrow> [fault_at path ''position must be an array of numbers'']
      | Some cs \<Rightarrow>
          if length cs < 2 \<or> length cs > 3 then [fault_at path ''position carries two or three coordinates'']
          else coordinate_fault cs path)"

definition validate_world :: "ingest_env \<Rightarrow> string \<Rightarrow> string \<Rightarrow> fault list" where
  "validate_world env raw path =
     (case ig_members env raw of
        None \<Rightarrow> [fault_at path ''world must be a JSON object: a server has one world, not a list of them'']
      | Some world \<Rightarrow>
          let ms = (case world of None \<Rightarrow> [] | Some ms \<Rightarrow> ms) in
          (case map_of ms ''time'' of
             None \<Rightarrow> []
           | Some raw_time \<Rightarrow>
               if raw_time = ''null'' then []
               else (case ig_text env raw_time of
                       Some text \<Rightarrow>
                         if valid_world_time text then []
                         else [fault_at (path @ ''.time'')
                           ''time must be the game's clock as YYYY-MM-DDTHH:MM or YYYY-MM-DDTHH:MM:SS, a valid date and time of day with no offset'']
                     | None \<Rightarrow> [fault_at (path @ ''.time'')
                           ''time must be the game's clock as YYYY-MM-DDTHH:MM or YYYY-MM-DDTHH:MM:SS, a valid date and time of day with no offset'']))
          @ validate_entry_data env (member_of ms ''data'') (path @ ''.data''))"

definition bad_string :: "string option \<Rightarrow> nat \<Rightarrow> bool" where
  "bad_string s limit = (case s of None \<Rightarrow> True | Some v \<Rightarrow> rune_count v > limit)"

definition missing_string :: "string option \<Rightarrow> nat \<Rightarrow> bool" where
  "missing_string s limit = (case s of None \<Rightarrow> True | Some v \<Rightarrow> v = '''' \<or> rune_count v > limit)"

text \<open>A failed read of the player object leaves no members, as the nil map does.\<close>

definition player_faults :: "ingest_env \<Rightarrow> (string \<times> string) list \<Rightarrow> string \<Rightarrow> fault list" where
  "player_faults env entry path =
     (let player = exact_fields env (member_of entry ''player'');
          members = (case player of None \<Rightarrow> [] | Some ms \<Rightarrow> ms)
      in (if \<not> present (member_of entry ''player'')
          then [fault_at (path @ ''.player'') ''player is required, the platform-qualified identity of section 8.2'']
          else if player = None
          then [fault_at (path @ ''.player'') ''player must be an object, the platform-qualified identity of section 8.2'']
          else if missing_string (optional_string env members ''platform'') max_platform_length
          then [fault_at (path @ ''.player.platform'')
                 (''platform must be a non-empty string of at most '' @ show_int (int max_platform_length) @ '' characters'')]
          else if missing_string (optional_string env members ''id'') max_player_id_length
          then [fault_at (path @ ''.player.id'')
                 (''id must be a non-empty string of at most '' @ show_int (int max_player_id_length) @ '' characters'')]
          else [])
         @ (if bad_string (optional_string env entry ''name'') max_entry_name_length
            then [fault_at (path @ ''.name'') (''name must be a string of at most '' @ show_int (int max_entry_name_length) @ '' characters'')]
            else []))"

definition entity_faults :: "ingest_env \<Rightarrow> (string \<times> string) list \<Rightarrow> string \<Rightarrow> fault list" where
  "entity_faults env entry path =
     (if missing_string (optional_string env entry ''id'') max_entry_id_length
      then [fault_at (path @ ''.id'') (''id must be a non-empty string of at most '' @ show_int (int max_entry_id_length) @ '' characters'')]
      else [])
     @ (if bad_string (optional_string env entry ''kind'') max_entry_kind_length
        then [fault_at (path @ ''.kind'') (''kind must be a string of at most '' @ show_int (int max_entry_kind_length) @ '' characters'')]
        else [])"

definition entry_faults :: "ingest_env \<Rightarrow> string \<Rightarrow> string \<Rightarrow> string \<Rightarrow> fault list" where
  "entry_faults env ty raw path =
     (case exact_fields env raw of
        None \<Rightarrow> [fault_at path ''an entry must be a JSON object'']
      | Some entry \<Rightarrow>
          (if ty = ''state.players'' then player_faults env entry path else entity_faults env entry path)
          @ validate_position env (member_of entry ''position'') (path @ ''.position'')
          @ validate_entry_data env (member_of entry ''data'') (path @ ''.data''))"

fun entries_loop :: "ingest_env \<Rightarrow> string \<Rightarrow> string \<Rightarrow> nat \<Rightarrow> string list \<Rightarrow> fault list" where
  "entries_loop env ty field i [] = []"
| "entries_loop env ty field i (raw # raws) =
     entry_faults env ty raw (index_path field i) @ entries_loop env ty field (Suc i) raws"

definition validate_snapshot :: "ingest_env \<Rightarrow> time \<Rightarrow> inbound_envelope \<Rightarrow> string \<Rightarrow> fault list + new_snapshot" where
  "validate_snapshot env now e field =
     (let body = ie_body e in
      if body = '''' then Inl [fault_at '''' ''body is required'']
      else if length body > max_snapshot_bytes
      then Inl [fault_at '''' (''a snapshot body is at most '' @ show_int (int max_snapshot_bytes) @ '' bytes, got '' @ show_int (int (length body)))]
      else case exact_fields env body of
        None \<Rightarrow> Inl [fault_at '''' ''body does not match the snapshot shape: it must be a JSON object'']
      | Some members \<Rightarrow>
          let raw = member_of members field;
              finish = (\<lambda>faults. if faults \<noteq> [] then Inl faults
                else Inr \<lparr>np_envelope = ie_id e, np_type = field,
                       np_captured = (case event_timestamp env (member_of members ''capturedAt'') now of
                           None \<Rightarrow> event_timestamp env (ie_ts e) now | Some t \<Rightarrow> Some t),
                       np_body = body, np_retention = ig_snapshot_retention env, np_depth = ig_snapshot_depth env\<rparr>)
          in if \<not> present raw then Inl [fault_at field (field @ '' is required'')]
             else if ie_type e = ''state.world'' then finish (validate_world env raw field)
             else case ig_list env raw of
               None \<Rightarrow> Inl [fault_at field (field @ '' does not match the snapshot shape: it must be a list'')]
             | Some entries \<Rightarrow>
                 if length entries > max_snapshot_entries
                 then Inl [fault_at field (''a snapshot carries at most '' @ show_int (int max_snapshot_entries) @ '' entries, got ''
                        @ show_int (int (length entries)))]
                 else finish (entries_loop env (ie_type e) field 0 entries))"

definition new_state_reject :: "ingest_env \<Rightarrow> string \<Rightarrow> fault list \<Rightarrow> notice" where
  "new_state_reject env eid faults = reject_notice env ''state.reject'' ''the snapshot was rejected'' eid max_state_faults faults"

definition prepare_snapshot :: "ingest_env \<Rightarrow> time \<Rightarrow> inbound_envelope \<Rightarrow> string \<Rightarrow> prepared" where
  "prepare_snapshot env now e field =
     (case validate_snapshot env now e field of
        Inl faults \<Rightarrow> StateReject (new_state_reject env (ie_id e) faults)
      | Inr s \<Rightarrow> StateRecord s)"

subsection \<open>Any body\<close>

text \<open>The maps \<open>handlePoll\<close> prepares are keyed by the type of the envelope, so at most one of them holds it.\<close>

definition prepare_envelope :: "ingest_env \<Rightarrow> time \<Rightarrow> inbound_envelope \<Rightarrow> prepared" where
  "prepare_envelope env now e =
     (if ie_type e = ''manifest.publish'' then prepare_manifest (ig_manifest env) e
      else if ie_type e = ''action.ack'' \<or> ie_type e = ''action.result'' then prepare_action env e
      else if ie_type e = ''event.batch'' then prepare_events env now e
      else case state_list_field (ie_type e) of
        Some field \<Rightarrow> prepare_snapshot env now e field
      | None \<Rightarrow> if ie_type e = ''bans.applied'' then prepare_bans_applied env e else Unmodelled)"

definition apply_poll ::
  "ingest_env \<Rightarrow> ((string \<times> int) list \<Rightarrow> (string \<times> int) list) \<Rightarrow> (nat \<Rightarrow> string \<times> time) \<Rightarrow> db \<Rightarrow> db \<Rightarrow> string \<Rightarrow> string
    \<Rightarrow> inbound_envelope list \<Rightarrow> time \<Rightarrow> time \<Rightarrow> time \<Rightarrow> store_error + (inbound_applied \<times> db)" where
  "apply_poll env shuffle draw seen d server sid es body_now live_now now =
     (let prepare = prepare_envelope env body_now;
          replayed = replayed_batches seen server prepare es
      in apply_inbound shuffle draw d sid (poll_application prepare replayed (new_event_budget_reject env) es)
           outbound_queue_limit (list_ex (\<lambda>e. declares_bans (prepare e)) es) live_now now)"

subsection \<open>Which batches are stored\<close>

text \<open>The reference: what makes one event storable, and the record it is stored as.\<close>

definition event_storable :: "ingest_env \<Rightarrow> inbound_event \<Rightarrow> bool" where
  "event_storable env ev =
     (valid_event_type (iv_type ev) \<and> \<not> reserved_namespace (iv_type ev)
      \<and> (present (iv_data ev) \<longrightarrow> length (iv_data ev) \<le> 16384 \<and> ig_members env (iv_data ev) \<noteq> None))"

definition event_record :: "ingest_env \<Rightarrow> time \<Rightarrow> string \<Rightarrow> nat \<Rightarrow> inbound_event \<Rightarrow> new_event" where
  "event_record env now eid i ev =
     \<lparr>nv_id = ig_event_id env eid i, nv_type = iv_type ev, nv_occurred = event_timestamp env (iv_ts ev) now,
      nv_data = (if present (iv_data ev) then iv_data ev else ''{}''), nv_retention = retention_for env (iv_type ev),
      nv_identities = identities_of env
        (if present (iv_data ev) then (case ig_members env (iv_data ev) of Some (Some ms) \<Rightarrow> ms | _ \<Rightarrow> []) else [])\<rparr>"

lemma read_event_cases:
  "event_storable env ev \<Longrightarrow> read_event env now eid i ev = Inr (event_record env now eid i ev)"
  "\<not> event_storable env ev \<Longrightarrow> \<exists>f. read_event env now eid i ev = Inl f"
  by (auto simp: read_event_def event_storable_def event_record_def present_def max_event_data_bytes_def Let_def
      split: option.splits)

lemma batch_loop_iff:
  "snd (batch_loop env now eid i evs) = [] \<longleftrightarrow> list_all (event_storable env) evs"
  "list_all (event_storable env) evs \<Longrightarrow>
     fst (batch_loop env now eid i evs) = map (\<lambda>(k, ev). event_record env now eid k ev) (enumerate i evs)"
proof (induction evs arbitrary: i)
  case (Cons ev evs)
  { case 1
    show ?case using Cons(1) [of "Suc i"] read_event_cases [of env ev now eid i]
      by (cases "event_storable env ev") (auto split: prod.splits sum.splits) }
  { case 2
    then show ?case using Cons(2) [of "Suc i"] read_event_cases(1) [of env ev now eid i] by (auto split: prod.splits) }
qed simp_all

lemma prepared_batch:
  "prepare_events env now e = EventRecords es \<longleftrightarrow>
     (\<exists>evs. ie_body e \<noteq> '''' \<and> ig_batch env (ie_body e) = Inr (Some evs) \<and> length evs \<le> 200
        \<and> list_all (event_storable env) evs
        \<and> es = map (\<lambda>(i, ev). event_record env now (ie_id e) i ev) (enumerate 0 evs))"
proof (cases "ie_body e = ''''")
  case False
  show ?thesis
  proof (cases "ig_batch env (ie_body e)")
    case (Inr b)
    show ?thesis
    proof (cases b)
      case (Some evs)
      note loop = batch_loop_iff(1) [of env now "ie_id e" 0 evs] batch_loop_iff(2) [of env evs now "ie_id e" 0]
      obtain rs fs where r: "batch_loop env now (ie_id e) 0 evs = (rs, fs)" by fastforce
      show ?thesis
      proof (cases "length evs \<le> 200 \<and> fs = []")
        case True
        with r loop have "list_all (event_storable env) evs" "rs = map (\<lambda>(i, ev). event_record env now (ie_id e) i ev) (enumerate 0 evs)"
          by simp_all
        moreover have "prepare_events env now e = EventRecords rs"
          using False Inr Some True r by (simp add: prepare_events_def validate_event_batch_def max_events_per_batch_def)
        ultimately show ?thesis using False Inr Some True by auto
      next
        case not: False
        then have "\<not> (length evs \<le> 200 \<and> list_all (event_storable env) evs)" using loop(1) r by simp
        moreover have "prepare_events env now e \<noteq> EventRecords es"
          using False Inr Some not r by (auto simp: prepare_events_def validate_event_batch_def max_events_per_batch_def)
        ultimately show ?thesis using Inr Some by auto
      qed
    qed (use False Inr in \<open>auto simp: prepare_events_def validate_event_batch_def\<close>)
  qed (use False in \<open>auto simp: prepare_events_def validate_event_batch_def\<close>)
qed (simp add: prepare_events_def validate_event_batch_def)


subsection \<open>Telemetry never speaks for the hub\<close>

definition telemetry_row :: "event_row \<Rightarrow> bool" where
  "telemetry_row r =
     (valid_event_type (ev_type r) \<and> \<not> reserved_namespace (ev_type r) \<and> length (ev_data r) \<le> 16384
      \<and> ev_occurred r \<le> ev_received r + 3600000 \<and> ev_received r \<le> ev_expires r)"

definition telemetry_clean :: "db \<Rightarrow> bool" where
  "telemetry_clean d = list_all telemetry_row (events d)"

definition record_clean :: "time \<Rightarrow> new_event \<Rightarrow> bool" where
  "record_clean now e =
     (valid_event_type (nv_type e) \<and> \<not> reserved_namespace (nv_type e) \<and> length (nv_data e) \<le> 16384 \<and> 0 < nv_retention e
      \<and> (case nv_occurred e of None \<Rightarrow> True | Some t \<Rightarrow> t \<le> now + max_event_clock_skew))"

lemma retention_loop_positive:
  "(score < 0 \<or> 0 < best) \<Longrightarrow> retention_loop rules t best score = (b, s) \<Longrightarrow> s < 0 \<or> 0 < b"
  by (induction rules t best score rule: retention_loop.induct) (auto split: if_splits)

lemma retention_for_positive: "0 < retention_for env t"
  using retention_loop_positive [of "-1" 0 "ig_retention env" t]
  by (auto simp: retention_for_def default_retention_ttl_def action_second_def split: prod.split)

lemma event_record_clean:
  assumes "event_storable env ev"
  shows "record_clean now (event_record env now eid i ev)"
  using assms retention_for_positive [of env "iv_type ev"]
  by (auto simp: record_clean_def event_record_def event_storable_def event_timestamp_def Let_def split: option.splits if_splits)

lemma event_row_clean:
  assumes "record_clean body_now e" and "body_now \<le> now"
  shows "telemetry_row (event_row_of server now e)"
proof -
  have later: "format_time t \<le> format_time now + 3600000" if "t \<le> now + max_event_clock_skew" for t
  proof -
    from that have "format_time t \<le> format_time (now + max_event_clock_skew)" by (rule format_time_mono)
    also have "\<dots> = format_time now + 3600000"
      by (simp add: format_time_def nanos_per_milli_def max_event_clock_skew_def action_second_def)
    finally show ?thesis .
  qed
  have "format_time now \<le> format_time (now + nv_retention e)"
    using assms(1) by (intro format_time_mono) (simp add: record_clean_def)
  then show ?thesis
    using assms later by (auto simp: telemetry_row_def record_clean_def event_row_of_def split: option.splits)
qed

lemma insert_events_clean:
  "insert_events d server es now = Inr d' \<Longrightarrow> list_all (record_clean body_now) es \<Longrightarrow> body_now \<le> now \<Longrightarrow>
     telemetry_clean d \<Longrightarrow> telemetry_clean d'"
proof (induction es arbitrary: d)
  case (Cons e es)
  let ?r = "event_row_of server now e"
  let ?d = "d\<lparr>events := events d @ [?r], event_identities := insert_event_identities (event_identities d) (ev_id ?r) server
      (ev_type ?r) (ev_occurred ?r) (nv_identities e)\<rparr>"
  from Cons.prems(1) have "insert_events ?d server es now = Inr d'" by (simp add: Let_def split: if_splits)
  moreover have "telemetry_clean ?d"
    using Cons.prems event_row_clean [of body_now e now server] by (simp add: telemetry_clean_def)
  ultimately show ?case using Cons by simp
qed simp

lemma insert_event_batches_clean:
  "insert_event_batches d server bs now = Inr (n, d') \<Longrightarrow> list_all (\<lambda>b. list_all (record_clean body_now) (nb_events b)) bs \<Longrightarrow>
     body_now \<le> now \<Longrightarrow> telemetry_clean d \<Longrightarrow> telemetry_clean d'"
proof (induction bs arbitrary: d n)
  case (Cons b bs)
  let ?d = "d\<lparr>event_batches := event_batches d @ [\<lparr>eb_server = server, eb_envelope = nb_envelope b,
      eb_expires = format_time (now + batch_horizon (nb_events b))\<rparr>]\<rparr>"
  show ?case
  proof (cases "nb_events b = [] \<or> batch_claimed d server (nb_envelope b)")
    case True
    with Cons show ?thesis by (auto split: if_splits)
  next
    case False
    with Cons.prems(1) obtain d1 n1 where one: "insert_events ?d server (nb_events b) now = Inr d1"
      and rest: "insert_event_batches d1 server bs now = Inr (n1, d')" by (auto split: sum.splits)
    have "telemetry_clean d1"
      by (rule insert_events_clean [OF one]) (use Cons.prems in \<open>simp_all add: telemetry_clean_def\<close>)
    with Cons.IH [OF rest] Cons.prems show ?thesis by simp
  qed
qed simp

text \<open>Every batch a poll hands to the store is one that was prepared.\<close>

definition batches_clean :: "time \<Rightarrow> inbound_application \<Rightarrow> bool" where
  "batches_clean now a = list_all (\<lambda>b. list_all (record_clean now) (nb_events b)) (ia_batches a)"

lemma accept_clean:
  "batches_clean now (fst ab) \<Longrightarrow> (\<And>es. p = EventRecords es \<Longrightarrow> list_all (record_clean now) es) \<Longrightarrow>
     batches_clean now (fst (accept_envelope replayed over eid p ab))"
  by (cases "(replayed, over, eid, p, ab)" rule: accept_envelope.cases)
    (auto simp: batches_clean_def queue_notice_def take_batch_def)

lemma prepared_clean: "prepare_envelope env now e = EventRecords es \<Longrightarrow> list_all (record_clean now) es"
proof -
  assume p: "prepare_envelope env now e = EventRecords es"
  have "prepare_events env now e = EventRecords es"
  proof (cases "ie_type e = ''event.batch''")
    case False
    with p show ?thesis
      by (auto simp: prepare_envelope_def prepare_manifest_def prepare_action_def prepare_snapshot_def prepare_bans_applied_def
          split: if_splits prod.splits option.splits sum.splits)
  qed (use p in \<open>simp add: prepare_envelope_def\<close>)
  then obtain evs where "list_all (event_storable env) evs"
    and es: "es = map (\<lambda>(i, ev). event_record env now (ie_id e) i ev) (enumerate 0 evs)"
    using prepared_batch by blast
  then show ?thesis
    using event_record_clean by (auto simp: list_all_iff in_set_enumerate_eq)
qed

lemma poll_application_clean: "batches_clean now (poll_application (prepare_envelope env now) replayed over es ack)"
proof -
  have "batches_clean now (fst (fold (\<lambda>i. accept_envelope replayed over (ie_id (es ! i)) (prepare_envelope env now (es ! i))) is ab))"
    if "batches_clean now (fst ab)" for "is" ab using that
  proof (induction "is" arbitrary: ab)
    case (Cons i "is")
    from Cons.IH [OF accept_clean [OF Cons.prems prepared_clean]] show ?case by simp
  qed simp
  then show ?thesis by (simp add: poll_application_def Let_def batches_clean_def no_application_def)
qed

lemma apply_effects_clean:
  assumes "apply_effects shuffle list_rev limit draw server now a d = Inr (r, d')" and "batches_clean body_now a"
    and "body_now \<le> now" and "telemetry_clean d" and "manifests_keyed d"
  shows "telemetry_clean d'"
proof -
  obtain x y d1 n d4 d5 where ms: "apply_manifests list_rev limit draw server now 0 (ia_manifests a) d = Inr (x, y, d1)"
    and es: "insert_event_batches d4 server (ia_batches a) now = Inr (n, d5)"
    and same: "events d' = events d5" "events d4 = events d1" by (rule apply_effectsE [OF assms(1)]) blast
  from apply_manifests_effect [OF ms assms(5)] have "events d1 = events d" by auto
  with same(2) assms(4) have "telemetry_clean d4" by (simp add: telemetry_clean_def)
  with insert_event_batches_clean [OF es] assms(2,3) have "telemetry_clean d5" by (simp add: batches_clean_def)
  with same(1) show ?thesis by (simp add: telemetry_clean_def)
qed

text \<open>
  C13. Telemetry never speaks for the hub.  Whatever bodies a poll carries, the event table holds no record in a namespace
  reserved for the hub's own notifications, none whose type a scope or a webhook filter could not match, none that
  claims to have happened more than an hour after it was received, and none over the size cap: a poll keeps
  that true of the table.
\<close>

theorem telemetry_stays_clean:
  assumes "apply_poll env shuffle draw seen d server sid es body_now live_now now = Inr (r, d')"
    and "telemetry_clean d" and "manifests_keyed d" and "body_now \<le> now"
  shows "telemetry_clean d' \<and> manifests_keyed d'"
proof -
  obtain s owner :: session_row and list_rev a where
    a: "a = (if ia_ack (poll_application (prepare_envelope env body_now) (replayed_batches seen server (prepare_envelope env body_now) es)
            (new_event_budget_reject env) es (ss_inbound_ack s)) < ss_inbound_ack s
          then no_application (ss_inbound_ack s)
          else poll_application (prepare_envelope env body_now) (replayed_batches seen server (prepare_envelope env body_now) es)
            (new_event_budget_reject env) es (ss_inbound_ack s))"
    and run: "apply_effects shuffle list_rev outbound_queue_limit draw (ss_server owner) now a
        (record_inbound_ack d sid (ss_inbound_ack s) a) = Inr (r, d')"
    by (rule apply_inboundE [OF assms(1) [unfolded apply_poll_def Let_def]]) blast
  let ?d = "record_inbound_ack d sid (ss_inbound_ack s) a"
  obtain t where t: "?d = d\<lparr>sessions := t\<rparr>" using record_inbound_ack_frame by blast
  have keyed: "manifests_keyed ?d" and clean: "telemetry_clean ?d"
    using assms(2,3) by (simp_all add: t manifests_keyed_def telemetry_clean_def)
  have "batches_clean body_now a"
    using poll_application_clean by (simp add: a) (simp add: batches_clean_def no_application_def)
  from apply_effects_clean [OF run this assms(4) clean keyed] apply_effects_held [OF run keyed] show ?thesis by simp
qed

definition sample_ingest :: ingest_env where
  "sample_ingest =
     \<lparr>ig_manifest = sample_manifest, ig_ack = \<lambda>text. Some text, ig_result = \<lambda>text. None, ig_revision = \<lambda>text. Some 7,
      ig_batch = \<lambda>text. Inr (Some [\<lparr>iv_type = ''core.player.join'', iv_ts = '''', iv_data = ''''\<rparr>]),
      ig_members = \<lambda>text. Some (Some []), ig_text = \<lambda>text. Some text, ig_list = \<lambda>text. Some [], ig_coordinates = \<lambda>text. None,
      ig_time = \<lambda>text. None, ig_reject = \<lambda>eid fs. Some eid, ig_event_id = \<lambda>eid k. eid, ig_retention = default_event_retention,
      ig_snapshot_retention = action_second, ig_snapshot_depth = 3\<rparr>"

definition sample_ingested :: "store_error + (inbound_applied \<times> db)" where
  "sample_ingested =
     apply_poll sample_ingest id (\<lambda>k. (''n'', 0)) sample_link sample_link ''s1'' ''S''
       [(sample_inbound 1)\<lparr>ie_type := ''event.batch'', ie_body := ''{}''\<rparr>] 0 0 0"

fun stored_events :: "store_error + (inbound_applied \<times> db) \<Rightarrow> string list" where
  "stored_events (Inl err) = []"
| "stored_events (Inr (r, d)) = map ev_type (events d)"

lemma sample_stored: "stored_events sample_ingested = [''core.player.join'']"
  by code_simp

theorem telemetry_stays_clean_witness:
  "\<exists>r d'. sample_ingested = Inr (r, d') \<and> telemetry_clean d' \<and> manifests_keyed d'"
proof -
  have "\<exists>r d'. sample_ingested = Inr (r, d')"
  proof (cases sample_ingested)
    case (Inl err)
    have "stored_events (Inl err) = []" by simp
    with sample_stored Inl show ?thesis by (metis list.distinct(1))
  next
    case (Inr p)
    then show ?thesis by (cases p) blast
  qed
  then obtain r d' where run: "sample_ingested = Inr (r, d')" by blast
  have start: "telemetry_clean sample_link" "manifests_keyed sample_link"
    by (simp_all add: telemetry_clean_def manifests_keyed_def sample_link_def)
  have "telemetry_clean d' \<and> manifests_keyed d'"
    by (rule telemetry_stays_clean [OF run [unfolded sample_ingested_def] start]) simp
  with run show ?thesis by blast
qed

lemma sample_impersonation:
  "\<not> event_storable sample_ingest \<lparr>iv_type = ''action.completed'', iv_ts = '''', iv_data = ''''\<rparr>"
  "\<not> event_storable sample_ingest \<lparr>iv_type = ''nodots'', iv_ts = '''', iv_data = ''''\<rparr>"
  by code_simp+

end
