(* ===== verification/Poll.thy ===== *)
theory Poll
  imports Ingest
begin

text \<open>
  The poll (\<open>handlePoll\<close> and \<open>holdPoll\<close> in hub/poll.go): the plugin's ack, its envelopes, the reading of the
  outbound queue, and the hold until there is something to say.  Also the ceiling on held polls
  (\<open>holds\<close> in hub/waiters.go) and the poll timeout of hub/protocol.go.

  Every transaction of a poll sees the database as other requests have left it: \<open>pv_meanwhile\<close> is what they do
  between the steps before the hold, and each round of the hold carries what they do before its read and
  before its refresh, with the clock readings and what ended the wait.  The rounds are a list; a poll still
  held at its end is \<open>PollHeld\<close>.  What wakes a poll changes no row;
  the waiters (hub/waiters.go) stand at the end, with the reason no wake-up is lost.
\<close>

subsection \<open>Timeouts and the ceiling on held polls\<close>

definition default_poll_timeout :: int where "default_poll_timeout = 25 * action_second"
definition min_poll_timeout :: int where "min_poll_timeout = 5 * action_second"
definition max_poll_timeout :: int where "max_poll_timeout = 60 * action_second"
definition max_held_polls_per_session :: nat where "max_held_polls_per_session = 4"

definition clamp_poll_timeout :: "int \<Rightarrow> int" where
  "clamp_poll_timeout requested =
     (if requested \<le> 0 then default_poll_timeout
      else if requested < min_poll_timeout then min_poll_timeout
      else if requested > max_poll_timeout then max_poll_timeout
      else requested)"

type_synonym holds = "(string \<times> nat) list"

definition held_count :: "holds \<Rightarrow> string \<Rightarrow> nat" where
  "held_count h key = (case map_of h key of None \<Rightarrow> 0 | Some n \<Rightarrow> n)"

definition set_held :: "holds \<Rightarrow> string \<Rightarrow> nat \<Rightarrow> holds" where
  "set_held h key n = (key, n) # filter (\<lambda>p. fst p \<noteq> key) h"

definition enter_hold :: "holds \<Rightarrow> string \<Rightarrow> nat \<Rightarrow> bool \<times> holds" where
  "enter_hold h key limit =
     (if held_count h key \<ge> limit then (False, h) else (True, set_held h key (held_count h key + 1)))"

text \<open>The release a granted claim returns; a refused claim's release does nothing.\<close>

definition release_hold :: "holds \<Rightarrow> string \<Rightarrow> holds" where
  "release_hold h key =
     (if held_count h key \<le> 1 then filter (\<lambda>p. fst p \<noteq> key) h else set_held h key (held_count h key - 1))"

subsection \<open>The hold\<close>

datatype poll_reply =
    PollAnswer "wire_envelope list" int int stamp
  | PollRefused refusal
  | PollGone
  | PollHeld

datatype wake = Woken | ClientGone

record hold_round =
  hr_before :: "db \<Rightarrow> db"
  hr_live :: time
  hr_sent :: time
  hr_clock :: time
  hr_wake :: wake
  hr_after :: "db \<Rightarrow> db"
  hr_refresh :: time

definition session_refusal :: "string \<Rightarrow> refusal" where
  "session_refusal message = Refusal 401 ''session_invalid'' message"

definition poll_answer :: "session \<Rightarrow> wire_envelope list \<Rightarrow> int \<Rightarrow> poll_reply" where
  "poll_answer s out ack = PollAnswer out ack (se_poll_timeout s) (format_time (se_expires s))"

fun hold_loop ::
  "string \<Rightarrow> int \<Rightarrow> time \<Rightarrow> bool \<Rightarrow> session \<Rightarrow> int \<Rightarrow> hold_round list \<Rightarrow> db \<Rightarrow> poll_reply \<times> db" where
  "hold_loop token low deadline may_hold s ack [] d = (PollHeld, d)"
| "hold_loop token low deadline may_hold s ack (r # rs) d =
     (let d1 = hr_before r d in
      case next_outbound d1 (se_id s) (se_server s) max_outbound_batch (hr_live r) (hr_sent r) of
        Inl err \<Rightarrow>
          (PollRefused (if err = ErrNotFound then session_refusal ''session token is expired, unknown, or superseded''
                        else internal_error), d1)
      | Inr (queued, seq, committed, d2) \<Rightarrow>
          let ack = max ack committed; drain = (low > 0 \<and> ack \<ge> low) in
          if queued \<noteq> [] then (poll_answer s (map new_outbound_envelope queued) ack, d2)
          else if deadline - hr_clock r \<le> 0 \<or> \<not> may_hold \<or> drain then (poll_answer s [] ack, d2)
          else case hr_wake r of
            ClientGone \<Rightarrow> (PollGone, d2)
          | Woken \<Rightarrow>
              let d3 = hr_after r d2 in
              (case session_by_token d3 token (hr_refresh r) of
                 Inl err \<Rightarrow>
                   (PollRefused (if err = ErrNotFound then session_refusal ''session token is expired, unknown, or superseded''
                                 else internal_error), d3)
               | Inr (refreshed, server) \<Rightarrow>
                   if sr_revoked server \<noteq> None
                   then (PollRefused (session_refusal ''the credentials behind this session were revoked''), d3)
                   else hold_loop token low deadline may_hold refreshed (max ack (se_inbound_ack refreshed)) rs d3))"

definition hold_poll ::
  "string \<Rightarrow> int \<Rightarrow> holds \<Rightarrow> session \<Rightarrow> int \<Rightarrow> time \<Rightarrow> hold_round list \<Rightarrow> db \<Rightarrow> poll_reply \<times> db" where
  "hold_poll token low h s ack now rounds d =
     (let deadline = now + clamp_poll_timeout (se_poll_timeout s * action_second);
          deadline = (if se_expires s < deadline then se_expires s else deadline)
      in hold_loop token low deadline (fst (enter_hold h (se_id s) max_held_polls_per_session)) s ack rounds d)"

subsection \<open>The handler\<close>

record poll_request =
  pq_ack :: int
  pq_envelopes :: "inbound_envelope list"
  pq_more :: string

record poll_env =
  pv_ingest :: ingest_env
  pv_hash :: "string \<Rightarrow> string"
  pv_decode :: "string \<Rightarrow> bool \<times> poll_request decoded"
  pv_clock :: "nat \<Rightarrow> time"
  pv_draw :: "nat \<Rightarrow> string \<times> time"
  pv_shuffle :: "(string \<times> int) list \<Rightarrow> (string \<times> int) list"
  pv_meanwhile :: "nat \<Rightarrow> db \<Rightarrow> db"
  pv_rounds :: "hold_round list"

definition empty_poll :: poll_request where
  "empty_poll = \<lparr>pq_ack = 0, pq_envelopes = [], pq_more = ''''\<rparr>"

definition decode_optional :: "(string \<Rightarrow> bool \<times> 'q decoded) \<Rightarrow> 'q \<Rightarrow> string \<Rightarrow> refusal + 'q" where
  "decode_optional decode blank body =
     (if body = '''' then Inr blank else decode_body (fst (decode body)) (Some blank) (snd (decode body)))"

definition session_gate :: "(string \<Rightarrow> string) \<Rightarrow> db \<Rightarrow> string \<Rightarrow> time \<Rightarrow> refusal + (session \<times> server)" where
  "session_gate hash d presented now =
     (if presented = '''' then Inl (session_refusal ''a session token is required'')
      else case session_by_token d (hash presented) now of
        Inl err \<Rightarrow> Inl (if err = ErrNotFound then session_refusal ''session token is expired, unknown, or superseded''
                        else internal_error)
      | Inr (s, v) \<Rightarrow>
          if sr_revoked v \<noteq> None then Inl (session_refusal ''the credentials behind this session were revoked'')
          else Inr (s, v))"

text \<open>The checks on the request that need no database.\<close>

definition poll_checks :: "poll_request \<Rightarrow> refusal + bool" where
  "poll_checks q =
     (if length (pq_envelopes q) > max_inbound_envelopes
      then Inl (bad_request (''this hub accepts at most '' @ show_int (int max_inbound_envelopes) @ '' envelopes per poll''))
      else if pq_ack q < 0 then Inl (bad_request ''ack must not be negative'')
      else case decode_more (pq_more q) of
        None \<Rightarrow> Inl (bad_request ''more must be a boolean'')
      | Some held \<Rightarrow>
          (case first_fault 0 (pq_envelopes q) of
             Some f \<Rightarrow> Inl (Refusal 400 ''envelope_invalid'' (ef_message f))
           | None \<Rightarrow> Inr held))"

definition handle_poll :: "poll_env \<Rightarrow> holds \<Rightarrow> string \<Rightarrow> string \<Rightarrow> db \<Rightarrow> poll_reply \<times> db" where
  "handle_poll env h presented body d =
     (case session_gate (pv_hash env) d presented (pv_clock env 0) of
        Inl refused \<Rightarrow> (PollRefused refused, d)
      | Inr (s, v) \<Rightarrow>
     (case decode_optional (pv_decode env) empty_poll body of
        Inl refused \<Rightarrow> (PollRefused refused, d)
      | Inr q \<Rightarrow>
     (case poll_checks q of
        Inl refused \<Rightarrow> (PollRefused refused, d)
      | Inr held \<Rightarrow>
          let d1 = pv_meanwhile env 0 d in
     (case ack_outbound d1 (se_id s) (pq_ack q) (pv_clock env 1) (pv_clock env 2) of
        Inl err \<Rightarrow>
          (PollRefused (if err = ErrAckOutOfRange
             then Refusal 400 ''ack_out_of_range'' ''ack is above the highest seq this hub has sent on this session''
             else if err = ErrNotFound then session_refusal ''session token is expired, unknown, or superseded''
             else internal_error), d1)
      | Inr d2 \<Rightarrow>
          let seen = pv_meanwhile env 1 d2; d3 = pv_meanwhile env 2 seen in
     (case apply_poll (pv_ingest env) (pv_shuffle env) (pv_draw env) seen d3 (sr_id v) (se_id s) (pq_envelopes q)
             (pv_clock env 3) (pv_clock env 4) (pv_clock env 5) of
        Inl err \<Rightarrow>
          (PollRefused (if err = ErrNotFound then session_refusal ''session token is expired, unknown, or superseded''
                        else internal_error), d3)
      | Inr (r, d4) \<Rightarrow>
          hold_poll (pv_hash env presented) (backlog_floor held (pq_envelopes q)) h s (ip_ack r) (pv_clock env 7) (pv_rounds env)
            (touch_server (pv_meanwhile env 3 d4) (sr_id v) (pv_clock env 6)))))))"

subsection \<open>Sessions under other requests\<close>

definition link_sane :: "db \<Rightarrow> bool" where
  "link_sane d = (inbound_sane d \<and> distinct (map ss_token (sessions d)) \<and> manifests_keyed d)"

definition link_at :: "db \<Rightarrow> string \<Rightarrow> string \<Rightarrow> int \<Rightarrow> bool" where
  "link_at d token sid n = list_ex (\<lambda>s. ss_token s = token \<and> ss_id s = sid \<and> ss_inbound_ack s = n) (sessions d)"

text \<open>Every session stays, under its token, and its inbound ack never goes back.\<close>

definition acks_grow :: "db \<Rightarrow> db \<Rightarrow> bool" where
  "acks_grow d d' =
     (link_sane d \<longrightarrow> link_sane d' \<and> (\<forall>token sid n. link_at d token sid n \<longrightarrow> (\<exists>m. n \<le> m \<and> link_at d' token sid m)))"

lemma acks_grow_refl: "sessions d' = sessions d \<Longrightarrow> manifests d' = manifests d \<Longrightarrow> acks_grow d d'"
  by (auto simp: acks_grow_def link_sane_def inbound_sane_def manifests_keyed_def link_at_def)

lemma acks_grow_trans: "acks_grow a b \<Longrightarrow> acks_grow b c \<Longrightarrow> acks_grow a c"
  unfolding acks_grow_def by (meson order_trans)

text \<open>An update of sessions that keeps ids and tokens and does not lower an ack.\<close>

lemma update_sessions_grow:
  assumes "sessions d' = update_where p f (sessions d)" and "manifests_keyed d \<Longrightarrow> manifests_keyed d'"
    and keep: "\<And>s. ss_id (f s) = ss_id s \<and> ss_token (f s) = ss_token s"
    and up: "\<And>s. s \<in> set (sessions d) \<Longrightarrow> p s \<Longrightarrow> ss_inbound_ack (f s) = ss_inbound_ack s
      \<or> ss_inbound_ack s \<le> ss_inbound_ack (f s) \<and> ss_inbound_ack (f s) < 2 ^ 63"
  shows "acks_grow d d'"
  unfolding acks_grow_def
proof (intro impI conjI allI)
  assume sane: "link_sane d"
  have ids: "map ss_id (sessions d') = map ss_id (sessions d)" "map ss_token (sessions d') = map ss_token (sessions d)"
    unfolding assms(1) by (simp_all add: map_update_where keep)
  have "0 \<le> ss_inbound_ack x \<and> ss_inbound_ack x < 2 ^ 63" if "x \<in> set (sessions d')" for x
    using that [unfolded assms(1)]
  proof (rule update_whereE)
    fix s assume s: "s \<in> set (sessions d)" "p s" "x = f s"
    then show ?thesis using up [OF s(1,2)] sane by (force simp: link_sane_def inbound_sane_def list_all_iff)
  next
    assume "x \<in> set (sessions d)"
    then show ?thesis using sane by (auto simp: link_sane_def inbound_sane_def list_all_iff)
  qed
  with sane ids assms(2) show "link_sane d'" by (simp add: link_sane_def inbound_sane_def list_all_iff)
  fix token sid n assume "link_at d token sid n"
  then obtain s where s: "s \<in> set (sessions d)" "ss_token s = token" "ss_id s = sid" "ss_inbound_ack s = n"
    by (auto simp: link_at_def list_ex_iff)
  then have "(if p s then f s else s) \<in> set (sessions d')" by (auto simp: assms(1) update_where_def)
  moreover have "ss_token (if p s then f s else s) = token" "ss_id (if p s then f s else s) = sid" using s keep by simp_all
  ultimately have "link_at d' token sid (ss_inbound_ack (if p s then f s else s))" by (auto simp: link_at_def list_ex_iff)
  moreover have "n \<le> ss_inbound_ack (if p s then f s else s)" using s up [OF s(1)] by auto
  ultimately show "\<exists>m. n \<le> m \<and> link_at d' token sid m" by blast
qed

lemma ack_outbound_grows:
  assumes "ack_outbound d sid ack live_now now = Inr d'"
  shows "acks_grow d d'"
proof (cases "d' = d")
  case False
  with assms have d': "d' = mark_delivered
      (d\<lparr>outbound := update_where (ack_covers sid ack) (\<lambda>e. e\<lparr>en_acked := Some (format_time now)\<rparr>) (outbound d),
         sessions := update_where (\<lambda>x. ss_id x = sid) (\<lambda>x. x\<lparr>ss_outbound_ack := ack\<rparr>) (sessions d)\<rparr>) sid ack now"
    by (auto simp: ack_outbound_def split: if_splits option.splits)
  show ?thesis
    by (rule update_sessions_grow [of _ "\<lambda>x. ss_id x = sid" "\<lambda>x. x\<lparr>ss_outbound_ack := ack\<rparr>"])
      (auto simp: d' mark_delivered_def with_actions_def manifests_keyed_def)
qed (simp add: acks_grow_refl)

lemma next_outbound_grows:
  assumes "next_outbound d sid server limit live_now now = Inr (out, seq, committed, d')"
  shows "acks_grow d d'" and "link_sane d \<Longrightarrow> link_at d token sid n \<Longrightarrow> committed = n \<and> link_at d' token sid n"
proof -
  from assms obtain s where s: "live_session_row d sid live_now = Some s" and c: "committed = ss_inbound_ack s"
    by (auto simp: next_outbound_def Let_def split: option.splits if_splits sum.splits)
  have frame: "(sessions d' = sessions d \<or> sessions d' = update_where (\<lambda>x. ss_id x = sid) (\<lambda>x. x\<lparr>ss_outbound_seq := seq\<rparr>) (sessions d))
      \<and> manifests d' = manifests d"
    using assms s by (auto simp: next_outbound_def Let_def split: if_splits sum.splits)
  show "acks_grow d d'"
  proof (cases "sessions d' = sessions d")
    case True
    with frame show ?thesis by (simp add: acks_grow_refl)
  next
    case False
    with frame have f: "sessions d' = update_where (\<lambda>x. ss_id x = sid) (\<lambda>x. x\<lparr>ss_outbound_seq := seq\<rparr>) (sessions d)"
      "manifests d' = manifests d" by auto
    show ?thesis by (rule update_sessions_grow [OF f(1)]) (use f(2) in \<open>auto simp: manifests_keyed_def link_sane_def inbound_sane_def list_all_iff\<close>)
  qed
  assume sane: "link_sane d" and l: "link_at d token sid n"
  from live_session_rowD [OF s] have "s \<in> set (sessions d)" "ss_id s = sid" by auto
  moreover from l obtain x where x: "x \<in> set (sessions d)" "ss_token x = token" "ss_id x = sid" "ss_inbound_ack x = n"
    by (auto simp: link_at_def list_ex_iff)
  ultimately have "s = x" using sane by (auto simp: link_sane_def inbound_sane_def distinct_map inj_on_def)
  moreover have "link_at d' token sid n"
  proof (cases "sessions d' = sessions d")
    case True
    with l show ?thesis by (simp add: link_at_def)
  next
    case False
    with frame x(1,3) have "x\<lparr>ss_outbound_seq := seq\<rparr> \<in> set (sessions d')" by (auto simp: update_where_def)
    with x show ?thesis unfolding link_at_def list_ex_iff by (intro bexI) auto
  qed
  ultimately show "committed = n \<and> link_at d' token sid n" using c x by simp
qed

lemma session_by_token_link:
  assumes "session_by_token d token now = Inr (s, v)" and "link_sane d"
  shows "link_at d token (se_id s) (se_inbound_ack s)"
    and "link_at d token sid n \<Longrightarrow> se_id s = sid \<and> se_inbound_ack s = n"
proof -
  from assms(1) obtain r where r: "find (\<lambda>s. ss_token s = token) (sessions d) = Some r" "s = scan_session r"
    by (auto simp: session_by_token_def split: option.splits if_splits sum.splits)
  then have in_r: "r \<in> set (sessions d)" "ss_token r = token" by (auto dest: find_Some_in)
  then show "link_at d token (se_id s) (se_inbound_ack s)"
    by (auto simp: link_at_def list_ex_iff r(2) scan_session_def)
  assume "link_at d token sid n"
  then obtain x where x: "x \<in> set (sessions d)" "ss_token x = token" "ss_id x = sid" "ss_inbound_ack x = n"
    by (auto simp: link_at_def list_ex_iff)
  with in_r assms(2) have "x = r" by (auto simp: link_sane_def distinct_map inj_on_def)
  with x show "se_id s = sid \<and> se_inbound_ack s = n" by (simp add: r(2) scan_session_def)
qed

lemma touch_server_grows: "acks_grow d (touch_server d server now)"
  by (rule acks_grow_refl) (simp_all add: touch_server_def)

definition rounds_grow :: "hold_round list \<Rightarrow> bool" where
  "rounds_grow rs = (\<forall>r \<in> set rs. \<forall>x. acks_grow x (hr_before r x) \<and> acks_grow x (hr_after r x))"

lemma hold_loop_grows: "rounds_grow rs \<Longrightarrow> acks_grow d (snd (hold_loop token low deadline may_hold s ack rs d))"
proof (induction rs arbitrary: s ack d)
  case (Cons r rs)
  let ?d1 = "hr_before r d"
  have 1: "acks_grow d ?d1" using Cons.prems by (simp add: rounds_grow_def)
  show ?case
  proof (cases "next_outbound ?d1 (se_id s) (se_server s) max_outbound_batch (hr_live r) (hr_sent r)")
    case (Inl err)
    with 1 show ?thesis by (simp add: Let_def)
  next
    case (Inr p)
    obtain queued seq committed d2 where p: "p = (queued, seq, committed, d2)" by (metis prod_cases4)
    let ?d3 = "hr_after r d2"
    have 2: "acks_grow d d2" using 1 next_outbound_grows(1) [OF Inr [unfolded p]] acks_grow_trans by blast
    have 3: "acks_grow d ?d3" using 2 Cons.prems acks_grow_trans unfolding rounds_grow_def by (meson list.set_intros(1))
    have 4: "acks_grow d (snd (hold_loop token low deadline may_hold s' ack' rs ?d3))" for s' ack'
      using acks_grow_trans [OF 3 Cons.IH] Cons.prems by (simp add: rounds_grow_def)
    show ?thesis using 2 3 4 Inr p
      by (cases "hr_wake r") (auto simp: Let_def split: sum.splits prod.splits)
  qed
qed (simp add: acks_grow_refl)

lemma hold_loop_ack:
  assumes "hold_loop token low deadline may_hold s ack rs d = (PollAnswer out a t x, d')" and "rounds_grow rs"
    and "link_sane d" and "link_at d token sid n" and "ack \<le> n" and "se_id s = sid"
  shows "link_at d' token sid a \<and> ack \<le> a"
  using assms
proof (induction rs arbitrary: s ack d n)
  case (Cons r rs)
  let ?d1 = "hr_before r d"
  have "acks_grow d ?d1" using Cons.prems(2) by (simp add: rounds_grow_def)
  with Cons.prems(3,4) obtain n1 where n1: "link_sane ?d1" "link_at ?d1 token sid n1" "n \<le> n1" unfolding acks_grow_def by blast
  from Cons.prems(1) obtain queued seq committed d2 where
    read: "next_outbound ?d1 sid (se_server s) max_outbound_batch (hr_live r) (hr_sent r) = Inr (queued, seq, committed, d2)"
    by (cases "next_outbound ?d1 sid (se_server s) max_outbound_batch (hr_live r) (hr_sent r)") (auto simp: Let_def Cons.prems(6))
  from next_outbound_grows(2) [OF read n1(1,2)] have c: "committed = n1" "link_at d2 token sid n1" by simp_all
  have sane2: "link_sane d2" using next_outbound_grows(1) [OF read] n1(1) by (simp add: acks_grow_def)
  have top: "max ack committed = n1" using Cons.prems(5) n1(3) c(1) by simp
  let ?stop = "queued \<noteq> [] \<or> deadline - hr_clock r \<le> 0 \<or> \<not> may_hold \<or> low > 0 \<and> n1 \<ge> low"
  show ?case
  proof (cases ?stop)
    case True
    with Cons.prems(1) read top have "a = n1" "d' = d2"
      by (auto simp: Let_def Cons.prems(6) poll_answer_def split: if_splits)
    with c Cons.prems(5) n1(3) show ?thesis by simp
  next
    case False
    let ?d3 = "hr_after r d2"
    from False Cons.prems(1) read top have w: "hr_wake r = Woken"
      by (cases "hr_wake r") (auto simp: Let_def Cons.prems(6))
    with False Cons.prems(1) read top obtain refreshed v where
      s': "session_by_token ?d3 token (hr_refresh r) = Inr (refreshed, v)" "sr_revoked v = None"
      and again: "hold_loop token low deadline may_hold refreshed (max n1 (se_inbound_ack refreshed)) rs ?d3 = (PollAnswer out a t x, d')"
      by (auto simp: Let_def Cons.prems(6) split: sum.splits prod.splits if_splits)
    have "acks_grow d2 ?d3" using Cons.prems(2) by (simp add: rounds_grow_def)
    with sane2 c(2) obtain n3 where n3: "link_sane ?d3" "link_at ?d3 token sid n3" "n1 \<le> n3" unfolding acks_grow_def by blast
    from session_by_token_link(2) [OF s'(1) n3(1,2)] have ref: "se_id refreshed = sid" "se_inbound_ack refreshed = n3" by simp_all
    have "rounds_grow rs" using Cons.prems(2) by (simp add: rounds_grow_def)
    from Cons.IH [OF again this n3(1,2) _ ref(1)] n3(3) ref(2) Cons.prems(5) n1(3) show ?thesis by simp
  qed
qed simp

lemma apply_poll_ack:
  assumes run: "apply_poll env shuffle draw seen d server sid es body_now live_now now = Inr (r, d')"
    and fit: "seqs_fit es" and sane: "link_sane d"
  shows "acks_grow d d'" and "link_at d token sid n \<Longrightarrow> n \<le> ip_ack r \<and> link_at d' token sid (ip_ack r)"
proof -
  let ?classify = "poll_application (prepare_envelope env body_now)
      (replayed_batches seen server (prepare_envelope env body_now) es) (new_event_budget_reject env) es"
  note r = run [unfolded apply_poll_def Let_def]
  have inb: "inbound_sane d" and man: "manifests_keyed d" using sane by (simp_all add: link_sane_def)
  from committed_poll [OF r fit inb man] obtain s s' where s: "live_session_row d sid live_now = Some s"
    and s': "find (\<lambda>x. ss_id x = sid) (sessions d') = Some s'" "ss_inbound_ack s' = ip_ack r"
    and up: "ss_inbound_ack s \<le> ip_ack r" and sane': "inbound_sane d'" by blast
  obtain s0 owner :: session_row and list_rev a where
    eff: "apply_effects shuffle list_rev outbound_queue_limit draw (ss_server owner) now a
        (record_inbound_ack d sid (ss_inbound_ack s0) a) = Inr (r, d')" and s0: "live_session_row d sid live_now = Some s0"
    by (rule apply_inboundE [OF r]) blast
  let ?d = "record_inbound_ack d sid (ss_inbound_ack s0) a"
  obtain t where t: "?d = d\<lparr>sessions := t\<rparr>" using record_inbound_ack_frame by blast
  have "manifests_keyed ?d" using man by (simp add: t manifests_keyed_def)
  note held = apply_effects_held [OF eff this]
  have s0: "s0 = s" using s s0 by simp
  have ack: "ip_ack r = ia_ack a" using held by simp
  have frame: "sessions d' = sessions d \<or> sessions d' = update_where (\<lambda>s. ss_id s = sid)
      (\<lambda>s. s\<lparr>ss_inbound_ack := ia_ack a, ss_inbound_count := ss_inbound_count s + ia_accepted a\<rparr>) (sessions d)"
    using held by (auto simp: record_inbound_ack_def)
  from s'(1) have in_s': "s' \<in> set (sessions d')" "ss_id s' = sid" by (auto dest: find_Some_in)
  with s'(2) sane' have lt: "ia_ack a < 2 ^ 63" by (auto simp: ack inbound_sane_def list_all_iff)
  from live_session_rowD [OF s] have in_s: "s \<in> set (sessions d)" "ss_id s = sid" by auto
  have only: "x = s" if "x \<in> set (sessions d)" "ss_id x = sid" for x
    using that in_s inb by (auto simp: inbound_sane_def distinct_map inj_on_def)
  have man': "manifests_keyed d'" using held by simp
  show "acks_grow d d'"
  proof (cases "sessions d' = sessions d")
    case True
    with sane sane' man' show ?thesis by (auto simp: acks_grow_def link_sane_def link_at_def)
  next
    case False
    with frame have f: "sessions d' = update_where (\<lambda>s. ss_id s = sid)
      (\<lambda>s. s\<lparr>ss_inbound_ack := ia_ack a, ss_inbound_count := ss_inbound_count s + ia_accepted a\<rparr>) (sessions d)" by blast
    show ?thesis by (rule update_sessions_grow [OF f]) (use man' only up lt ack in auto)
  qed
  assume "link_at d token sid n"
  then obtain x where x: "x \<in> set (sessions d)" "ss_token x = token" "ss_id x = sid" "ss_inbound_ack x = n"
    by (auto simp: link_at_def list_ex_iff)
  have xs: "x = s" by (rule only [OF x(1,3)])
  have tok: "ss_token s' = token"
  proof (cases "sessions d' = sessions d")
    case True
    with in_s' only x(2) xs show ?thesis by simp
  next
    case False
    with frame in_s'(1) have "s' \<in> set (update_where (\<lambda>s. ss_id s = sid)
      (\<lambda>s. s\<lparr>ss_inbound_ack := ia_ack a, ss_inbound_count := ss_inbound_count s + ia_accepted a\<rparr>) (sessions d))" by simp
    then show ?thesis
    proof (rule update_whereE)
      assume "s' \<in> set (sessions d)" then show ?thesis using only in_s'(2) x(2) xs by simp
    next
      fix y assume "y \<in> set (sessions d)" "ss_id y = sid"
        "s' = y\<lparr>ss_inbound_ack := ia_ack a, ss_inbound_count := ss_inbound_count y + ia_accepted a\<rparr>"
      then show ?thesis using only [of y] x(2) xs by simp
    qed
  qed
  from s'(2) in_s' tok have "link_at d' token sid (ip_ack r)" by (auto simp: link_at_def list_ex_iff)
  with up xs x(4) show "n \<le> ip_ack r \<and> link_at d' token sid (ip_ack r)" by simp
qed

subsection \<open>The ack a poll is answered with\<close>

definition others_grow :: "poll_env \<Rightarrow> bool" where
  "others_grow env = ((\<forall>k x. acks_grow x (pv_meanwhile env k x)) \<and> rounds_grow (pv_rounds env))"

definition polls_fit :: "poll_env \<Rightarrow> bool" where
  "polls_fit env = (\<forall>body q. decode_optional (pv_decode env) empty_poll body = Inr q \<longrightarrow> seqs_fit (pq_envelopes q))"

lemma handle_pollE:
  assumes "handle_poll env h presented body d = (reply, d')"
  obtains (refused) refused where "reply = PollRefused refused" "d' = d"
    | (ack_refused) refused where "reply = PollRefused refused" "d' = pv_meanwhile env 0 d"
    | (apply_refused) refused d2 and s :: session and q :: poll_request where "reply = PollRefused refused"
        "ack_outbound (pv_meanwhile env 0 d) (se_id s) (pq_ack q) (pv_clock env 1) (pv_clock env 2) = Inr d2"
        "d' = pv_meanwhile env 2 (pv_meanwhile env 1 d2)"
    | (held) s v q more d2 r d4 where "session_gate (pv_hash env) d presented (pv_clock env 0) = Inr (s, v)"
        "decode_optional (pv_decode env) empty_poll body = Inr q" "poll_checks q = Inr more"
        "ack_outbound (pv_meanwhile env 0 d) (se_id s) (pq_ack q) (pv_clock env 1) (pv_clock env 2) = Inr d2"
        "apply_poll (pv_ingest env) (pv_shuffle env) (pv_draw env) (pv_meanwhile env 1 d2)
           (pv_meanwhile env 2 (pv_meanwhile env 1 d2)) (sr_id v) (se_id s) (pq_envelopes q)
           (pv_clock env 3) (pv_clock env 4) (pv_clock env 5) = Inr (r, d4)"
        "hold_poll (pv_hash env presented) (backlog_floor more (pq_envelopes q)) h s (ip_ack r) (pv_clock env 7) (pv_rounds env)
           (touch_server (pv_meanwhile env 3 d4) (sr_id v) (pv_clock env 6)) = (reply, d')"
proof -
  note p = assms [unfolded handle_poll_def Let_def]
  show thesis
  proof (cases "session_gate (pv_hash env) d presented (pv_clock env 0)")
    case (Inl x)
    with p have "reply = PollRefused x" "d' = d" by simp_all
    then show thesis by (rule refused)
  next
    case gate: (Inr sv)
    obtain s v where sv: "sv = (s, v)" by fastforce
    show thesis
    proof (cases "decode_optional (pv_decode env) empty_poll body")
      case (Inl x)
      with p gate sv have "reply = PollRefused x" "d' = d" by simp_all
      then show thesis by (rule refused)
    next
      case dec: (Inr q)
      show thesis
      proof (cases "poll_checks q")
        case (Inl x)
        with p gate sv dec have "reply = PollRefused x" "d' = d" by simp_all
        then show thesis by (rule refused)
      next
        case chk: (Inr more)
        show thesis
        proof (cases "ack_outbound (pv_meanwhile env 0 d) (se_id s) (pq_ack q) (pv_clock env 1) (pv_clock env 2)")
          case (Inl x)
          with p gate sv dec chk obtain y where "reply = PollRefused y" "d' = pv_meanwhile env 0 d" by auto
          then show thesis by (rule ack_refused)
        next
          case ack: (Inr d2)
          let ?ap = "apply_poll (pv_ingest env) (pv_shuffle env) (pv_draw env) (pv_meanwhile env 1 d2)
             (pv_meanwhile env 2 (pv_meanwhile env 1 d2)) (sr_id v) (se_id s) (pq_envelopes q)
             (pv_clock env 3) (pv_clock env 4) (pv_clock env 5)"
          show thesis
          proof (cases ?ap)
            case (Inl x)
            with p gate sv dec chk ack obtain y where "reply = PollRefused y" "d' = pv_meanwhile env 2 (pv_meanwhile env 1 d2)" by auto
            from apply_refused [OF this(1) ack this(2)] show thesis .
          next
            case (Inr rd)
            obtain r d4 where rd: "rd = (r, d4)" by fastforce
            with p gate sv dec chk ack Inr have "hold_poll (pv_hash env presented) (backlog_floor more (pq_envelopes q)) h s (ip_ack r)
                (pv_clock env 7) (pv_rounds env) (touch_server (pv_meanwhile env 3 d4) (sr_id v) (pv_clock env 6)) = (reply, d')" by simp
            from held [OF gate [unfolded sv] dec chk ack Inr [unfolded rd] this] show thesis .
          qed
        qed
      qed
    qed
  qed
qed

text \<open>A poll is itself a request under which acks only grow, so the theorem below allows any number of polls to overlap.\<close>

lemma poll_grows:
  assumes "handle_poll env h presented body d = (reply, d')" and "others_grow env" and fit: "polls_fit env"
  shows "acks_grow d d'"
proof -
  have other: "acks_grow x (pv_meanwhile env k x)" for k x using assms(2) by (simp add: others_grow_def)
  have rounds: "rounds_grow (pv_rounds env)" using assms(2) by (simp add: others_grow_def)
  show ?thesis
  proof (cases rule: handle_pollE [OF assms(1)])
    case 1
    then show ?thesis by (simp add: acks_grow_refl)
  next
    case 2
    then show ?thesis by (simp add: other)
  next
    case (3 refused d2 s q)
    show ?thesis unfolding 3(3)
      by (rule acks_grow_trans [OF acks_grow_trans [OF other ack_outbound_grows [OF 3(2)]] acks_grow_trans [OF other other]])
  next
    case (4 s v q more d2 r d4)
    let ?d3 = "pv_meanwhile env 2 (pv_meanwhile env 1 d2)"
    have 1: "acks_grow d ?d3"
      by (rule acks_grow_trans [OF acks_grow_trans [OF other ack_outbound_grows [OF 4(4)]] acks_grow_trans [OF other other]])
    have 2: "acks_grow ?d3 d4"
      using apply_poll_ack(1) [OF 4(5)] fit 4(2) unfolding polls_fit_def by (auto simp: acks_grow_def)
    have 3: "acks_grow d4 (touch_server (pv_meanwhile env 3 d4) (sr_id v) (pv_clock env 6))"
      by (rule acks_grow_trans [OF other touch_server_grows])
    have "acks_grow (touch_server (pv_meanwhile env 3 d4) (sr_id v) (pv_clock env 6)) d'"
      using hold_loop_grows [OF rounds] 4(6) unfolding hold_poll_def Let_def by (metis snd_conv)
    with 1 2 3 show ?thesis using acks_grow_trans by blast
  qed
qed

text \<open>
  C17. The ack a poll is answered with is the ack the hub has committed.  However long the poll was held, whatever other
  polls and requests did before, between and after its transactions, the ack in its answer is the inbound ack stored
  for its session at the moment of the answer; so it is never below the ack stored when the poll arrived, and so
  never below one a finished poll of the session has reported.
\<close>

theorem poll_answers_committed_ack:
  assumes run: "handle_poll env h presented body d = (PollAnswer out ack timeout expires, d')"
    and others: "others_grow env" and fit: "polls_fit env" and sane: "link_sane d"
  shows "\<exists>sid n. link_at d (pv_hash env presented) sid n \<and> link_at d' (pv_hash env presented) sid ack \<and> n \<le> ack \<and> link_sane d'"
proof -
  let ?token = "pv_hash env presented"
  have other: "acks_grow x (pv_meanwhile env k x)" for k x using others by (simp add: others_grow_def)
  have rounds: "rounds_grow (pv_rounds env)" using others by (simp add: others_grow_def)
  show ?thesis
  proof (cases rule: handle_pollE [OF run])
    case (4 s v q more d2 r d4)
    from 4(1) have by_token: "session_by_token d ?token (pv_clock env 0) = Inr (s, v)"
      by (auto simp: session_gate_def split: if_splits sum.splits prod.splits)
    note start = session_by_token_link(1) [OF by_token sane]
    let ?d3 = "pv_meanwhile env 2 (pv_meanwhile env 1 d2)" and ?d5 = "touch_server (pv_meanwhile env 3 d4) (sr_id v) (pv_clock env 6)"
    have "acks_grow d ?d3"
      by (rule acks_grow_trans [OF acks_grow_trans [OF other ack_outbound_grows [OF 4(4)]] acks_grow_trans [OF other other]])
    with sane start obtain n3 where n3: "link_sane ?d3" "link_at ?d3 ?token (se_id s) n3" "se_inbound_ack s \<le> n3"
      unfolding acks_grow_def by blast
    have fits: "seqs_fit (pq_envelopes q)" using fit 4(2) by (auto simp: polls_fit_def)
    from apply_poll_ack [OF 4(5) fits n3(1)] n3(1,2) have n4: "link_sane d4" "link_at d4 ?token (se_id s) (ip_ack r)" "n3 \<le> ip_ack r"
      by (auto simp: acks_grow_def)
    have "acks_grow d4 ?d5" by (rule acks_grow_trans [OF other touch_server_grows])
    with n4 obtain n5 where n5: "link_sane ?d5" "link_at ?d5 ?token (se_id s) n5" "ip_ack r \<le> n5" unfolding acks_grow_def by blast
    obtain deadline may_hold where loop: "hold_loop ?token (backlog_floor more (pq_envelopes q)) deadline may_hold s (ip_ack r)
        (pv_rounds env) ?d5 = (PollAnswer out ack timeout expires, d')"
      using 4(6) unfolding hold_poll_def Let_def by blast
    from hold_loop_ack [OF loop rounds n5 refl] have "link_at d' ?token (se_id s) ack" "ip_ack r \<le> ack" by simp_all
    moreover have "link_sane d'" using poll_grows [OF run others fit] sane by (simp add: acks_grow_def)
    ultimately show ?thesis using start n3(3) n4(3) by (metis order_trans)
  qed simp_all
qed

subsection \<open>A hold ends\<close>

lemma hold_loop_ends:
  "list_ex (\<lambda>r. deadline \<le> hr_clock r) rs \<or> rs \<noteq> [] \<and> \<not> may_hold \<Longrightarrow> fst (hold_loop token low deadline may_hold s ack rs d) \<noteq> PollHeld"
proof (induction rs arbitrary: s ack d)
  case (Cons r rs)
  show ?case
  proof (cases "deadline \<le> hr_clock r \<or> \<not> may_hold")
    case True
    then show ?thesis by (auto simp: Let_def poll_answer_def split: sum.splits prod.splits)
  next
    case False
    with Cons.prems have "list_ex (\<lambda>r. deadline \<le> hr_clock r) rs" by simp
    from Cons.IH [OF disjI1 [OF this]] show ?thesis
      by (auto simp: Let_def poll_answer_def split: sum.splits prod.splits wake.splits)
  qed
qed simp

definition sample_round :: "time \<Rightarrow> hold_round" where
  "sample_round now =
     \<lparr>hr_before = id, hr_live = 0, hr_sent = 0, hr_clock = now, hr_wake = Woken, hr_after = id, hr_refresh = 0\<rparr>"

definition sample_polling :: poll_env where
  "sample_polling =
     \<lparr>pv_ingest = sample_ingest, pv_hash = id,
      pv_decode = \<lambda>body. (True, Decoded \<lparr>pq_ack = 1, pq_envelopes = [(sample_inbound 1)\<lparr>ie_type := ''event.batch''\<rparr>], pq_more = ''''\<rparr>),
      pv_clock = \<lambda>k. 0, pv_draw = \<lambda>k. (''n'', 0), pv_shuffle = id, pv_meanwhile = \<lambda>k d. d, pv_rounds = [sample_round 0]\<rparr>"

definition sample_polled :: "poll_reply \<times> db" where
  "sample_polled = handle_poll sample_polling [] ''t'' ''{}'' sample_link"

fun poll_answered :: "poll_reply \<times> db \<Rightarrow> (string list \<times> int) option" where
  "poll_answered (PollAnswer out ack timeout expires, d) = Some (map we_id out, ack)"
| "poll_answered _ = None"

lemma sample_answered: "poll_answered sample_polled = Some ([''e2''], 1)"
  by code_simp

lemma poll_answeredE:
  assumes "poll_answered p = Some (ids, ack)"
  obtains out timeout expires d' where "p = (PollAnswer out ack timeout expires, d')"
  using assms by (cases p rule: poll_answered.cases) auto

theorem poll_answers_committed_ack_witness:
  "\<exists>out timeout expires d'. sample_polled = (PollAnswer out 1 timeout expires, d')
     \<and> (\<exists>sid n. link_at sample_link ''t'' sid n \<and> link_at d' ''t'' sid 1 \<and> n \<le> 1 \<and> link_sane d')"
proof -
  obtain out timeout expires d' where run: "sample_polled = (PollAnswer out 1 timeout expires, d')"
    using sample_answered by (rule poll_answeredE)
  have others: "others_grow sample_polling"
    by (simp add: others_grow_def rounds_grow_def sample_polling_def sample_round_def acks_grow_refl)
  have fit: "polls_fit sample_polling"
    by (auto simp: polls_fit_def decode_optional_def decode_body_def sample_polling_def empty_poll_def seqs_fit_def sample_inbound_def split: if_splits)
  have sane: "link_sane sample_link"
    using sample_poll_ok(2,3) by (simp add: link_sane_def)
  have hash: "pv_hash sample_polling ''t'' = ''t''" by (simp add: sample_polling_def)
  from poll_answers_committed_ack [OF run [unfolded sample_polled_def] others fit sane] run show ?thesis
    unfolding hash by blast
qed

text \<open>One session never holds more than its share, whatever enters and leaves.\<close>

lemma map_of_filter_key: "map_of (filter (\<lambda>p. fst p \<noteq> key) h) k = (if k = key then None else map_of h k)"
  by (induction h) auto

lemma held_count_set [simp]: "held_count (set_held h key n) k = (if k = key then n else held_count h k)"
  by (simp add: held_count_def set_held_def map_of_filter_key)

lemma enter_hold_granted: "fst (enter_hold h key limit) \<longleftrightarrow> held_count h key < limit"
  by (simp add: enter_hold_def)

lemma enter_hold_bounded:
  assumes "held_count h k \<le> limit"
  shows "held_count (snd (enter_hold h key limit)) k \<le> limit"
  using assms by (auto simp: enter_hold_def)

lemma release_hold_counts: "held_count (release_hold h key) k = (if k = key then held_count h k - 1 else held_count h k)"
proof (cases "held_count h key \<le> 1")
  case True
  then show ?thesis by (simp add: release_hold_def held_count_def map_of_filter_key)
next
  case False
  then show ?thesis by (simp add: release_hold_def)
qed

lemma enter_release_hold: "fst (enter_hold h key limit) \<Longrightarrow> held_count (release_hold (snd (enter_hold h key limit)) key) k = held_count h k"
  by (simp add: release_hold_counts enter_hold_def split: if_splits)

text \<open>A poll ends its hold at its deadline, which is never further than the longest timeout and never past the
  session's expiry; at once when the session holds its share, or when the ack it carries already covers a
  part of what a poll with more to say brought.\<close>

lemma clamp_poll_timeout_bounds: "min_poll_timeout \<le> clamp_poll_timeout t" "clamp_poll_timeout t \<le> max_poll_timeout"
  by (simp_all add: clamp_poll_timeout_def default_poll_timeout_def min_poll_timeout_def max_poll_timeout_def action_second_def)

lemma hold_loop_drains:
  "0 < low \<Longrightarrow> low \<le> ack \<Longrightarrow> rs \<noteq> [] \<Longrightarrow> fst (hold_loop token low deadline may_hold s ack rs d) \<noteq> PollHeld"
  by (cases rs) (auto simp: Let_def poll_answer_def split: sum.splits prod.splits)

text \<open>
  C18. No poll is held forever.  A poll is answered, refused or given up by its client at the latest in the first round of the hold that finds
  its session expired or the longest poll timeout over; in the first round at all when its session already holds its share of polls, or
  when the plugin has more to say and the ack covers a part of what it brought.
\<close>

theorem poll_never_hangs:
  assumes "list_ex (\<lambda>r. now + max_poll_timeout \<le> hr_clock r \<or> se_expires s \<le> hr_clock r) rounds
     \<or> rounds \<noteq> [] \<and> (max_held_polls_per_session \<le> held_count h (se_id s) \<or> 0 < low \<and> low \<le> ack)"
  shows "fst (hold_poll token low h s ack now rounds d) \<noteq> PollHeld"
proof -
  define deadline where "deadline = (let deadline = now + clamp_poll_timeout (se_poll_timeout s * action_second)
    in if se_expires s < deadline then se_expires s else deadline)"
  have loop: "hold_poll token low h s ack now rounds d =
      hold_loop token low deadline (fst (enter_hold h (se_id s) max_held_polls_per_session)) s ack rounds d"
    by (simp add: hold_poll_def deadline_def Let_def)
  have "deadline \<le> now + max_poll_timeout" "deadline \<le> se_expires s"
    using clamp_poll_timeout_bounds(2) [of "se_poll_timeout s * action_second"] by (auto simp: deadline_def Let_def)
  then have due: "list_ex (\<lambda>r. deadline \<le> hr_clock r) rounds"
    if "list_ex (\<lambda>r. now + max_poll_timeout \<le> hr_clock r \<or> se_expires s \<le> hr_clock r) rounds"
    using that by (induction rounds) auto
  from assms show ?thesis unfolding loop
    using due hold_loop_ends [OF disjI1] hold_loop_ends [OF disjI2] hold_loop_drains
    by (metis enter_hold_granted not_less)
qed

theorem poll_never_hangs_witness:
  "fst (hold_poll ''t'' 0 [(''S'', 4)] (scan_session sample_session) 0 0 [sample_round 0] sample_link) \<noteq> PollHeld"
  by (rule poll_never_hangs) (simp add: held_count_def max_held_polls_per_session_def scan_session_def sample_session_def)

subsection \<open>The waiters\<close>

text \<open>A waiter's channel holds one signal at most: the boolean says whether one is in it.\<close>

record waiters =
  wt_next :: nat
  wt_waiting :: "(string \<times> nat \<times> bool) list"

definition new_waiters :: waiters where "new_waiters = \<lparr>wt_next = 0, wt_waiting = []\<rparr>"

definition wait_on :: "waiters \<Rightarrow> string \<Rightarrow> nat \<times> waiters" where
  "wait_on w key = (wt_next w + 1, \<lparr>wt_next = wt_next w + 1, wt_waiting = (key, wt_next w + 1, False) # wt_waiting w\<rparr>)"

definition release_wait :: "waiters \<Rightarrow> string \<Rightarrow> nat \<Rightarrow> waiters" where
  "release_wait w key i = w\<lparr>wt_waiting := filter (\<lambda>(k, j, s). \<not> (k = key \<and> j = i)) (wt_waiting w)\<rparr>"

definition notify :: "waiters \<Rightarrow> string \<Rightarrow> waiters" where
  "notify w key = w\<lparr>wt_waiting := map (\<lambda>(k, j, s). (k, j, s \<or> k = key)) (wt_waiting w)\<rparr>"

definition signalled :: "waiters \<Rightarrow> nat \<Rightarrow> bool" where
  "signalled w i = list_ex (\<lambda>(k, j, s). j = i \<and> s) (wt_waiting w)"

definition waiting_for :: "waiters \<Rightarrow> string \<Rightarrow> nat \<Rightarrow> bool" where
  "waiting_for w key i = list_ex (\<lambda>(k, j, s). k = key \<and> j = i) (wt_waiting w)"

datatype waiters_op = Wait_on string | Release_wait string nat | Notify string

fun waiters_step :: "waiters \<Rightarrow> waiters_op \<Rightarrow> waiters" where
  "waiters_step w (Wait_on key) = snd (wait_on w key)"
| "waiters_step w (Release_wait key i) = release_wait w key i"
| "waiters_step w (Notify key) = notify w key"

definition waiters_inv :: "waiters \<Rightarrow> bool" where
  "waiters_inv w = (distinct (map (fst \<circ> snd) (wt_waiting w)) \<and> list_all (\<lambda>(k, j, s). j \<le> wt_next w) (wt_waiting w))"

lemma waiters_inv_step: "waiters_inv w \<Longrightarrow> waiters_inv (waiters_step w op)"
proof (cases op)
  case (Wait_on key)
  then show "waiters_inv w \<Longrightarrow> ?thesis" by (fastforce simp: waiters_inv_def wait_on_def list_all_iff)
next
  case (Release_wait key i)
  then show "waiters_inv w \<Longrightarrow> ?thesis" by (auto simp: waiters_inv_def release_wait_def list_all_iff distinct_map_filter)
next
  case (Notify key)
  have ids: "map (fst \<circ> snd) (map (\<lambda>(k, j, s). (k, j, s \<or> k = key)) ws) = map (fst \<circ> snd) ws" for ws :: "(string \<times> nat \<times> bool) list"
    by (induction ws) auto
  show "waiters_inv w \<Longrightarrow> ?thesis" unfolding Notify waiters_step.simps notify_def waiters_inv_def
    by (simp add: ids del: map_map) (auto simp: list_all_iff)
qed

definition kept_waiting :: "nat \<Rightarrow> waiters_op list \<Rightarrow> bool" where
  "kept_waiting i ops = list_all (\<lambda>op. case op of Release_wait k j \<Rightarrow> j \<noteq> i | _ \<Rightarrow> True) ops"

lemma waiting_kept:
  assumes "kept_waiting i ops" and "waiting_for w key i"
  shows "waiting_for (foldl waiters_step w ops) key i"
  using assms
proof (induction ops arbitrary: w)
  case (Cons op ops)
  have "waiting_for (waiters_step w op) key i"
    using Cons.prems by (cases op) (auto simp: kept_waiting_def waiting_for_def wait_on_def release_wait_def notify_def list_ex_iff; force)+
  with Cons show ?case by (simp add: kept_waiting_def)
qed simp

lemma signal_kept:
  assumes "kept_waiting i ops" and "signalled w i"
  shows "signalled (foldl waiters_step w ops) i"
  using assms
proof (induction ops arbitrary: w)
  case (Cons op ops)
  have "signalled (waiters_step w op) i"
    using Cons.prems by (cases op) (auto simp: kept_waiting_def signalled_def wait_on_def release_wait_def notify_def list_ex_iff; force)+
  with Cons show ?case by (simp add: kept_waiting_def)
qed simp

lemma notify_signals: "waiting_for w key i \<Longrightarrow> signalled (notify w key) i"
  by (auto simp: waiting_for_def signalled_def notify_def list_ex_iff) force

text \<open>
  A wake-up sent after a waiter has registered is never lost: whatever other waits, releases and notifications come before and
  after it, the waiter finds a signal, unless its own release takes the channel away.
\<close>

lemma wake_up_not_lost:
  assumes "kept_waiting (fst (wait_on w key)) ops" and "kept_waiting (fst (wait_on w key)) ops2"
  shows "signalled (foldl waiters_step (snd (wait_on w key)) (ops @ Notify key # ops2)) (fst (wait_on w key))"
proof -
  have "waiting_for (snd (wait_on w key)) key (fst (wait_on w key))" by (simp add: waiting_for_def wait_on_def)
  from signal_kept [OF assms(2) notify_signals [OF waiting_kept [OF assms(1) this]]] show ?thesis by simp
qed

lemma wake_up_not_lost_witness:
  "signalled (foldl waiters_step (snd (wait_on new_waiters ''s1'')) ([Wait_on ''s1'', Notify ''s2''] @ Notify ''s1'' # [Release_wait ''s1'' 2]))
     (fst (wait_on new_waiters ''s1''))"
  by (rule wake_up_not_lost) (simp_all add: kept_waiting_def wait_on_def new_waiters_def)

end
