(* ===== verification/Contexts.thy ===== *)
theory Contexts
  imports Poll
begin

text \<open>
  Context enumeration (hub/contexts.go): the checks of a plugin's context.entries reply, the questions in flight
  with the cache of their answers, and the Admin API route that asks.

  The in-process \<open>enumerations\<close> keeps, beside the code's three maps, \<open>nu_done\<close>: the outcome of every question whose
  channel was closed, which is what the readers waiting on it see; \<open>EnumerateHangs\<close> is a reader whose channel nobody closes.  A question is known by its drawn requestId, where the
  code compares pointers; drawing an id that was drawn before is excluded by the step relation.  Reading JSON and quoting
  are the record \<open>context_env\<close>.
\<close>

definition max_context_entries :: nat where "max_context_entries = 5000"
definition max_context_entries_bytes :: nat where "max_context_entries_bytes = 262144"
definition max_context_request_id :: nat where "max_context_request_id = 128"
definition max_context_entry_key :: nat where "max_context_entry_key = 128"
definition max_context_entry_label :: nat where "max_context_entry_label = 200"
definition max_enumerated_id_length :: nat where "max_enumerated_id_length = 64"

text \<open>The members of a reply, raw: an absent one is empty.\<close>

record context_entries_body =
  ceb_request :: string
  ceb_context :: string
  ceb_entries :: string
  ceb_reason :: string

record context_entry =
  cx_key :: string
  cx_label :: "string option"
  cx_position :: string
  cx_data :: string

record context_env =
  cn_ingest :: ingest_env
  cn_body :: "string \<Rightarrow> context_entries_body option"
  cn_text :: "string \<Rightarrow> string option"
  cn_entries :: "string \<Rightarrow> string + context_entry list"
  cn_contexts :: "string \<Rightarrow> string list option"
  cn_question :: "string \<Rightarrow> string \<Rightarrow> string"
  cn_duration :: "int \<Rightarrow> string"

definition context_quote :: "context_env \<Rightarrow> string \<Rightarrow> string" where
  "context_quote env s = ingest_quote (cn_ingest env) s"

record enumeration =
  eu_context :: string
  eu_entries :: string
  eu_reason :: "string option"
  eu_at :: time

text \<open>A reply after its checks: the faults that refuse it or the enumeration it carries.\<close>

record prepared_entries =
  pe_request :: string
  pe_result :: "fault list + enumeration"

subsection \<open>The checks of a reply\<close>

definition bound_request_id :: "string \<Rightarrow> string" where
  "bound_request_id rid = (if rid = '''' \<or> rune_count rid > max_context_request_id then '''' else rid)"

definition too_long :: "string \<Rightarrow> nat \<Rightarrow> bool" where
  "too_long s limit = (rune_count s > limit)"

definition context_entry_faults :: "context_env \<Rightarrow> nat \<Rightarrow> context_entry \<Rightarrow> fault list" where
  "context_entry_faults env i c =
     (let path = ''entries['' @ show_int (int i) @ '']'' in
      (if cx_key c = '''' \<or> too_long (cx_key c) max_context_entry_key
       then [fault_at (path @ ''.referenceKey'') (''referenceKey must be a non-empty string of at most '' @ show_int (int max_context_entry_key) @ '' characters'')]
       else [])
      @ (case cx_label c of
           None \<Rightarrow> [fault_at (path @ ''.label'') (''label is required, a display string of at most '' @ show_int (int max_context_entry_label) @ '' characters'')]
         | Some l \<Rightarrow>
             if too_long l max_context_entry_label
             then [fault_at (path @ ''.label'') (''label is longer than '' @ show_int (int max_context_entry_label) @ '' characters'')] else [])
      @ validate_position (cn_ingest env) (cx_position c) (path @ ''.position'')
      @ validate_entry_data (cn_ingest env) (cx_data c) (path @ ''.data''))"

fun context_entries_faults :: "context_env \<Rightarrow> nat \<Rightarrow> context_entry list \<Rightarrow> fault list" where
  "context_entries_faults env i [] = []"
| "context_entries_faults env i (c # cs) = context_entry_faults env i c @ context_entries_faults env (Suc i) cs"

definition validate_context_entries :: "context_env \<Rightarrow> inbound_envelope \<Rightarrow> time \<Rightarrow> prepared_entries" where
  "validate_context_entries env e now =
     (case if ie_body e = '''' then None else cn_body env (ie_body e) of
        None \<Rightarrow> \<lparr>pe_request = '''', pe_result = Inl [fault_at '''' ''body does not match the context.entries shape'']\<rparr>
      | Some body \<Rightarrow>
          let rid = bound_request_id (case cn_text env (ceb_request body) of None \<Rightarrow> '''' | Some t \<Rightarrow> t);
              refused = (\<lambda>faults. \<lparr>pe_request = rid, pe_result = Inl faults\<rparr>)
          in if rid = ''''
             then refused [fault_at ''requestId'' (''requestId is required, the hub''@ [CHR 39] @ ''s own of at most '' @ show_int (int max_context_request_id) @ '' characters'')]
             else if length (ie_body e) > max_context_entries_bytes
             then refused [fault_at '''' (''a context.entries body is at most '' @ show_int (int max_context_entries_bytes) @ '' bytes, got ''
                    @ show_int (int (length (ie_body e))))]
             else
          let context_id = (case cn_text env (ceb_context body) of None \<Rightarrow> '''' | Some t \<Rightarrow> t);
              bad_context = (if context_id = '''' \<or> too_long context_id max_enumerated_id_length
                then [fault_at ''context'' (''context must echo the enumerated context id, a string of at most '' @ show_int (int max_enumerated_id_length) @ '' characters'')]
                else [])
          in if \<not> present (ceb_entries body)
             then refused (bad_context @ [fault_at ''entries'' ''entries is required; an empty array is how a plugin says it has nothing to offer''])
             else case cn_entries env (ceb_entries body) of
               Inl why \<Rightarrow> refused (bad_context @ [fault_at ''entries'' (''entries does not match the entry shape: '' @ why)])
             | Inr es \<Rightarrow>
                 if length es > max_context_entries
                 then refused (bad_context @ [fault_at ''entries'' (''a reply carries at most '' @ show_int (int max_context_entries) @ '' entries, got '' @ show_int (int (length es)))])
                 else
              let reason = (if present (ceb_reason body) then cn_text env (ceb_reason body) else None);
                  bad_reason = (if present (ceb_reason body) \<and> reason = None
                    then [fault_at ''reason'' ''reason must be a string when present''] else []);
                  faults = bad_context @ context_entries_faults env 0 es @ bad_reason
              in if faults \<noteq> [] then refused faults
                 else \<lparr>pe_request = rid,
                   pe_result = Inr \<lparr>eu_context = context_id, eu_entries = ceb_entries body, eu_reason = reason, eu_at = now\<rparr>\<rparr>)"

subsection \<open>Questions and answers\<close>

text \<open>Server, context, and the manifest revision the question was asked under.\<close>

type_synonym enumeration_key = "string \<times> string \<times> int"

record question =
  qu_key :: enumeration_key
  qu_request :: string
  qu_deadline :: time

datatype enum_error =
    EnumerationTimeout
  | EnumerationInvalid "fault list"
  | EnumerationUnasked store_error

record enumerations =
  nu_pending :: "question list"
  nu_inflight :: "(enumeration_key \<times> string) list"
  nu_cache :: "(enumeration_key \<times> enumeration) list"
  nu_done :: "(string \<times> (enum_error + enumeration)) list"
  nu_ttl :: int
  nu_timeout :: int

definition new_enumerations :: "int \<Rightarrow> int \<Rightarrow> enumerations" where
  "new_enumerations ttl timeout =
     \<lparr>nu_pending = [], nu_inflight = [], nu_cache = [], nu_done = [], nu_ttl = ttl, nu_timeout = timeout\<rparr>"

definition question_of :: "enumerations \<Rightarrow> string \<Rightarrow> question option" where
  "question_of e rid = find (\<lambda>q. qu_request q = rid) (nu_pending e)"

definition cached :: "enumerations \<Rightarrow> enumeration_key \<Rightarrow> time \<Rightarrow> enumeration option" where
  "cached e key now =
     (case map_of (nu_cache e) key of
        Some held \<Rightarrow> if now - eu_at held < nu_ttl e then Some held else None
      | None \<Rightarrow> None)"

definition forget :: "enumerations \<Rightarrow> question \<Rightarrow> enumerations" where
  "forget e q =
     e\<lparr>nu_pending := filter (\<lambda>p. qu_request p \<noteq> qu_request q) (nu_pending e),
       nu_inflight := if map_of (nu_inflight e) (qu_key q) = Some (qu_request q)
                      then filter (\<lambda>p. fst p \<noteq> qu_key q) (nu_inflight e) else nu_inflight e\<rparr>"

text \<open>Setting the outcome of a question, forgetting it and closing its channel.\<close>

definition complete :: "enumerations \<Rightarrow> question \<Rightarrow> enum_error + enumeration \<Rightarrow> enumerations" where
  "complete e q outcome = (forget e q)\<lparr>nu_done := (qu_request q, outcome) # nu_done e\<rparr>"

definition sweep :: "enumerations \<Rightarrow> time \<Rightarrow> enumerations" where
  "sweep e now = foldl (\<lambda>e q. if now < qu_deadline q then e else complete e q (Inl EnumerationTimeout)) e (nu_pending e)"

definition join :: "enumerations \<Rightarrow> enumeration_key \<Rightarrow> time \<Rightarrow> string \<Rightarrow> (question \<times> bool) \<times> enumerations" where
  "join e key now rid =
     (let e = sweep e now in
      case (case map_of (nu_inflight e) key of None \<Rightarrow> None | Some current \<Rightarrow> question_of e current) of
        Some current \<Rightarrow> ((current, False), e)
      | None \<Rightarrow>
          let q = \<lparr>qu_key = key, qu_request = rid, qu_deadline = now + nu_timeout e\<rparr> in
          ((q, True), e\<lparr>nu_pending := q # nu_pending e, nu_inflight := (key, rid) # nu_inflight e\<rparr>))"

definition abandon :: "enumerations \<Rightarrow> question \<Rightarrow> enum_error \<Rightarrow> enumerations" where
  "abandon e q err = (if question_of e (qu_request q) \<noteq> Some q then e else complete e q (Inl err))"

definition expire :: "enumerations \<Rightarrow> question \<Rightarrow> enumerations" where
  "expire e q = (if question_of e (qu_request q) \<noteq> Some q then e else complete e q (Inl EnumerationTimeout))"

definition prune :: "enumerations \<Rightarrow> time \<Rightarrow> enumerations" where
  "prune e now = e\<lparr>nu_cache := filter (\<lambda>(k, held). \<not> now - eu_at held \<ge> nu_ttl e) (nu_cache e)\<rparr>"

definition cache_put :: "enumerations \<Rightarrow> enumeration_key \<Rightarrow> enumeration \<Rightarrow> enumerations" where
  "cache_put e key held = e\<lparr>nu_cache := (key, held) # filter (\<lambda>p. fst p \<noteq> key) (nu_cache e)\<rparr>"

definition deliver :: "context_env \<Rightarrow> enumerations \<Rightarrow> string \<Rightarrow> prepared_entries \<Rightarrow> time \<Rightarrow> bool \<times> enumerations" where
  "deliver env e server p now =
     (let e = sweep e now in
      case question_of e (pe_request p) of
        None \<Rightarrow> (False, e)
      | Some q \<Rightarrow>
          if fst (qu_key q) \<noteq> server then (False, e)
          else case pe_result p of
            Inl faults \<Rightarrow> (True, complete e q (Inl (EnumerationInvalid faults)))
          | Inr held \<Rightarrow>
              if eu_context held \<noteq> fst (snd (qu_key q))
              then (True, complete e q (Inl (EnumerationInvalid [fault_at ''context''
                     (''the reply echoes context '' @ context_quote env (eu_context held) @ '', want the enumerated ''
                        @ context_quote env (fst (snd (qu_key q))))])))
              else (True, complete (cache_put (prune e now) (qu_key q) held) q (Inr held)))"

text \<open>The replies among a poll's newly accepted envelopes, handed over once the batch is committed.\<close>

fun deliver_replies :: "context_env \<Rightarrow> string \<Rightarrow> time \<Rightarrow> inbound_envelope list \<Rightarrow> enumerations \<Rightarrow> nat \<times> enumerations" where
  "deliver_replies env server now [] e = (0, e)"
| "deliver_replies env server now (x # xs) e =
     (if ie_type x \<noteq> ''context.entries'' then deliver_replies env server now xs e
      else let (heard, e1) = deliver env e server (validate_context_entries env x now) now;
               (unsolicited, e2) = deliver_replies env server now xs e1
           in (if heard then unsolicited else Suc unsolicited, e2))"

subsection \<open>The route\<close>

definition declared_context :: "context_env \<Rightarrow> string \<Rightarrow> string \<Rightarrow> bool" where
  "declared_context env manifest cid = (case cn_contexts env manifest of None \<Rightarrow> False | Some ids \<Rightarrow> cid \<in> set ids)"

datatype enumerate_reply = EnumerateRefused refusal | EnumerateAnswer enumeration | EnumerateHangs

datatype enumerate_start = Replied enumerate_reply | WaitFor question

text \<open>From the request to the wait: what is answered at once, and the question a reader goes on to wait for.\<close>

definition enumerate_context ::
  "context_env \<Rightarrow> string \<Rightarrow> string \<Rightarrow> string \<Rightarrow> string \<Rightarrow> string \<Rightarrow> time \<Rightarrow> enumerations \<Rightarrow> db \<Rightarrow> enumerate_start \<times> enumerations \<times> db" where
  "enumerate_context env server_id cid refresh rid eid now e d =
     (case lookup_server d server_id of
        Inl refused \<Rightarrow> (Replied (EnumerateRefused refused), e, d)
      | Inr server \<Rightarrow>
     (case find_manifest d (sr_id server) of
        Inl err \<Rightarrow> (Replied (EnumerateRefused (if err = ErrNotFound then not_found ''this server has not published a manifest'' else internal_error)), e, d)
      | Inr manifest \<Rightarrow>
          if cid = '''' \<or> rune_count cid > max_enumerated_id_length \<or> cid \<in> set builtin_contexts \<or> \<not> declared_context env (mf_body manifest) cid
          then (Replied (EnumerateRefused (not_found (''this server''@ [CHR 39] @ ''s manifest declares no context '' @ context_quote env cid
                  @ ''; the built-in contexts are read as state snapshots''))), e, d)
          else
          let key = (sr_id server, cid, mf_revision manifest);
              held = (if refresh \<noteq> ''true'' \<and> refresh \<noteq> ''1'' then cached e key now else None)
          in case held of
               Some answer \<Rightarrow> (Replied (EnumerateAnswer answer), e, d)
             | None \<Rightarrow>
                 if live_session d (sr_id server) now = None
                 then (Replied (EnumerateRefused (Refusal 409 ''link_down'' (''this server has no live session, so its plugin cannot be asked''))), e, d)
                 else let ((q, started), e1) = join e key now rid in
                   if \<not> started then (WaitFor q, e1, d)
                   else case queue_envelope d (sr_id server) ''context.enumerate'' (cn_question env (qu_request q) cid) outbound_queue_limit eid now of
                     Inl err \<Rightarrow> (WaitFor q, abandon e1 q (EnumerationUnasked err), d)
                   | Inr (row, d1) \<Rightarrow> (WaitFor q, e1, d1)))"

definition fault_text :: "fault \<Rightarrow> string" where
  "fault_text f = (if ft_path f = [] then ft_message f else ft_path f @ '': '' @ ft_message f)"

definition enumeration_reply :: "context_env \<Rightarrow> enumerations \<Rightarrow> enum_error + enumeration \<Rightarrow> enumerate_reply" where
  "enumeration_reply env e outcome =
     (case outcome of
        Inr answer \<Rightarrow> EnumerateAnswer answer
      | Inl (EnumerationUnasked err) \<Rightarrow>
          EnumerateRefused
            (if err = ErrOutboundQueueFull
             then Refusal 409 ''outbound_queue_full'' (''this server already has '' @ show_int outbound_queue_limit @ '' unacked envelopes queued'')
             else if err = ErrNotFound then not_found ''no such server'' else internal_error)
      | Inl EnumerationTimeout \<Rightarrow>
          EnumerateRefused (Refusal 504 ''enumeration_timeout'' (''the plugin did not answer the enumeration within '' @ cn_duration env (nu_timeout e)))
      | Inl (EnumerationInvalid faults) \<Rightarrow>
          EnumerateRefused (Refusal 502 ''enumeration_invalid''
            (''the plugin''@ [CHR 39] @ ''s context.entries reply was outside the bounds of section 6.2: '' @ fault_text (hd faults))))"

text \<open>The end of the wait: the reader's timer gives up on the question if its channel is still open.\<close>

definition await_answer :: "context_env \<Rightarrow> enumerations \<Rightarrow> question \<Rightarrow> enumerate_reply \<times> enumerations" where
  "await_answer env e q =
     (case map_of (nu_done e) (qu_request q) of
        Some outcome \<Rightarrow> (enumeration_reply env e outcome, e)
      | None \<Rightarrow>
          let e1 = expire e q in
          (case map_of (nu_done e1) (qu_request q) of
             Some outcome \<Rightarrow> (enumeration_reply env e1 outcome, e1)
           | None \<Rightarrow> (EnumerateHangs, e1)))"

subsection \<open>The questions as a state machine\<close>

datatype enum_event =
    Asked enumeration_key time string
  | Abandoned question enum_error
  | Expired question
  | Delivered string prepared_entries time

definition fresh_request :: "enumerations \<Rightarrow> string \<Rightarrow> bool" where
  "fresh_request e rid = (rid \<notin> qu_request ` set (nu_pending e) \<and> rid \<notin> fst ` set (nu_done e))"

inductive enum_step :: "context_env \<Rightarrow> enumerations \<Rightarrow> enum_event \<Rightarrow> enumerations \<Rightarrow> bool" for env where
  ask: "fresh_request e rid \<Longrightarrow> enum_step env e (Asked key now rid) (snd (join e key now rid))"
| give_up: "enum_step env e (Abandoned q err) (abandon e q err)"
| time_out: "enum_step env e (Expired q) (expire e q)"
| answer: "enum_step env e (Delivered server p now) (snd (deliver env e server p now))"

inductive enum_run :: "context_env \<Rightarrow> enumerations \<Rightarrow> enum_event list \<Rightarrow> enumerations \<Rightarrow> bool" for env e where
  start: "enum_run env e [] e"
| more: "enum_run env e tr e1 \<Longrightarrow> enum_step env e1 x e2 \<Longrightarrow> enum_run env e (tr @ [x]) e2"

inductive_cases enum_stepE: "enum_step env e x e'"
inductive_simps enum_step_simps:
  "enum_step env e (Asked key now rid) e'" "enum_step env e (Abandoned q err) e'" "enum_step env e (Expired q) e'"
  "enum_step env e (Delivered server p now) e'"

definition enum_inv :: "enumerations \<Rightarrow> bool" where
  "enum_inv e =
     (distinct (map qu_request (nu_pending e)) \<and> distinct (map fst (nu_done e))
      \<and> qu_request ` set (nu_pending e) \<inter> fst ` set (nu_done e) = {}
      \<and> (\<forall>q \<in> set (nu_pending e). map_of (nu_inflight e) (qu_key q) = Some (qu_request q))
      \<and> (\<forall>(k, rid) \<in> set (nu_inflight e). \<exists>q \<in> set (nu_pending e). qu_request q = rid \<and> qu_key q = k)
      \<and> distinct (map fst (nu_inflight e))
      \<and> (\<forall>(k, h) \<in> set (nu_cache e). eu_context h = fst (snd k)))"

text \<open>What has been asked stays asked until it has an outcome, and an outcome stays.\<close>

definition outcomes_stay :: "enumerations \<Rightarrow> enumerations \<Rightarrow> bool" where
  "outcomes_stay e e' =
     ((\<forall>rid o'. map_of (nu_done e) rid = Some o' \<longrightarrow> map_of (nu_done e') rid = Some o')
      \<and> (\<forall>q \<in> set (nu_pending e). q \<in> set (nu_pending e') \<or> qu_request q \<in> fst ` set (nu_done e')))"

lemma outcomes_stay_refl [simp]: "outcomes_stay e e"
  by (simp add: outcomes_stay_def)

lemma map_of_known: "rid \<in> fst ` set xs \<longleftrightarrow> (\<exists>x. map_of xs rid = Some x)"
  by (metis map_of_eq_None_iff not_None_eq)

lemma outcomes_stay_trans: "outcomes_stay a b \<Longrightarrow> outcomes_stay b c \<Longrightarrow> outcomes_stay a c"
  unfolding outcomes_stay_def map_of_known by blast

lemma question_of_in: "question_of e rid = Some q \<Longrightarrow> q \<in> set (nu_pending e) \<and> qu_request q = rid"
  using find_Some_in by (fastforce simp: question_of_def)

lemma pending_unique: "enum_inv e \<Longrightarrow> q \<in> set (nu_pending e) \<Longrightarrow> p \<in> set (nu_pending e) \<Longrightarrow> qu_request p = qu_request q \<Longrightarrow> p = q"
  by (auto simp: enum_inv_def distinct_map inj_on_def)

lemma question_of_pending: "enum_inv e \<Longrightarrow> q \<in> set (nu_pending e) \<Longrightarrow> question_of e (qu_request q) = Some q"
  unfolding question_of_def by (rule find_unique [of qu_request]) (auto simp: enum_inv_def)

lemma forget_fields [simp]: "nu_done (forget e q) = nu_done e" "nu_cache (forget e q) = nu_cache e"
    "nu_ttl (forget e q) = nu_ttl e" "nu_timeout (forget e q) = nu_timeout e"
  by (simp_all add: forget_def)

lemma complete_fields [simp]: "nu_done (complete e q out) = (qu_request q, out) # nu_done e" "nu_cache (complete e q out) = nu_cache e"
    "nu_ttl (complete e q out) = nu_ttl e" "nu_timeout (complete e q out) = nu_timeout e"
    "nu_pending (complete e q out) = filter (\<lambda>p. qu_request p \<noteq> qu_request q) (nu_pending e)"
    "nu_inflight (complete e q out) = nu_inflight (forget e q)"
  by (simp_all add: complete_def forget_def)

lemma complete_inv:
  assumes inv: "enum_inv e" and q: "q \<in> set (nu_pending e)"
  shows "enum_inv (complete e q out)" and "outcomes_stay e (complete e q out)"
proof -
  have mine: "map_of (nu_inflight e) (qu_key q) = Some (qu_request q)" using inv q by (simp add: enum_inv_def)
  have dist: "distinct (map fst (nu_inflight e))" using inv by (simp add: enum_inv_def)
  have inflight: "nu_inflight (forget e q) = filter (\<lambda>p. fst p \<noteq> qu_key q) (nu_inflight e)" using mine by (simp add: forget_def)
  have fresh: "qu_request q \<notin> fst ` set (nu_done e)" using inv q by (auto simp: enum_inv_def)
  have same_key: "qu_key p \<noteq> qu_key q" if "p \<in> set (nu_pending e)" "qu_request p \<noteq> qu_request q" for p
    using inv that mine by (auto simp: enum_inv_def)
  show "enum_inv (complete e q out)"
    unfolding enum_inv_def complete_fields inflight
  proof (intro conjI)
    show "distinct (map qu_request (filter (\<lambda>p. qu_request p \<noteq> qu_request q) (nu_pending e)))"
      using inv by (simp add: enum_inv_def distinct_map_filter)
    show "distinct (map fst ((qu_request q, out) # nu_done e))" using inv fresh by (auto simp: enum_inv_def)
    show "qu_request ` set (filter (\<lambda>p. qu_request p \<noteq> qu_request q) (nu_pending e)) \<inter> fst ` set ((qu_request q, out) # nu_done e) = {}"
      using inv by (auto simp: enum_inv_def)
    show "\<forall>p \<in> set (filter (\<lambda>p. qu_request p \<noteq> qu_request q) (nu_pending e)).
        map_of (filter (\<lambda>p. fst p \<noteq> qu_key q) (nu_inflight e)) (qu_key p) = Some (qu_request p)"
      using inv same_key by (auto simp: enum_inv_def map_of_filter_key)
    show "\<forall>(k, rid) \<in> set (filter (\<lambda>p. fst p \<noteq> qu_key q) (nu_inflight e)).
        \<exists>p \<in> set (filter (\<lambda>p. qu_request p \<noteq> qu_request q) (nu_pending e)). qu_request p = rid \<and> qu_key p = k"
    proof (clarsimp)
      fix s c r rid
      assume k: "((s, c, r), rid) \<in> set (nu_inflight e)" "(s, c, r) \<noteq> qu_key q"
      with inv obtain p where p: "p \<in> set (nu_pending e)" "qu_request p = rid" "qu_key p = (s, c, r)" by (fastforce simp: enum_inv_def)
      moreover have "qu_request p \<noteq> qu_request q" using pending_unique [OF inv q p(1)] p(3) k(2) by auto
      ultimately show "\<exists>p. p \<in> set (nu_pending e) \<and> qu_request p \<noteq> qu_request q \<and> qu_request p = rid \<and> qu_key p = (s, c, r)" by blast
    qed
    show "distinct (map fst (filter (\<lambda>p. fst p \<noteq> qu_key q) (nu_inflight e)))" using dist by (simp add: distinct_map_filter)
    show "\<forall>(k, h) \<in> set (nu_cache e). eu_context h = fst (snd k)" using inv by (simp add: enum_inv_def)
  qed
  show "outcomes_stay e (complete e q out)"
    using fresh pending_unique [OF inv q] by (auto simp: outcomes_stay_def map_of_eq_None_iff [symmetric] dest: map_of_SomeD)
qed

text \<open>What the sweep may do: time questions out, and nothing else.\<close>

definition timed_out_only :: "enumerations \<Rightarrow> enumerations \<Rightarrow> bool" where
  "timed_out_only e e' =
     (outcomes_stay e e' \<and> nu_cache e' = nu_cache e \<and> nu_ttl e' = nu_ttl e \<and> nu_timeout e' = nu_timeout e
      \<and> set (nu_pending e') \<subseteq> set (nu_pending e)
      \<and> (\<forall>rid out. (rid, out) \<in> set (nu_done e') \<longrightarrow>
           (rid, out) \<in> set (nu_done e) \<or> out = Inl EnumerationTimeout \<and> rid \<in> qu_request ` set (nu_pending e)))"

lemma timed_out_only_refl [simp]: "timed_out_only e e"
  by (simp add: timed_out_only_def)

lemma timed_out_only_trans:
  assumes ab: "timed_out_only a b" and bc: "timed_out_only b c"
  shows "timed_out_only a c"
proof -
  have "outcomes_stay a c" using ab bc outcomes_stay_trans unfolding timed_out_only_def by blast
  moreover have "(rid, out) \<in> set (nu_done a) \<or> out = Inl EnumerationTimeout \<and> rid \<in> qu_request ` set (nu_pending a)"
    if "(rid, out) \<in> set (nu_done c)" for rid out
    using ab bc that unfolding timed_out_only_def by blast
  ultimately show ?thesis using ab bc unfolding timed_out_only_def by simp blast
qed

lemma complete_timed_out:
  assumes "enum_inv e" and "q \<in> set (nu_pending e)"
  shows "timed_out_only e (complete e q (Inl EnumerationTimeout))"
  using complete_inv(2) [OF assms, of "Inl EnumerationTimeout"] assms(2) by (auto simp: timed_out_only_def)

definition sweep_one :: "time \<Rightarrow> enumerations \<Rightarrow> question \<Rightarrow> enumerations" where
  "sweep_one now e q = (if now < qu_deadline q then e else complete e q (Inl EnumerationTimeout))"

lemma sweep_all:
  assumes "enum_inv e" and "distinct (map qu_request qs)" and "set qs \<subseteq> set (nu_pending e)"
  shows "enum_inv (foldl (sweep_one now) e qs) \<and> timed_out_only e (foldl (sweep_one now) e qs)"
  using assms
proof (induction qs arbitrary: e)
  case (Cons q qs)
  show ?case
  proof (cases "now < qu_deadline q")
    case True
    with Cons show ?thesis by (simp add: sweep_one_def)
  next
    case False
    let ?e = "complete e q (Inl EnumerationTimeout)"
    from Cons.prems have q: "q \<in> set (nu_pending e)" by simp
    have rest: "set qs \<subseteq> set (nu_pending ?e)" using Cons.prems(2,3) by (auto simp: image_iff)
    have one: "sweep_one now e q = ?e" using False by (simp add: sweep_one_def)
    have "enum_inv (foldl (sweep_one now) ?e qs) \<and> timed_out_only ?e (foldl (sweep_one now) ?e qs)"
      by (rule Cons.IH [OF complete_inv(1) [OF Cons.prems(1) q] _ rest]) (use Cons.prems(2) in simp)
    with timed_out_only_trans [OF complete_timed_out [OF Cons.prems(1) q]] one show ?thesis by simp
  qed
qed simp

lemma sweep_inv:
  assumes "enum_inv e"
  shows "enum_inv (sweep e now)" "timed_out_only e (sweep e now)"
proof -
  have "sweep e now = foldl (sweep_one now) e (nu_pending e)" unfolding sweep_def sweep_one_def [abs_def] ..
  moreover have "distinct (map qu_request (nu_pending e))" using assms by (simp add: enum_inv_def)
  ultimately show "enum_inv (sweep e now)" "timed_out_only e (sweep e now)" using sweep_all [OF assms _ subset_refl] by simp_all
qed

lemma timed_out_only_parts:
  assumes "timed_out_only e e'"
  shows "outcomes_stay e e'" "nu_cache e' = nu_cache e" "nu_ttl e' = nu_ttl e" "set (nu_pending e') \<subseteq> set (nu_pending e)"
    "fst ` set (nu_done e') \<subseteq> fst ` set (nu_done e) \<union> qu_request ` set (nu_pending e)"
    "(rid, Inr h) \<in> set (nu_done e') \<Longrightarrow> (rid, Inr h) \<in> set (nu_done e)"
  using assms unfolding timed_out_only_def by (blast | force)+

lemma inflight_pending:
  assumes "enum_inv e" and "(k, r) \<in> set (nu_inflight e)"
  shows "\<exists>p \<in> set (nu_pending e). qu_request p = r \<and> qu_key p = k"
  using bspec [OF assms(1) [unfolded enum_inv_def, THEN conjunct2, THEN conjunct2, THEN conjunct2, THEN conjunct2, THEN conjunct1] assms(2)]
  by simp

lemma ask_inv:
  assumes inv: "enum_inv e" and new: "rid \<notin> qu_request ` set (nu_pending e)" "rid \<notin> fst ` set (nu_done e)"
    and key: "map_of (nu_inflight e) key = None" and q: "qu_key q = key" "qu_request q = rid"
  shows "enum_inv (e\<lparr>nu_pending := q # nu_pending e, nu_inflight := (key, rid) # nu_inflight e\<rparr>)" (is "enum_inv ?e")
proof -
  have pending: "nu_pending ?e = q # nu_pending e" and inflight: "nu_inflight ?e = (key, rid) # nu_inflight e"
    and same: "nu_done ?e = nu_done e" "nu_cache ?e = nu_cache e" by simp_all
  have other: "qu_key p \<noteq> key" if "p \<in> set (nu_pending e)" for p using that inv key by (auto simp: enum_inv_def)
  have keys: "key \<notin> fst ` set (nu_inflight e)" using key by (simp add: map_of_eq_None_iff)
  show ?thesis unfolding enum_inv_def pending inflight same
  proof (intro conjI)
    show "distinct (map qu_request (q # nu_pending e))" using inv new q by (simp add: enum_inv_def)
    show "distinct (map fst (nu_done e))" using inv by (simp add: enum_inv_def)
    show "qu_request ` set (q # nu_pending e) \<inter> fst ` set (nu_done e) = {}" using inv new q by (simp add: enum_inv_def)
    show "\<forall>p \<in> set (q # nu_pending e). map_of ((key, rid) # nu_inflight e) (qu_key p) = Some (qu_request p)"
      using inv q other by (simp add: enum_inv_def)
    show "\<forall>(k, r) \<in> set ((key, rid) # nu_inflight e). \<exists>p \<in> set (q # nu_pending e). qu_request p = r \<and> qu_key p = k"
    proof
      fix x assume "x \<in> set ((key, rid) # nu_inflight e)"
      then consider "x = (key, rid)" | "x \<in> set (nu_inflight e)" by force
      then show "case x of (k, r) \<Rightarrow> \<exists>p \<in> set (q # nu_pending e). qu_request p = r \<and> qu_key p = k"
      proof cases
        case 1
        then show ?thesis using q by simp
      next
        case 2
        obtain k r where x: "x = (k, r)" by (cases x) simp
        from inflight_pending [OF inv] 2 x obtain p where "p \<in> set (nu_pending e)" "qu_request p = r" "qu_key p = k" by blast
        with x show ?thesis by auto
      qed
    qed
    show "distinct (map fst ((key, rid) # nu_inflight e))" using inv keys by (simp add: enum_inv_def)
    show "\<forall>(k, h) \<in> set (nu_cache e). eu_context h = fst (snd k)" using inv by (simp add: enum_inv_def)
  qed
qed

lemma join_cases:
  assumes inv: "enum_inv e" and j: "join e key now rid = ((q, started), e')" and fresh: "fresh_request e rid"
  shows "enum_inv e'" "outcomes_stay e e'" "nu_cache e' = nu_cache e" "nu_ttl e' = nu_ttl e" "q \<in> set (nu_pending e')" "qu_key q = key"
    "p \<in> set (nu_pending e') \<Longrightarrow> p \<in> set (nu_pending e) \<or> qu_key p = key \<and> qu_request p = rid"
    "(r, Inr h) \<in> set (nu_done e') \<Longrightarrow> (r, Inr h) \<in> set (nu_done e)"
proof -
  let ?e = "sweep e now"
  note sw = sweep_inv [OF inv, of now]
  note parts = timed_out_only_parts [OF sw(2)]
  have new: "rid \<notin> qu_request ` set (nu_pending ?e)" "rid \<notin> fst ` set (nu_done ?e)"
    using fresh parts(4,5) unfolding fresh_request_def by blast+
  consider (joined) "map_of (nu_inflight ?e) key = Some (qu_request q)" "question_of ?e (qu_request q) = Some q" "e' = ?e"
    | (asked) "map_of (nu_inflight ?e) key = None" "q = \<lparr>qu_key = key, qu_request = rid, qu_deadline = now + nu_timeout ?e\<rparr>"
      "e' = ?e\<lparr>nu_pending := q # nu_pending ?e, nu_inflight := (key, rid) # nu_inflight ?e\<rparr>"
  proof (cases "map_of (nu_inflight ?e) key")
    case None
    from j show thesis unfolding join_def Let_def None option.case by (intro asked) (auto simp: None)
  next
    case (Some current)
    then have "(key, current) \<in> set (nu_inflight ?e)" by (rule map_of_SomeD)
    with sw(1) obtain p where p: "p \<in> set (nu_pending ?e)" "qu_request p = current" by (fastforce simp: enum_inv_def)
    have found: "question_of ?e current = Some p" using question_of_pending [OF sw(1) p(1)] p(2) by simp
    from j have "q = p \<and> e' = ?e" unfolding join_def Let_def Some option.case found by simp
    with found Some p(2) show thesis by (intro joined) simp_all
  qed
  note split = this
  show "enum_inv e'"
  proof (cases rule: split)
    case joined
    with sw(1) show ?thesis by simp
  next
    case asked
    show ?thesis unfolding asked(3) by (rule ask_inv [OF sw(1) new asked(1)]) (simp_all add: asked(2))
  qed
  show "outcomes_stay e e'"
  proof (cases rule: split)
    case joined
    with parts(1) show ?thesis by simp
  next
    case asked
    have "outcomes_stay ?e e'" unfolding asked(3) outcomes_stay_def by simp
    with parts(1) show ?thesis by (rule outcomes_stay_trans)
  qed
  have "nu_cache e' = nu_cache ?e \<and> nu_ttl e' = nu_ttl ?e \<and> nu_done e' = nu_done ?e"
    by (cases rule: split) simp_all
  with parts(2,3,6) show "nu_cache e' = nu_cache e" "nu_ttl e' = nu_ttl e"
    "(r, Inr h) \<in> set (nu_done e') \<Longrightarrow> (r, Inr h) \<in> set (nu_done e)" by simp_all
  show "q \<in> set (nu_pending e')"
  proof (cases rule: split)
    case joined
    from question_of_in [OF joined(2)] joined(3) show ?thesis by simp
  qed simp
  show "qu_key q = key"
  proof (cases rule: split)
    case joined
    have q: "q \<in> set (nu_pending ?e)" using question_of_in [OF joined(2)] by simp
    from map_of_SomeD [OF joined(1)] sw(1) obtain p where p: "p \<in> set (nu_pending ?e)" "qu_request p = qu_request q" "qu_key p = key"
      using inflight_pending by blast
    from pending_unique [OF sw(1) q p(1,2)] p(3) show ?thesis by simp
  qed simp
  have "set (nu_pending e') \<subseteq> set (nu_pending ?e) \<or> set (nu_pending e') = insert q (set (nu_pending ?e)) \<and> qu_key q = key \<and> qu_request q = rid"
    by (cases rule: split) simp_all
  with parts(4) show "p \<in> set (nu_pending e') \<Longrightarrow> p \<in> set (nu_pending e) \<or> qu_key p = key \<and> qu_request p = rid" by auto
qed

lemma deliverE:
  assumes "deliver env e server p now = (heard, e')"
  obtains (ignored) "e' = sweep e now" "\<not> heard"
    | (refused) q faults where "question_of (sweep e now) (pe_request p) = Some q" "e' = complete (sweep e now) q (Inl (EnumerationInvalid faults))"
        "fst (qu_key q) = server" "faults \<noteq> [] \<or> pe_result p = Inl faults" heard
    | (answered) q held where "question_of (sweep e now) (pe_request p) = Some q" "fst (qu_key q) = server" "pe_result p = Inr held"
        "eu_context held = fst (snd (qu_key q))" "e' = complete (cache_put (prune (sweep e now) now) (qu_key q) held) q (Inr held)" heard
proof (cases "question_of (sweep e now) (pe_request p)")
  case None
  with assms show thesis by (intro ignored) (simp_all add: deliver_def Let_def)
next
  case (Some q)
  show thesis
  proof (cases "fst (qu_key q) = server")
    case False
    with Some assms show thesis by (intro ignored) (simp_all add: deliver_def Let_def)
  next
    case True
    show thesis
    proof (cases "pe_result p")
      case (Inl faults)
      with Some True assms show thesis by (intro refused [of q faults]) (simp_all add: deliver_def Let_def)
    next
      case (Inr held)
      show thesis
      proof (cases "eu_context held = fst (snd (qu_key q))")
        case True
        with \<open>fst (qu_key q) = server\<close> Some Inr assms show thesis by (intro answered [of q held]) (simp_all add: deliver_def Let_def)
      next
        case False
        have e': "(heard, e') = (True, complete (sweep e now) q (Inl (EnumerationInvalid [fault_at ''context''
                     (''the reply echoes context '' @ context_quote env (eu_context held) @ '', want the enumerated ''
                        @ context_quote env (fst (snd (qu_key q))))])))"
          using False True Some Inr assms unfolding deliver_def Let_def by simp
        show thesis by (rule refused [OF Some]) (use e' True in auto)
      qed
    qed
  qed
qed

lemma cache_put_inv:
  assumes "enum_inv e" and "eu_context held = fst (snd key)"
  shows "enum_inv (cache_put (prune e now) key held)" and "nu_pending (cache_put (prune e now) key held) = nu_pending e"
    and "nu_done (cache_put (prune e now) key held) = nu_done e"
proof -
  have "\<forall>x \<in> set (nu_cache (cache_put (prune e now) key held)). case x of (k, h) \<Rightarrow> eu_context h = fst (snd k)"
  proof
    fix x assume "x \<in> set (nu_cache (cache_put (prune e now) key held))"
    then have "x = (key, held) \<or> x \<in> set (nu_cache e)" by (auto simp: cache_put_def prune_def)
    with assms show "case x of (k, h) \<Rightarrow> eu_context h = fst (snd k)" unfolding enum_inv_def by auto
  qed
  then show "enum_inv (cache_put (prune e now) key held)" using assms(1) unfolding enum_inv_def by (simp add: cache_put_def prune_def)
qed (simp_all add: cache_put_def prune_def)

lemma deliver_inv:
  assumes inv: "enum_inv e" and run: "deliver env e server p now = (heard, e')"
  shows "enum_inv e' \<and> outcomes_stay e e'"
  using run
proof (cases rule: deliverE)
  case ignored
  with sweep_inv [OF inv, of now] timed_out_only_parts(1) show ?thesis by auto
next
  case (refused q faults)
  have q: "q \<in> set (nu_pending (sweep e now))" using question_of_in [OF refused(1)] by simp
  from complete_inv [OF sweep_inv(1) [OF inv] q] timed_out_only_parts(1) [OF sweep_inv(2) [OF inv, of now]] refused(2)
  show ?thesis using outcomes_stay_trans by blast
next
  case (answered q held)
  have q: "q \<in> set (nu_pending (sweep e now))" using question_of_in [OF answered(1)] by simp
  let ?c = "cache_put (prune (sweep e now) now) (qu_key q) held"
  note c = cache_put_inv [OF sweep_inv(1) [OF inv, of now] answered(4), of now]
  have "outcomes_stay (sweep e now) ?c" using c(2,3) by (simp add: outcomes_stay_def)
  moreover have "q \<in> set (nu_pending ?c)" using q c(2) by simp
  ultimately show ?thesis
    using complete_inv [OF c(1), of q] timed_out_only_parts(1) [OF sweep_inv(2) [OF inv, of now]] answered(5) outcomes_stay_trans by blast
qed

lemma close_inv:
  assumes inv: "enum_inv e" and "e' = abandon e q err \<or> e' = expire e q"
  shows "enum_inv e' \<and> outcomes_stay e e'"
proof (cases "question_of e (qu_request q) = Some q")
  case True
  with question_of_in [OF True] assms complete_inv [OF inv, of q] show ?thesis by (auto simp: abandon_def expire_def)
next
  case False
  with assms show ?thesis by (auto simp: abandon_def expire_def)
qed

lemma enum_step_inv: "enum_step env e x e' \<Longrightarrow> enum_inv e \<Longrightarrow> enum_inv e' \<and> outcomes_stay e e'"
proof (induction rule: enum_step.induct)
  case (ask e rid key now)
  obtain q started e' where j: "join e key now rid = ((q, started), e')" by (metis surj_pair)
  from join_cases(1,2) [OF ask.prems j ask.hyps] j show ?case by simp
next
  case (give_up e q err)
  then show ?case using close_inv by blast
next
  case (time_out e q)
  then show ?case using close_inv by blast
next
  case (answer e server p now)
  then show ?case using deliver_inv by (metis surj_pair snd_conv)
qed

lemma enum_run_inv: "enum_run env e tr e' \<Longrightarrow> enum_inv e \<Longrightarrow> enum_inv e' \<and> outcomes_stay e e'"
  by (induction rule: enum_run.induct) (auto dest: enum_step_inv intro: outcomes_stay_trans)

lemma new_enumerations_inv [simp]: "enum_inv (new_enumerations ttl timeout)"
  by (simp add: enum_inv_def new_enumerations_def)

subsection \<open>Where answers come from\<close>

text \<open>The question \<open>rid\<close> was asked for the key, and the key's own server answered it, echoing question and context.\<close>

definition answer_of :: "enum_event list \<Rightarrow> enumeration_key \<Rightarrow> string \<Rightarrow> enumeration \<Rightarrow> bool" where
  "answer_of tr key rid h =
     (\<exists>t0 p t. Asked key t0 rid \<in> set tr \<and> Delivered (fst key) p t \<in> set tr \<and> pe_request p = rid \<and> pe_result p = Inr h
        \<and> eu_context h = fst (snd key))"

definition all_solicited :: "enum_event list \<Rightarrow> enumerations \<Rightarrow> bool" where
  "all_solicited tr e =
     ((\<forall>q \<in> set (nu_pending e). \<exists>t. Asked (qu_key q) t (qu_request q) \<in> set tr)
      \<and> (\<forall>rid h. (rid, Inr h) \<in> set (nu_done e) \<longrightarrow> (\<exists>key. answer_of tr key rid h))
      \<and> (\<forall>key h. (key, h) \<in> set (nu_cache e) \<longrightarrow> (\<exists>rid. answer_of tr key rid h)))"

lemma answer_of_longer: "answer_of tr key rid h \<Longrightarrow> answer_of (tr @ tr') key rid h"
  by (auto simp: answer_of_def)

lemma all_solicited_longer: "all_solicited tr e \<Longrightarrow> all_solicited (tr @ tr') e"
  unfolding all_solicited_def set_append using answer_of_longer by blast

lemma all_solicited_less:
  assumes "all_solicited tr e" and "set (nu_pending e') \<subseteq> set (nu_pending e)" and "nu_cache e' = nu_cache e"
    and "\<And>rid h. (rid, Inr h) \<in> set (nu_done e') \<Longrightarrow> (rid, Inr h) \<in> set (nu_done e)"
  shows "all_solicited tr e'"
  unfolding all_solicited_def
proof (intro conjI allI ballI impI)
  show "\<exists>t. Asked (qu_key q) t (qu_request q) \<in> set tr" if "q \<in> set (nu_pending e')" for q
    using assms(1,2) that unfolding all_solicited_def by blast
  show "\<exists>key. answer_of tr key rid h" if "(rid, Inr h) \<in> set (nu_done e')" for rid h
    using assms(1) assms(4) [OF that] unfolding all_solicited_def by blast
  show "\<exists>rid. answer_of tr key rid h" if "(key, h) \<in> set (nu_cache e')" for key h
    using assms(1) that unfolding all_solicited_def assms(3) by blast
qed

lemma sweep_solicited: "enum_inv e \<Longrightarrow> all_solicited tr e \<Longrightarrow> all_solicited tr (sweep e now)"
  by (erule all_solicited_less) (use timed_out_only_parts(2,4,6) [OF sweep_inv(2)] in simp_all)

lemma complete_solicited:
  assumes "all_solicited tr e" and "\<And>h. out = Inr h \<Longrightarrow> \<exists>key. answer_of tr key (qu_request q) h"
  shows "all_solicited tr (complete e q out)"
  unfolding all_solicited_def complete_fields
proof (intro conjI allI ballI impI)
  show "\<exists>t. Asked (qu_key p) t (qu_request p) \<in> set tr" if "p \<in> set (filter (\<lambda>p. qu_request p \<noteq> qu_request q) (nu_pending e))" for p
    using assms(1) that unfolding all_solicited_def by simp
  show "\<exists>key. answer_of tr key rid h" if "(rid, Inr h) \<in> set ((qu_request q, out) # nu_done e)" for rid h
  proof (cases "rid = qu_request q \<and> out = Inr h")
    case True
    with assms(2) show ?thesis by blast
  next
    case False
    with that have "(rid, Inr h) \<in> set (nu_done e)" by auto
    with assms(1) show ?thesis unfolding all_solicited_def by blast
  qed
  show "\<exists>rid. answer_of tr key rid h" if "(key, h) \<in> set (nu_cache e)" for key h
    using assms(1) that unfolding all_solicited_def by blast
qed

lemma close_solicited:
  assumes "all_solicited tr e" and "e' = abandon e q err \<or> e' = expire e q"
  shows "all_solicited tr e'"
  using complete_solicited [OF assms(1), of "Inl err" q] complete_solicited [OF assms(1), of "Inl EnumerationTimeout" q] assms
  by (auto simp: abandon_def expire_def split: if_splits)

lemma deliver_solicited:
  assumes inv: "enum_inv e" and sol: "all_solicited tr e" and run: "deliver env e server p now = (heard, e')"
  shows "all_solicited (tr @ [Delivered server p now]) e'"
proof -
  let ?tr = "tr @ [Delivered server p now]"
  have sw: "all_solicited ?tr (sweep e now)" by (rule all_solicited_longer [OF sweep_solicited [OF inv sol]])
  from run show ?thesis
  proof (cases rule: deliverE)
    case ignored
    with sw show ?thesis by simp
  next
    case (refused q faults)
    from complete_solicited [OF sw, of "Inl (EnumerationInvalid faults)" q] refused(2) show ?thesis by simp
  next
    case (answered q held)
    note q = question_of_in [OF answered(1)]
    obtain t where "Asked (qu_key q) t (qu_request q) \<in> set ?tr" using sw q unfolding all_solicited_def by blast
    with answered(2-4) q have ans: "answer_of ?tr (qu_key q) (qu_request q) held" by (auto simp: answer_of_def)
    have "(key, h) \<in> set (nu_cache (sweep e now)) \<or> key = qu_key q \<and> h = held"
      if "(key, h) \<in> set (nu_cache (cache_put (prune (sweep e now) now) (qu_key q) held))" for key h
      using that by (auto simp: cache_put_def prune_def)
    then have "all_solicited ?tr (cache_put (prune (sweep e now) now) (qu_key q) held)"
      using sw ans cache_put_inv(2,3) [OF sweep_inv(1) [OF inv] answered(4)] unfolding all_solicited_def by metis
    then show ?thesis unfolding answered(5) by (rule complete_solicited) (use ans in blast)
  qed
qed

lemma enum_step_solicited:
  "enum_step env e x e' \<Longrightarrow> enum_inv e \<Longrightarrow> all_solicited tr e \<Longrightarrow> all_solicited (tr @ [x]) e'"
proof (induction rule: enum_step.induct)
  case (ask e rid key now)
  obtain q started e' where j: "join e key now rid = ((q, started), e')" by (metis surj_pair)
  note parts = join_cases [OF ask.prems(1) j ask.hyps]
  have "all_solicited (tr @ [Asked key now rid]) e" by (rule all_solicited_longer [OF ask.prems(2)])
  then have "all_solicited (tr @ [Asked key now rid]) e'"
    using parts(3,7,8) unfolding all_solicited_def by (metis in_set_conv_decomp)
  with j show ?case by simp
next
  case (give_up e q err)
  then show ?case using close_solicited all_solicited_longer by blast
next
  case (time_out e q)
  then show ?case using close_solicited all_solicited_longer by blast
next
  case (answer e server p now)
  then show ?case using deliver_solicited by (metis surj_pair snd_conv)
qed

lemma enum_run_solicited: "enum_run env e tr e' \<Longrightarrow> enum_inv e \<Longrightarrow> all_solicited [] e \<Longrightarrow> all_solicited tr e'"
  by (induction rule: enum_run.induct) (auto intro: enum_step_solicited dest: enum_run_inv)

text \<open>
  C29. One question, one outcome.  Whatever sequence of reads, replies, timeouts and failures the hub has been through,
  no two questions in flight are for the same server, context and manifest revision, no question has two
  outcomes (its channel is never closed twice), and none is both open and answered.
\<close>

theorem one_question_one_outcome:
  assumes "enum_run env (new_enumerations ttl timeout) tr e"
  shows "distinct (map qu_key (nu_pending e)) \<and> distinct (map qu_request (nu_pending e)) \<and> distinct (map fst (nu_done e))
     \<and> qu_request ` set (nu_pending e) \<inter> fst ` set (nu_done e) = {}"
proof -
  have inv: "enum_inv e" using enum_run_inv [OF assms] by simp
  have "inj_on qu_key (set (nu_pending e))"
  proof (rule inj_onI)
    fix p q assume "p \<in> set (nu_pending e)" "q \<in> set (nu_pending e)" "qu_key p = qu_key q"
    with inv have "qu_request p = qu_request q" by (simp add: enum_inv_def) (metis option.inject)
    with pending_unique [OF inv] \<open>p \<in> set (nu_pending e)\<close> \<open>q \<in> set (nu_pending e)\<close> show "p = q" by metis
  qed
  moreover have "distinct (nu_pending e)" using inv by (auto simp: enum_inv_def distinct_map)
  ultimately show ?thesis using inv by (simp add: enum_inv_def distinct_map)
qed

lemma enum_step_answers:
  assumes "enum_step env e x e'" and inv: "enum_inv e" and q: "q \<in> set (nu_pending e)"
    and new: "(qu_request q, Inr h) \<in> set (nu_done e')" "(qu_request q, Inr h) \<notin> set (nu_done e)"
  shows "\<exists>p t. x = Delivered (fst (qu_key q)) p t \<and> pe_request p = qu_request q \<and> pe_result p = Inr h \<and> eu_context h = fst (snd (qu_key q))"
  using assms(1)
proof cases
  case (ask rid key now)
  obtain q' started where "join e key now rid = ((q', started), e')" using ask by (metis surj_pair snd_conv)
  from join_cases(8) [OF inv this ask(3) new(1)] new(2) show ?thesis by simp
next
  case (answer server p now)
  obtain heard where "deliver env e server p now = (heard, e')" using answer by (metis surj_pair snd_conv)
  note sw = timed_out_only_parts(4,6) [OF sweep_inv(2) [OF inv, of now]]
  from \<open>deliver env e server p now = (heard, e')\<close> show ?thesis
  proof (cases rule: deliverE)
    case ignored
    with sw(2) new show ?thesis by blast
  next
    case (refused q' faults)
    with sw(2) new show ?thesis by auto
  next
    case (answered q' held)
    note q' = question_of_in [OF answered(1)]
    have "nu_done e' = (qu_request q', Inr held) # nu_done (sweep e now)"
      using cache_put_inv(3) [OF sweep_inv(1) [OF inv] answered(4)] answered(5) by simp
    with sw(2) new have same: "qu_request q' = qu_request q" "held = h" by auto
    have "q' = q" by (rule pending_unique [OF inv q _ same(1)]) (use q' sw(1) in blast)
    with answered(2-4) answer(1) same(2) q' show ?thesis by simp
  qed
qed (use new in \<open>auto simp: abandon_def expire_def split: if_splits\<close>)

lemma enum_run_answers:
  assumes "enum_run env e tr e'" and inv: "enum_inv e" and q: "q \<in> set (nu_pending e)" and ans: "(qu_request q, Inr h) \<in> set (nu_done e')"
  shows "eu_context h = fst (snd (qu_key q))
     \<and> (\<exists>p t. Delivered (fst (qu_key q)) p t \<in> set tr \<and> pe_request p = qu_request q \<and> pe_result p = Inr h)"
  using assms(1,4)
proof induction
  case start
  then have "qu_request q \<in> fst ` set (nu_done e)" by (rule image_eqI [rotated]) simp
  with inv q show ?case unfolding enum_inv_def by blast
next
  case (more tr e1 x e2)
  show ?case
  proof (cases "(qu_request q, Inr h) \<in> set (nu_done e1)")
    case True
    with more.IH show ?thesis by auto
  next
    case False
    from enum_run_inv [OF more.hyps(1) inv] have e1: "enum_inv e1" "outcomes_stay e e1" by simp_all
    from enum_step_inv [OF more.hyps(2) e1(1)] have e2: "enum_inv e2" "outcomes_stay e1 e2" by simp_all
    have "q \<in> set (nu_pending e1)"
    proof (rule ccontr)
      assume "q \<notin> set (nu_pending e1)"
      with e1(2) q obtain out where out: "map_of (nu_done e1) (qu_request q) = Some out" unfolding outcomes_stay_def map_of_known by blast
      with e2(2) have "map_of (nu_done e2) (qu_request q) = Some out" unfolding outcomes_stay_def by blast
      moreover have "map_of (nu_done e2) (qu_request q) = Some (Inr h)"
        using more.prems e2(1) by (simp add: enum_inv_def)
      ultimately show False using map_of_SomeD [OF out] False by simp
    qed
    from enum_step_answers [OF more.hyps(2) e1(1) this more.prems False] show ?thesis by auto
  qed
qed

text \<open>
  C30. Only the asked server's answer is served.  An enumeration a waiting reader is answered with came, after the reader was
  given its question, in a reply of the very server the reader asked about, and echoes the question's id and the
  context; one the cache hands out came in a reply of that server to a question about that context and manifest
  revision, and is younger than the cache bound.
\<close>

theorem answers_are_solicited:
  assumes run: "enum_run env (new_enumerations ttl timeout) tr e" and fresh: "fresh_request e rid"
    and joined: "join e key now rid = ((q, started), e1)" and later: "enum_run env e1 tr' e2"
  shows "(cached e key now = Some h \<longrightarrow> now - eu_at h < ttl \<and> (\<exists>r. answer_of tr key r h))
     \<and> (fst (await_answer env e2 q) = EnumerateAnswer h \<longrightarrow> eu_context h = fst (snd key)
          \<and> (\<exists>p t. Delivered (fst key) p t \<in> set tr' \<and> pe_request p = qu_request q \<and> pe_result p = Inr h))"
proof -
  have "all_solicited [] (new_enumerations ttl timeout)" by (simp add: all_solicited_def new_enumerations_def)
  from enum_run_solicited [OF run _ this] have sol: "all_solicited tr e" by simp
  have ttl: "nu_ttl e = ttl" using run
  proof induction
    case (more tr e1 x e2)
    have "nu_ttl e2 = nu_ttl e1"
      using more.hyps(2)
    proof cases
      case (ask rid key now)
      obtain q started where "join e1 key now rid = ((q, started), e2)" using ask by (metis surj_pair snd_conv)
      from join_cases(4) [OF enum_run_inv [OF more.hyps(1), THEN conjunct1] this ask(3)] show ?thesis by simp
    next
      case (answer server p now)
      have sw: "nu_ttl (sweep e1 now) = nu_ttl e1"
        using timed_out_only_parts(3) [OF sweep_inv(2) [OF enum_run_inv [OF more.hyps(1), THEN conjunct1]]] by simp
      obtain heard where "deliver env e1 server p now = (heard, e2)" using answer by (metis surj_pair snd_conv)
      then show ?thesis by (cases rule: deliverE) (simp_all add: sw cache_put_def prune_def)
    qed (auto simp: abandon_def expire_def)
    with more.IH show ?case by simp
  qed (simp add: new_enumerations_def)
  have "now - eu_at h < ttl \<and> (\<exists>rid. answer_of tr key rid h)" if "cached e key now = Some h"
  proof -
    from that ttl have "map_of (nu_cache e) key = Some h" "now - eu_at h < ttl" by (auto simp: cached_def split: option.splits if_splits)
    with sol map_of_SomeD [OF this(1)] show ?thesis unfolding all_solicited_def by blast
  qed
  moreover have "eu_context h = fst (snd key)
      \<and> (\<exists>p t. Delivered (fst key) p t \<in> set tr' \<and> pe_request p = qu_request q \<and> pe_result p = Inr h)"
    if ans: "fst (await_answer env e2 q) = EnumerateAnswer h"
  proof -
    have inv: "enum_inv e" using enum_run_inv [OF run] by simp
    note j = join_cases(1,5,6) [OF inv joined fresh]
    have reply: "out = Inr h" if "enumeration_reply env e' out = EnumerateAnswer h" for out e'
      using that by (auto simp: enumeration_reply_def split: sum.splits enum_error.splits)
    have "(qu_request q, Inr h) \<in> set (nu_done e2)"
    proof (cases "map_of (nu_done e2) (qu_request q)")
      case (Some out)
      with ans reply [of e2 out] show ?thesis by (auto simp: await_answer_def dest: map_of_SomeD)
    next
      case None
      then have "map_of (nu_done (expire e2 q)) (qu_request q) \<in> {None, Some (Inl EnumerationTimeout)}" by (auto simp: expire_def)
      with ans None show ?thesis by (auto simp: await_answer_def enumeration_reply_def Let_def)
    qed
    from enum_run_answers [OF later j(1,2) this] j(3) show ?thesis by simp
  qed
  ultimately show ?thesis by blast
qed

text \<open>
  C31. No reader waits forever.  A reader that was given a question, its own or one it joined, gets a response once its
  timer has run out, whatever has happened to the question since.
\<close>

theorem reader_always_answered:
  assumes "enum_run env (new_enumerations ttl timeout) tr e" and "fresh_request e rid" and "join e key now rid = ((q, started), e1)"
    and "enum_run env e1 tr' e2"
  shows "fst (await_answer env e2 q) \<noteq> EnumerateHangs"
proof -
  have inv: "enum_inv e" using enum_run_inv [OF assms(1)] by simp
  note j = join_cases(1,5) [OF inv assms(3,2)]
  from enum_run_inv [OF assms(4) j(1)] have e2: "enum_inv e2" "outcomes_stay e1 e2" by simp_all
  have no_hang: "enumeration_reply env e' out \<noteq> EnumerateHangs" for e' out
    by (simp add: enumeration_reply_def split: sum.splits enum_error.splits)
  show ?thesis
  proof (cases "map_of (nu_done e2) (qu_request q)")
    case (Some out)
    with no_hang show ?thesis by (simp add: await_answer_def)
  next
    case None
    with e2(2) j(2) have "q \<in> set (nu_pending e2)" unfolding outcomes_stay_def map_of_known by auto
    from question_of_pending [OF e2(1) this] None no_hang show ?thesis by (simp add: await_answer_def expire_def Let_def)
  qed
qed

definition sample_context :: context_env where
  "sample_context =
     \<lparr>cn_ingest = sample_ingest, cn_body = \<lambda>t. None, cn_text = \<lambda>t. None, cn_entries = \<lambda>t. Inl [], cn_contexts = \<lambda>t. None,
      cn_question = \<lambda>r c. r, cn_duration = \<lambda>n. []\<rparr>"

definition sample_key :: enumeration_key where "sample_key = (''s1'', ''shop'', 3)"

definition sample_answer :: enumeration where
  "sample_answer = \<lparr>eu_context = ''shop'', eu_entries = ''[]'', eu_reason = None, eu_at = 1\<rparr>"

definition sample_enum_reply :: prepared_entries where
  "sample_enum_reply = \<lparr>pe_request = ''r1'', pe_result = Inr sample_answer\<rparr>"

definition sample_question :: question where
  "sample_question = \<lparr>qu_key = sample_key, qu_request = ''r1'', qu_deadline = 5\<rparr>"

definition sample_asked :: enumerations where "sample_asked = snd (join (new_enumerations 10 5) sample_key 0 ''r1'')"

definition sample_replied :: enumerations where "sample_replied = snd (deliver sample_context sample_asked ''s1'' sample_enum_reply 1)"

lemmas sample_enum_defs = sample_key_def sample_answer_def sample_enum_reply_def sample_question_def sample_asked_def sample_replied_def

lemma sample_enum_fresh: "fresh_request (new_enumerations 10 5) ''r1''"
  by (simp add: fresh_request_def new_enumerations_def)

lemma sample_enum_join: "join (new_enumerations 10 5) sample_key 0 ''r1'' = ((sample_question, True), sample_asked)"
  by (simp add: sample_enum_defs join_def Let_def sweep_def new_enumerations_def)

lemma sample_enum_run: "enum_run sample_context sample_asked [Delivered ''s1'' sample_enum_reply 1] sample_replied"
  using enum_run.more [OF enum_run.start enum_step.answer] by (simp add: sample_replied_def)

lemma sample_enum_whole:
  "enum_run sample_context (new_enumerations 10 5) [Asked sample_key 0 ''r1'', Delivered ''s1'' sample_enum_reply 1] sample_replied"
  using enum_run.more [OF enum_run.more [OF enum_run.start enum_step.ask [OF sample_enum_fresh]] enum_step.answer]
  by (simp add: sample_replied_def sample_asked_def)

lemma sample_enum_await: "fst (await_answer sample_context sample_replied sample_question) = EnumerateAnswer sample_answer"
  by (simp add: sample_enum_defs join_def Let_def sweep_def new_enumerations_def deliver_def question_of_def complete_def forget_def
      cache_put_def prune_def await_answer_def enumeration_reply_def)

theorem one_question_one_outcome_witness:
  "distinct (map qu_key (nu_pending sample_replied)) \<and> distinct (map fst (nu_done sample_replied))"
  using one_question_one_outcome [OF sample_enum_whole] by blast

theorem answers_are_solicited_witness:
  "fst (await_answer sample_context sample_replied sample_question) = EnumerateAnswer sample_answer
     \<and> (\<exists>p t. Delivered ''s1'' p t \<in> set [Delivered ''s1'' sample_enum_reply 1] \<and> pe_request p = ''r1'' \<and> pe_result p = Inr sample_answer)"
proof -
  have key: "fst sample_key = ''s1''" and request: "qu_request sample_question = ''r1''" by (simp_all add: sample_enum_defs)
  from answers_are_solicited [OF enum_run.start sample_enum_fresh sample_enum_join sample_enum_run] sample_enum_await
  have "\<exists>p t. Delivered (fst sample_key) p t \<in> set [Delivered ''s1'' sample_enum_reply 1] \<and> pe_request p = qu_request sample_question
      \<and> pe_result p = Inr sample_answer" by blast
  with sample_enum_await show ?thesis unfolding key request by blast
qed

theorem reader_always_answered_witness:
  "fst (await_answer sample_context sample_replied sample_question) \<noteq> EnumerateHangs"
  by (rule reader_always_answered [OF enum_run.start sample_enum_fresh sample_enum_join sample_enum_run])

subsection \<open>What an accepted reply carries\<close>

lemma accepted_entries_clean: "context_entries_faults env i es = [] \<Longrightarrow> c \<in> set es \<Longrightarrow> \<exists>k. context_entry_faults env k c = []"
  by (induction env i es rule: context_entries_faults.induct) auto

lemma accepted_reply_bounded:
  assumes "pe_result (validate_context_entries env e now) = Inr h"
  shows "length (ie_body e) \<le> 262144 \<and> eu_context h \<noteq> '''' \<and> rune_count (eu_context h) \<le> 64 \<and> eu_at h = now
     \<and> (\<exists>es. cn_entries env (eu_entries h) = Inr es \<and> length es \<le> 5000
          \<and> (\<forall>c \<in> set es. cx_key c \<noteq> '''' \<and> rune_count (cx_key c) \<le> 128 \<and> (\<exists>l. cx_label c = Some l \<and> rune_count l \<le> 200)))"
proof -
  have entries: "\<forall>c \<in> set es. cx_key c \<noteq> '''' \<and> rune_count (cx_key c) \<le> 128 \<and> (\<exists>l. cx_label c = Some l \<and> rune_count l \<le> 200)"
    if clean: "context_entries_faults env 0 es = []" for es
  proof
    fix c assume "c \<in> set es"
    from accepted_entries_clean [OF clean this] show "cx_key c \<noteq> '''' \<and> rune_count (cx_key c) \<le> 128 \<and> (\<exists>l. cx_label c = Some l \<and> rune_count l \<le> 200)"
      by (auto simp: context_entry_faults_def Let_def too_long_def max_context_entry_key_def max_context_entry_label_def
          split: option.splits if_splits)
  qed
  show ?thesis
    using assms entries unfolding validate_context_entries_def Let_def max_context_entries_bytes_def max_context_entries_def
      max_enumerated_id_length_def too_long_def
    by (simp del: context_entries_faults.simps split: option.splits if_splits sum.splits)
      (auto simp del: context_entries_faults.simps)
qed

end
