(* ===== verification/ServerApi.thy ===== *)
theory ServerApi
  imports Poll Bans
begin

text \<open>
  A server's life over the two APIs: the server routes of the Admin API (hub/admin.go: creating a server, issuing an
  enrollment token, revoking, queueing a raw envelope, reading the record) and the account routes of the Plugin API
  (hub/plugin.go: enrolling, opening a session, reading it).

  Drawn secrets, digests, \<open>strings.ToLower\<close>, decoding and the clock are the record \<open>server_env\<close>; \<open>ac_meanwhile\<close> is what other
  requests do between two transactions of one handler.
\<close>

subsection \<open>Requests, views and limits\<close>

definition max_server_name_length :: nat where "max_server_name_length = 200"
definition max_game_length :: nat where "max_game_length = 64"
definition min_enrollment_token_ttl :: int where "min_enrollment_token_ttl = 60 * action_second"
definition max_enrollment_token_ttl :: int where "max_enrollment_token_ttl = 30 * 24 * 3600 * action_second"

definition reserved_envelope_types :: "string list" where
  "reserved_envelope_types = [''action.'', ''manifest.'', ''context.'', ''event.'', ''state.'', ''bans.'']"

definition protocol_version :: int where "protocol_version = 1"
definition envelope_version :: int where "envelope_version = 1"
definition supported_protocol_versions :: "int list" where "supported_protocol_versions = [protocol_version]"

definition protocol_version_supported :: "int \<Rightarrow> bool" where
  "protocol_version_supported version = list_ex (\<lambda>supported. version = supported) supported_protocol_versions"

record create_server_request =
  cs_name :: string
  cs_game :: string
  cs_ttl :: int

record queue_envelope_request =
  qe_type :: string
  qe_body :: string

record enroll_request =
  er_token :: string
  er_game :: string
  er_plugin :: plugin_info

record session_request =
  sq_server :: string
  sq_secret :: string
  sq_protocol :: int
  sq_poll_timeout :: int
  sq_plugin :: plugin_info

record server_env =
  ac_lower :: "string \<Rightarrow> string"
  ac_hash :: "string \<Rightarrow> string"
  ac_secret :: string
  ac_drawn :: string
  ac_clock :: "nat \<Rightarrow> time"
  ac_meanwhile :: "nat \<Rightarrow> db \<Rightarrow> db"
  ac_create :: "string \<Rightarrow> bool \<times> create_server_request decoded"
  ac_issue :: "string \<Rightarrow> bool \<times> int decoded"
  ac_queue :: "string \<Rightarrow> bool \<times> queue_envelope_request decoded"
  ac_enroll :: "string \<Rightarrow> bool \<times> enroll_request decoded"
  ac_open :: "string \<Rightarrow> bool \<times> session_request decoded"
  ac_object :: "string \<Rightarrow> bool"
  ac_capabilities :: "string \<Rightarrow> string list"
  ac_enrollment_ttl :: int
  ac_session_ttl :: int

definition normalize_game :: "server_env \<Rightarrow> string \<Rightarrow> string" where
  "normalize_game env game = ac_lower env (trim_space game)"

record server_bans_view =
  bv_supported :: bool
  bv_applied_revision :: "int option"
  bv_applied_at :: "time option"

record server_view =
  vw_server :: server
  vw_credentials :: credential_state
  vw_pending :: int
  vw_plugin :: "(string \<times> string \<times> string list) option"
  vw_session :: "(string \<times> time \<times> int) option"
  vw_bans :: server_bans_view

definition new_server_view :: "server \<Rightarrow> session option \<Rightarrow> int \<Rightarrow> string list \<Rightarrow> server_view" where
  "new_server_view s live waiting capabilities =
     \<lparr>vw_server = s, vw_credentials = credential_state s, vw_pending = waiting,
      vw_plugin = (if sr_plugin_name s \<noteq> '''' \<or> sr_plugin_version s \<noteq> '''' \<or> sr_transports s \<noteq> []
        then Some (sr_plugin_name s, sr_plugin_version s, sr_transports s) else None),
      vw_session = map_option (\<lambda>x. (se_id x, se_expires x, se_poll_timeout x)) live,
      vw_bans = \<lparr>bv_supported = list_ex (\<lambda>c. c = capability_bans) capabilities,
        bv_applied_revision = sr_bans_revision s, bv_applied_at = sr_bans_at s\<rparr>\<rparr>"

definition server_view_of :: "server_env \<Rightarrow> db \<Rightarrow> server \<Rightarrow> time \<Rightarrow> server_view" where
  "server_view_of env d s now =
     new_server_view s (live_session d (sr_id s) now) (pending_envelope_count d (sr_id s))
       (manifest_capabilities (ac_capabilities env) d (sr_id s))"

subsection \<open>The server routes of the Admin API\<close>

text \<open>\<open>issueEnrollmentToken\<close>: the requested lifetime between a minute and thirty days.\<close>

definition enrollment_ttl :: "server_env \<Rightarrow> int \<Rightarrow> int" where
  "enrollment_ttl env ttl_seconds =
     (let ttl = (if ttl_seconds > 0 then wrap64 (ttl_seconds * action_second) else ac_enrollment_ttl env)
      in min (max ttl min_enrollment_token_ttl) max_enrollment_token_ttl)"

definition mint_enrollment ::
  "server_env \<Rightarrow> db \<Rightarrow> string \<Rightarrow> int \<Rightarrow> time \<Rightarrow> store_error + ((string \<times> time) \<times> db)" where
  "mint_enrollment env d sid ttl_seconds now =
     (case issue_enrollment_token d sid (ac_hash env (ac_secret env)) (enrollment_ttl env ttl_seconds) now of
        Inl err \<Rightarrow> Inl err
      | Inr (expires, d') \<Rightarrow> Inr ((ac_secret env, expires), d'))"

definition handle_create_server :: "server_env \<Rightarrow> (server_view \<times> string \<times> time) handler" where
  "handle_create_server env caller body e d =
     (case decode_body (fst (ac_create env body)) None (snd (ac_create env body)) of
        Inl refused \<Rightarrow> (Failure refused, e, d)
      | Inr q \<Rightarrow>
          let name = trim_space (cs_name q); game = normalize_game env (cs_game q) in
          if name = '''' then (Failure (bad_request ''name is required''), e, d)
          else if length name > max_server_name_length then (Failure (bad_request ''name is too long''), e, d)
          else if length game > max_game_length then (Failure (bad_request ''game is too long''), e, d)
          else case create_server d name game (ac_drawn env) (ac_clock env 0) of
            Inl err \<Rightarrow> (Failure internal_error, e, d)
          | Inr (s, d1) \<Rightarrow>
              let e1 = audit_detail ''serverId'' (JString (sr_id s)) (e\<lparr>ae_server := sr_id s\<rparr>);
                  d2 = ac_meanwhile env 0 d1
              in case mint_enrollment env d2 (sr_id s) (cs_ttl q) (ac_clock env 1) of
                   Inl err \<Rightarrow> (Failure internal_error, e1, d2)
                 | Inr (minted, d3) \<Rightarrow>
                     (Success 201 (new_server_view s None 0 [], minted),
                      audit_detail ''game'' (JString (sr_game s)) (audit_detail ''name'' (JString (sr_name s)) e1), d3))"

definition handle_list_servers :: "server_env \<Rightarrow> server_view list handler" where
  "handle_list_servers env caller body e d =
     (Success 200 (map (\<lambda>s. server_view_of env d s (ac_clock env 0)) (filter (\<lambda>s. bound_to caller (sr_id s)) (list_servers d))), e, d)"

definition handle_get_server :: "server_env \<Rightarrow> string \<Rightarrow> server_view handler" where
  "handle_get_server env sid caller body e d =
     (case lookup_server d sid of
        Inl refused \<Rightarrow> (Failure refused, e, d)
      | Inr s \<Rightarrow> (Success 200 (server_view_of env d s (ac_clock env 0)), e, d))"

definition handle_issue_enrollment_token :: "server_env \<Rightarrow> string \<Rightarrow> (string \<times> time) handler" where
  "handle_issue_enrollment_token env sid caller body e d =
     (case lookup_server d sid of
        Inl refused \<Rightarrow> (Failure refused, e, d)
      | Inr s \<Rightarrow>
     (case decode_optional (ac_issue env) 0 body of
        Inl refused \<Rightarrow> (Failure refused, e, d)
      | Inr ttl \<Rightarrow>
          let d1 = ac_meanwhile env 0 d in
          case mint_enrollment env d1 (sr_id s) ttl (ac_clock env 0) of
            Inl err \<Rightarrow> (Failure internal_error, e, d1)
          | Inr (minted, d2) \<Rightarrow> (Success 201 minted, e, d2)))"

definition handle_revoke_credentials :: "server_env \<Rightarrow> string \<Rightarrow> unit handler" where
  "handle_revoke_credentials env sid caller body e d =
     (case lookup_server d sid of
        Inl refused \<Rightarrow> (Failure refused, e, d)
      | Inr s \<Rightarrow>
          let d1 = ac_meanwhile env 0 d in
          case revoke_credentials d1 (sr_id s) (ac_clock env 0) of
            Inl err \<Rightarrow> (Failure (if err = ErrNotFound then not_found ''no such server'' else internal_error), e, d1)
          | Inr d2 \<Rightarrow> (Success 204 (), e, d2))"

record queued_envelope_view =
  qv_id :: string
  qv_type :: string
  qv_ts :: stamp

definition handle_queue_envelope :: "server_env \<Rightarrow> string \<Rightarrow> queued_envelope_view handler" where
  "handle_queue_envelope env sid caller body e d =
     (case lookup_server d sid of
        Inl refused \<Rightarrow> (Failure refused, e, d)
      | Inr s \<Rightarrow>
     (case decode_body (fst (ac_queue env body)) None (snd (ac_queue env body)) of
        Inl refused \<Rightarrow> (Failure refused, e, d)
      | Inr q \<Rightarrow>
          let ty = trim_space (qe_type q) in
          if ty = '''' then (Failure (bad_request ''type is required''), e, d)
          else if length ty > max_envelope_type then (Failure (bad_request ''type is too long''), e, d)
          else if list_ex (\<lambda>p. prefix p ty) reserved_envelope_types
          then (Failure (Refusal 409 ''conflict'' (''envelope type '' @ ty @ '' belongs to a dedicated endpoint that validates it'')), e, d)
          else if present (qe_body q) \<and> \<not> ac_object env (qe_body q) then (Failure (bad_request ''body must be a JSON object''), e, d)
          else let text = (if present (qe_body q) then qe_body q else ''{}''); d1 = ac_meanwhile env 0 d in
            case queue_envelope d1 (sr_id s) ty text outbound_queue_limit (ac_drawn env) (ac_clock env 0) of
              Inl err \<Rightarrow>
                (Failure (if err = ErrOutboundQueueFull
                   then Refusal 409 ''outbound_queue_full'' (''this server already has '' @ show_int outbound_queue_limit @ '' unacked envelopes queued'')
                   else if err = ErrNotFound then not_found ''no such server'' else internal_error), e, d1)
            | Inr (row, d2) \<Rightarrow>
                (Success 202 \<lparr>qv_id = en_id row, qv_type = en_type row, qv_ts = en_created row\<rparr>,
                 audit_detail ''envelopeType'' (JString (en_type row)) (audit_detail ''envelopeId'' (JString (en_id row)) e), d2)))"

subsection \<open>The account routes of the Plugin API\<close>

text \<open>The identity a plugin is told; the ban list's revision and the manifest's are on session answers only.\<close>

record server_identity =
  si_id :: string
  si_name :: string
  si_game :: string
  si_manifest_revision :: "int option"
  si_bans_revision :: "int option"

definition new_server_identity :: "server \<Rightarrow> server_identity" where
  "new_server_identity s =
     \<lparr>si_id = sr_id s, si_name = sr_name s, si_game = sr_game s, si_manifest_revision = None, si_bans_revision = None\<rparr>"

record session_response =
  sp_session :: string
  sp_token :: string
  sp_expires :: time
  sp_protocol :: int
  sp_envelope :: int
  sp_poll_timeout :: int
  sp_server :: server_identity

text \<open>Two more reads; the manifest's error other than its absence is the driver's.\<close>

definition new_session_response :: "db \<Rightarrow> session \<Rightarrow> server \<Rightarrow> session_response" where
  "new_session_response d s v =
     \<lparr>sp_session = se_id s, sp_token = '''', sp_expires = se_expires s, sp_protocol = se_protocol s,
      sp_envelope = envelope_version, sp_poll_timeout = se_poll_timeout s,
      sp_server = (new_server_identity v)\<lparr>
        si_manifest_revision := (case find_manifest d (sr_id v) of Inl err \<Rightarrow> None | Inr m \<Rightarrow> Some (mf_revision m)),
        si_bans_revision := Some (ban_revision d)\<rparr>\<rparr>"

record enroll_response =
  el_server :: string
  el_secret :: string
  el_identity :: server_identity

definition enroll_refusal :: "store_error \<Rightarrow> refusal" where
  "enroll_refusal err =
     (if err = ErrEnrollmentTokenInvalid then Refusal 401 ''enrollment_token_invalid'' ''enrollment token is unknown or expired''
      else if err = ErrEnrollmentTokenUsed
      then Refusal 409 ''enrollment_token_used'' ''enrollment token has already been used; ask the operator for a new one''
      else if err = ErrGameMismatch then Refusal 409 ''game_mismatch'' ''this server record is registered for a different game''
      else internal_error)"

definition handle_enroll :: "server_env \<Rightarrow> string \<Rightarrow> db \<Rightarrow> enroll_response reply \<times> db" where
  "handle_enroll env body d =
     (case decode_body (fst (ac_enroll env body)) None (snd (ac_enroll env body)) of
        Inl refused \<Rightarrow> (Failure refused, d)
      | Inr q \<Rightarrow>
          let token = trim_space (er_token q); game = normalize_game env (er_game q) in
          if token = '''' then (Failure (bad_request ''enrollmentToken is required''), d)
          else if game = '''' then (Failure (bad_request ''game is required''), d)
          else if length game > max_game_length then (Failure (bad_request ''game is too long''), d)
          else case enroll d (ac_hash env token) game (ac_hash env (ac_secret env)) (er_plugin q) (ac_clock env 0) of
            Inl err \<Rightarrow> (Failure (enroll_refusal err), d)
          | Inr (s, d') \<Rightarrow>
              (Success 201 \<lparr>el_server = sr_id s, el_secret = ac_secret env, el_identity = new_server_identity s\<rparr>, d'))"

definition session_login_refusal :: "store_error \<Rightarrow> refusal" where
  "session_login_refusal err =
     (if err = ErrCredentialsInvalid then Refusal 401 ''credentials_invalid'' ''server id and secret do not match''
      else if err = ErrCredentialsRevoked
      then Refusal 401 ''credentials_revoked'' ''these credentials were revoked; enroll again with a new enrollment token''
      else internal_error)"

definition handle_create_session :: "server_env \<Rightarrow> string \<Rightarrow> db \<Rightarrow> session_response reply \<times> db" where
  "handle_create_session env body d =
     (case decode_body (fst (ac_open env body)) None (snd (ac_open env body)) of
        Inl refused \<Rightarrow> (Failure refused, d)
      | Inr q \<Rightarrow>
          let sid = trim_space (sq_server q); secret = trim_space (sq_secret q);
              version = (if sq_protocol q = 0 then protocol_version else sq_protocol q)
          in if sid = '''' \<or> secret = '''' then (Failure (bad_request ''serverId and serverSecret are required''), d)
             else if \<not> protocol_version_supported version
             then (Failure (Refusal 400 ''protocol_version_unsupported'' (''this hub does not speak protocol version '' @ show_int version)), d)
             else case authenticate_server d sid (ac_hash env secret) of
               Inl err \<Rightarrow> (Failure (session_login_refusal err), d)
             | Inr v \<Rightarrow>
                 let d1 = ac_meanwhile env 0 d;
                     timeout = clamp_poll_timeout (wrap64 (sq_poll_timeout q * action_second))
                 in case start_session d1 \<lparr>ns_server = sr_id v, ns_token = ac_hash env (ac_secret env), ns_ttl = ac_session_ttl env,
                        ns_protocol = version, ns_poll_timeout = timeout div action_second, ns_plugin = sq_plugin q\<rparr>
                        (ac_drawn env) (ac_clock env 0) of
                      Inl err \<Rightarrow> (Failure internal_error, d1)
                    | Inr (s, d2) \<Rightarrow>
                        let d3 = ac_meanwhile env 1 d2
                        in (Success 200 ((new_session_response d3 s v)\<lparr>sp_token := ac_secret env\<rparr>), d3))"

definition handle_get_session :: "server_env \<Rightarrow> string \<Rightarrow> db \<Rightarrow> session_response reply \<times> db" where
  "handle_get_session env presented d =
     (case session_gate (ac_hash env) d presented (ac_clock env 0) of
        Inl refused \<Rightarrow> (Failure refused, d)
      | Inr (s, v) \<Rightarrow> (Success 200 (new_session_response d s v), d))"

subsection \<open>What the routes guarantee\<close>

lemma enrollment_ttl_bounds: "min_enrollment_token_ttl \<le> enrollment_ttl env s" "enrollment_ttl env s \<le> max_enrollment_token_ttl"
  by (auto simp: enrollment_ttl_def Let_def min_enrollment_token_ttl_def max_enrollment_token_ttl_def action_second_def)

lemma lookup_serverE:
  assumes "lookup_server d sid = Inr s"
  obtains r where "find (\<lambda>r. sv_id r = sid) (servers d) = Some r" "s = scan_server r" "sr_id s = sid" "sv_id r = sid"
proof -
  from assms obtain r where r: "find (\<lambda>r. sv_id r = sid) (servers d) = Some r" "s = scan_server r"
    by (auto simp: lookup_server_def find_server_def split: option.splits sum.splits)
  from find_Some_in [OF r(1)] r that show thesis by (simp add: scan_server_def)
qed

lemma queue_envelope_ok:
  "queue_envelope d server ty text limit eid now = Inr (row, d') \<Longrightarrow>
     outbound d' = outbound d @ [row] \<and> en_server row = server \<and> en_type row = ty \<and> en_body row = text \<and> en_id row = eid
     \<and> (0 < limit \<longrightarrow> affected (pending server) (outbound d) < limit)"
  by (auto simp: queue_envelope_def queue_outbound_def insert_outbound_def new_outbound_def Let_def split: if_splits sum.splits)

text \<open>
  C38. The raw queue cannot forge.  An envelope put on a server's queue through the transport-level route is of no type the
  hub models itself, has a type of 1 to 128 bytes and an object as its body, is for the server the caller named, and
  is last in the queue, which was below its bound; a request that is refused queues nothing.
\<close>

theorem raw_queue_never_forges:
  assumes run: "handle_queue_envelope env sid caller body e d = (reply, e', d')"
  shows "case reply of
      Failure refused \<Rightarrow> d' = d \<or> d' = ac_meanwhile env 0 d
    | Success status view \<Rightarrow>
        status = 202 \<and> (\<exists>row. outbound d' = outbound (ac_meanwhile env 0 d) @ [row] \<and> en_server row = sid \<and> en_id row = qv_id view
          \<and> \<not> list_ex (\<lambda>p. prefix p (en_type row)) reserved_envelope_types \<and> 0 < length (en_type row) \<and> length (en_type row) \<le> 128
          \<and> (en_body row = ''{}'' \<or> ac_object env (en_body row))
          \<and> pending_envelope_count (ac_meanwhile env 0 d) sid < outbound_queue_limit)"
proof (cases "lookup_server d sid")
  case (Inl refused)
  with run show ?thesis by (auto simp: handle_queue_envelope_def)
next
  case (Inr s)
  note found = this
  from lookup_serverE [OF Inr] have sid: "sr_id s = sid" by blast
  show ?thesis
  proof (cases "decode_body (fst (ac_queue env body)) None (snd (ac_queue env body))")
    case (Inl refused)
    with run found show ?thesis by (auto simp: handle_queue_envelope_def)
  next
    case (Inr q)
    let ?ty = "trim_space (qe_type q)" and ?text = "if present (qe_body q) then qe_body q else ''{}''" and ?d = "ac_meanwhile env 0 d"
    show ?thesis
    proof (cases "?ty = '''' \<or> length ?ty > max_envelope_type \<or> list_ex (\<lambda>p. prefix p ?ty) reserved_envelope_types
        \<or> present (qe_body q) \<and> \<not> ac_object env (qe_body q)")
      case True
      with run found Inr show ?thesis by (auto simp: handle_queue_envelope_def Let_def split: if_splits)
    next
      case False
      show ?thesis
      proof (cases "queue_envelope ?d (sr_id s) ?ty ?text outbound_queue_limit (ac_drawn env) (ac_clock env 0)")
        case (Inl err)
        with run found Inr False show ?thesis by (auto simp: handle_queue_envelope_def Let_def)
      next
        case (Inr p)
        obtain row d2 where p: "p = (row, d2)" by (cases p)
        have reply: "reply = Success 202 \<lparr>qv_id = en_id row, qv_type = en_type row, qv_ts = en_created row\<rparr>" "d' = d2"
          using run found \<open>decode_body _ _ _ = Inr q\<close> False Inr p by (auto simp: handle_queue_envelope_def Let_def)
        from queue_envelope_ok [OF Inr [unfolded p]] False sid show ?thesis
          by (auto simp: reply pending_envelope_count_def max_envelope_type_def outbound_queue_limit_def)
      qed
    qed
  qed
qed

lemma minted_token_enrolls:
  assumes inv: "auth_inv d" and mint: "issue_enrollment_token d sid hash ttl t0 = Inr (expires, d1)"
    and live: "now < expires" and game: "\<forall>r \<in> set (servers d). sv_id r = sid \<longrightarrow> sv_game r = '''' \<or> sv_game r = game"
    and secret: "secret \<notin> sv_secret ` set (servers d)"
  obtains s d2 where "enroll d1 hash game secret plugin now = Inr (s, d2)" "sr_id s = sid" "auth_inv d2"
    "sessions d2 = sessions (end_sessions d sid session_end_credentials now)"
    "\<exists>r. find (\<lambda>r. sv_id r = sid) (servers d2) = Some r \<and> sv_secret r = secret \<and> sv_revoked r = None"
proof -
  obtain t where d1: "d1 = d\<lparr>enrollment_tokens :=
        delete_where (\<lambda>t. et_server t = sid \<and> et_used t = None) (enrollment_tokens d) @ [t]\<rparr>"
    and t: "t = \<lparr>et_hash = hash, et_server = sid, et_created = format_time t0, et_expires = format_time (t0 + ttl), et_used = None\<rparr>"
    and expires: "expires = parse_time (format_time (t0 + ttl))" and known: "lock_server d sid"
    by (rule issue_enrollment_tokenE [OF mint]) blast
  have inv1: "auth_inv d1" using issue_enrollment_token_inv [OF inv mint] .
  have tok: "find (\<lambda>x. et_hash x = hash) (enrollment_tokens d1) = Some t"
    using find_unique [OF auth_invD(2) [OF inv1], of t] by (simp add: d1 t)
  have one: "affected (burns hash) (enrollment_tokens d1) = 1"
  proof -
    have "burns hash x \<longleftrightarrow> et_hash x = et_hash t" if "x \<in> set (enrollment_tokens d1)" for x
    proof -
      have "et_hash x = et_hash t \<Longrightarrow> x = t" using key_unique [OF auth_invD(2) [OF inv1] that, of t] by (simp add: d1)
      moreover have "et_hash t = hash" "et_used t = None" by (simp_all add: t)
      ultimately show ?thesis unfolding burns_def by metis
    qed
    then have "affected (burns hash) (enrollment_tokens d1) = affected (\<lambda>x. et_hash x = et_hash t) (enrollment_tokens d1)"
      by (rule affected_cong)
    then show ?thesis using affected_key [OF auth_invD(2) [OF inv1], of t] by (simp add: d1)
  qed
  from known obtain r where r: "find (\<lambda>r. sv_id r = sid) (servers d) = Some r"
    by (cases "find (\<lambda>r. sv_id r = sid) (servers d)") (auto simp: lock_server_def exists_row_def find_None_iff)
  from find_Some_in [OF r] game have g: "sv_game r = '''' \<or> sv_game r = game" by blast
  have new: "\<not> exists_row (\<lambda>x. sv_secret x = secret \<and> sv_id x \<noteq> sid) (servers d1)"
    using secret by (auto simp: exists_row_def d1)
  let ?install = "install_credentials secret game plugin now"
  let ?d3 = "end_sessions (d1\<lparr>enrollment_tokens := update_where (burns hash) (\<lambda>t. t\<lparr>et_used := Some (format_time now)\<rparr>) (enrollment_tokens d1),
      servers := update_where (\<lambda>r. sv_id r = sid) ?install (servers d1)\<rparr>) sid session_end_credentials now"
  have found: "find (\<lambda>r. sv_id r = sid) (servers ?d3) = Some (?install r)"
    using find_Some_in [OF r] r by (simp add: d1, subst find_update_where) (auto simp: install_credentials_def)
  have run: "enroll d1 hash game secret plugin now = Inr (scan_server (?install r), ?d3)"
  proof -
    have tf: "et_server t = sid" "et_used t = None" "parse_time (et_expires t) > now" using live expires by (simp_all add: t)
    have r1: "find (\<lambda>r. sv_id r = sid) (servers d1) = Some r" using r by (simp add: d1)
    have g': "\<not> (sv_game r \<noteq> [] \<and> sv_game r \<noteq> game)" using g by blast
    have "find_server ?d3 sid = Inr (scan_server (?install r))" unfolding find_server_def found by simp
    then show ?thesis unfolding enroll_def tok option.case tf r1 Let_def
      using tf(3) g' one new by simp
  qed
  show thesis
  proof (rule that [OF run])
    show "sr_id (scan_server (?install r)) = sid" using find_Some_in [OF r] by (simp add: scan_server_def install_credentials_def)
    show "auth_inv ?d3" by (rule enroll_inv [OF inv1 run])
    show "sessions ?d3 = sessions (end_sessions d sid session_end_credentials now)" by (simp add: end_sessions_def d1)
    show "\<exists>r. find (\<lambda>r. sv_id r = sid) (servers ?d3) = Some r \<and> sv_secret r = secret \<and> sv_revoked r = None"
      using found by (auto simp: install_credentials_def)
  qed
qed

lemma secret_logs_in:
  assumes inv: "auth_inv d" and row: "find (\<lambda>r. sv_id r = sid) (servers d) = Some r" "sv_secret r = secret" "sv_revoked r = None"
    and secret: "secret \<noteq> ''''"
    and fresh: "ns_server q = sid" "ns_token q \<notin> ss_token ` set (sessions d)" "i \<notin> ss_id ` set (sessions d)"
    and live: "now < parse_time (format_time (t + ns_ttl q))"
  obtains s d2 v where "authenticate_server d sid secret = Inr (scan_server r)" "start_session d q i t = Inr (s, d2)"
    "session_by_token d2 (ns_token q) now = Inr (s, v)" "sr_id v = sid" "sr_revoked v = None" "se_id s = i"
proof -
  have auth: "authenticate_server d sid secret = Inr (scan_server r)"
    using row secret by (simp add: authenticate_server_def token_equal_def find_server_def scan_server_def scan_time_def)
  let ?e = "end_sessions d sid session_end_superseded t" and ?r = "session_start_row q i t"
  have same: "ss_id ` set (sessions ?e) = ss_id ` set (sessions d)" "ss_token ` set (sessions ?e) = ss_token ` set (sessions d)"
    by (simp_all only: set_map [symmetric] end_sessions_simps)
  have known: "lock_server d sid" using find_Some_in [OF row(1)] by (auto simp: lock_server_def exists_row_def)
  have no_clash: "\<not> exists_row (session_clash ?r) (sessions ?e)"
  proof -
    have "\<not> session_clash ?r y" if y: "y \<in> set (sessions ?e)" for y
    proof -
      from y have "ss_id y \<in> ss_id ` set (sessions d)" "ss_token y \<in> ss_token ` set (sessions d)" unfolding same [symmetric] by simp_all
      with fresh end_sessions_ended [OF y] show ?thesis by (auto simp: session_clash_def session_start_row_def)
    qed
    then show ?thesis by (auto simp: exists_row_def)
  qed
  obtain s d2 where st: "start_session d q i t = Inr (s, d2)"
    using no_clash known fresh(1) by (simp add: start_session_def Let_def)
  from start_sessionE [OF st] have s: "se_id s = i" by (metis scan_session_def session.select_convs(1) session_start_row_def session_row.select_convs(1))
  from start_session_takes_over [OF inv st, of now] live fresh(1) obtain v where
    v: "session_by_token d2 (ns_token q) now = Inr (s, v)" "sr_id v = sid" by blast
  have srv: "find (\<lambda>x. sv_id x = sid) (servers d2) = Some (r\<lparr>sv_last_seen := Some (format_time t), sv_plugin_name := pi_name (ns_plugin q),
      sv_plugin_version := pi_version (ns_plugin q), sv_transports := join_transports (pi_transports (ns_plugin q))\<rparr>)"
  proof -
    have "servers d2 = update_where (\<lambda>x. sv_id x = sid) (\<lambda>x. x\<lparr>sv_last_seen := Some (format_time t), sv_plugin_name := pi_name (ns_plugin q),
        sv_plugin_version := pi_version (ns_plugin q), sv_transports := join_transports (pi_transports (ns_plugin q))\<rparr>) (servers d)"
      using st fresh(1) by (auto simp: start_session_def Let_def split: if_splits)
    then show ?thesis using find_Some_in [OF row(1)] row(1) by (simp, subst find_update_where) auto
  qed
  obtain x where "find_server d2 x = Inr v" using v(1) by (auto simp: session_by_token_def split: option.splits if_splits sum.splits)
  moreover from this have "sr_id v = x" by (auto simp: find_server_def scan_server_def split: option.splits dest: find_Some_in)
  ultimately have "find_server d2 sid = Inr v" using v(2) by simp
  then have "sr_revoked v = None" using row(3) by (auto simp: find_server_def srv scan_server_def scan_time_def)
  with auth st v s that show thesis by blast
qed

text \<open>
  C37. From an issued token to an open link.  A token the Admin API has just issued, presented before its expiry by a plugin
  of the server's game, enrolls; the secret that answers it opens a session; and the session's token passes the gate of
  the Plugin API as that server, until the session expires.  Drawn secrets whose digests are not in use, and
  no other request in between, are the hypotheses.
\<close>

theorem issued_token_gets_in:
  assumes inv: "auth_inv d"
    and issued: "handle_issue_enrollment_token env1 sid caller body1 e d = (Success 201 (token, expires), e', d1)"
    and alone: "ac_meanwhile env1 = (\<lambda>k d. d)" "ac_meanwhile env3 = (\<lambda>k d. d)"
    and digest: "ac_hash env1 = H" "ac_hash env2 = H" "ac_hash env3 = H"
    and enrolling: "decode_body (fst (ac_enroll env2 body2)) None (snd (ac_enroll env2 body2)) = Inr q" "trim_space (er_token q) = token"
      "token \<noteq> ''''" "ac_clock env2 0 < expires"
    and game: "normalize_game env2 (er_game q) = g" "g \<noteq> ''''" "length g \<le> 64"
      "\<forall>r \<in> set (servers d). sv_id r = sid \<longrightarrow> sv_game r = '''' \<or> sv_game r = g"
    and secret: "H (ac_secret env2) \<noteq> ''''" "H (ac_secret env2) \<notin> sv_secret ` set (servers d)"
    and login: "decode_body (fst (ac_open env3 body3)) None (snd (ac_open env3 body3)) = Inr l" "trim_space (sq_server l) = sid"
      "trim_space (sq_secret l) = ac_secret env2" "sid \<noteq> ''''" "ac_secret env2 \<noteq> ''''" "sq_protocol l = 0 \<or> sq_protocol l = 1"
    and fresh: "H (ac_secret env3) \<notin> ss_token ` set (sessions d)" "ac_drawn env3 \<notin> ss_id ` set (sessions d)" "ac_secret env3 \<noteq> ''''"
    and live: "now < parse_time (format_time (ac_clock env3 0 + ac_session_ttl env3))"
  shows "\<exists>r2 d2 r3 d3 s v. handle_enroll env2 body2 d1 = (Success 201 r2, d2) \<and> el_server r2 = sid \<and> el_secret r2 = ac_secret env2
     \<and> handle_create_session env3 body3 d2 = (Success 200 r3, d3) \<and> sp_token r3 = ac_secret env3
     \<and> session_gate H d3 (ac_secret env3) now = Inr (s, v) \<and> sr_id v = sid \<and> se_id s = sp_session r3"
proof -
  have sid: "sr_id s = sid" if "lookup_server d sid = Inr s" for s using lookup_serverE [OF that] by blast
  have mint: "\<exists>ttl t0. issue_enrollment_token d sid (H token) ttl t0 = Inr (expires, d1)"
    using issued sid alone(1) digest(1)
    by (auto simp: handle_issue_enrollment_token_def mint_enrollment_def Let_def split: sum.splits prod.splits)
  then obtain ttl t0 where mint: "issue_enrollment_token d sid (H token) ttl t0 = Inr (expires, d1)" by blast
  obtain s2 d2 where en: "enroll d1 (H token) g (H (ac_secret env2)) (er_plugin q) (ac_clock env2 0) = Inr (s2, d2)" "sr_id s2 = sid" "auth_inv d2"
      "sessions d2 = sessions (end_sessions d sid session_end_credentials (ac_clock env2 0))"
      "\<exists>r. find (\<lambda>r. sv_id r = sid) (servers d2) = Some r \<and> sv_secret r = H (ac_secret env2) \<and> sv_revoked r = None"
    by (rule minted_token_enrolls [OF inv mint enrolling(4) game(4) secret(2)])
  have step2: "handle_enroll env2 body2 d1 = (Success 201 \<lparr>el_server = sr_id s2, el_secret = ac_secret env2, el_identity = new_server_identity s2\<rparr>, d2)"
    using enrolling game(1-3) digest(2) en(1) by (simp add: handle_enroll_def Let_def max_game_length_def)
  obtain r where r: "find (\<lambda>r. sv_id r = sid) (servers d2) = Some r" "sv_secret r = H (ac_secret env2)" "sv_revoked r = None"
    using en(5) by blast
  have "ss_id ` set (sessions d2) = ss_id ` set (sessions d)" "ss_token ` set (sessions d2) = ss_token ` set (sessions d)"
    unfolding en(4) by (simp_all only: set_map [symmetric] end_sessions_simps)
  with fresh have fresh2: "H (ac_secret env3) \<notin> ss_token ` set (sessions d2)" "ac_drawn env3 \<notin> ss_id ` set (sessions d2)" by simp_all
  let ?q = "\<lparr>ns_server = sid, ns_token = H (ac_secret env3), ns_ttl = ac_session_ttl env3, ns_protocol = 1,
      ns_poll_timeout = clamp_poll_timeout (wrap64 (sq_poll_timeout l * action_second)) div action_second, ns_plugin = sq_plugin l\<rparr>"
  have row: "sr_id (scan_server r) = sid" using find_Some_in [OF r(1)] by (simp add: scan_server_def)
  obtain s3 d3 v where st: "authenticate_server d2 sid (H (ac_secret env2)) = Inr (scan_server r)"
      "start_session d2 ?q (ac_drawn env3) (ac_clock env3 0) = Inr (s3, d3)"
      "session_by_token d3 (ns_token ?q) now = Inr (s3, v)" "sr_id v = sid" "sr_revoked v = None" "se_id s3 = ac_drawn env3"
    by (rule secret_logs_in [OF en(3) r secret(1), of ?q "ac_drawn env3" now "ac_clock env3 0"]) (use fresh2 live in auto)
  have step3: "handle_create_session env3 body3 d2 = (Success 200 ((new_session_response d3 s3 (scan_server r))\<lparr>sp_token := ac_secret env3\<rparr>), d3)"
  proof (cases "sq_protocol l = 0")
    case True
    then show ?thesis using login(1-5) digest(3) alone(2) st(1,2) row
      by (simp add: handle_create_session_def Let_def protocol_version_def protocol_version_supported_def supported_protocol_versions_def)
  next
    case False
    then have "sq_protocol l = 1" using login(6) by simp
    then show ?thesis using login(1-5) digest(3) alone(2) st(1,2) row
      by (simp add: handle_create_session_def Let_def protocol_version_def protocol_version_supported_def supported_protocol_versions_def)
  qed
  have step4: "session_gate H d3 (ac_secret env3) now = Inr (s3, v)" using st(3,5) fresh(3) by (simp add: session_gate_def)
  show ?thesis using step2 step3 step4 en(2) st(4) by (fastforce simp: new_session_response_def)
qed

definition sample_server_env :: "string \<Rightarrow> server_env" where
  "sample_server_env secret =
     \<lparr>ac_lower = id, ac_hash = \<lambda>x. x, ac_secret = secret, ac_drawn = ''S2'', ac_clock = \<lambda>k. 0, ac_meanwhile = \<lambda>k d. d,
      ac_create = \<lambda>b. (True, NothingThere), ac_issue = \<lambda>b. (True, Decoded 0), ac_queue = \<lambda>b. (True, Decoded \<lparr>qe_type = ''x.say'', qe_body = ''''\<rparr>),
      ac_enroll = \<lambda>b. (True, Decoded \<lparr>er_token = ''vye_1'', er_game = ''dayz'', er_plugin = sample_plugin\<rparr>),
      ac_open = \<lambda>b. (True, Decoded \<lparr>sq_server = ''s1'', sq_secret = ''vys_1'', sq_protocol = 0, sq_poll_timeout = 0, sq_plugin = sample_plugin\<rparr>),
      ac_object = \<lambda>b. True, ac_capabilities = \<lambda>b. [], ac_enrollment_ttl = 3600 * action_second, ac_session_ttl = 3600 * action_second\<rparr>"

theorem raw_queue_never_forges_witness:
  "\<exists>e' d' view row. handle_queue_envelope (sample_server_env ''x'') ''s1'' bootstrap_principal '''' empty_entry sample_accounts
       = (Success 202 view, e', d')
     \<and> outbound d' = outbound sample_accounts @ [row] \<and> \<not> list_ex (\<lambda>p. prefix p (en_type row)) reserved_envelope_types"
proof -
  have "\<exists>e' d' view. handle_queue_envelope (sample_server_env ''x'') ''s1'' bootstrap_principal '''' empty_entry sample_accounts
      = (Success 202 view, e', d')"
    by (simp add: handle_queue_envelope_def lookup_server_def find_server_def sample_server_env_def sample_account_defs decode_body_def
        scan_server_def Let_def trim_space_visible visible_def max_envelope_type_def reserved_envelope_types_def present_def
        queue_envelope_def queue_outbound_def insert_outbound_def lock_server_def exists_row_def new_outbound_def outbound_queue_limit_def
        affected_def pending_def)
  then obtain e' d' view where run: "handle_queue_envelope (sample_server_env ''x'') ''s1'' bootstrap_principal '''' empty_entry sample_accounts
      = (Success 202 view, e', d')" by blast
  have same: "ac_meanwhile (sample_server_env ''x'') 0 sample_accounts = sample_accounts" by (simp add: sample_server_env_def)
  from raw_queue_never_forges [OF run] run show ?thesis unfolding same reply.case by blast
qed

theorem issued_token_gets_in_witness:
  "\<exists>d1 r2 d2 r3 d3 s v. handle_enroll (sample_server_env ''vys_1'') '''' d1 = (Success 201 r2, d2)
     \<and> handle_create_session (sample_server_env ''vyt_1'') '''' d2 = (Success 200 r3, d3)
     \<and> session_gate (\<lambda>x. x) d3 ''vyt_1'' 1 = Inr (s, v) \<and> sr_id v = ''s1''"
proof -
  let ?env1 = "sample_server_env ''vye_1''" and ?env2 = "sample_server_env ''vys_1''" and ?env3 = "sample_server_env ''vyt_1''"
  have ttl: "enrollment_ttl ?env1 0 = 3600 * action_second"
    by (simp add: enrollment_ttl_def sample_server_env_def min_enrollment_token_ttl_def max_enrollment_token_ttl_def action_second_def)
  have "\<exists>e' d1. handle_issue_enrollment_token ?env1 ''s1'' bootstrap_principal '''' empty_entry sample_accounts
      = (Success 201 (''vye_1'', parse_time (format_time (3600 * action_second))), e', d1)"
    unfolding handle_issue_enrollment_token_def mint_enrollment_def
    by (simp add: lookup_server_def find_server_def sample_account_defs scan_server_def decode_optional_def Let_def
        issue_enrollment_token_def ttl lock_server_def exists_row_def truncate_milli_def)
      (simp add: sample_server_env_def sample_account_defs)
  then obtain e' d1 where issued: "handle_issue_enrollment_token ?env1 ''s1'' bootstrap_principal '''' empty_entry sample_accounts
      = (Success 201 (''vye_1'', parse_time (format_time (3600 * action_second))), e', d1)" by blast
  have trims: "trim_space ''vye_1'' = ''vye_1''" "trim_space ''vys_1'' = ''vys_1''" "trim_space ''s1'' = ''s1''" "trim_space ''dayz'' = ''dayz''"
    by (simp_all add: trim_space_visible visible_def)
  have "\<exists>r2 d2 r3 d3 s v. handle_enroll ?env2 '''' d1 = (Success 201 r2, d2) \<and> el_server r2 = ''s1'' \<and> el_secret r2 = ac_secret ?env2
     \<and> handle_create_session ?env3 '''' d2 = (Success 200 r3, d3) \<and> sp_token r3 = ac_secret ?env3
     \<and> session_gate (\<lambda>x. x) d3 (ac_secret ?env3) 1 = Inr (s, v) \<and> sr_id v = ''s1'' \<and> se_id s = sp_session r3"
    by (rule issued_token_gets_in [OF sample_accounts_inv issued, where g = "''dayz''" and H = "\<lambda>x. x"
          and q = "\<lparr>er_token = ''vye_1'', er_game = ''dayz'', er_plugin = sample_plugin\<rparr>"
          and l = "\<lparr>sq_server = ''s1'', sq_secret = ''vys_1'', sq_protocol = 0, sq_poll_timeout = 0, sq_plugin = sample_plugin\<rparr>"])
      (simp_all add: sample_server_env_def decode_body_def trims normalize_game_def sample_account_defs parse_time_def format_time_def
        nanos_per_milli_def action_second_def)
  moreover have "ac_secret ?env3 = ''vyt_1''" by (simp add: sample_server_env_def)
  ultimately show ?thesis by metis
qed

end
