(* ===== verification/Listing.thy ===== *)
theory Listing
  imports Gate Paging
begin

text \<open>
  What every listing of the Admin API shares (hub/audit.go, hub/players.go): the page size parameter, the
  opaque cursors in unpadded base64url, and the page cut from one row more than it holds.  The locale proves
  once that a client that follows the cursors it is given receives every row; each route interprets it.
\<close>

subsection \<open>Unpadded base64url\<close>

text \<open>
  \<open>base64.RawURLEncoding\<close>: three bytes as four letters of six bits.  Decoding skips line ends, refuses any other
  foreign character and a lone last letter, and ignores the bits past the last byte.
\<close>

definition letter64 :: "nat \<Rightarrow> char" where
  "letter64 n = char_of (if n < 26 then 65 + n else if n < 52 then 71 + n else if n < 62 then n - 4
     else if n = 62 then 45 else (95::nat))"

definition value64 :: "char \<Rightarrow> nat option" where
  "value64 c =
     (let v = of_char c in
      if 65 \<le> v \<and> v \<le> 90 then Some (v - 65) else if 97 \<le> v \<and> v \<le> 122 then Some (v - 71)
      else if 48 \<le> v \<and> v \<le> 57 then Some (v + 4) else if v = 45 then Some 62 else if v = 95 then Some 63 else None)"

fun sextets :: "nat list \<Rightarrow> nat list" where
  "sextets [] = []"
| "sextets [x] = [x div 4, x mod 4 * 16]"
| "sextets [x, y] = [x div 4, x mod 4 * 16 + y div 16, y mod 16 * 4]"
| "sextets (x # y # z # r) = x div 4 # (x mod 4 * 16 + y div 16) # (y mod 16 * 4 + z div 64) # z mod 64 # sextets r"

fun octets :: "nat list \<Rightarrow> nat list option" where
  "octets [] = Some []"
| "octets [a] = None"
| "octets [a, b] = Some [a * 4 + b div 16]"
| "octets [a, b, c] = Some [a * 4 + b div 16, b mod 16 * 16 + c div 4]"
| "octets (a # b # c # e # r) =
     map_option (\<lambda>bs. (a * 4 + b div 16) # (b mod 16 * 16 + c div 4) # (c mod 4 * 64 + e) # bs) (octets r)"

fun letters64 :: "string \<Rightarrow> nat list option" where
  "letters64 [] = Some []"
| "letters64 (c # cs) =
     (if of_char c \<in> {10, 13 :: nat} then letters64 cs
      else case value64 c of None \<Rightarrow> None | Some v \<Rightarrow> map_option ((#) v) (letters64 cs))"

definition base64url :: "string \<Rightarrow> string" where
  "base64url s = map letter64 (sextets (map of_char s))"

definition base64url_decode :: "string \<Rightarrow> string option" where
  "base64url_decode t =
     (case letters64 t of None \<Rightarrow> None | Some vs \<Rightarrow> map_option (map char_of) (octets vs))"

lemma value64_letter64:
  assumes "n < 64"
  shows "value64 (letter64 n) = Some n" and "of_char (letter64 n) \<notin> {10, 13 :: nat}"
  using assms by (auto simp: letter64_def value64_def Let_def)

lemma sextets_bound: "\<forall>x \<in> set bs. x < 256 \<Longrightarrow> \<forall>v \<in> set (sextets bs). v < 64"
  by (induction bs rule: sextets.induct) auto

lemma octets_sextets: "\<forall>x \<in> set bs. x < 256 \<Longrightarrow> octets (sextets bs) = Some bs"
proof (induction bs rule: sextets.induct)
  case (4 x y z r)
  have "(x mod 4 * 16 + y div 16) div 16 = x mod 4" "(x mod 4 * 16 + y div 16) mod 16 = y div 16"
    "(y mod 16 * 4 + z div 64) div 4 = y mod 16" "(y mod 16 * 4 + z div 64) mod 4 = z div 64"
    using 4(2) by auto
  with 4 show ?case by simp
qed auto

lemma letters64_map: "\<forall>v \<in> set vs. v < 64 \<Longrightarrow> letters64 (map letter64 vs) = Some vs"
  by (induction vs) (use value64_letter64 in auto)

lemma base64url_roundtrip [simp]: "base64url_decode (base64url s) = Some s"
proof -
  have b: "\<forall>x \<in> set (map of_char s). x < (256::nat)" by auto
  from octets_sextets [OF b] letters64_map [OF sextets_bound [OF b]]
  show ?thesis by (simp add: base64url_def base64url_decode_def o_def)
qed

lemma base64url_empty [simp]: "base64url s = '''' \<longleftrightarrow> s = ''''"
  by (cases "map of_char s :: nat list" rule: sextets.cases) (auto simp: base64url_def)

text \<open>Every letter is one a URL needs no escaping for.\<close>

lemma base64url_alphabet: "\<forall>c \<in> set (base64url s). value64 c \<noteq> None"
proof -
  have b: "\<forall>x \<in> set (map of_char s). x < (256::nat)" by auto
  from sextets_bound [OF b] value64_letter64 show ?thesis by (auto simp: base64url_def)
qed

subsection \<open>Cursors and page sizes\<close>

text \<open>\<open>strings.Cut\<close> at a single byte.\<close>

fun cut_at :: "char \<Rightarrow> string \<Rightarrow> (string \<times> string) option" where
  "cut_at c [] = None"
| "cut_at c (x # xs) = (if x = c then Some ([], xs) else map_option (map_prod ((#) x) id) (cut_at c xs))"

lemma cut_at_append: "c \<notin> set a \<Longrightarrow> cut_at c (a @ c # b) = Some (a, b)"
  by (induction a) auto

text \<open>
  The text of a stored instant, as \<open>envelopeTimestamp\<close> prints and \<open>time.Parse\<close> reads it with the layout of the
  cursors, is an argument: what is printed has no bar in it and is read back at the stored resolution.
\<close>

record stamp_layout =
  ly_print :: "time \<Rightarrow> string"
  ly_read :: "string \<Rightarrow> time option"

definition layout_ok :: "stamp_layout \<Rightarrow> bool" where
  "layout_ok l = (\<forall>t. ly_read l (ly_print l t) = Some (parse_time (format_time t)) \<and> CHR ''|'' \<notin> set (ly_print l t))"

definition cursor_refused :: refusal where
  "cursor_refused = bad_request ''cursor is not one this hub issued''"

definition encode_created_cursor :: "stamp_layout \<Rightarrow> time \<Rightarrow> string \<Rightarrow> string" where
  "encode_created_cursor l at record_id = base64url (ly_print l at @ ''|'' @ record_id)"

text \<open>A cursor without an id names no position.\<close>

definition parse_created_cursor :: "stamp_layout \<Rightarrow> string \<Rightarrow> refusal + (time \<times> string)" where
  "parse_created_cursor l value =
     (if value = '''' then Inr (0, '''')
      else case base64url_decode value of
        None \<Rightarrow> Inl cursor_refused
      | Some decoded \<Rightarrow>
          (case cut_at (CHR ''|'') decoded of
             None \<Rightarrow> Inl cursor_refused
           | Some (at_text, record_id) \<Rightarrow>
               if record_id = '''' then Inl cursor_refused
               else case ly_read l at_text of None \<Rightarrow> Inl cursor_refused | Some t \<Rightarrow> Inr (t, record_id)))"

lemma created_cursor_roundtrip:
  assumes "layout_ok l" and "record_id \<noteq> ''''"
  shows "encode_created_cursor l at record_id \<noteq> ''''"
    and "parse_created_cursor l (encode_created_cursor l at record_id) = Inr (parse_time (format_time at), record_id)"
  using assms by (auto simp: layout_ok_def encode_created_cursor_def parse_created_cursor_def cut_at_append)

text \<open>\<open>strconv.Atoi\<close>: an optional sign, decimal digits, and the range of an int64.\<close>

definition digit_value :: "char \<Rightarrow> int option" where
  "digit_value c = (let v = of_char c in if 48 \<le> v \<and> v \<le> 57 then Some (int v - 48) else None)"

fun read_digits :: "int \<Rightarrow> string \<Rightarrow> int option" where
  "read_digits acc [] = Some acc"
| "read_digits acc (c # cs) = (case digit_value c of None \<Rightarrow> None | Some v \<Rightarrow> read_digits (acc * 10 + v) cs)"

definition read_signed :: "string \<Rightarrow> int option" where
  "read_signed s =
     (let (negative, digits) =
        (case s of [] \<Rightarrow> (False, []) | c # cs \<Rightarrow> if c = CHR ''-'' then (True, cs) else if c = CHR ''+'' then (False, cs) else (False, s))
      in if digits = [] then None else map_option (\<lambda>n. if negative then - n else n) (read_digits 0 digits))"

definition atoi :: "string \<Rightarrow> int option" where
  "atoi s =
     (case read_signed s of
        None \<Rightarrow> None
      | Some v \<Rightarrow> if - (2 ^ 63) \<le> v \<and> v < 2 ^ 63 then Some v else None)"

lemma read_digits_snoc:
  "read_digits acc (xs @ [c]) = (case read_digits acc xs of None \<Rightarrow> None | Some a \<Rightarrow> map_option (\<lambda>v. a * 10 + v) (digit_value c))"
  by (induction xs arbitrary: acc) (auto split: option.splits)

lemma digit_value_digit: "k < 10 \<Longrightarrow> digit_value (char_of (48 + k)) = Some (int k)"
  by (simp add: digit_value_def Let_def)

lemma read_digits_rev: "read_digits 0 (rev (digits_rev n)) = Some (int n)"
proof (induction n rule: digits_rev.induct)
  case (1 n)
  show ?case
  proof (cases "n < 10")
    case True
    then show ?thesis by (subst digits_rev.simps) (simp add: digit_value_digit)
  next
    case False
    have "int (n div 10) * 10 + int (n mod 10) = int n" by presburger
    moreover have "digit_value (char_of (48 + n mod 10)) = Some (int (n mod 10))" by (rule digit_value_digit) simp
    ultimately show ?thesis using 1 False by (subst digits_rev.simps) (simp add: read_digits_snoc)
  qed
qed

lemma digits_rev_digit: "c \<in> set (digits_rev n) \<Longrightarrow> 48 \<le> (of_char c :: nat) \<and> (of_char c :: nat) \<le> 57"
proof (induction n rule: digits_rev.induct)
  case (1 n)
  then show ?case by (subst (asm) (2) digits_rev.simps) (auto split: if_splits)
qed

lemma digits_rev_nonempty [simp]: "digits_rev n \<noteq> []"
  by (subst digits_rev.simps) simp

lemma read_signed_show_int: "read_signed (show_int i) = Some i"
proof (cases "i < 0")
  case True
  then show ?thesis using read_digits_rev [of "nat (- i)"] by (simp add: read_signed_def show_int_def)
next
  case False
  obtain c cs where cs: "rev (digits_rev (nat i)) = c # cs" by (cases "rev (digits_rev (nat i))") simp_all
  then have "c \<in> set (digits_rev (nat i))" by (metis list.set_intros(1) set_rev)
  from digits_rev_digit [OF this] have "c \<noteq> CHR ''-'' \<and> c \<noteq> CHR ''+''" by auto
  with False cs read_digits_rev [of "nat i"] show ?thesis by (simp add: read_signed_def show_int_def)
qed

text \<open>What \<open>strconv.Itoa\<close> prints is read back.\<close>

lemma atoi_show_int: "- (2 ^ 63) \<le> i \<Longrightarrow> i < 2 ^ 63 \<Longrightarrow> atoi (show_int i) = Some i"
  by (simp add: atoi_def read_signed_show_int)

definition parse_limit :: "string \<Rightarrow> int \<Rightarrow> int \<Rightarrow> refusal + int" where
  "parse_limit value fallback ceiling =
     (if value = '''' then Inr fallback
      else case atoi value of
        None \<Rightarrow> Inl (bad_request ''limit must be a positive integer'')
      | Some limit \<Rightarrow> if limit < 1 then Inl (bad_request ''limit must be a positive integer'') else Inr (min limit ceiling))"

lemma parse_limit_bounds:
  assumes "parse_limit value fallback ceiling = Inr n" and "1 \<le> fallback" and "fallback \<le> ceiling"
  shows "1 \<le> n \<and> n \<le> ceiling"
  using assms by (auto simp: parse_limit_def split: if_splits option.splits)

subsection \<open>A page and the pages after it\<close>

text \<open>
  The page cut from one row more than it holds, with the cursor of its last row when there is a row past it:
  the last lines of every listing.
\<close>

definition cut_page :: "('r \<Rightarrow> string) \<Rightarrow> ('r \<Rightarrow> 'v) \<Rightarrow> int \<Rightarrow> 'r list \<Rightarrow> 'v list \<times> string" where
  "cut_page encode view limit found =
     (if int (length found) > limit
      then (map view (take (nat limit) found), encode (found ! nat (limit - 1)))
      else (map view found, ''''))"

lemma cut_page_map: "1 \<le> n \<Longrightarrow> cut_page enc view n (map f xs) = cut_page (\<lambda>r. enc (f r)) (\<lambda>r. view (f r)) n xs"
  by (auto simp: cut_page_def take_map)

text \<open>
  A client's reading of a list: it follows the cursors until a page has none.  It ends without the list
  when a page is refused, or after \<open>k\<close> pages.
\<close>

fun pull :: "nat \<Rightarrow> (string \<Rightarrow> ('v list \<times> string) option) \<Rightarrow> string \<Rightarrow> 'v list option" where
  "pull 0 ask token = None"
| "pull (Suc k) ask token =
     (case ask token of
        None \<Rightarrow> None
      | Some (rows, token') \<Rightarrow> if token' = '''' then Some rows else map_option ((@) rows) (pull k ask token'))"

fun page_of_reply :: "'v reply \<Rightarrow> 'v option" where
  "page_of_reply (Failure refused) = None"
| "page_of_reply (Success status v) = Some v"

locale listing = paged_read ok all_rows page cursor
  for ok :: "'s \<Rightarrow> bool" and all_rows :: "'s \<Rightarrow> 'r list" and page :: "'s \<Rightarrow> nat \<Rightarrow> 'c option \<Rightarrow> 'r list" and cursor :: "'r \<Rightarrow> 'c" +
  fixes readable :: "'e \<Rightarrow> bool"
    and encode :: "'e \<Rightarrow> 's \<Rightarrow> 'r \<Rightarrow> string"
    and decode :: "'e \<Rightarrow> 's \<Rightarrow> string \<Rightarrow> 'c option"
  assumes issued: "readable e \<Longrightarrow> ok s \<Longrightarrow> r \<in> set (all_rows s) \<Longrightarrow>
      encode e s r \<noteq> '''' \<and> decode e s (encode e s r) = Some (cursor r)"
begin

lemma pull_from:
  assumes e: "readable e" and ok: "ok s" and n: "0 < n"
    and here: "ask token = Some (cut_page (encode e s) view (int n) (take (Suc n) (drop i (all_rows s))))"
    and ask: "\<And>t c. t \<noteq> '''' \<Longrightarrow> decode e s t = Some c \<Longrightarrow> ask t = Some (cut_page (encode e s) view (int n) (page s (Suc n) (Some c)))"
    and fuel: "length (all_rows s) - i \<le> k"
  shows "pull (Suc k) ask token = Some (map view (drop i (all_rows s)))"
  using here fuel
proof (induction k arbitrary: token i)
  case 0
  then show ?case by (simp add: cut_page_def)
next
  case (Suc k)
  let ?xs = "all_rows s"
  show ?case
  proof (cases "length ?xs - i \<le> n")
    case True
    then have "take (Suc n) (drop i ?xs) = drop i ?xs" by simp
    with Suc.prems(1) True show ?thesis by (simp add: cut_page_def)
  next
    case False
    let ?r = "?xs ! (i + n - 1)"
    have i: "i + n - 1 < length ?xs" using False n by linarith
    then have r: "?r \<in> set ?xs" by simp
    have last: "take (Suc n) (drop i ?xs) ! nat (int n - 1) = ?r"
      using False n by (simp add: nat_diff_distrib)
    have long: "int (length (take (Suc n) (drop i ?xs))) > int n" using False by simp
    have here': "ask token = Some (map view (take n (drop i ?xs)), encode e s ?r)"
      using Suc.prems(1) unfolding cut_page_def if_P [OF long] last by (simp add: min_def)
    have "page s (Suc n) (Some (cursor ?r)) = take (Suc n) (drop (i + n) ?xs)"
      using next_page [OF ok _ i, of "Suc n"] n by simp
    then have "ask (encode e s ?r) = Some (cut_page (encode e s) view (int n) (take (Suc n) (drop (i + n) ?xs)))"
      using ask issued [OF e ok r] by simp
    moreover have "length ?xs - (i + n) \<le> k" using Suc.prems(2) n False by linarith
    ultimately have "pull (Suc k) ask (encode e s ?r) = Some (map view (drop (i + n) ?xs))" by (rule Suc.IH)
    then have "pull (Suc (Suc k)) ask token = Some (map view (take n (drop i ?xs)) @ map view (drop (i + n) ?xs))"
      using here' issued [OF e ok r] by simp
    moreover have "take n (drop i ?xs) @ drop (i + n) ?xs = drop i ?xs"
      by (metis append_take_drop_id drop_drop add.commute)
    ultimately show ?thesis by (metis map_append)
  qed
qed

lemma pull_all:
  assumes "readable e" and "ok s" and "0 < n"
    and "ask '''' = Some (cut_page (encode e s) view (int n) (page s (Suc n) None))"
    and "\<And>t c. t \<noteq> '''' \<Longrightarrow> decode e s t = Some c \<Longrightarrow> ask t = Some (cut_page (encode e s) view (int n) (page s (Suc n) (Some c)))"
    and "length (all_rows s) \<le> k"
  shows "pull (Suc k) ask '''' = Some (map view (all_rows s))"
  using pull_from [OF assms(1-3), of ask "''''" view 0 k] assms(4-6) first_page [OF assms(2), of "Suc n"] by simp

end


text \<open>Every feed whose cursors name an instant and an id is such a listing.\<close>

sublocale newest_first_feed \<subseteq> feed: listing ok "\<lambda>s. rev (sort_key key (rows s))"
  "\<lambda>s n c. newest_page key (int n) (case c of None \<Rightarrow> (0, '''') | Some x \<Rightarrow> x) (rows s)" "row_cursor key"
  layout_ok "\<lambda>l s r. encode_created_cursor l (parse_time (fst (key r))) (snd (key r))"
  "\<lambda>l s t. case parse_created_cursor l t of Inl refused \<Rightarrow> None | Inr c \<Rightarrow> Some c"
proof
  fix l s r
  assume l: "layout_ok l" and ok: "ok s" and r: "r \<in> set (rev (sort_key key (rows s)))"
  then have "snd (key r) \<noteq> ''''" using ids_named [OF ok, of r] by simp
  with created_cursor_roundtrip [OF l this, of "parse_time (fst (key r))"]
  show "encode_created_cursor l (parse_time (fst (key r))) (snd (key r)) \<noteq> ''''
      \<and> (case parse_created_cursor l (encode_created_cursor l (parse_time (fst (key r))) (snd (key r))) of
           Inl refused \<Rightarrow> None | Inr c \<Rightarrow> Some c) = Some (row_cursor key r)"
    by (simp add: row_cursor_def)
qed

text \<open>A layout that prints the stored milliseconds in decimal.\<close>

definition decimal_layout :: stamp_layout where
  "decimal_layout = \<lparr>ly_print = \<lambda>t. show_int (format_time t), ly_read = \<lambda>s. map_option parse_time (read_signed s)\<rparr>"

lemma decimal_layout_ok: "layout_ok decimal_layout"
proof -
  have "CHR ''|'' \<notin> set (show_int i)" for i
    using digits_rev_digit [of "CHR ''|''"] by (auto simp: show_int_def)
  then show ?thesis by (simp add: layout_ok_def decimal_layout_def read_signed_show_int)
qed

end
