(* ===== verification/FeedApi.thy ===== *)
theory FeedApi
  imports Listing Events Snapshots DispatchApi Ingest
begin

text \<open>
  Reading what was stored (hub/events.go, hub/audit.go, hub/state.go): the event feed narrowed to the caller's
  grants, the audit log, and the state snapshots.  A read changes nothing, so these handlers answer only.
\<close>

text \<open>The parameters of a query; a parameter that is absent reads as the empty string.\<close>

record feed_request =
  fq_types :: "string list"
  fq_since :: string
  fq_until :: string
  fq_limit :: string
  fq_cursor :: string

text \<open>The layout of the cursors, and \<open>time.Parse\<close> with RFC 3339.\<close>

record listing_env =
  le_layout :: stamp_layout
  le_time :: "string \<Rightarrow> time option"

definition parse_time_param :: "listing_env \<Rightarrow> string \<Rightarrow> string \<Rightarrow> refusal + time option" where
  "parse_time_param env value name =
     (if value = '''' then Inr None
      else case le_time env value of
        None \<Rightarrow> Inl (bad_request (name @ '' must be an RFC 3339 timestamp''))
      | Some t \<Rightarrow> Inr (Some t))"

subsection \<open>The event feed\<close>

definition default_event_page_size :: int where "default_event_page_size = 100"
definition max_event_page_size :: int where "max_event_page_size = 500"
definition max_event_type_filters :: nat where "max_event_type_filters = 20"

record event_view =
  ew_id :: string
  ew_server :: string
  ew_type :: string
  ew_occurred :: time
  ew_received :: time
  ew_data :: string

definition event_view_of :: "event_row \<Rightarrow> event_view" where
  "event_view_of r =
     \<lparr>ew_id = ev_id r, ew_server = ev_server r, ew_type = ev_type r, ew_occurred = parse_time (ev_occurred r),
      ew_received = parse_time (ev_received r), ew_data = (if length (ev_data r) = 0 then ''{}'' else ev_data r)\<rparr>"

definition encode_event_cursor :: "stamp_layout \<Rightarrow> event_row \<Rightarrow> string" where
  "encode_event_cursor l r = base64url (ly_print l (parse_time (ev_occurred r)) @ ''|'' @ ev_id r)"

definition parse_event_cursor :: "stamp_layout \<Rightarrow> string \<Rightarrow> refusal + (time \<times> string)" where
  "parse_event_cursor l value =
     (if value = '''' then Inr (0, '''')
      else case base64url_decode value of
        None \<Rightarrow> Inl cursor_refused
      | Some decoded \<Rightarrow>
          (case cut_at (CHR ''|'') decoded of
             None \<Rightarrow> Inl cursor_refused
           | Some (occurred_at, event_id) \<Rightarrow>
               if event_id = '''' then Inl cursor_refused
               else case ly_read l occurred_at of None \<Rightarrow> Inl cursor_refused | Some t \<Rightarrow> Inr (t, event_id)))"

fun type_filter_loop :: "string list \<Rightarrow> bool \<Rightarrow> event_type_filter list \<Rightarrow> refusal + (bool \<times> event_type_filter list)" where
  "type_filter_loop [] everything filters = Inr (everything, filters)"
| "type_filter_loop (value # rest) everything filters =
     (let pattern = trim_space value in
      if pattern = ''*'' then type_filter_loop rest True filters
      else if pattern = '''' then Inl (bad_request ''type filter is empty; omit the parameter to match every type'')
      else if suffix ''.*'' pattern
      then let namespace = trim_last 2 pattern in
        if \<not> valid_event_type (namespace @ ''.x'')
        then Inl (bad_request (''type filter '' @ pattern @ '' is not a {namespace}.* pattern''))
        else type_filter_loop rest everything (filters @ [\<lparr>tf_exact = '''', tf_prefix = namespace @ ''.''\<rparr>])
      else if valid_event_type pattern
      then type_filter_loop rest everything (filters @ [\<lparr>tf_exact = pattern, tf_prefix = ''''\<rparr>])
      else Inl (bad_request (''type filter '' @ pattern @ '' is neither an event type nor a {namespace}.* pattern'')))"

definition parse_event_type_filters :: "string list \<Rightarrow> refusal + event_type_filter list" where
  "parse_event_type_filters values =
     (if length values > max_event_type_filters
      then Inl (bad_request (''at most '' @ show_int (int max_event_type_filters) @ '' type filters may be combined''))
      else case type_filter_loop values False [] of
        Inl refused \<Rightarrow> Inl refused
      | Inr (everything, filters) \<Rightarrow> Inr (if everything then [] else filters))"

definition pattern_filters :: "string list \<Rightarrow> event_type_filter list" where
  "pattern_filters patterns =
     map (\<lambda>p. let (base, is_prefix) = cut_suffix p ''.*'' in
            if is_prefix then \<lparr>tf_exact = '''', tf_prefix = base @ ''.''\<rparr> else \<lparr>tf_exact = p, tf_prefix = ''''\<rparr>) patterns"

fun uncovered :: "principal \<Rightarrow> string list \<Rightarrow> string option" where
  "uncovered caller [] = None"
| "uncovered caller (value # rest) =
     (if \<not> covers caller ''events'' ''read'' (trim_space value) then Some (trim_space value) else uncovered caller rest)"

definition event_filters :: "principal \<Rightarrow> string list \<Rightarrow> refusal + event_type_filter list" where
  "event_filters caller requested =
     (case parse_event_type_filters requested of
        Inl refused \<Rightarrow> Inl refused
      | Inr filters \<Rightarrow>
          if length requested > 0
          then (case uncovered caller requested of
                  Some pattern \<Rightarrow> Inl (forbidden (''this token does not carry a scope covering events:read:'' @ pattern))
                | None \<Rightarrow> Inr filters)
          else Inr (pattern_filters (patterns_for caller ''events'' ''read'')))"

definition handle_list_events ::
  "listing_env \<Rightarrow> string \<Rightarrow> feed_request \<Rightarrow> principal \<Rightarrow> db \<Rightarrow> (event_view list \<times> string) reply" where
  "handle_list_events env sid q caller d =
     (case lookup_server d sid of
        Inl refused \<Rightarrow> Failure refused
      | Inr s \<Rightarrow>
     (case event_filters caller (fq_types q) of
        Inl refused \<Rightarrow> Failure refused
      | Inr filters \<Rightarrow>
     (case parse_time_param env (fq_since q) ''since'' of
        Inl refused \<Rightarrow> Failure refused
      | Inr since \<Rightarrow>
     (case parse_time_param env (fq_until q) ''until'' of
        Inl refused \<Rightarrow> Failure refused
      | Inr until \<Rightarrow>
     (case parse_limit (fq_limit q) default_event_page_size max_event_page_size of
        Inl refused \<Rightarrow> Failure refused
      | Inr limit \<Rightarrow>
     (case parse_event_cursor (le_layout env) (fq_cursor q) of
        Inl refused \<Rightarrow> Failure refused
      | Inr after \<Rightarrow>
          Success 200 (cut_page (encode_event_cursor (le_layout env)) event_view_of limit
            (query_events d \<lparr>eq_server = sr_id s, eq_types = filters, eq_since = since, eq_until = until,
               eq_limit = limit + 1, eq_after = after\<rparr>))))))))"

subsection \<open>The audit log\<close>

definition default_audit_page_size :: int where "default_audit_page_size = 100"
definition max_audit_page_size :: int where "max_audit_page_size = 500"

text \<open>The view of a record is the record, with an empty detail read as an empty object.\<close>

definition new_audit_view :: "audit_record \<Rightarrow> audit_record" where
  "new_audit_view a = (if length (ad_detail a) = 0 then a\<lparr>ad_detail := ''{}''\<rparr> else a)"

definition encode_audit_cursor :: "stamp_layout \<Rightarrow> audit_record \<Rightarrow> string" where
  "encode_audit_cursor l a = base64url (ly_print l (ad_at a) @ ''|'' @ ad_id a)"

definition parse_audit_cursor :: "stamp_layout \<Rightarrow> string \<Rightarrow> refusal + (time \<times> string)" where
  "parse_audit_cursor l value =
     (if value = '''' then Inr (0, '''')
      else case base64url_decode value of
        None \<Rightarrow> Inl cursor_refused
      | Some decoded \<Rightarrow>
          (case cut_at (CHR ''|'') decoded of
             None \<Rightarrow> Inl cursor_refused
           | Some (at_text, record_id) \<Rightarrow>
               if record_id = '''' then Inl cursor_refused
               else case ly_read l at_text of None \<Rightarrow> Inl cursor_refused | Some t \<Rightarrow> Inr (t, record_id)))"

record audit_parameters =
  ar_token :: string
  ar_server :: string
  ar_since :: string
  ar_until :: string
  ar_limit :: string
  ar_cursor :: string

definition handle_list_audit ::
  "listing_env \<Rightarrow> audit_parameters \<Rightarrow> db \<Rightarrow> (audit_record list \<times> string) reply" where
  "handle_list_audit env q d =
     (case parse_time_param env (ar_since q) ''since'' of
        Inl refused \<Rightarrow> Failure refused
      | Inr since \<Rightarrow>
     (case parse_time_param env (ar_until q) ''until'' of
        Inl refused \<Rightarrow> Failure refused
      | Inr until \<Rightarrow>
     (case parse_limit (ar_limit q) default_audit_page_size max_audit_page_size of
        Inl refused \<Rightarrow> Failure refused
      | Inr limit \<Rightarrow>
     (case parse_audit_cursor (le_layout env) (ar_cursor q) of
        Inl refused \<Rightarrow> Failure refused
      | Inr after \<Rightarrow>
          Success 200 (cut_page (encode_audit_cursor (le_layout env)) new_audit_view limit
            (query_audit d \<lparr>aq_token = ar_token q, aq_server = ar_server q, aq_since = since, aq_until = until,
               aq_limit = limit + 1, aq_after = after\<rparr>))))))"

subsection \<open>State snapshots\<close>

definition default_state_history_page :: int where "default_state_history_page = 20"
definition max_state_history_page :: int where "max_state_history_page = 100"

definition state_type_for :: "string \<Rightarrow> string \<times> bool" where
  "state_type_for path_value =
     (if path_value \<in> {''players'', ''vehicles'', ''entities'', ''world''} then (path_value, True) else ('''', False))"

record snapshot_view =
  wv_type :: string
  wv_captured :: time
  wv_received :: time
  wv_body :: string

definition new_snapshot_view :: "snapshot \<Rightarrow> snapshot_view" where
  "new_snapshot_view s =
     \<lparr>wv_type = sp_type s, wv_captured = sp_captured s, wv_received = sp_received s, wv_body = sp_body s\<rparr>"

definition handle_get_state :: "string \<Rightarrow> string \<Rightarrow> db \<Rightarrow> snapshot_view reply" where
  "handle_get_state sid state_type d =
     (let (ty, ok) = state_type_for state_type in
      if \<not> ok then Failure (bad_request ''state type must be players, vehicles, entities, or world'')
      else case lookup_server d sid of
        Inl refused \<Rightarrow> Failure refused
      | Inr s \<Rightarrow>
          (case latest_snapshot d (sr_id s) ty of
             Inl err \<Rightarrow> Failure (if err = ErrNotFound then not_found (''this server has no accepted '' @ ty @ '' snapshot'') else internal_error)
           | Inr x \<Rightarrow> Success 200 (new_snapshot_view x)))"

definition handle_get_state_history :: "string \<Rightarrow> string \<Rightarrow> string \<Rightarrow> db \<Rightarrow> snapshot_view list reply" where
  "handle_get_state_history sid state_type limit_param d =
     (let (ty, ok) = state_type_for state_type in
      if \<not> ok then Failure (bad_request ''state type must be players, vehicles, entities, or world'')
      else case parse_limit limit_param default_state_history_page max_state_history_page of
        Inl refused \<Rightarrow> Failure refused
      | Inr limit \<Rightarrow>
          (case lookup_server d sid of
             Inl refused \<Rightarrow> Failure refused
           | Inr s \<Rightarrow> Success 200 (map new_snapshot_view (snapshot_history d (sr_id s) ty limit))))"


subsection \<open>What a reading of the feed returns\<close>

lemma parse_event_cursor_created: "parse_event_cursor = parse_created_cursor"
  by (intro ext) (simp only: parse_event_cursor_def parse_created_cursor_def)

lemma encode_event_cursor_created:
  "encode_event_cursor l = (\<lambda>r. encode_created_cursor l (parse_time (fst (event_key r))) (snd (event_key r)))"
  by (rule ext) (simp add: encode_event_cursor_def encode_created_cursor_def event_key_def)

definition filter_admits :: "event_type_filter \<Rightarrow> string \<Rightarrow> bool" where
  "filter_admits f ty = (if tf_prefix f = '''' then ty = tf_exact f else prefix (tf_prefix f) ty)"

definition filter_wf :: "event_type_filter \<Rightarrow> bool" where
  "filter_wf f = (tf_prefix f \<noteq> '''' \<longrightarrow> last (tf_prefix f) = CHR ''.'')"

lemma event_selected_iff:
  assumes "\<forall>f \<in> set (eq_types q). filter_wf f"
  shows "event_selected q e \<longleftrightarrow>
    ev_server e = eq_server q
    \<and> (eq_types q = [] \<or> (\<exists>f \<in> set (eq_types q). filter_admits f (ev_type e)))
    \<and> (\<forall>t. eq_since q = Some t \<longrightarrow> t \<le> parse_time (ev_occurred e))
    \<and> (\<forall>t. eq_until q = Some t \<longrightarrow> parse_time (ev_occurred e) < t)"
  using event_selection_exact [of q e] assms unfolding filter_wf_def filter_admits_def by blast

lemma filter_of_pattern:
  assumes "p \<noteq> ''''" and "p \<noteq> ''*''"
  shows "suffix ''.*'' p \<Longrightarrow> filter_admits \<lparr>tf_exact = '''', tf_prefix = trim_last 2 p @ ''.''\<rparr> ty \<longleftrightarrow> go_match p ty"
    and "\<not> suffix ''.*'' p \<Longrightarrow> filter_admits \<lparr>tf_exact = p, tf_prefix = ''''\<rparr> ty \<longleftrightarrow> go_match p ty"
proof -
  assume "suffix ''.*'' p"
  then obtain ns where p: "p = ns @ ''.*''" by (rule suffix_dotstar_cases)
  then show "filter_admits \<lparr>tf_exact = '''', tf_prefix = trim_last 2 p @ ''.''\<rparr> ty \<longleftrightarrow> go_match p ty"
    using go.match_ns [of ns ty] by (simp add: filter_admits_def trim_last_def)
next
  assume "\<not> suffix ''.*'' p"
  then show "filter_admits \<lparr>tf_exact = p, tf_prefix = ''''\<rparr> ty \<longleftrightarrow> go_match p ty"
    using go.match_exact [OF assms] by (auto simp: filter_admits_def)
qed

lemma type_filter_loop_spec:
  assumes "type_filter_loop values e fs = Inr (e', fs')"
  shows "\<exists>gs. fs' = fs @ gs \<and> (\<forall>g \<in> set gs. filter_wf g)
    \<and> (e' \<longleftrightarrow> e \<or> (\<exists>v \<in> set values. trim_space v = ''*''))
    \<and> (gs = [] \<longrightarrow> (\<forall>v \<in> set values. trim_space v = ''*''))
    \<and> (\<forall>ty. (\<exists>g \<in> set gs. filter_admits g ty) \<longleftrightarrow> (\<exists>v \<in> set values. trim_space v \<noteq> ''*'' \<and> go_match (trim_space v) ty))"
  using assms
proof (induction "values" e fs rule: type_filter_loop.induct)
  case (2 v rest e fs)
  let ?p = "trim_space v"
  consider "?p = ''*''" "type_filter_loop rest True fs = Inr (e', fs')"
    | "?p \<noteq> ''*''" "?p \<noteq> ''''" "suffix ''.*'' ?p"
      "type_filter_loop rest e (fs @ [\<lparr>tf_exact = '''', tf_prefix = trim_last 2 ?p @ ''.''\<rparr>]) = Inr (e', fs')"
    | "?p \<noteq> ''*''" "?p \<noteq> ''''" "\<not> suffix ''.*'' ?p" "type_filter_loop rest e (fs @ [\<lparr>tf_exact = ?p, tf_prefix = ''''\<rparr>]) = Inr (e', fs')"
    using "2.prems" by (auto simp: Let_def split: if_splits)
  then show ?case
  proof cases
    case 1
    from "2.IH"(1) [OF refl 1] 1(1) show ?thesis by auto
  next
    case 2
    let ?f = "\<lparr>tf_exact = '''', tf_prefix = trim_last 2 ?p @ ''.''\<rparr> :: event_type_filter"
    from "2.prems" 2 have valid: "valid_event_type (trim_last 2 ?p @ ''.x'')" by (auto simp: Let_def split: if_splits)
    from "2.IH"(2) [OF refl 2(1,2,3) refl _ 2(4)] valid obtain gs where gs: "fs' = (fs @ [?f]) @ gs" "\<forall>g \<in> set gs. filter_wf g"
      "e' \<longleftrightarrow> e \<or> (\<exists>v \<in> set rest. trim_space v = ''*'')"
      "\<And>ty. (\<exists>g \<in> set gs. filter_admits g ty) \<longleftrightarrow> (\<exists>v \<in> set rest. trim_space v \<noteq> ''*'' \<and> go_match (trim_space v) ty)"
      by auto
    show ?thesis
      by (rule exI [of _ "?f # gs"]) (use gs filter_of_pattern(1) [OF 2(2,1,3)] 2(1) in \<open>auto simp: filter_wf_def\<close>)
  next
    case 3
    let ?f = "\<lparr>tf_exact = ?p, tf_prefix = ''''\<rparr> :: event_type_filter"
    from "2.prems" 3 have valid: "valid_event_type ?p" by (auto simp: Let_def split: if_splits)
    from "2.IH"(3) [OF refl 3(1,2,3) valid 3(4)] obtain gs where gs: "fs' = (fs @ [?f]) @ gs" "\<forall>g \<in> set gs. filter_wf g"
      "e' \<longleftrightarrow> e \<or> (\<exists>v \<in> set rest. trim_space v = ''*'')"
      "\<And>ty. (\<exists>g \<in> set gs. filter_admits g ty) \<longleftrightarrow> (\<exists>v \<in> set rest. trim_space v \<noteq> ''*'' \<and> go_match (trim_space v) ty)"
      by auto
    show ?thesis
      by (rule exI [of _ "?f # gs"]) (use gs filter_of_pattern(2) [OF 3(2,1,3)] 3(1) in \<open>auto simp: filter_wf_def\<close>)
  qed
qed simp


lemma patterns_loop_narrowed:
  "list_all (\<lambda>x. x \<noteq> [] \<and> x \<noteq> ''*'') acc \<Longrightarrow> list_all (\<lambda>x. x \<noteq> [] \<and> x \<noteq> ''*'') (patterns_loop r v ss acc)"
  by (induction r v ss acc rule: patterns_loop.induct) simp_all

lemma pattern_filters_spec:
  assumes "\<forall>pt \<in> set ps. pt \<noteq> '''' \<and> pt \<noteq> ''*''"
  shows "(\<exists>f \<in> set (pattern_filters ps). filter_admits f ty) \<longleftrightarrow> (\<exists>pt \<in> set ps. go_match pt ty)"
    and "\<forall>f \<in> set (pattern_filters ps). filter_wf f" and "pattern_filters ps = [] \<longleftrightarrow> ps = []"
proof -
  let ?f = "\<lambda>p. let (base, is_prefix) = cut_suffix p ''.*'' in
      if is_prefix then \<lparr>tf_exact = '''', tf_prefix = base @ ''.''\<rparr> else \<lparr>tf_exact = p, tf_prefix = ''''\<rparr>"
  have "filter_admits (?f p) ty \<longleftrightarrow> go_match p ty" if p: "p \<in> set ps" for p
  proof (cases "suffix ''.*'' p")
    case True
    then have "?f p = \<lparr>tf_exact = [], tf_prefix = trim_last 2 p @ ''.''\<rparr>" by (simp add: cut_suffix_def numeral_2_eq_2)
    then show ?thesis using filter_of_pattern(1) [OF _ _ True] assms p by (simp only:) blast
  next
    case False
    then have "?f p = \<lparr>tf_exact = p, tf_prefix = []\<rparr>" by (simp add: cut_suffix_def)
    then show ?thesis using filter_of_pattern(2) [OF _ _ False] assms p by (simp only:) blast
  qed
  then show "(\<exists>f \<in> set (pattern_filters ps). filter_admits f ty) \<longleftrightarrow> (\<exists>pt \<in> set ps. go_match pt ty)"
    unfolding pattern_filters_def by simp
  show "\<forall>f \<in> set (pattern_filters ps). filter_wf f" "pattern_filters ps = [] \<longleftrightarrow> ps = []"
    by (auto simp: pattern_filters_def filter_wf_def Let_def split: prod.splits)
qed

lemma uncovered_None: "uncovered caller vs = None \<longleftrightarrow> (\<forall>v \<in> set vs. covers caller ''events'' ''read'' (trim_space v))"
  by (induction vs) auto

text \<open>The filters a request resolves to select exactly what was asked for within what the caller is granted.\<close>

lemma event_filters_exact:
  assumes gate: "allows_any caller ''events'' ''read''" and run: "event_filters caller requested = Inr fs"
  shows "\<forall>f \<in> set fs. filter_wf f"
    and "(fs = [] \<or> (\<exists>f \<in> set fs. filter_admits f ty))
      \<longleftrightarrow> allows caller ''events'' ''read'' ty \<and> (requested = [] \<or> (\<exists>v \<in> set requested. go_match (trim_space v) ty))"
proof -
  have "(\<forall>f \<in> set fs. filter_wf f) \<and> ((fs = [] \<or> (\<exists>f \<in> set fs. filter_admits f ty))
      \<longleftrightarrow> allows caller ''events'' ''read'' ty \<and> (requested = [] \<or> (\<exists>v \<in> set requested. go_match (trim_space v) ty)))"
  proof (cases "requested = []")
    case True
    let ?ps = "patterns_for caller ''events'' ''read''"
    have fs: "fs = pattern_filters ?ps"
      using run True by (simp add: event_filters_def parse_event_type_filters_def)
    have narrowed: "\<forall>pt \<in> set ?ps. pt \<noteq> '''' \<and> pt \<noteq> ''*''"
      using patterns_loop_narrowed [of "[]" "''events''" "''read''" "pr_scopes caller"]
      by (simp add: patterns_for_def list_all_iff)
    have "verbs_granting ''events'' ''read'' = {''read''}" by (simp add: verbs_granting_def)
    from patterns_for_exact [OF gate this, of ty] pattern_filters_spec(1) [OF narrowed, of ty] pattern_filters_spec(2,3) [OF narrowed]
    show ?thesis using True by (simp add: fs)
  next
    case False
    from run obtain e gs where loop: "type_filter_loop requested False [] = Inr (e, gs)" and fs: "fs = (if e then [] else gs)"
      and cov: "\<forall>v \<in> set requested. covers caller ''events'' ''read'' (trim_space v)"
      using False by (auto simp: event_filters_def parse_event_type_filters_def uncovered_None split: sum.splits if_splits option.splits prod.splits)
    from type_filter_loop_spec [OF loop] have spec: "\<forall>g \<in> set gs. filter_wf g"
      "e \<longleftrightarrow> (\<exists>v \<in> set requested. trim_space v = ''*'')" "gs = [] \<longrightarrow> (\<forall>v \<in> set requested. trim_space v = ''*'')"
      "(\<exists>g \<in> set gs. filter_admits g ty) \<longleftrightarrow> (\<exists>v \<in> set requested. trim_space v \<noteq> ''*'' \<and> go_match (trim_space v) ty)" by simp_all
    have granted: "allows caller ''events'' ''read'' ty" if "v \<in> set requested" "go_match (trim_space v) ty" for v
      using covers_allows that cov by blast
    show ?thesis
    proof (cases e)
      case True
      then obtain v where "v \<in> set requested" "go_match (trim_space v) ty" using spec(2) go.match_any by blast
      with granted True show ?thesis by (auto simp: fs)
    next
      case e: False
      then have "gs \<noteq> []" using spec(2,3) False by (metis list.set_intros(1) list.exhaust)
      with e spec granted False show ?thesis by (auto simp: fs)
    qed
  qed
  then show "\<forall>f \<in> set fs. filter_wf f"
    and "(fs = [] \<or> (\<exists>f \<in> set fs. filter_admits f ty))
      \<longleftrightarrow> allows caller ''events'' ''read'' ty \<and> (requested = [] \<or> (\<exists>v \<in> set requested. go_match (trim_space v) ty))" by blast+
qed

definition in_window :: "time option \<Rightarrow> time option \<Rightarrow> time \<Rightarrow> bool" where
  "in_window since until t = ((case since of None \<Rightarrow> True | Some s \<Rightarrow> s \<le> t) \<and> (case until of None \<Rightarrow> True | Some u \<Rightarrow> t < u))"


definition feed_granted :: "listing_env \<Rightarrow> feed_request \<Rightarrow> principal \<Rightarrow> string \<Rightarrow> event_row \<Rightarrow> bool" where
  "feed_granted env q caller sid e =
     (ev_server e = sid \<and> allows caller ''events'' ''read'' (ev_type e)
      \<and> (fq_types q = [] \<or> (\<exists>v \<in> set (fq_types q). go_match (trim_space v) (ev_type e)))
      \<and> (\<forall>t. fq_since q \<noteq> '''' \<longrightarrow> le_time env (fq_since q) = Some t \<longrightarrow> t \<le> parse_time (ev_occurred e))
      \<and> (\<forall>t. fq_until q \<noteq> '''' \<longrightarrow> le_time env (fq_until q) = Some t \<longrightarrow> parse_time (ev_occurred e) < t))"



definition sample_reader :: principal where
  "sample_reader = \<lparr>pr_token_id = ''t'', pr_name = ''n'',
     pr_scopes = [\<lparr>sc_resource = ''events'', sc_verb = ''read'', sc_pattern = ''core.*''\<rparr>], pr_servers = []\<rparr>"

definition sample_feed_request :: feed_request where
  "sample_feed_request = \<lparr>fq_types = [], fq_since = '''', fq_until = '''', fq_limit = ''1'', fq_cursor = ''''\<rparr>"

definition sample_listing_env :: listing_env where
  "sample_listing_env = \<lparr>le_layout = decimal_layout, le_time = \<lambda>s. None\<rparr>"

definition sample_telemetry :: db where
  "sample_telemetry = empty_db\<lparr>servers := [sample_server],
     events := [event_row_of ''s1'' 0 sample_event, event_row_of ''s1'' 0 (sample_event\<lparr>nv_id := ''v2'', nv_type := ''mod.sold''\<rparr>)]\<rparr>"



text \<open>The same of the audit log, which only an administrator reads: every record the parameters select.\<close>

lemma parse_audit_cursor_created: "parse_audit_cursor = parse_created_cursor"
  by (intro ext) (simp only: parse_audit_cursor_def parse_created_cursor_def)

lemma audit_read_exact:
  assumes layout: "layout_ok (le_layout env)"
    and ids: "distinct (map au_id (audit_records d))" "\<forall>r \<in> set (audit_records d). au_id r \<noteq> ''''"
    and since: "parse_time_param env (ar_since q) ''since'' = Inr since" and until: "parse_time_param env (ar_until q) ''until'' = Inr until"
    and first: "handle_list_audit env (q\<lparr>ar_cursor := ''''\<rparr>) d = Success status page"
  shows "pull (Suc (length (audit_records d))) (\<lambda>t. page_of_reply (handle_list_audit env (q\<lparr>ar_cursor := t\<rparr>) d)) ''''
    = Some (map (\<lambda>r. new_audit_view (scan_audit_record r)) (rev (sort_key audit_key (filter (\<lambda>r.
        (ar_token q \<noteq> '''' \<longrightarrow> au_token_id r = ar_token q) \<and> (ar_server q \<noteq> '''' \<longrightarrow> au_server r = ar_server q)
        \<and> in_window since until (parse_time (au_at r))) (audit_records d)))))"
proof -
  from first since until obtain limit where params: "parse_limit (ar_limit q) default_audit_page_size max_audit_page_size = Inr limit"
    by (auto simp: handle_list_audit_def split: sum.splits)
  have limit: "1 \<le> limit" using parse_limit_bounds [OF params] by (simp add: default_audit_page_size_def max_audit_page_size_def)
  define n where "n = nat limit"
  have n: "0 < n" "limit = int n" "limit + 1 = int (Suc n)" using limit by (simp_all add: n_def)
  let ?q = "\<lparr>aq_token = ar_token q, aq_server = ar_server q, aq_since = since, aq_until = until, aq_limit = 0, aq_after = (0, '''')\<rparr> :: audit_query"
  let ?s = "(d, ?q)" and ?l = "le_layout env"
  let ?ask = "\<lambda>t. page_of_reply (handle_list_audit env (q\<lparr>ar_cursor := t\<rparr>) d)"
  have page: "query_audit d \<lparr>aq_token = ar_token q, aq_server = ar_server q, aq_since = since, aq_until = until, aq_limit = limit + 1, aq_after = c\<rparr>
      = map scan_audit_record (newest_page audit_key (int (Suc n)) c (audit_rows ?s))" for c
    using audit_page_newest [of ?s "Suc n" "Some c"] by (simp add: audit_page_def n(3))
  have cut: "cut_page (encode_audit_cursor ?l) new_audit_view (int n) (map scan_audit_record xs)
      = cut_page (\<lambda>r. encode_created_cursor ?l (parse_time (fst (audit_key r))) (snd (audit_key r))) (\<lambda>r. new_audit_view (scan_audit_record r)) (int n) xs" for xs
    using n(1) by (subst cut_page_map) (simp_all add: encode_audit_cursor_def encode_created_cursor_def scan_audit_record_def audit_key_def)
  have ask: "?ask t = (case parse_created_cursor ?l t of Inl refused \<Rightarrow> None
      | Inr c \<Rightarrow> Some (cut_page (\<lambda>r. encode_created_cursor ?l (parse_time (fst (audit_key r))) (snd (audit_key r)))
          (\<lambda>r. new_audit_view (scan_audit_record r)) (int n) (newest_page audit_key (int (Suc n)) c (audit_rows ?s))))" for t
    using params since until page cut n(2) by (simp add: handle_list_audit_def parse_audit_cursor_created split: sum.splits)
  have ok: "audit_ok ?s" using ids by (simp add: audit_ok_def)
  have len: "length (rev (sort_key audit_key (audit_rows ?s))) \<le> length (audit_records d)" by (simp add: audit_rows_def)
  have "pull (Suc (length (audit_records d))) ?ask ''''
      = Some (map (\<lambda>r. new_audit_view (scan_audit_record r)) (rev (sort_key audit_key (audit_rows ?s))))"
    by (rule audit_pages.feed.pull_all [OF layout ok n(1) _ _ len])
      (auto simp: ask parse_created_cursor_def split: sum.splits)
  moreover have "audit_selected ?q r \<longleftrightarrow> (ar_token q \<noteq> '''' \<longrightarrow> au_token_id r = ar_token q) \<and> (ar_server q \<noteq> '''' \<longrightarrow> au_server r = ar_server q)
        \<and> in_window since until (parse_time (au_at r))" for r
    by (cases since; cases until) (auto simp: audit_selected_def in_window_def ceil_millisecond_le not_le [symmetric])
  then have "audit_selected ?q = (\<lambda>r. (ar_token q \<noteq> '''' \<longrightarrow> au_token_id r = ar_token q)
      \<and> (ar_server q \<noteq> '''' \<longrightarrow> au_server r = ar_server q) \<and> in_window since until (parse_time (au_at r)))" by (rule ext)
  ultimately show ?thesis unfolding audit_rows_def fst_conv snd_conv by (simp only:)
qed

end
