(* ===== verification/BanApi.thy ===== *)
theory BanApi
  imports Listing Bans Poll
begin

text \<open>
  The ban list over HTTP (hub/bans.go): placing, lifting, reading and listing bans with an admin token, the walk
  by which a plugin pulls the active list, and the sweep.  JSON, drawn identifiers, manifests' bodies and clocks
  are arguments.  Waking held polls after a change and logging it are not modelled.
\<close>

subsection \<open>UTF-8 and identities\<close>

text \<open>\<open>utf8.ValidString\<close>: no stray bytes, overlong forms, surrogates or values past U+10FFFF.\<close>

definition tail_byte :: "nat \<Rightarrow> bool" where "tail_byte b = (0x80 \<le> b \<and> b \<le> 0xBF)"

definition second_of_three :: "nat \<Rightarrow> nat \<Rightarrow> bool" where
  "second_of_three a b =
     (if a = 0xE0 then 0xA0 \<le> b \<and> b \<le> 0xBF else if a = 0xED then 0x80 \<le> b \<and> b \<le> 0x9F
      else 0xE1 \<le> a \<and> a \<le> 0xEF \<and> tail_byte b)"

definition second_of_four :: "nat \<Rightarrow> nat \<Rightarrow> bool" where
  "second_of_four a b =
     (if a = 0xF0 then 0x90 \<le> b \<and> b \<le> 0xBF else if a = 0xF4 then 0x80 \<le> b \<and> b \<le> 0x8F
      else 0xF1 \<le> a \<and> a \<le> 0xF3 \<and> tail_byte b)"

fun utf8_bytes :: "nat list \<Rightarrow> bool" where
  "utf8_bytes [] = True"
| "utf8_bytes (a # r) =
     (if a < 0x80 then utf8_bytes r
      else case r of [] \<Rightarrow> False
      | b # r2 \<Rightarrow>
          if 0xC2 \<le> a \<and> a \<le> 0xDF then tail_byte b \<and> utf8_bytes r2
          else case r2 of [] \<Rightarrow> False
          | c # r3 \<Rightarrow>
              if second_of_three a b then tail_byte c \<and> utf8_bytes r3
              else case r3 of [] \<Rightarrow> False | e # r4 \<Rightarrow> second_of_four a b \<and> tail_byte c \<and> tail_byte e \<and> utf8_bytes r4)"

definition valid_utf8 :: "string \<Rightarrow> bool" where
  "valid_utf8 s = utf8_bytes (map of_char s)"

definition contains_nul :: "string \<Rightarrow> bool" where
  "contains_nul s = (CHR 0x00 \<in> set s)"

definition ban_identity_member :: "string \<Rightarrow> nat \<Rightarrow> bool" where
  "ban_identity_member v limit = (v \<noteq> '''' \<and> valid_utf8 v \<and> rune_count v \<le> limit \<and> \<not> contains_nul v)"

subsection \<open>Limits, requests and views\<close>

definition max_ban_reason_length :: nat where "max_ban_reason_length = 200"
definition max_ban_name_length :: nat where "max_ban_name_length = 200"
definition max_ban_duration_seconds :: int where "max_ban_duration_seconds = 315360000"
definition default_ban_page :: int where "default_ban_page = 100"
definition max_ban_page :: int where "max_ban_page = 500"

record create_ban_request =
  cq_player :: "(string \<times> string) option"
  cq_reason :: "string option"
  cq_duration :: "int option"
  cq_name :: "string option"
  cq_server :: "string option"

record ban_env =
  be_create :: "string \<Rightarrow> bool \<times> create_ban_request decoded"
  be_id :: string
  be_caps :: "string \<Rightarrow> string list"
  be_notice :: "string \<Rightarrow> string \<times> time"
  be_clock :: "nat \<Rightarrow> time"
  be_meanwhile :: "db \<Rightarrow> db"
  be_hash :: "string \<Rightarrow> string"
  be_layout :: stamp_layout
  be_walk_text :: "int \<times> string \<times> string \<Rightarrow> string"
  be_walk_read :: "string \<Rightarrow> (int \<times> string \<times> string) option"

definition ban_state :: "ban \<Rightarrow> time \<Rightarrow> string" where
  "ban_state b now =
     (if ba_lifted b \<noteq> None then ''lifted''
      else if (case ba_expires b of None \<Rightarrow> False | Some t \<Rightarrow> \<not> t > now) then ''expired''
      else if \<not> on_list b then ''expired''
      else ''active'')"

record ban_view =
  xb_id :: string
  xb_player :: "string \<times> string"
  xb_reason :: string
  xb_name :: string
  xb_server :: "string option"
  xb_created :: time
  xb_author :: "string \<times> string"
  xb_expires :: "time option"
  xb_state :: string
  xb_lifted :: "time option"
  xb_lifter :: "(string \<times> string) option"

definition new_ban_view :: "ban \<Rightarrow> time \<Rightarrow> ban_view" where
  "new_ban_view b now =
     \<lparr>xb_id = ba_id b, xb_player = (ba_platform b, ba_player b), xb_reason = ba_reason b, xb_name = ba_name b,
      xb_server = (if ba_server b \<noteq> '''' then Some (ba_server b) else None),
      xb_created = ba_created b, xb_author = (ba_token_id b, ba_token_name b), xb_expires = ba_expires b,
      xb_state = ban_state b now, xb_lifted = ba_lifted b,
      xb_lifter = (if ba_lifted b \<noteq> None then Some (ba_lifted_token_id b, ba_lifted_token_name b) else None)\<rparr>"

subsection \<open>Placing and lifting\<close>

text \<open>The checks before the store is asked, in the code's order; what they leave is used as it is.\<close>

definition create_ban_fault :: "create_ban_request \<Rightarrow> string option" where
  "create_ban_fault q =
     (case cq_player q of
        None \<Rightarrow> Some ''player is required: an identity object with platform and id''
      | Some (platform, player) \<Rightarrow>
          if \<not> ban_identity_member platform max_platform_length
          then Some (''player.platform must be a non-empty string of at most '' @ show_int (int max_platform_length) @ '' characters, without U+0000'')
          else if \<not> ban_identity_member player max_player_id_length
          then Some (''player.id must be a non-empty string of at most '' @ show_int (int max_player_id_length) @ '' characters, without U+0000'')
          else case cq_reason q of
            None \<Rightarrow> Some ''reason is required and must not be empty or whitespace alone''
          | Some reason \<Rightarrow>
              if trim_space reason = '''' then Some ''reason is required and must not be empty or whitespace alone''
              else if contains_nul reason \<or> rune_count reason > max_ban_reason_length
              then Some (''reason must be at most '' @ show_int (int max_ban_reason_length) @ '' characters, without U+0000'')
              else if (case cq_name q of None \<Rightarrow> False | Some name \<Rightarrow> contains_nul name \<or> rune_count name > max_ban_name_length)
              then Some (''name must be at most '' @ show_int (int max_ban_name_length) @ '' characters, without U+0000'')
              else if (case cq_duration q of None \<Rightarrow> False | Some n \<Rightarrow> n < 1 \<or> n > max_ban_duration_seconds)
              then Some (''durationSeconds must be an integer from 1 to '' @ show_int max_ban_duration_seconds
                @ ''; omit it for a ban that does not end on its own'')
              else None)"

definition new_ban_of :: "ban_env \<Rightarrow> principal \<Rightarrow> create_ban_request \<Rightarrow> string \<Rightarrow> new_ban" where
  "new_ban_of env caller q server =
     \<lparr>wb_id = be_id env,
      wb_platform = (case cq_player q of None \<Rightarrow> '''' | Some (platform, player) \<Rightarrow> platform),
      wb_player = (case cq_player q of None \<Rightarrow> '''' | Some (platform, player) \<Rightarrow> player),
      wb_reason = (case cq_reason q of None \<Rightarrow> '''' | Some reason \<Rightarrow> reason),
      wb_name = (case cq_name q of None \<Rightarrow> '''' | Some name \<Rightarrow> name),
      wb_server = server, wb_token_id = pr_token_id caller, wb_token_name = pr_name caller,
      wb_duration = (case cq_duration q of None \<Rightarrow> 0 | Some n \<Rightarrow> n * action_second)\<rparr>"

definition ban_player_detail :: "ban \<Rightarrow> audit_entry \<Rightarrow> audit_entry" where
  "ban_player_detail b = audit_detail ''player''
     (JObject [(''platform'', JString (ba_platform b)), (''id'', JString (ba_player b))])"

text \<open>A change that places or lifts a ban always names it; the branch without one is never taken.\<close>

definition handle_create_ban :: "ban_env \<Rightarrow> (ban_view \<times> int) handler" where
  "handle_create_ban env caller body e d =
     (case decode_body (fst (be_create env body)) None (snd (be_create env body)) of
        Inl refused \<Rightarrow> (Failure refused, e, d)
      | Inr q \<Rightarrow>
     (case create_ban_fault q of
        Some message \<Rightarrow> (Failure (bad_request message), e, d)
      | None \<Rightarrow>
          let server = (case cq_server q of None \<Rightarrow> '''' | Some sid \<Rightarrow> sid) in
          case (if server = '''' then Inr e
                else case find_server d server of
                  Inl err \<Rightarrow> Inl (if err = ErrNotFound
                    then not_found (''serverId names '' @ truncate_utf8 server 64 @ '', which is not a server this hub knows'') else internal_error)
                | Inr s \<Rightarrow> Inr (e\<lparr>ae_server := server\<rparr>)) of
            Inl refused \<Rightarrow> (Failure refused, e, d)
          | Inr e1 \<Rightarrow>
              let d1 = be_meanwhile env d in
              case create_ban (be_caps env) (be_notice env) d1 (new_ban_of env caller q server) outbound_queue_limit (be_clock env 0) of
                Inl (ErrBanActive bid) \<Rightarrow>
                  (Failure (Refusal 409 ''conflict''
                     (''this identity already carries active ban '' @ bid @ ''; lift it before banning again'')), e1, d1)
              | Inl err \<Rightarrow> (Failure internal_error, e1, d1)
              | Inr (change, d2) \<Rightarrow>
                  (case bc_ban change of
                     None \<Rightarrow> (Failure internal_error, e1, d2)
                   | Some b \<Rightarrow>
                       (Success 201 (new_ban_view b (be_clock env 1), bc_revision change),
                        audit_detail ''revision'' (JLiteral (show_int (bc_revision change)))
                          (ban_player_detail b (audit_detail ''banId'' (JString (ba_id b)) e1)), d2))))"

definition handle_lift_ban :: "ban_env \<Rightarrow> string \<Rightarrow> (ban_view \<times> int) handler" where
  "handle_lift_ban env bid caller body e d =
     (let e1 = audit_detail ''banId'' (JString bid) e in
      case lift_ban (be_caps env) (be_notice env) d bid (pr_token_id caller) (pr_name caller) outbound_queue_limit (be_clock env 0) of
        Inl err \<Rightarrow> (Failure (if err = ErrNotFound then not_found ''no such ban'' else internal_error), e1, d)
      | Inr (change, d1) \<Rightarrow>
          (case bc_ban change of
             None \<Rightarrow> (Failure internal_error, e1, d1)
           | Some b \<Rightarrow>
               let e2 = (if ba_server b \<noteq> '''' then e1\<lparr>ae_server := ba_server b\<rparr> else e1) in
               (Success 200 (new_ban_view b (be_clock env 1), bc_revision change),
                audit_detail ''revision'' (JLiteral (show_int (bc_revision change)))
                  (audit_detail ''lifted'' (JLiteral (if bc_changed change then ''true'' else ''false'')) (ban_player_detail b e2)), d1)))"

text \<open>A pass that finds nothing answers no ban; its error is logged and the next tick tries again.\<close>

definition sweep_bans :: "ban_env \<Rightarrow> db \<Rightarrow> db \<Rightarrow> db" where
  "sweep_bans env seen d =
     (case sweep_expired_bans (be_caps env) (be_notice env) seen d outbound_queue_limit (be_clock env 0) of
        Inl err \<Rightarrow> d
      | Inr (change, swept, d') \<Rightarrow> d')"


subsection \<open>Reading\<close>

definition handle_get_ban :: "ban_env \<Rightarrow> string \<Rightarrow> db \<Rightarrow> ban_view reply" where
  "handle_get_ban env bid d =
     (case ban_by_id d bid of
        Inl err \<Rightarrow> Failure (if err = ErrNotFound then not_found ''no such ban'' else internal_error)
      | Inr b \<Rightarrow> Success 200 (new_ban_view b (be_clock env 0)))"

text \<open>\<open>None\<close> is a parameter that is absent.\<close>

record ban_list_request =
  lr_state :: string
  lr_platform :: "string option"
  lr_player :: "string option"
  lr_limit :: string
  lr_cursor :: string

definition parameter :: "string option \<Rightarrow> string" where
  "parameter v = (case v of None \<Rightarrow> '''' | Some s \<Rightarrow> s)"

definition handle_list_bans :: "ban_env \<Rightarrow> ban_list_request \<Rightarrow> db \<Rightarrow> (int \<times> ban_view list \<times> string) reply" where
  "handle_list_bans env q d =
     (let platform = parameter (lr_platform q); player = parameter (lr_player q);
          has_platform = (lr_platform q \<noteq> None); has_player = (lr_player q \<noteq> None)
      in if lr_state q \<noteq> '''' \<and> lr_state q \<noteq> ''active'' \<and> lr_state q \<noteq> ''all''
         then Failure (bad_request ''state must be active or all'')
         else if has_platform \<noteq> has_player
         then Failure (bad_request ''platform and playerId go together: give both, or neither'')
         else if has_platform \<and> (\<not> ban_identity_member platform max_platform_length \<or> \<not> ban_identity_member player max_player_id_length)
         then Failure (bad_request ''platform and playerId must be non-empty identity members within their bounds, without U+0000'')
         else case parse_limit (lr_limit q) default_ban_page max_ban_page of
           Inl refused \<Rightarrow> Failure refused
         | Inr limit \<Rightarrow>
        (case parse_created_cursor (be_layout env) (lr_cursor q) of
           Inl refused \<Rightarrow> Failure refused
         | Inr after \<Rightarrow>
             let now = be_clock env 0;
                 (revision, found) = bans_with_revision d
                   \<lparr>bq_all = (lr_state q = ''all''), bq_now = now, bq_platform = platform, bq_player = player,
                    bq_limit = limit + 1, bq_after_at = fst after, bq_after_id = snd after\<rparr>
             in Success 200 (revision, cut_page (\<lambda>b. encode_created_cursor (be_layout env) (ba_created b) (ba_id b))
                  (\<lambda>b. new_ban_view b now) limit found)))"

subsection \<open>The walk of a plugin\<close>

record plugin_ban =
  pb_id :: string
  pb_player :: "string \<times> string"
  pb_reason :: string
  pb_name :: string
  pb_expires :: "time option"

definition plugin_ban_of :: "ban \<Rightarrow> plugin_ban" where
  "plugin_ban_of b =
     \<lparr>pb_id = ba_id b, pb_player = (ba_platform b, ba_player b), pb_reason = ba_reason b, pb_name = ba_name b,
      pb_expires = ba_expires b\<rparr>"

text \<open>The position and the revision of a walk, as the text of a JSON array, in base64url.\<close>

definition encode_ban_walk_cursor :: "ban_env \<Rightarrow> int \<times> string \<times> string \<Rightarrow> string" where
  "encode_ban_walk_cursor env cursor = base64url (be_walk_text env cursor)"

definition parse_ban_walk_cursor :: "ban_env \<Rightarrow> string \<Rightarrow> (int \<times> string \<times> string) option" where
  "parse_ban_walk_cursor env value =
     (case base64url_decode value of
        None \<Rightarrow> None
      | Some decoded \<Rightarrow>
          (case be_walk_read env decoded of
             None \<Rightarrow> None
           | Some (revision, platform, player) \<Rightarrow>
               if revision < 0 \<or> platform = '''' then None else Some (revision, platform, player)))"

text \<open>
  The session is checked on \<open>d0\<close>; the three statements of \<open>BanListAt\<close> find \<open>d1\<close>, \<open>d2\<close> and \<open>d3\<close>.
\<close>

definition handle_plugin_bans ::
  "ban_env \<Rightarrow> string \<Rightarrow> string \<Rightarrow> string \<Rightarrow> db \<times> db \<times> db \<times> db \<Rightarrow> (int \<times> plugin_ban list \<times> string) reply" where
  "handle_plugin_bans env presented limit_param value found_tables =
     (case found_tables of (d0, d1, d2, d3) \<Rightarrow>
        case session_gate (be_hash env) d0 presented (be_clock env 0) of
          Inl refused \<Rightarrow> Failure refused
        | Inr session \<Rightarrow>
       (case parse_limit limit_param default_ban_page max_ban_page of
          Inl refused \<Rightarrow> Failure refused
        | Inr limit \<Rightarrow>
       (case (if value = '''' then Some (-1, '''', '''') else parse_ban_walk_cursor env value) of
          None \<Rightarrow> Failure cursor_refused
        | Some (revision, position) \<Rightarrow>
            (case ban_list_at d1 d2 d3 revision position (limit + 1) of
               Inl err \<Rightarrow> Failure (if err = ErrBanRevisionGone
                 then Refusal 409 ''conflict'' ''this hub cannot serve the revision the cursor names; start the walk over from the first page''
                 else internal_error)
             | Inr (served, found) \<Rightarrow>
                 Success 200 (served, cut_page (\<lambda>b. encode_ban_walk_cursor env (served, ba_platform b, ba_player b))
                   plugin_ban_of limit found)))))"


subsection \<open>A walk is a snapshot\<close>

definition identities_valid :: "db \<Rightarrow> bool" where
  "identities_valid d = list_all (\<lambda>r. valid_utf8 (bn_platform r) \<and> valid_utf8 (bn_player r)) (bans d)"

text \<open>What JSON keeps of a cursor: an int64 and two strings that are valid UTF-8.\<close>

definition walk_text_ok :: "ban_env \<Rightarrow> bool" where
  "walk_text_ok env =
     (\<forall>R p q. 0 \<le> R \<longrightarrow> R < 2 ^ 63 \<longrightarrow> valid_utf8 p \<longrightarrow> valid_utf8 q \<longrightarrow>
        be_walk_read env (be_walk_text env (R, p, q)) = Some (R, p, q) \<and> be_walk_text env (R, p, q) \<noteq> '''')"

definition walk_state_ok :: "db \<times> int \<Rightarrow> bool" where
  "walk_state_ok s = (list_state_ok s \<and> identities_valid (fst s) \<and> 0 \<le> snd s \<and> snd s < 2 ^ 63)"

definition walk_position :: "ban_env \<Rightarrow> db \<times> int \<Rightarrow> string \<Rightarrow> (string \<times> string) option" where
  "walk_position env s t =
     (case parse_ban_walk_cursor env t of None \<Rightarrow> None | Some (R, p) \<Rightarrow> if R = snd s then Some p else None)"

interpretation ban_walk: listing walk_state_ok listed_entries entry_page entry_key walk_text_ok
  "\<lambda>env s b. encode_ban_walk_cursor env (snd s, entry_key b)" walk_position
proof
  fix s :: "db \<times> int" and n i :: nat and env b
  assume s: "walk_state_ok s"
  then have ok: "list_state_ok s" by (simp add: walk_state_ok_def)
  show "0 < n \<Longrightarrow> entry_page s n None = take n (listed_entries s)" by (rule ban_pages.first_page [OF ok])
  show "0 < n \<Longrightarrow> i < length (listed_entries s) \<Longrightarrow>
      entry_page s n (Some (entry_key (listed_entries s ! i))) = take n (drop (Suc i) (listed_entries s))"
    by (rule ban_pages.next_page [OF ok])
  assume env: "walk_text_ok env" and b: "b \<in> set (listed_entries s)"
  then have b': "b \<in> set (list_at (bans (fst s)) (snd s))" by (simp add: listed_entries_def)
  then obtain r where r: "r \<in> set (bans (fst s))" "entry_key b = ban_key r" by (auto simp: list_at_def)
  obtain p q where k: "entry_key b = (p, q)" by fastforce
  have "valid_utf8 p" "valid_utf8 q"
    using s r k by (auto simp: walk_state_ok_def identities_valid_def list_all_iff ban_key_def)
  then have written: "be_walk_read env (be_walk_text env (snd s, p, q)) = Some (snd s, p, q)" "be_walk_text env (snd s, p, q) \<noteq> ''''"
    using env s unfolding walk_text_ok_def walk_state_ok_def by blast+
  have "p \<noteq> ''''" using entry_platform [OF ok b'] k by simp
  then show "encode_ban_walk_cursor env (snd s, entry_key b) \<noteq> ''''
      \<and> walk_position env s (encode_ban_walk_cursor env (snd s, entry_key b)) = Some (entry_key b)"
    using written s by (simp add: k walk_position_def encode_ban_walk_cursor_def parse_ban_walk_cursor_def walk_state_ok_def)
qed

lemma plugin_ban_of_entry [simp]: "plugin_ban_of (ban_entry b) = plugin_ban_of b"
  by (simp add: plugin_ban_of_def ban_entry_def)

lemma on_list_rows:
  assumes "ban_inv d"
  shows "filter (on_at (ban_revision d)) (bans d) = filter (\<lambda>r. bn_delisted r = None) (bans d)"
proof (rule filter_cong [OF refl])
  fix r assume "r \<in> set (bans d)"
  with assms show "on_at (ban_revision d) r = (bn_delisted r = None)"
    by (fastforce simp: ban_inv_def history_ok_def span_ok_def on_at_def split: option.splits)
qed

lemma ban_list_page:
  assumes inv: "ban_inv d" and later: "ban_reach d d1" "ban_reach d d2" "ban_reach d d3"
    and R: "R = ban_revision d \<or> R = -1 \<and> d1 = d"
  shows "\<exists>found. ban_list_at d1 d2 d3 R p (int (Suc n)) = Inr (ban_revision d, found)
    \<and> map ban_entry found = entry_page (d, ban_revision d) (Suc n) (Some p)"
proof -
  have a: "ban_advance d d1" "ban_advance d d2" "ban_advance d d3"
    using ban_reach_advance inv later by blast+
  then have cur: "\<not> ban_revision d1 < ban_revision d" and list: "list_at (bans d3) (ban_revision d) = list_at (bans d) (ban_revision d)"
    by (auto simp: ban_advance_def)
  have reg: "ban_revision d = 0 \<or> ban_revision d \<in> fst ` set (ban_revisions d2)"
    using a(2) inv by (auto simp: ban_advance_def ban_inv_def register_ok_def)
  have pos: "0 \<le> ban_revision d" using inv by (simp add: ban_inv_def register_ok_def)
  let ?found = "map scan_ban (sql_limit (int (Suc n)) (sort_key ban_key (filter (after_position p) (filter (on_at (ban_revision d)) (bans d3)))))"
  have "ban_list_at d1 d2 d3 R p (int (Suc n)) = Inr (ban_revision d, ?found)"
    using R cur reg pos by (auto simp: ban_list_at_def Let_def)
  moreover have "map ban_entry ?found = entry_page (d, ban_revision d) (Suc n) (Some p)"
    unfolding page_entries list by (simp add: entry_page_def sql_limit_def del: of_nat_Suc)
  ultimately show ?thesis by blast
qed

text \<open>
  C9. The pull of the list by a plugin.  Following the cursors from a first page that found the list at some revision,
  with any page size, a plugin receives exactly the bans that were active then, each once and in identity order, although
  bans are placed, lifted and swept between its requests and between the statements of each page.
\<close>

theorem plugin_walk_snapshot:
  assumes inv: "ban_inv d" "ban_revision d < 2 ^ 63" "identities_valid d" and env: "walk_text_ok env"
    and limit: "parse_limit limit_param default_ban_page max_ban_page = Inr limit"
    and first: "fst (snd (tables '''')) = d"
    and later: "\<And>t. \<exists>d0 d1 d2 d3. tables t = (d0, d1, d2, d3) \<and> ban_reach d d1 \<and> ban_reach d d2 \<and> ban_reach d d3
        \<and> (\<exists>session. session_gate (be_hash env) d0 presented (be_clock env 0) = Inr session)"
  shows "pull (Suc (length (bans d)))
      (\<lambda>t. map_option snd (page_of_reply (handle_plugin_bans env presented limit_param t (tables t)))) ''''
    = Some (map plugin_ban_of (sort_key entry_key (map scan_ban (filter (\<lambda>r. bn_delisted r = None) (bans d)))))"
proof -
  have "1 \<le> limit" using parse_limit_bounds [OF limit] by (simp add: default_ban_page_def max_ban_page_def)
  define n where "n = nat limit"
  have n: "0 < n" "limit = int n" "limit + 1 = int (Suc n)" using \<open>1 \<le> limit\<close> by (simp_all add: n_def)
  let ?R = "ban_revision d"
  let ?s = "(d, ?R)" and ?enc = "\<lambda>b. encode_ban_walk_cursor env (?R, entry_key b)"
  let ?ask = "\<lambda>t. map_option snd (page_of_reply (handle_plugin_bans env presented limit_param t (tables t)))"
  have ok: "walk_state_ok ?s"
    using inv by (simp add: walk_state_ok_def list_state_ok_def ban_inv_def register_ok_def)
  have served: "?ask t = Some (cut_page ?enc plugin_ban_of (int n) (entry_page ?s (Suc n) (Some p)))"
    if start: "(if t = '''' then Some (-1, '''', '''') else parse_ban_walk_cursor env t) = Some (R, p)"
      and R: "R = ?R \<or> R = -1 \<and> t = ''''" for t R p
  proof -
    obtain d0 d1 d2 d3 session where t: "tables t = (d0, d1, d2, d3)" "ban_reach d d1" "ban_reach d d2" "ban_reach d d3"
      "session_gate (be_hash env) d0 presented (be_clock env 0) = Inr session" using later [of t] by blast
    have R': "R = ?R \<or> R = -1 \<and> d1 = d" using R first t(1) by auto
    from ban_list_page [OF inv(1) t(2-4) R', of p n] obtain found where
      found: "ban_list_at d1 d2 d3 R p (limit + 1) = Inr (?R, found)" "map ban_entry found = entry_page ?s (Suc n) (Some p)"
      unfolding n(3) by blast
    have "?ask t = Some (cut_page (\<lambda>b. encode_ban_walk_cursor env (?R, ba_platform b, ba_player b)) plugin_ban_of limit found)"
      using t(5) limit start found(1) by (simp add: handle_plugin_bans_def t(1))
    also have "\<dots> = Some (cut_page ?enc plugin_ban_of (int n) (map ban_entry found))"
      using n by (subst cut_page_map) (simp_all add: entry_key_def, simp add: ban_entry_def)
    finally show ?thesis unfolding found(2) .
  qed
  have "entry_page ?s (Suc n) (Some ('''', '''')) = entry_page ?s (Suc n) None" by (simp add: entry_page_def)
  with served [of "''''" "-1" "('''', '''')"] have ask0: "?ask '''' = Some (cut_page ?enc plugin_ban_of (int n) (entry_page ?s (Suc n) None))"
    by simp
  have askn: "?ask t = Some (cut_page ?enc plugin_ban_of (int n) (entry_page ?s (Suc n) (Some p)))"
    if "t \<noteq> ''''" "walk_position env ?s t = Some p" for t p
    using served [of t ?R p] that by (auto simp: walk_position_def split: option.splits if_splits prod.splits)
  have len: "length (listed_entries ?s) \<le> length (bans d)"
    using le_trans [OF length_filter_le] by (simp add: listed_entries_def list_at_def)
  have pulled: "pull (Suc (length (bans d))) ?ask '''' = Some (map plugin_ban_of (listed_entries ?s))"
    by (rule ban_walk.pull_all [OF env ok n(1) _ _ len]; unfold snd_conv; rule ask0 askn)
  have "map plugin_ban_of (listed_entries ?s)
      = map plugin_ban_of (sort_key entry_key (map ban_entry (map scan_ban (filter (\<lambda>r. bn_delisted r = None) (bans d)))))"
    by (simp add: listed_entries_def list_at_def on_list_rows [OF inv(1)] o_def)
  also have "\<dots> = map plugin_ban_of (map ban_entry (sort_key entry_key (map scan_ban (filter (\<lambda>r. bn_delisted r = None) (bans d)))))"
  proof -
    have "(\<lambda>b. entry_key (ban_entry b)) = entry_key" by (simp add: fun_eq_iff entry_key_def ban_entry_def)
    then show ?thesis using sort_key_map_gen [of ban_entry entry_key] by (metis (no_types))
  qed
  also have "\<dots> = map plugin_ban_of (sort_key entry_key (map scan_ban (filter (\<lambda>r. bn_delisted r = None) (bans d))))"
    by simp
  finally show ?thesis unfolding pulled by simp
qed


text \<open>A netstring-like text of a position stands in for JSON here.\<close>

definition sample_walk_text :: "int \<times> string \<times> string \<Rightarrow> string" where
  "sample_walk_text c = (case c of (R, p, q) \<Rightarrow> show_int R @ '':'' @ show_int (int (length p)) @ '':'' @ p @ q)"

definition sample_walk_read :: "string \<Rightarrow> (int \<times> string \<times> string) option" where
  "sample_walk_read s =
     (case cut_at (CHR '':'') s of None \<Rightarrow> None | Some (a, r) \<Rightarrow>
     (case read_signed a of None \<Rightarrow> None | Some R \<Rightarrow>
     (case cut_at (CHR '':'') r of None \<Rightarrow> None | Some (b, w) \<Rightarrow>
     (case read_signed b of None \<Rightarrow> None | Some n \<Rightarrow> Some (R, take (nat n) w, drop (nat n) w)))))"

definition sample_ban_env :: ban_env where
  "sample_ban_env =
     \<lparr>be_create = \<lambda>b. (True, Decoded \<lparr>cq_player = Some (''steam'', b), cq_reason = Some ''r'', cq_duration = Some 60, cq_name = None, cq_server = None\<rparr>),
      be_id = ''b9'', be_caps = \<lambda>b. [], be_notice = \<lambda>s. ('''', 0), be_clock = \<lambda>k. 0, be_meanwhile = id, be_hash = id,
      be_layout = decimal_layout, be_walk_text = sample_walk_text, be_walk_read = sample_walk_read\<rparr>"

lemma sample_walk_text_ok: "walk_text_ok sample_ban_env"
proof -
  have colon: "CHR '':'' \<notin> set (show_int i)" for i
    using digits_rev_digit [of "CHR '':''"] by (auto simp: show_int_def)
  then have "sample_walk_read (sample_walk_text (R, p, q)) = Some (R, p, q)" for R p q
    by (simp add: sample_walk_read_def sample_walk_text_def cut_at_append read_signed_show_int)
  then show ?thesis by (simp add: walk_text_ok_def sample_ban_env_def) (simp add: sample_walk_text_def)
qed

text \<open>A lift of the second ban between the first page and the rest.\<close>

theorem plugin_walk_snapshot_witness:
  "\<exists>c e bs. lift_ban (\<lambda>_. []) (\<lambda>_. ('''', 0)) sample_list ''b2'' ''t'' ''n'' 10 0 = Inr (c, e)
     \<and> pull 4 (\<lambda>t. map_option snd (page_of_reply (handle_plugin_bans sample_ban_env ''t'' ''1'' t
         (sample_accounts, if t = '''' then (sample_list, sample_list, sample_list) else (e, e, e))))) '''' = Some bs
     \<and> pb_id ` set bs = {''b1'', ''b2''}"
proof -
  obtain c e where e: "lift_ban (\<lambda>_. []) (\<lambda>_. ('''', 0)) sample_list ''b2'' ''t'' ''n'' 10 0 = Inr (c, e)"
    by (rule sample_lift)
  let ?tables = "\<lambda>t. (sample_accounts, if t = '''' then (sample_list, sample_list, sample_list) else (e, e, e))"
  have later: "ban_reach sample_list e"
    by (rule ban_reach.further [OF ban_reach.here _ ban_step.lift [OF e]]) simp
  have gate: "\<exists>session. session_gate (be_hash sample_ban_env) sample_accounts ''t'' (be_clock sample_ban_env 0) = Inr session"
    by (simp add: session_gate_def session_by_token_def sample_ban_env_def sample_session_def session_is_live_def scan_session_def
        find_server_def sample_server_def scan_server_def scan_time_def parse_time_def nanos_per_milli_def)
  have tables: "\<exists>d0 d1 d2 d3. ?tables t = (d0, d1, d2, d3) \<and> ban_reach sample_list d1 \<and> ban_reach sample_list d2 \<and> ban_reach sample_list d3
      \<and> (\<exists>session. session_gate (be_hash sample_ban_env) d0 ''t'' (be_clock sample_ban_env 0) = Inr session)" for t
    using later ban_reach.here [of sample_list] gate by simp
  have valid: "identities_valid sample_list"
    by (simp add: identities_valid_def sample_list_def valid_utf8_def)
  have rev: "ban_revision sample_list < 2 ^ 63" by (simp add: sample_list_def)
  have one: "parse_limit ''1'' default_ban_page max_ban_page = Inr 1" by code_simp
  have first: "fst (snd (?tables '''')) = sample_list" by simp
  have four: "Suc (length (bans sample_list)) = 4" by (simp add: sample_list_def)
  from plugin_walk_snapshot [where tables = ?tables, OF sample_list_inv(1) rev valid sample_walk_text_ok one first tables]
  have "pull 4 (\<lambda>t. map_option snd (page_of_reply (handle_plugin_bans sample_ban_env ''t'' ''1'' t (?tables t)))) ''''
      = Some (map plugin_ban_of (sort_key entry_key (map scan_ban (filter (\<lambda>r. bn_delisted r = None) (bans sample_list)))))"
    unfolding four .
  moreover have "pb_id ` set (map plugin_ban_of (sort_key entry_key (map scan_ban (filter (\<lambda>r. bn_delisted r = None) (bans sample_list))))) = {''b1'', ''b2''}"
    by (auto simp: sample_list_def plugin_ban_of_def scan_ban_def sample_ban_def)
  ultimately show ?thesis using e by blast
qed


subsection \<open>What the table can hold\<close>

definition ban_row_wf :: "ban_row \<Rightarrow> bool" where
  "ban_row_wf r =
     (ban_identity_member (bn_platform r) 64 \<and> ban_identity_member (bn_player r) 128
      \<and> trim_space (bn_reason r) \<noteq> '''' \<and> rune_count (bn_reason r) \<le> 200 \<and> \<not> contains_nul (bn_reason r)
      \<and> rune_count (bn_name r) \<le> 200 \<and> \<not> contains_nul (bn_name r)
      \<and> (case bn_expires r of None \<Rightarrow> True | Some t \<Rightarrow> bn_created r < t \<and> t \<le> bn_created r + 315360000000))"

lemma ban_row_wf_leave [simp]:
  "ban_row_wf (delist revision r) = ban_row_wf r" "ban_row_wf (lift_row now ti tn revision r) = ban_row_wf r"
  by (cases "bn_expires r"; simp add: ban_row_wf_def delist_def lift_row_def)+

lemma update_where_all: "list_all P rows \<Longrightarrow> (\<And>r. P r \<Longrightarrow> P (f r)) \<Longrightarrow> list_all P (update_where c f rows)"
  by (auto simp: list_all_iff update_where_def)

lemma expiry_within:
  assumes "1 \<le> n" and "n \<le> max_ban_duration_seconds"
  shows "format_time now < format_time (truncate_milli (now + n * action_second))
    \<and> format_time (truncate_milli (now + n * action_second)) \<le> format_time now + 315360000000"
proof -
  have "format_time (truncate_milli (now + n * action_second)) = (now + n * 1000 * 1000000) div 1000000"
    by (simp add: truncate_milli_def format_time_def parse_time_def nanos_per_milli_def action_second_def)
  also have "\<dots> = format_time now + n * 1000" by (simp add: format_time_def nanos_per_milli_def)
  finally show ?thesis using assms by (simp add: max_ban_duration_seconds_def)
qed

lemma created_row_wf:
  assumes "create_ban_fault q = None"
  shows "ban_row_wf (ban_row_of (new_ban_of env caller q server) now revision)"
proof -
  from assms obtain platform player reason where q: "cq_player q = Some (platform, player)" "cq_reason q = Some reason"
    and ok: "ban_identity_member platform max_platform_length" "ban_identity_member player max_player_id_length"
      "trim_space reason \<noteq> ''''" "\<not> contains_nul reason" "rune_count reason \<le> max_ban_reason_length"
      "\<And>name. cq_name q = Some name \<Longrightarrow> \<not> contains_nul name \<and> rune_count name \<le> max_ban_name_length"
      "\<And>n. cq_duration q = Some n \<Longrightarrow> 1 \<le> n \<and> n \<le> max_ban_duration_seconds"
    by (auto simp: create_ban_fault_def split: option.splits if_splits)
  have expires: "case bn_expires (ban_row_of (new_ban_of env caller q server) now revision) of None \<Rightarrow> True
      | Some t \<Rightarrow> format_time now < t \<and> t \<le> format_time now + 315360000000"
  proof (cases "cq_duration q")
    case None
    then show ?thesis by (simp add: ban_row_of_def new_ban_of_def)
  next
    case (Some n)
    from ok(7) [OF Some] expiry_within [of n now] have "0 < n * action_second" by (simp add: action_second_def)
    with Some ok(7) [OF Some] expiry_within [of n now] show ?thesis by (simp add: ban_row_of_def new_ban_of_def)
  qed
  have name: "rune_count (case cq_name q of None \<Rightarrow> '''' | Some name \<Rightarrow> name) \<le> 200
      \<and> \<not> contains_nul (case cq_name q of None \<Rightarrow> '''' | Some name \<Rightarrow> name)"
    using ok(6) by (cases "cq_name q") (simp_all add: rune_count_def contains_nul_def max_ban_name_length_def)
  let ?r = "ban_row_of (new_ban_of env caller q server) now revision"
  have fields: "bn_platform ?r = platform" "bn_player ?r = player" "bn_reason ?r = reason" "bn_created ?r = format_time now"
    "bn_name ?r = (case cq_name q of None \<Rightarrow> '''' | Some name \<Rightarrow> name)"
    by (simp_all add: ban_row_of_def new_ban_of_def q)
  show ?thesis
    using ok(1-5) expires name
    unfolding ban_row_wf_def fields max_platform_length_def max_player_id_length_def max_ban_reason_length_def by blast
qed


lemma delisted_wf: "list_all ban_row_wf (bans d) \<Longrightarrow> delist_expired d revision now = (n, d1) \<Longrightarrow> list_all ban_row_wf (bans d1)"
  using delist_expiredD [of d revision now n d1] by (auto intro!: update_where_all)

lemma lift_ban_wf:
  assumes wf: "list_all ban_row_wf (bans d)" and run: "lift_ban body_caps draw d bid ti tn limit now = Inr (c, d')"
  shows "list_all ban_row_wf (bans d')"
proof -
  let ?n = "next_ban_revision (ban_revision d) now"
  obtain n d1 where d1: "delist_expired d ?n now = (n, d1)" by fastforce
  have wf1: "list_all ban_row_wf (bans d1)" by (rule delisted_wf [OF wf d1])
  have lifted: "list_all ban_row_wf (update_where (\<lambda>x. bn_id x = bid \<and> bn_delisted x = None) (lift_row now ti tn ?n) (bans d1))"
    by (rule update_where_all [OF wf1]) simp
  from run d1 show ?thesis
    using wf1 lifted
    by (auto simp: lift_ban_def Let_def split: option.splits if_splits sum.splits dest!: commit_revisionD)
qed

lemma sweep_bans_wf:
  assumes wf: "list_all ban_row_wf (bans d)"
  shows "list_all ban_row_wf (bans (sweep_bans env seen d))"
proof (cases "sweep_expired_bans (be_caps env) (be_notice env) seen d outbound_queue_limit (be_clock env 0)")
  case (Inl err)
  then show ?thesis using wf by (simp add: sweep_bans_def)
next
  case (Inr r)
  let ?n = "next_ban_revision (ban_revision d) (be_clock env 0)"
  obtain change swept d' where r: "r = (change, swept, d')" by (metis prod_cases3)
  obtain n d1 where d1: "delist_expired d ?n (be_clock env 0) = (n, d1)" by fastforce
  from delisted_wf [OF wf d1] wf Inr d1 have "list_all ban_row_wf (bans d')"
    unfolding r by (auto simp: sweep_expired_bans_def Let_def split: if_splits sum.splits dest!: commit_revisionD)
  then show ?thesis using Inr by (simp add: sweep_bans_def r)
qed

lemma handle_create_ban_db:
  obtains (same) "snd (snd (handle_create_ban env caller body e d)) = d"
  | (others) "snd (snd (handle_create_ban env caller body e d)) = be_meanwhile env d"
  | (placed) q server change where "create_ban_fault q = None"
      "create_ban (be_caps env) (be_notice env) (be_meanwhile env d) (new_ban_of env caller q server) outbound_queue_limit (be_clock env 0)
        = Inr (change, snd (snd (handle_create_ban env caller body e d)))"
proof (cases "decode_body (fst (be_create env body)) None (snd (be_create env body))")
  case (Inl refused)
  then show ?thesis by (intro same) (simp add: handle_create_ban_def)
next
  case q: (Inr q)
  show ?thesis
  proof (cases "create_ban_fault q")
    case (Some message)
    with q show ?thesis by (intro same) (simp add: handle_create_ban_def)
  next
    case fine: None
    define server where "server = (case cq_server q of None \<Rightarrow> '''' | Some sid \<Rightarrow> sid)"
    define known where "known = (if server = '''' then Inr e
      else case find_server d server of
        Inl err \<Rightarrow> Inl (if err = ErrNotFound
          then not_found (''serverId names '' @ truncate_utf8 server 64 @ '', which is not a server this hub knows'') else internal_error)
      | Inr s \<Rightarrow> Inr (e\<lparr>ae_server := server\<rparr>))"
    note run = handle_create_ban_def q fine server_def [symmetric] known_def [symmetric] Let_def
    show ?thesis
    proof (cases known)
      case (Inl refused)
      then show ?thesis by (intro same) (simp add: run)
    next
      case e1: (Inr e1)
      show ?thesis
      proof (cases "create_ban (be_caps env) (be_notice env) (be_meanwhile env d) (new_ban_of env caller q server) outbound_queue_limit (be_clock env 0)")
        case (Inl err)
        then show ?thesis by (intro others) (cases err; simp add: run e1)
      next
        case (Inr r)
        then show ?thesis by (intro placed [OF fine, of server "fst r"]) (cases r; simp add: run e1 split: option.split)
      qed
    qed
  qed
qed

text \<open>
  C10. What the ban table can hold.  Every ban in it names an identity within the bounds of the protocol, in valid UTF-8,
  carries a reason that is more than white space and fits, and ends, if it ends on its own, after it was placed and within ten
  years: placing a ban, lifting one and the sweep all keep this, whatever the request and whatever its answer.
\<close>

theorem bans_stay_within_limits:
  assumes wf: "list_all ban_row_wf (bans d)"
    and others: "\<And>x. list_all ban_row_wf (bans x) \<Longrightarrow> list_all ban_row_wf (bans (be_meanwhile env x))"
  shows "list_all ban_row_wf (bans (snd (snd (handle_create_ban env caller body e d))))
    \<and> list_all ban_row_wf (bans (snd (snd (handle_lift_ban env bid caller body e d))))
    \<and> list_all ban_row_wf (bans (sweep_bans env seen d))"
proof (intro conjI)
  have placed: "list_all ban_row_wf (bans d2)"
    if ok: "create_ban_fault q = None" and run: "create_ban (be_caps env) (be_notice env) (be_meanwhile env d)
        (new_ban_of env caller q server) outbound_queue_limit (be_clock env 0) = Inr (change, d2)" for q server change d2
    using run
  proof (rule create_ban_cases)
    fix n d1 b
    assume d1: "delist_expired (be_meanwhile env d) (next_ban_revision (ban_revision (be_meanwhile env d)) (be_clock env 0)) (be_clock env 0) = (n, d1)"
      and c: "commit_revision (be_caps env) (be_notice env)
        (d1\<lparr>bans := bans d1 @ [ban_row_of (new_ban_of env caller q server) (be_clock env 0) (next_ban_revision (ban_revision (be_meanwhile env d)) (be_clock env 0))]\<rparr>)
        (next_ban_revision (ban_revision (be_meanwhile env d)) (be_clock env 0)) outbound_queue_limit (be_clock env 0) b = Inr (change, d2)"
    from delisted_wf [OF others [OF wf] d1] created_row_wf [OF ok] commit_revisionD [OF c] show ?thesis by simp
  qed
  show "list_all ban_row_wf (bans (snd (snd (handle_create_ban env caller body e d))))"
    by (rule handle_create_ban_db [of env caller body e d]) (use wf others [OF wf] placed in simp_all)
  show "list_all ban_row_wf (bans (snd (snd (handle_lift_ban env bid caller body e d))))"
    using wf lift_ban_wf [OF wf]
    by (auto simp: handle_lift_ban_def Let_def split: sum.splits option.splits prod.splits)
  show "list_all ban_row_wf (bans (sweep_bans env seen d))" by (rule sweep_bans_wf [OF wf])
qed


theorem bans_stay_within_limits_witness:
  "\<exists>v e' d'. handle_create_ban sample_ban_env bootstrap_principal ''p9'' empty_entry sample_list = (Success 201 v, e', d')
     \<and> list_all ban_row_wf (bans d')"
proof -
  have others: "list_all ban_row_wf (bans x) \<Longrightarrow> list_all ban_row_wf (bans (be_meanwhile sample_ban_env x))" for x
    by (simp add: sample_ban_env_def)
  have r: "trim_space ''r'' = ''r''" by (simp add: trim_space_visible visible_def)
  have member: "ban_identity_member ''steam'' 64" "ban_identity_member ''p1'' 128" "ban_identity_member ''p2'' 128" "ban_identity_member ''p9'' 128"
    by code_simp+
  have wf: "list_all ban_row_wf (bans sample_list)"
    using member by (simp add: sample_list_def ban_row_wf_def r) (simp add: sample_ban_def r contains_nul_def rune_count_def)
  have fine: "create_ban_fault \<lparr>cq_player = Some (''steam'', ''p9''), cq_reason = Some ''r'', cq_duration = Some 60, cq_name = None, cq_server = None\<rparr> = None"
    using member by (simp add: create_ban_fault_def r contains_nul_def rune_count_def max_ban_reason_length_def max_ban_duration_seconds_def
        max_platform_length_def max_player_id_length_def)
  have "\<exists>c d'. create_ban (be_caps sample_ban_env) (be_notice sample_ban_env) sample_list
      (new_ban_of sample_ban_env bootstrap_principal \<lparr>cq_player = Some (''steam'', ''p9''), cq_reason = Some ''r'', cq_duration = Some 60, cq_name = None, cq_server = None\<rparr> '''')
      outbound_queue_limit 0 = Inr (c, d') \<and> bc_ban c \<noteq> None"
    by (simp add: create_ban_def new_ban_of_def sample_list_def sample_ban_env_def delist_expired_def ban_expired_def affected_def active_ban_def
        exists_row_def next_ban_revision_def wrap64_def format_time_def nanos_per_milli_def
        commit_revision_def set_ban_revision_def queue_ban_notices_def ban_targets_def)
  then obtain c d' b where created: "create_ban (be_caps sample_ban_env) (be_notice sample_ban_env) sample_list
      (new_ban_of sample_ban_env bootstrap_principal \<lparr>cq_player = Some (''steam'', ''p9''), cq_reason = Some ''r'', cq_duration = Some 60, cq_name = None, cq_server = None\<rparr> '''')
      outbound_queue_limit 0 = Inr (c, d')" "bc_ban c = Some b" by blast
  have "handle_create_ban sample_ban_env bootstrap_principal ''p9'' empty_entry sample_list
      = (Success 201 (new_ban_view b (be_clock sample_ban_env 1), bc_revision c),
          audit_detail ''revision'' (JLiteral (show_int (bc_revision c)))
            (ban_player_detail b (audit_detail ''banId'' (JString (ba_id b)) empty_entry)), d')"
    using created fine by (simp add: handle_create_ban_def sample_ban_env_def decode_body_def Let_def)
  moreover from this have "list_all ban_row_wf (bans d')"
    using bans_stay_within_limits [OF wf others, of bootstrap_principal "''p9''" empty_entry] by simp
  ultimately show ?thesis by blast
qed


subsection \<open>The list an administrator reads\<close>

definition ban_rows_named :: "db \<times> ban_query \<Rightarrow> bool" where
  "ban_rows_named s = (distinct (map bn_id (bans (fst s))) \<and> (\<forall>r \<in> set (bans (fst s)). bn_id r \<noteq> ''''))"

definition selected_bans :: "db \<times> ban_query \<Rightarrow> ban_row list" where
  "selected_bans s = filter (ban_selected (snd s)) (bans (fst s))"

definition ban_created_key :: "ban_row \<Rightarrow> stamp \<times> string" where
  "ban_created_key r = (bn_created r, bn_id r)"

interpretation ban_feed: newest_first_feed ban_rows_named selected_bans ban_created_key
proof
  fix s r
  assume ok: "ban_rows_named s"
  then have "distinct (map bn_id (selected_bans s))" by (simp add: ban_rows_named_def selected_bans_def distinct_map_filter)
  then show "distinct (map ban_created_key (selected_bans s))"
    by (auto simp: distinct_map inj_on_def ban_created_key_def)
  show "r \<in> set (selected_bans s) \<Longrightarrow> snd (ban_created_key r) \<noteq> ''''"
    using ok by (simp add: ban_rows_named_def selected_bans_def ban_created_key_def)
qed

lemma read_bans_newest:
  "read_bans d \<lparr>bq_all = a, bq_now = now, bq_platform = p, bq_player = u, bq_limit = int n, bq_after_at = fst c, bq_after_id = snd c\<rparr>
    = map scan_ban (newest_page ban_created_key (int n) c (selected_bans
        (d, \<lparr>bq_all = a, bq_now = now, bq_platform = p, bq_player = u, bq_limit = 0, bq_after_at = 0, bq_after_id = ''''\<rparr>)))"
proof -
  let ?q = "\<lparr>bq_all = a, bq_now = now, bq_platform = p, bq_player = u, bq_limit = int n, bq_after_at = fst c, bq_after_id = snd c\<rparr> :: ban_query"
  let ?none = "\<lparr>bq_all = a, bq_now = now, bq_platform = p, bq_player = u, bq_limit = 0, bq_after_at = 0, bq_after_id = ''''\<rparr> :: ban_query"
  have key: "(\<lambda>r. (bn_created r, bn_id r)) = ban_created_key" by (simp add: fun_eq_iff ban_created_key_def)
  have sel: "ban_selected ?q = ban_selected ?none" by (rule ext) (simp add: ban_selected_def split: option.split)
  have cur: "ban_after_cursor ?q = (\<lambda>r. after_cursor c (ban_created_key r))"
    by (rule ext) (auto simp: ban_after_cursor_def after_cursor_def ban_created_key_def)
  have lim: "bq_limit ?q = int n" by simp
  show ?thesis unfolding read_bans_def newest_page_def selected_bans_def fst_conv snd_conv key sel cur lim ..
qed

definition ban_asked_for :: "ban_list_request \<Rightarrow> time \<Rightarrow> ban_row \<Rightarrow> bool" where
  "ban_asked_for q now r =
     ((lr_state q = ''all'' \<or> bn_delisted r = None \<and> (case scan_time (bn_expires r) of None \<Rightarrow> True | Some t \<Rightarrow> now < t))
      \<and> (lr_platform q \<noteq> None \<longrightarrow> Some (bn_platform r) = lr_platform q \<and> Some (bn_player r) = lr_player q))"

text \<open>
  Reading the list with an admin token, page by page: every ban the parameters ask for, newest first, each once; an
  active ban is one on the list whose expiry has not passed, also before the sweep has taken an expired one off.
\<close>

lemma ban_list_exact:
  assumes layout: "layout_ok (be_layout env)"
    and ids: "distinct (map bn_id (bans d))" "\<forall>r \<in> set (bans d). bn_id r \<noteq> ''''"
    and first: "handle_list_bans env (q\<lparr>lr_cursor := ''''\<rparr>) d = Success status page"
  shows "pull (Suc (length (bans d))) (\<lambda>t. map_option snd (page_of_reply (handle_list_bans env (q\<lparr>lr_cursor := t\<rparr>) d))) ''''
    = Some (map (\<lambda>r. new_ban_view (scan_ban r) (be_clock env 0))
        (rev (sort_key ban_created_key (filter (ban_asked_for q (be_clock env 0)) (bans d)))))"
proof -
  let ?p = "parameter (lr_platform q)" and ?u = "parameter (lr_player q)" and ?now = "be_clock env 0" and ?l = "be_layout env"
  from first obtain limit where limit: "parse_limit (lr_limit q) default_ban_page max_ban_page = Inr limit"
    and c1: "(lr_state q \<noteq> '''' \<and> lr_state q \<noteq> ''active'' \<and> lr_state q \<noteq> ''all'') = False"
    and c2: "((lr_platform q \<noteq> None) \<noteq> (lr_player q \<noteq> None)) = False"
    and c3: "(lr_platform q \<noteq> None \<and> (\<not> ban_identity_member ?p max_platform_length \<or> \<not> ban_identity_member ?u max_player_id_length)) = False"
    unfolding handle_list_bans_def Let_def by (auto split: sum.splits if_splits)
  have "1 \<le> limit" using parse_limit_bounds [OF limit] by (simp add: default_ban_page_def max_ban_page_def)
  define n where "n = nat limit"
  have n: "0 < n" "limit = int n" "limit + 1 = int (Suc n)" using \<open>1 \<le> limit\<close> by (simp_all add: n_def)
  let ?s = "(d, \<lparr>bq_all = (lr_state q = ''all''), bq_now = ?now, bq_platform = ?p, bq_player = ?u, bq_limit = 0, bq_after_at = 0, bq_after_id = ''''\<rparr>)"
  let ?enc = "\<lambda>r. encode_created_cursor ?l (parse_time (fst (ban_created_key r))) (snd (ban_created_key r))"
  let ?view = "\<lambda>r. new_ban_view (scan_ban r) ?now"
  let ?ask = "\<lambda>t. map_option snd (page_of_reply (handle_list_bans env (q\<lparr>lr_cursor := t\<rparr>) d))"
  have cut: "cut_page (\<lambda>b. encode_created_cursor ?l (ba_created b) (ba_id b)) (\<lambda>b. new_ban_view b ?now) (int n) (map scan_ban xs)
      = cut_page ?enc ?view (int n) xs" for xs
    using n(1) by (subst cut_page_map) (simp_all add: scan_ban_def ban_created_key_def)
  have fields: "lr_state (q\<lparr>lr_cursor := t\<rparr>) = lr_state q" "lr_platform (q\<lparr>lr_cursor := t\<rparr>) = lr_platform q"
    "lr_player (q\<lparr>lr_cursor := t\<rparr>) = lr_player q" "lr_limit (q\<lparr>lr_cursor := t\<rparr>) = lr_limit q" "lr_cursor (q\<lparr>lr_cursor := t\<rparr>) = t" for t
    by simp_all
  have run: "handle_list_bans env (q\<lparr>lr_cursor := t\<rparr>) d = (case parse_created_cursor ?l t of Inl refused \<Rightarrow> Failure refused
      | Inr c \<Rightarrow> Success 200 (ban_revision d, cut_page (\<lambda>b. encode_created_cursor ?l (ba_created b) (ba_id b)) (\<lambda>b. new_ban_view b ?now) limit
        (read_bans d \<lparr>bq_all = (lr_state q = ''all''), bq_now = ?now, bq_platform = ?p, bq_player = ?u, bq_limit = limit + 1,
           bq_after_at = fst c, bq_after_id = snd c\<rparr>)))" for t
    by (simp only: handle_list_bans_def Let_def fields c1 c2 c3 if_False limit sum.case prod.case bans_with_revision_def)
  have ask: "?ask t = (case parse_created_cursor ?l t of Inl refused \<Rightarrow> None
      | Inr c \<Rightarrow> Some (cut_page ?enc ?view (int n) (newest_page ban_created_key (int (Suc n)) c (selected_bans ?s))))" for t
    unfolding run n(3) read_bans_newest unfolding n(2) cut by (simp split: sum.split)
  have ok: "ban_rows_named ?s" using ids by (simp add: ban_rows_named_def)
  have len: "length (rev (sort_key ban_created_key (selected_bans ?s))) \<le> length (bans d)" by (simp add: selected_bans_def)
  have "pull (Suc (length (bans d))) ?ask '''' = Some (map ?view (rev (sort_key ban_created_key (selected_bans ?s))))"
    by (rule ban_feed.feed.pull_all [OF layout ok n(1) _ _ len])
      (auto simp: ask parse_created_cursor_def split: sum.splits)
  moreover have "ban_selected (snd ?s) r \<longleftrightarrow> ban_asked_for q ?now r" for r
  proof -
    have "?p \<noteq> '''' \<longleftrightarrow> lr_platform q \<noteq> None"
      using c3 by (cases "lr_platform q") (auto simp: parameter_def ban_identity_member_def)
    then show ?thesis
      using c2 by (cases "bn_expires r"; cases "lr_platform q"; cases "lr_player q")
        (auto simp: ban_selected_def ban_asked_for_def less_parse_iff parameter_def scan_time_def)
  qed
  then have "ban_selected (snd ?s) = ban_asked_for q ?now" by (rule ext)
  ultimately show ?thesis unfolding selected_bans_def fst_conv by (simp only:)
qed

end
