(* ===== verification/Spec2Isabelle.thy ===== *)
theory Spec2Isabelle
  imports Envelope Events Bans Snapshots TokenApi WebhookApi Inbound Schema Discord Contexts ServerApi FeedApi BanApi
begin

text \<open>
  The vyshka hub (src/hub): a server that game servers link to through a plugin, and that operators drive
  through an Admin API.  A plugin enrolls, opens a session and long-polls; a poll carries envelopes both ways,
  each direction numbered and acked cumulatively.  Upward envelopes carry manifests, action acks and results,
  telemetry, state snapshots and ban-list reports; downward ones carry dispatched actions, ban-list changes and
  notices.  Admin requests pass a gate (authentication, scope, server binding, audit) and mint tokens, dispatch
  actions, place bans, keep key/value data, register webhooks and read what was stored.  A dispatcher tells
  webhooks what happened, with retries, and a link monitor watches the plugins' traffic.

  How the code is modelled.

  The database is one record, \<open>db\<close> of theory \<open>Db\<close>: a field per table, each table the list of its rows in
  insertion order.  A store operation is a function of that record, with its errors as the sum type
  \<open>store_error + _\<close>; one SQL statement is a combinator of theory \<open>Prelude\<close> over the list of rows.  A transaction
  is one application of such a function: the store holds the row lock or advisory lock for all of it, and a
  failed transaction returns no database.  A handler that uses several transactions takes what other requests do
  between them as an argument (\<open>meanwhile\<close>, or the pair of databases read and written), and its theorems hold for
  every such function.  Where SQL leaves an order open (a LIMIT without ORDER BY, a Go map's iteration, a
  goroutine pool) the order is an argument too.
  Clock readings, drawn identifiers and secrets, digests and the reading and writing of JSON text are arguments:
  records of functions named \<open>..._env\<close>.  Times are integers of nanoseconds, and \<open>format_time\<close> is what a stored
  text keeps of one: its millisecond.  Go strings are byte strings.  int64 arithmetic is written out with
  \<open>wrap64\<close> where it can overflow; where a theorem needs room in an int64, it says so as a hypothesis (\<open>seqs_fit\<close> and
  the like).
  Loops are structural recursion over the rows or over a list of rounds.  The long poll's hold, which the code
  leaves when its timer says so, recurses over the list of its rounds: \<open>PollHeld\<close> is a poll still open at the
  end of the list, and \<open>poll_never_hangs\<close> says which lists cannot end so.  The dispatch retry is the code's own three attempts.

  The theories, and the sources they model.

  \<open>Prelude\<close>: stored time, int64, rows, ordering, the locales of invariant-keeping and monotone machines.
  \<open>Db\<close>: the tables (hub/store/migrations) and errors.
  \<open>Pattern\<close>, \<open>Scope\<close>: hub/internal/pattern, hub/internal/webhook/match.go, hub/scope.go; the matcher's contract is
  the locale \<open>namespace_matcher\<close>.
  \<open>Sessions\<close>: hub/store/servers.go; enrollment, credentials, one live session per server (locale \<open>monotone_machine\<close>).
  \<open>Outbound\<close>: the downward half of hub/store/envelopes.go; numbering, retransmission, ack; the abstract
  channel a session sees is what \<open>next_outbound\<close> refines.
  \<open>Lifecycle\<close>, \<open>Dispatch\<close>, \<open>DispatchApi\<close>: hub/store/actions.go, hub/store/manifests.go, hub/action.go; an action's states only
  move forward, a dispatch is atomic and idempotent, and its parameters conform to the declared schema.
  \<open>Schema\<close>, \<open>Manifest\<close>: hub/internal/schema, hub/manifest.go; the compiled schema against a reference reading of the
  document, and a manifest's acceptance against the reference \<open>manifest_wf\<close>.
  \<open>Envelope\<close>, \<open>Ingest\<close>, \<open>Inbound\<close>, \<open>Poll\<close>: hub/envelope.go, the bodies of hub/action.go, events.go, state.go, bans.go and players.go,
  \<open>ApplyInbound\<close> of hub/store/envelopes.go, and hub/poll.go with hub/waiters.go; exactly-once intake, durability of what is acked, and the hold.
  \<open>Dedup\<close>, \<open>Paging\<close>: the locales of envelope dedup and of cursor paging that the next ones interpret.
  \<open>Events\<close>, \<open>Snapshots\<close>, \<open>Bans\<close>, \<open>Kv\<close>: hub/store/events.go, state.go, bans.go, kv.go.
  \<open>Tokens\<close>, \<open>Gate\<close>, \<open>TokenApi\<close>: hub/store/tokens.go, hub/auth.go with hub/errors.go, hub/tokens.go.
  \<open>Webhooks\<close>, \<open>Outbox\<close>, \<open>Subscriptions\<close>, \<open>WebhookApi\<close>: hub/store/webhooks.go and hub/webhooks.go; \<open>Outbox\<close> holds the locale of the three
  notification outboxes (every record told once, and told in the end).
  \<open>Redact\<close>, \<open>Dispatcher\<close>, \<open>Discord\<close>: hub/internal/webhook; \<open>Discord\<close> is the wording of a notification as an embed, within Discord's limits.
  \<open>Contexts\<close>: hub/contexts.go; the table of questions in flight, its cache, and the route that asks a plugin.
  \<open>Listing\<close>: the cursors and pages of hub/audit.go and hub/players.go, and the locale of a list read by following its cursors.
  \<open>FeedApi\<close>, \<open>BanApi\<close>: the routes of hub/events.go, audit.go, state.go and bans.go; what a whole reading of a feed or a list returns.
  \<open>ServerApi\<close>: hub/admin.go and hub/plugin.go; the server routes and the path from an issued token to an open session.

  What the lemmas show.

  Each theory states the invariant of its tables and that every operation keeps it, what each operation
  returns on each branch, and how errors leave the database untouched; the numbered claims are the properties
  that a caller of the component relies on.  Claims on several components are in the last theory they need: what a
  poll acks is durable (\<open>Inbound\<close>), the ack it answers is committed (\<open>Poll\<close>), what is dispatched conforms (\<open>DispatchApi\<close>),
  what is fanned out is exactly what was subscribed (\<open>Dispatcher\<close>), and an edit of a webhook never discloses
  more than its editor may read (\<open>WebhookApi\<close>).

  Not modelled.

  net/http, TLS, routing and logging; SQL dialects and migrations; timers, channels and goroutines other than
  the interleavings above; JSON text; the command line tool, the conformance programs, the TypeScript client and the
  game plugin, which are other programs.
\<close>

end
